(* ===== verification/Prelude.thy ===== *)
theory Prelude
  imports Main "HOL-Library.Word"
begin

text \<open>
  Shared vocabulary of the development: C integer types, the outcome type of
  kernel code, sequencing of state-passing computations, the wait channels that
  \<^verbatim>\<open>sleep\<close> and \<^verbatim>\<open>wakeup\<close> use, the parameters of \<^verbatim>\<open>param.h\<close>, and the
  generic lemmas every component relies on.

  A kernel function is a function from the state to an \<open>outcome\<close>.  Besides
  returning a value with the new state, C code of the kernel can put the calling
  process to sleep (the state is the one at the call of \<^verbatim>\<open>sched\<close>), spin on a
  lock another CPU holds, call \<^verbatim>\<open>panic\<close>, or run into undefined behaviour (an
  array access out of range, a null dereference), which is \<open>Fault\<close>.
\<close>

unbundle bit_operations_syntax

section \<open>C types\<close>

type_synonym uchar = "8 word"
type_synonym ushort = "16 word"
type_synonym uint = "32 word"

section \<open>Parameters (param.h)\<close>

definition NPROC :: nat where "NPROC = 64"
definition KSTACKSIZE :: nat where "KSTACKSIZE = 4096"
definition NCPU :: nat where "NCPU = 8"
definition NOFILE :: nat where "NOFILE = 16"
definition NFILE :: nat where "NFILE = 100"
definition NINODE :: nat where "NINODE = 50"
definition NDEV :: nat where "NDEV = 10"
definition ROOTDEV :: nat where "ROOTDEV = 1"
definition MAXARG :: nat where "MAXARG = 32"
definition MAXOPBLOCKS :: nat where "MAXOPBLOCKS = 10"
definition LOGSIZE :: nat where "LOGSIZE = MAXOPBLOCKS * 3"
definition NBUF :: nat where "NBUF = MAXOPBLOCKS * 3"
definition QUANTUM :: nat where "QUANTUM = 5"
definition MLFLEVELS :: nat where "MLFLEVELS = 4"
definition TICKSFORAGE :: nat where "TICKSFORAGE = 10"
definition AGEFORAGINGS :: nat where "AGEFORAGINGS = 5"
definition MLFMAXPRIORITY :: nat where "MLFMAXPRIORITY = 0"
definition MAXSEM :: nat where "MAXSEM = 64"
definition MAXPROCSEM :: nat where "MAXPROCSEM = 5"
definition MAXSTACKPAGES :: nat where "MAXSTACKPAGES = 8"
definition MAXMAPPEDFILES :: nat where "MAXMAPPEDFILES = 5"

named_theorems param_defs

declare NPROC_def [param_defs] KSTACKSIZE_def [param_defs] NCPU_def [param_defs]
  NOFILE_def [param_defs] NFILE_def [param_defs] NINODE_def [param_defs]
  NDEV_def [param_defs] ROOTDEV_def [param_defs] MAXARG_def [param_defs]
  MAXOPBLOCKS_def [param_defs] LOGSIZE_def [param_defs] NBUF_def [param_defs]
  QUANTUM_def [param_defs] MLFLEVELS_def [param_defs] TICKSFORAGE_def [param_defs]
  AGEFORAGINGS_def [param_defs] MLFMAXPRIORITY_def [param_defs] MAXSEM_def [param_defs]
  MAXPROCSEM_def [param_defs] MAXSTACKPAGES_def [param_defs] MAXMAPPEDFILES_def [param_defs]

section \<open>Wait channels\<close>

text \<open>
  The C code sleeps on addresses.  Each constructor names the object whose address
  is the channel: a process slot, a semaphore slot, the log, a buffer, an inode
  cache slot, the two counters of a pipe, the console input and the tick counter.
\<close>

datatype chan = ChProc nat | ChSem nat | ChLog | ChBuf nat | ChInode nat
  | ChPipeRead uint | ChPipeWrite uint | ChInput | ChTicks

section \<open>Outcomes and sequencing\<close>

datatype ('a, 's) outcome = Ret 'a 's | Sleep chan 's | Spin | Panic string | Fault

type_synonym ('a, 's) kfun = "'s \<Rightarrow> ('a, 's) outcome"

definition return :: "'a \<Rightarrow> ('a, 's) kfun" where
  "return x = (\<lambda>s. Ret x s)"

definition bind :: "('a, 's) kfun \<Rightarrow> ('a \<Rightarrow> ('b, 's) kfun) \<Rightarrow> ('b, 's) kfun" where
  "bind m f = (\<lambda>s. case m s of Ret x s' \<Rightarrow> f x s' | Sleep c s' \<Rightarrow> Sleep c s'
     | Spin \<Rightarrow> Spin | Panic msg \<Rightarrow> Panic msg | Fault \<Rightarrow> Fault)"

definition seq :: "('a, 's) kfun \<Rightarrow> ('b, 's) kfun \<Rightarrow> ('b, 's) kfun" where
  "seq m k = bind m (\<lambda>_. k)"

definition gets :: "('s \<Rightarrow> 'a) \<Rightarrow> ('a, 's) kfun" where
  "gets f = (\<lambda>s. Ret (f s) s)"

definition modify :: "('s \<Rightarrow> 's) \<Rightarrow> (unit, 's) kfun" where
  "modify f = (\<lambda>s. Ret () (f s))"

definition panic :: "string \<Rightarrow> ('a, 's) kfun" where
  "panic msg = (\<lambda>s. Panic msg)"

definition fault :: "('a, 's) kfun" where
  "fault = (\<lambda>s. Fault)"

text \<open>\<open>branch b m k\<close> runs \<open>m\<close> when the C condition \<open>b\<close> holds of the state and \<open>k\<close> otherwise.\<close>

definition branch :: "('s \<Rightarrow> bool) \<Rightarrow> ('a, 's) kfun \<Rightarrow> ('a, 's) kfun \<Rightarrow> ('a, 's) kfun" where
  "branch b m k = (\<lambda>s. if b s then m s else k s)"

definition panic_if :: "('s \<Rightarrow> bool) \<Rightarrow> string \<Rightarrow> (unit, 's) kfun" where
  "panic_if b msg = branch b (panic msg) (return ())"

text \<open>A \<^verbatim>\<open>for\<close> loop over a list of indices whose body may fail.\<close>

fun for_each :: "'i list \<Rightarrow> ('i \<Rightarrow> (unit, 's) kfun) \<Rightarrow> (unit, 's) kfun" where
  "for_each [] body = return ()"
| "for_each (i # is) body = seq (body i) (for_each is body)"

text \<open>Running a computation on one component of a larger state.\<close>

definition zoom :: "('s \<Rightarrow> 't) \<Rightarrow> ('t \<Rightarrow> 's \<Rightarrow> 's) \<Rightarrow> ('a, 't) kfun \<Rightarrow> ('a, 's) kfun" where
  "zoom get put m = (\<lambda>s. case m (get s) of Ret x t \<Rightarrow> Ret x (put t s)
     | Sleep c t \<Rightarrow> Sleep c (put t s) | Spin \<Rightarrow> Spin | Panic msg \<Rightarrow> Panic msg | Fault \<Rightarrow> Fault)"

named_theorems kfun_simps

lemma return_apply [kfun_simps]: "return x s = Ret x s"
  by (simp add: return_def)

lemma gets_apply [kfun_simps]: "gets f s = Ret (f s) s"
  by (simp add: gets_def)

lemma modify_apply [kfun_simps]: "modify f s = Ret () (f s)"
  by (simp add: modify_def)

lemma panic_apply [kfun_simps]: "panic msg s = Panic msg"
  by (simp add: panic_def)

lemma fault_apply [kfun_simps]: "fault s = Fault"
  by (simp add: fault_def)

lemma branch_apply [kfun_simps]: "branch b m k s = (if b s then m s else k s)"
  by (simp add: branch_def)

lemma panic_if_apply [kfun_simps]: "panic_if b msg s = (if b s then Panic msg else Ret () s)"
  by (simp add: panic_if_def kfun_simps)

lemma bind_apply [kfun_simps]:
  "bind m f s = (case m s of Ret x s' \<Rightarrow> f x s' | Sleep c s' \<Rightarrow> Sleep c s'
     | Spin \<Rightarrow> Spin | Panic msg \<Rightarrow> Panic msg | Fault \<Rightarrow> Fault)"
  by (simp add: bind_def)

lemma seq_apply [kfun_simps]:
  "seq m k s = (case m s of Ret x s' \<Rightarrow> k s' | Sleep c s' \<Rightarrow> Sleep c s'
     | Spin \<Rightarrow> Spin | Panic msg \<Rightarrow> Panic msg | Fault \<Rightarrow> Fault)"
  by (simp add: seq_def bind_def)

lemma zoom_apply [kfun_simps]:
  "zoom get put m s = (case m (get s) of Ret x t \<Rightarrow> Ret x (put t s)
     | Sleep c t \<Rightarrow> Sleep c (put t s) | Spin \<Rightarrow> Spin | Panic msg \<Rightarrow> Panic msg | Fault \<Rightarrow> Fault)"
  by (simp add: zoom_def)

lemma for_each_Nil_apply [kfun_simps]: "for_each [] body s = Ret () s"
  by (simp add: kfun_simps)

lemma for_each_Cons_apply [kfun_simps]:
  "for_each (i # is) body s = (case body i s of Ret x s' \<Rightarrow> for_each is body s'
     | Sleep c s' \<Rightarrow> Sleep c s' | Spin \<Rightarrow> Spin | Panic msg \<Rightarrow> Panic msg | Fault \<Rightarrow> Fault)"
  by (simp add: kfun_simps)

lemma bind_assoc: "bind (bind m f) g = bind m (\<lambda>x. bind (f x) g)"
  by (rule ext) (simp add: bind_def split: outcome.split)

text \<open>
  The loop rule: a body that returns and keeps an invariant for every index makes the
  whole loop return and keep it.
\<close>

lemma for_each_inv:
  assumes "\<And>i s. i \<in> set is \<Longrightarrow> I s \<Longrightarrow> \<exists>s'. body i s = Ret () s' \<and> I s'"
    and "I s"
  shows "\<exists>s'. for_each is body s = Ret () s' \<and> I s'"
  using assms
proof (induction "is" arbitrary: s)
  case Nil
  then show ?case by (simp add: kfun_simps)
next
  case (Cons i "is")
  then obtain s1 where "body i s = Ret () s1" "I s1"
    by (meson list.set_intros(1))
  moreover from Cons this obtain s2 where "for_each is body s1 = Ret () s2" "I s2"
    by (meson list.set_intros(2))
  ultimately show ?case by (simp add: seq_apply)
qed

text \<open>The same rule with the number of iterations done so far in the invariant.\<close>

lemma for_each_upto:
  assumes "\<And>i s. a \<le> i \<Longrightarrow> i < b \<Longrightarrow> I i s \<Longrightarrow> \<exists>s'. body i s = Ret () s' \<and> I (Suc i) s'"
    and "I a s" "a \<le> b"
  shows "\<exists>s'. for_each [a..<b] body s = Ret () s' \<and> I b s'"
  using assms
proof (induction "b - a" arbitrary: a s)
  case 0
  then show ?case by (simp add: kfun_simps)
next
  case (Suc n)
  then have ab: "a < b" "n = b - Suc a" by auto
  obtain s1 where s1: "body a s = Ret () s1" "I (Suc a) s1" using Suc.prems ab(1) by blast
  have "\<exists>s'. for_each [Suc a..<b] body s1 = Ret () s' \<and> I b s'"
    using Suc.prems s1(2) ab by (intro Suc.hyps(1)) auto
  with s1(1) show ?case by (auto simp: upt_conv_Cons [OF ab(1)] kfun_simps simp del: for_each.simps)
qed

section \<open>First index of a table\<close>

text \<open>
  The linear searches of the kernel tables (\<^verbatim>\<open>for(i = 0; i < N; i++) if(P(i)) ...\<close>)
  are one function: the least index below \<open>n\<close> that satisfies \<open>P\<close>.
\<close>

fun scan :: "(nat \<Rightarrow> bool) \<Rightarrow> nat list \<Rightarrow> nat option" where
  "scan P [] = None"
| "scan P (i # is) = (if P i then Some i else scan P is)"

definition first_index :: "nat \<Rightarrow> (nat \<Rightarrow> bool) \<Rightarrow> nat option" where
  "first_index n P = scan P [0..<n]"

lemma scan_None: "scan P is = None \<longleftrightarrow> (\<forall>i\<in>set is. \<not> P i)"
  by (induction "is") auto

lemma scan_Some: "scan P is = Some i \<Longrightarrow> i \<in> set is \<and> P i"
  by (induction "is") (auto split: if_splits)

lemma first_index_None: "first_index n P = None \<longleftrightarrow> (\<forall>i<n. \<not> P i)"
  by (auto simp: first_index_def scan_None)

lemma first_index_Some: "first_index n P = Some i \<Longrightarrow> i < n \<and> P i"
  using scan_Some by (fastforce simp: first_index_def)

lemma scan_append: "scan P (xs @ ys) = (case scan P xs of None \<Rightarrow> scan P ys | Some i \<Rightarrow> Some i)"
  by (induction xs) auto

lemma first_index_least: "first_index n P = Some i \<Longrightarrow> j < i \<Longrightarrow> \<not> P j"
proof (induction n)
  case 0
  then show ?case by (simp add: first_index_def)
next
  case (Suc n)
  show ?case
  proof (cases "first_index n P")
    case None
    with Suc.prems have "i = n"
      by (auto simp: first_index_def scan_append split: if_splits)
    with None Suc.prems show ?thesis by (simp add: first_index_None)
  next
    case (Some k)
    with Suc.prems have "k = i"
      by (simp add: first_index_def scan_append)
    with Some Suc show ?thesis by simp
  qed
qed

lemma first_index_Some_iff:
  "first_index n P = Some i \<longleftrightarrow> i < n \<and> P i \<and> (\<forall>j<i. \<not> P j)"
proof
  assume "first_index n P = Some i"
  then show "i < n \<and> P i \<and> (\<forall>j<i. \<not> P j)"
    using first_index_Some first_index_least by blast
next
  assume i: "i < n \<and> P i \<and> (\<forall>j<i. \<not> P j)"
  then obtain k where k: "first_index n P = Some k"
    by (cases "first_index n P") (auto simp: first_index_None)
  then have "k = i"
    using i first_index_Some [OF k] first_index_least [OF k]
    by (metis linorder_neqE_nat)
  with k show "first_index n P = Some i" by simp
qed

lemma first_index_cong: "(\<And>i. i < n \<Longrightarrow> P i = Q i) \<Longrightarrow> first_index n P = first_index n Q"
  by (induction n) (simp_all add: first_index_def scan_append split: option.split)

section \<open>Counting the slots of a table\<close>

text \<open>\<open>count_below n P\<close> is the number of slots below \<open>n\<close> that satisfy \<open>P\<close>.\<close>

definition count_below :: "nat \<Rightarrow> (nat \<Rightarrow> bool) \<Rightarrow> nat" where
  "count_below n P = card {i. i < n \<and> P i}"

lemma count_below_cong: "(\<And>i. i < n \<Longrightarrow> P i = Q i) \<Longrightarrow> count_below n P = count_below n Q"
  by (auto simp: count_below_def intro!: arg_cong [where f = card])

lemma count_below_add:
  assumes "i < n" "\<not> P i" "Q i" "\<And>j. j < n \<Longrightarrow> j \<noteq> i \<Longrightarrow> Q j = P j"
  shows "count_below n Q = Suc (count_below n P)"
proof -
  have "{j. j < n \<and> Q j} = insert i {j. j < n \<and> P j}" using assms by auto
  moreover have "i \<notin> {j. j < n \<and> P j}" using assms(2) by simp
  ultimately show ?thesis by (simp add: count_below_def)
qed

lemma count_below_remove:
  assumes "i < n" "P i" "\<not> Q i" "\<And>j. j < n \<Longrightarrow> j \<noteq> i \<Longrightarrow> Q j = P j"
  shows "count_below n P = Suc (count_below n Q)"
  using assms by (intro count_below_add [of i]) auto

lemma count_below_le: "count_below n P \<le> n"
proof -
  have "card {i. i < n \<and> P i} \<le> card {..<n}" by (rule card_mono) auto
  then show ?thesis by (simp add: count_below_def)
qed

lemma count_below_zero: "count_below n P = 0 \<longleftrightarrow> (\<forall>i<n. \<not> P i)"
  by (auto simp: count_below_def)

section \<open>Signed and unsigned words\<close>

lemma unat_uint_minus_one: "unat (- 1 :: uint) = 4294967295"
proof -
  have "(- 1 :: uint) = 4294967295" by simp
  then show ?thesis by (simp only: unat_numeral) simp
qed

lemma uint_bounds: "0 \<le> uint (x :: uint)" "uint x < 2 ^ 32"
  using unsigned_less [of x] by simp_all

lemma sint_cases: "sint (x :: uint) = (if uint x < 2 ^ 31 then uint x else uint x - 2 ^ 32)"
proof -
  define n where "n = uint x"
  have lt: "0 \<le> n" "n < 2 ^ 32" using uint_bounds [of x] by (simp_all add: n_def)
  have "sint x = signed_take_bit 31 n" using sint_uint [of x] by (simp add: n_def)
  moreover have "signed_take_bit 31 n = n" if "n < 2 ^ 31"
    using that lt by (intro signed_take_bit_int_eq_self) auto
  moreover have "signed_take_bit 31 n = signed_take_bit 31 (n - 2 ^ 32)"
    by (simp add: signed_take_bit_eq_iff_take_bit_eq take_bit_eq_mod)
  moreover have "signed_take_bit 31 (n - 2 ^ 32) = n - 2 ^ 32" if "\<not> n < 2 ^ 31"
    using that lt by (intro signed_take_bit_int_eq_self) auto
  ultimately show ?thesis unfolding n_def by presburger
qed

lemma sint_nonneg: "\<not> sint (x :: uint) < 0 \<Longrightarrow> sint x = uint x"
  using sint_cases [of x] uint_bounds [of x] by presburger

lemma sint_neg: "sint (x :: uint) < 0 \<Longrightarrow> sint x = uint x - 2 ^ 32"
  using sint_cases [of x] uint_bounds [of x] by presburger

lemma uint_uminus: "x \<noteq> 0 \<Longrightarrow> uint (- x :: uint) = 2 ^ 32 - uint x"
proof -
  assume "x \<noteq> 0"
  then have "uint x \<noteq> 0" by (simp add: uint_0_iff)
  then show ?thesis using uint_bounds [of x] by (simp add: uint_word_ariths(4) zmod_zminus1_eq_if)
qed

lemma unat_ucast_uchar: "unat (d :: uint) < 256 \<Longrightarrow> unat (ucast d :: uchar) = unat d"
  by (simp add: unsigned_ucast_eq take_bit_eq_mod)

end
