(* ===== verification/Spinlock.thy ===== *)
theory Spinlock
  imports Prelude
begin

text \<open>
  \<^verbatim>\<open>spinlock.c\<close>: the per-CPU interrupt nesting of \<^verbatim>\<open>pushcli\<close>/\<^verbatim>\<open>popcli\<close> and the
  mutual-exclusion locks built on it.  The record \<open>spin\<close> is the part of the machine
  the lock code touches: the CPU that runs the code and the kernel's locks, one per
  \<open>lockid\<close>.  The components above extend it.

  \<open>acquire\<close> and \<open>release\<close> are the C functions seen from the running CPU.  The call
  stack \<^verbatim>\<open>acquire\<close> records in \<^verbatim>\<open>pcs\<close> is debugging output nothing reads and is left
  out of the lock; the function that computes it, \<^verbatim>\<open>getcallerpcs\<close>, is modelled on its
  own.  The second half of the theory takes the same primitive actions one at a time,
  interleaved between CPUs, and shows mutual exclusion.
\<close>

section \<open>Data\<close>

record cpu =
  cpuid :: nat
  ncli :: int
  intena :: bool
  iflag :: bool

record spinlock =
  locked :: uint
  lk_name :: string
  lk_cpu :: "nat option"

datatype lockid = PtableLock | StableLock | TicksLock

record spin =
  cpu :: cpu
  locks :: "lockid \<Rightarrow> spinlock"

section \<open>Operations\<close>

definition initlock :: "string \<Rightarrow> spinlock" where
  "initlock name = \<lparr>locked = 0, lk_name = name, lk_cpu = None\<rparr>"

definition pushcli_cpu :: "cpu \<Rightarrow> cpu" where
  "pushcli_cpu c = c\<lparr>iflag := False, ncli := ncli c + 1,
     intena := (if ncli c = 0 then iflag c else intena c)\<rparr>"

definition pushcli :: "(unit, 'a spin_scheme) kfun" where
  "pushcli = modify (\<lambda>s. s\<lparr>cpu := pushcli_cpu (cpu s)\<rparr>)"

definition popcli :: "(unit, 'a spin_scheme) kfun" where
  "popcli =
     seq (panic_if (\<lambda>s. iflag (cpu s)) ''popcli - interruptible'')
    (seq (modify (\<lambda>s. s\<lparr>cpu := (cpu s)\<lparr>ncli := ncli (cpu s) - 1\<rparr>\<rparr>))
    (seq (panic_if (\<lambda>s. ncli (cpu s) < 0) ''popcli'')
         (modify (\<lambda>s. if ncli (cpu s) = 0 \<and> intena (cpu s)
            then s\<lparr>cpu := (cpu s)\<lparr>iflag := True\<rparr>\<rparr> else s))))"

definition holding_lk :: "spinlock \<Rightarrow> nat \<Rightarrow> bool" where
  "holding_lk lk i \<longleftrightarrow> locked lk \<noteq> 0 \<and> lk_cpu lk = Some i"

definition holding :: "lockid \<Rightarrow> 'a spin_scheme \<Rightarrow> bool" where
  "holding l s = holding_lk (locks s l) (cpuid (cpu s))"

text \<open>The atomic \<^verbatim>\<open>xchg\<close> instruction on the lock word: the old value and the new lock.\<close>

definition xchg :: "uint \<Rightarrow> spinlock \<Rightarrow> uint \<times> spinlock" where
  "xchg v lk = (locked lk, lk\<lparr>locked := v\<rparr>)"

definition acquire :: "lockid \<Rightarrow> (unit, 'a spin_scheme) kfun" where
  "acquire l =
     seq pushcli
    (seq (panic_if (holding l) ''acquire'')
         (\<lambda>s. let (old, lk) = xchg 1 (locks s l) in
            if old \<noteq> 0 then Spin
            else Ret () (s\<lparr>locks := (locks s)(l := lk\<lparr>lk_cpu := Some (cpuid (cpu s))\<rparr>)\<rparr>)))"

definition release :: "lockid \<Rightarrow> (unit, 'a spin_scheme) kfun" where
  "release l =
     seq (panic_if (\<lambda>s. \<not> holding l s) ''release'')
    (seq (modify (\<lambda>s. s\<lparr>locks := (locks s)(l := snd (xchg 0 ((locks s l)\<lparr>lk_cpu := None\<rparr>)))\<rparr>))
         popcli)"

text \<open>
  \<^verbatim>\<open>getcallerpcs\<close> follows the saved frame pointers, \<open>rd\<close> being the 32-bit word at an
  address.  The first loop takes at most ten frames and stops below \<^verbatim>\<open>KERNBASE\<close> or at
  \<^verbatim>\<open>0xffffffff\<close>; the second fills the rest with zeros.
\<close>

fun callerpcs_loop :: "(uint \<Rightarrow> uint) \<Rightarrow> nat \<Rightarrow> uint \<Rightarrow> uint list" where
  "callerpcs_loop rd 0 ebp = []"
| "callerpcs_loop rd (Suc n) ebp =
     (if ebp = 0 \<or> ebp < 0x80000000 \<or> ebp = 0xffffffff then []
      else rd (ebp + 4) # callerpcs_loop rd n (rd ebp))"

definition getcallerpcs :: "(uint \<Rightarrow> uint) \<Rightarrow> uint \<Rightarrow> uint list" where
  "getcallerpcs rd v =
     (let pcs = callerpcs_loop rd 10 (v - 8) in pcs @ replicate (10 - length pcs) 0)"

section \<open>The CPU invariant\<close>

text \<open>Interrupts are off whenever the nesting depth is positive.\<close>

definition cpu_ok :: "cpu \<Rightarrow> bool" where
  "cpu_ok c \<longleftrightarrow> 0 \<le> ncli c \<and> (0 < ncli c \<longrightarrow> \<not> iflag c)"

text \<open>A lock nobody holds, on a CPU whose nesting is consistent.\<close>

definition lock_free :: "lockid \<Rightarrow> 'a spin_scheme \<Rightarrow> bool" where
  "lock_free l s \<longleftrightarrow> cpu_ok (cpu s) \<and> locked (locks s l) = 0"

text \<open>The state inside the critical section, and the state after leaving it.\<close>

definition locked_state :: "lockid \<Rightarrow> 'a spin_scheme \<Rightarrow> 'a spin_scheme" where
  "locked_state l s = s\<lparr>cpu := pushcli_cpu (cpu s),
     locks := (locks s)(l := (locks s l)\<lparr>locked := 1, lk_cpu := Some (cpuid (cpu s))\<rparr>)\<rparr>"

definition popcli_cpu :: "cpu \<Rightarrow> cpu" where
  "popcli_cpu c = c\<lparr>ncli := ncli c - 1, iflag := (ncli c = 1 \<and> intena c)\<rparr>"

definition unlocked_state :: "lockid \<Rightarrow> 'a spin_scheme \<Rightarrow> 'a spin_scheme" where
  "unlocked_state l s = s\<lparr>locks := (locks s)(l := (locks s l)\<lparr>lk_cpu := None, locked := 0\<rparr>),
     cpu := popcli_cpu (cpu s)\<rparr>"

lemma pushcli_ok: "cpu_ok c \<Longrightarrow> cpu_ok (pushcli_cpu c)"
  by (auto simp: cpu_ok_def pushcli_cpu_def)

lemma popcli_ok: "cpu_ok c \<Longrightarrow> 0 < ncli c \<Longrightarrow> cpu_ok (popcli_cpu c)"
  by (auto simp: cpu_ok_def popcli_cpu_def)

lemma pushcli_cpu_simps [simp]:
  "ncli (pushcli_cpu c) = ncli c + 1" "cpuid (pushcli_cpu c) = cpuid c"
  "\<not> iflag (pushcli_cpu c)"
  by (simp_all add: pushcli_cpu_def)

lemma popcli_cpu_simps [simp]:
  "ncli (popcli_cpu c) = ncli c - 1" "cpuid (popcli_cpu c) = cpuid c"
  by (simp_all add: popcli_cpu_def)

lemma popcli_pushcli_cpu [simp]:
  "cpu_ok c \<Longrightarrow> iflag (popcli_cpu (pushcli_cpu c)) = iflag c"
  by (auto simp: popcli_cpu_def pushcli_cpu_def cpu_ok_def)

lemma popcli_ret:
  "cpu_ok (cpu s) \<Longrightarrow> 0 < ncli (cpu s) \<Longrightarrow> popcli s = Ret () (s\<lparr>cpu := popcli_cpu (cpu s)\<rparr>)"
  by (auto simp: popcli_def kfun_simps popcli_cpu_def cpu_ok_def)

lemma acquire_ret: "lock_free l s \<Longrightarrow> acquire l s = Ret () (locked_state l s)"
  by (simp add: acquire_def kfun_simps pushcli_def lock_free_def holding_def holding_lk_def
      xchg_def locked_state_def)

lemma release_ret:
  assumes "holding l s" "cpu_ok (cpu s)" "0 < ncli (cpu s)"
  shows "release l s = Ret () (unlocked_state l s)"
  using assms by (simp add: release_def kfun_simps xchg_def popcli_ret holding_def unlocked_state_def)

lemma locked_state_simps [simp]:
  "holding l (locked_state l s)" "cpu (locked_state l s) = pushcli_cpu (cpu s)"
  by (simp_all add: locked_state_def holding_def holding_lk_def)

lemma unlocked_state_simps [simp]:
  "cpu (unlocked_state l s) = popcli_cpu (cpu s)"
  "locked (locks (unlocked_state l s) l) = 0"
  by (simp_all add: unlocked_state_def)

lemma lock_free_unlocked:
  "lock_free l s \<Longrightarrow> cpu s' = cpu (locked_state l s) \<Longrightarrow> lock_free l (unlocked_state l s')"
  by (auto simp: lock_free_def cpu_ok_def popcli_cpu_def pushcli_cpu_def)

text \<open>
  The critical-section rule: a body that keeps the CPU and the locks is run between
  \<open>acquire\<close> and \<open>release\<close> without a panic, and its result comes back.
\<close>

definition with_lock :: "lockid \<Rightarrow> ('b, 'a spin_scheme) kfun \<Rightarrow> ('b, 'a spin_scheme) kfun" where
  "with_lock l body = seq (acquire l) (bind body (\<lambda>x. seq (release l) (return x)))"

lemma with_lock_ret:
  assumes "lock_free l s" "body (locked_state l s) = Ret x s'"
    and "cpu s' = cpu (locked_state l s)" "locks s' = locks (locked_state l s)"
  shows "with_lock l body s = Ret x (unlocked_state l s')"
proof -
  have "holding l s'" using assms(3,4) by (simp add: holding_def locked_state_def holding_lk_def)
  moreover have "cpu_ok (cpu s')" using assms(1,3) by (simp add: lock_free_def pushcli_ok)
  moreover have "0 < ncli (cpu s')" using assms(1,3) by (simp add: lock_free_def cpu_ok_def)
  ultimately show ?thesis
    using assms(1,2) by (simp add: with_lock_def kfun_simps acquire_ret release_ret)
qed

section \<open>Interleaving of CPUs\<close>

text \<open>
  The position of a CPU in the lock protocol: outside; spinning on \<^verbatim>\<open>xchg\<close>; having taken
  the lock word but not yet recorded itself; inside the critical section; having cleared
  \<^verbatim>\<open>lk->cpu\<close> but not yet the lock word.
\<close>

datatype lpc = Outside | Spinning | Taken | Critical | Clearing

record smp =
  lpcs :: "nat \<Rightarrow> lpc"
  smp_lk :: spinlock

definition init_smp :: "string \<Rightarrow> smp" where
  "init_smp name = \<lparr>lpcs = (\<lambda>_. Outside), smp_lk = initlock name\<rparr>"

inductive smp_step :: "smp \<Rightarrow> smp \<Rightarrow> bool" where
  enter: "lpcs m i = Outside \<Longrightarrow> \<not> holding_lk (smp_lk m) i \<Longrightarrow>
    smp_step m (m\<lparr>lpcs := (lpcs m)(i := Spinning)\<rparr>)"
| spin: "lpcs m i = Spinning \<Longrightarrow> xchg 1 (smp_lk m) = (old, lk') \<Longrightarrow> old \<noteq> 0 \<Longrightarrow>
    smp_step m (m\<lparr>smp_lk := lk'\<rparr>)"
| take: "lpcs m i = Spinning \<Longrightarrow> xchg 1 (smp_lk m) = (0, lk') \<Longrightarrow>
    smp_step m (m\<lparr>lpcs := (lpcs m)(i := Taken), smp_lk := lk'\<rparr>)"
| record_cpu: "lpcs m i = Taken \<Longrightarrow>
    smp_step m (m\<lparr>lpcs := (lpcs m)(i := Critical), smp_lk := (smp_lk m)\<lparr>lk_cpu := Some i\<rparr>\<rparr>)"
| clear: "lpcs m i = Critical \<Longrightarrow> holding_lk (smp_lk m) i \<Longrightarrow>
    smp_step m (m\<lparr>lpcs := (lpcs m)(i := Clearing), smp_lk := (smp_lk m)\<lparr>lk_cpu := None\<rparr>\<rparr>)"
| unlock: "lpcs m i = Clearing \<Longrightarrow> xchg 0 (smp_lk m) = (old, lk') \<Longrightarrow>
    smp_step m (m\<lparr>lpcs := (lpcs m)(i := Outside), smp_lk := lk'\<rparr>)"

inductive smp_reachable :: "string \<Rightarrow> smp \<Rightarrow> bool" for name where
  start: "smp_reachable name (init_smp name)"
| step: "smp_reachable name m \<Longrightarrow> smp_step m m' \<Longrightarrow> smp_reachable name m'"

text \<open>A CPU owns the lock word from the successful \<^verbatim>\<open>xchg\<close> to the clearing one.\<close>

definition owner :: "lpc \<Rightarrow> bool" where
  "owner p \<longleftrightarrow> p \<in> {Taken, Critical, Clearing}"

definition smp_inv :: "smp \<Rightarrow> bool" where
  "smp_inv m \<longleftrightarrow>
     (\<forall>i j. owner (lpcs m i) \<longrightarrow> owner (lpcs m j) \<longrightarrow> i = j) \<and>
     (locked (smp_lk m) \<noteq> 0 \<longleftrightarrow> (\<exists>i. owner (lpcs m i))) \<and>
     (\<forall>i. lk_cpu (smp_lk m) = Some i \<longleftrightarrow> lpcs m i = Critical)"

lemma owner_simps [simp]:
  "\<not> owner Outside" "\<not> owner Spinning" "owner Taken" "owner Critical" "owner Clearing"
  by (simp_all add: owner_def)

lemma smp_inv_init: "smp_inv (init_smp name)"
  by (simp add: smp_inv_def init_smp_def initlock_def)

lemma smp_inv_change:
  assumes "smp_inv m" "owner (lpcs m i)" "p \<in> {Taken, Critical, Clearing}"
    and "locked l' = locked (smp_lk m)" "lk_cpu l' = (if p = Critical then Some i else None)"
  shows "smp_inv (m\<lparr>lpcs := (lpcs m)(i := p), smp_lk := l'\<rparr>)"
proof -
  have only: "\<And>j. owner (lpcs m j) \<Longrightarrow> j = i" using assms(1,2) by (auto simp: smp_inv_def)
  then have crit: "\<And>j. j \<noteq> i \<Longrightarrow> lpcs m j \<noteq> Critical" by force
  have "locked (smp_lk m) \<noteq> 0" using assms(1,2) by (auto simp: smp_inv_def)
  moreover have "owner p" using assms(3) by (simp add: owner_def)
  ultimately show ?thesis
    unfolding smp_inv_def using only crit assms(4,5) by (auto split: if_splits)
qed

lemma smp_step_inv: "smp_step m m' \<Longrightarrow> smp_inv m \<Longrightarrow> smp_inv m'"
proof (induction rule: smp_step.induct)
  case (enter m i)
  then have "owner (((lpcs m)(i := Spinning)) j) = owner (lpcs m j)"
    "(((lpcs m)(i := Spinning)) j = Critical) = (lpcs m j = Critical)" for j by auto
  with enter show ?case by (simp add: smp_inv_def del: fun_upd_apply)
next
  case (spin m i old lk')
  then show ?case by (auto simp: smp_inv_def xchg_def)
next
  case (take m i lk')
  then have "locked (smp_lk m) = 0" "lk' = (smp_lk m)\<lparr>locked := 1\<rparr>" by (auto simp: xchg_def)
  with take show ?case by (auto simp: smp_inv_def split: if_splits)
next
  case (record_cpu m i)
  then show ?case by (intro smp_inv_change) auto
next
  case (clear m i)
  then show ?case by (intro smp_inv_change) auto
next
  case (unlock m i old lk')
  then have "\<And>j. owner (lpcs m j) \<Longrightarrow> j = i" "lk' = (smp_lk m)\<lparr>locked := 0\<rparr>"
    by (auto simp: smp_inv_def xchg_def)
  moreover from this have "\<And>j. j \<noteq> i \<Longrightarrow> lpcs m j \<noteq> Critical" by force
  moreover have "lk_cpu (smp_lk m) = None"
    using unlock by (metis calculation(3) lpc.distinct(19) not_None_eq smp_inv_def)
  ultimately show ?case by (auto simp: smp_inv_def)
qed

lemma smp_reachable_inv: "smp_reachable name m \<Longrightarrow> smp_inv m"
  by (induction rule: smp_reachable.induct) (auto intro: smp_inv_init smp_step_inv)

section \<open>Properties\<close>

text \<open>
  C8. Mutual exclusion of spin locks.  However the instructions of \<^verbatim>\<open>acquire\<close> and \<^verbatim>\<open>release\<close>
  of any number of CPUs interleave, at most one CPU is between a successful \<^verbatim>\<open>xchg\<close> and the
  final \<^verbatim>\<open>xchg\<close>, and \<^verbatim>\<open>holding\<close> answers yes exactly on the CPU that is inside its critical
  section, so the panic of \<^verbatim>\<open>acquire\<close> never fires on a CPU that is outside and the panic of
  \<^verbatim>\<open>release\<close> never fires on the CPU that is inside.
\<close>

theorem spinlock_mutual_exclusion:
  assumes "smp_reachable name m"
  shows "(owner (lpcs m i) \<and> owner (lpcs m j) \<longrightarrow> i = j) \<and>
    (holding_lk (smp_lk m) i \<longleftrightarrow> lpcs m i = Critical)"
proof -
  from assms have inv: "smp_inv m" by (rule smp_reachable_inv)
  moreover have "holding_lk (smp_lk m) i \<longleftrightarrow> lpcs m i = Critical"
    using inv unfolding smp_inv_def holding_lk_def by (metis owner_simps(4))
  ultimately show ?thesis unfolding smp_inv_def by blast
qed

text \<open>Two CPUs: 0 enters its critical section while 1 spins.\<close>

definition smp_example :: smp where
  "smp_example = \<lparr>lpcs = (\<lambda>_. Outside)(0 := Critical, 1 := Spinning),
     smp_lk = \<lparr>locked = 1, lk_name = ''ptable'', lk_cpu = Some 0\<rparr>\<rparr>"

lemma smp_example_reachable: "smp_reachable ''ptable'' smp_example"
proof -
  let ?m1 = "(init_smp ''ptable'')\<lparr>lpcs := (lpcs (init_smp ''ptable''))(0 := Spinning)\<rparr>"
  let ?m2 = "?m1\<lparr>lpcs := (lpcs ?m1)(1 := Spinning)\<rparr>"
  let ?m3 = "?m2\<lparr>lpcs := (lpcs ?m2)(0 := Taken), smp_lk := snd (xchg 1 (smp_lk ?m2))\<rparr>"
  let ?m4 = "?m3\<lparr>lpcs := (lpcs ?m3)(0 := Critical), smp_lk := (smp_lk ?m3)\<lparr>lk_cpu := Some 0\<rparr>\<rparr>"
  have "smp_reachable ''ptable'' ?m1"
    by (rule smp_reachable.step [OF smp_reachable.start], rule smp_step.enter)
      (simp_all add: init_smp_def holding_lk_def initlock_def)
  then have "smp_reachable ''ptable'' ?m2"
    by (rule smp_reachable.step, intro smp_step.enter)
      (simp_all add: init_smp_def holding_lk_def initlock_def)
  then have "smp_reachable ''ptable'' ?m3"
    by (rule smp_reachable.step, intro smp_step.take)
      (simp_all add: init_smp_def initlock_def xchg_def)
  then have "smp_reachable ''ptable'' ?m4"
    by (rule smp_reachable.step, intro smp_step.record_cpu) simp
  moreover have "?m4 = smp_example"
    by (auto simp: smp_example_def init_smp_def initlock_def xchg_def)
  ultimately show ?thesis by simp
qed

theorem spinlock_mutual_exclusion_witness:
  "holding_lk (smp_lk smp_example) 0 \<and> \<not> holding_lk (smp_lk smp_example) 1"
  using spinlock_mutual_exclusion [OF smp_example_reachable, of 0 0]
    spinlock_mutual_exclusion [OF smp_example_reachable, of 1 1]
  by (simp add: smp_example_def)

text \<open>
  C9. A critical section restores the interrupt state.  From a consistent CPU and a free
  lock, \<^verbatim>\<open>acquire\<close> returns with interrupts off, and the matching \<^verbatim>\<open>release\<close> returns with the
  lock free, the nesting depth and the interrupt flag as they were, whatever the nesting was.
\<close>

theorem acquire_release_restores:
  assumes "lock_free l s"
  shows "\<exists>s1 s2. acquire l s = Ret () s1 \<and> \<not> iflag (cpu s1) \<and> holding l s1 \<and>
    release l s1 = Ret () s2 \<and> lock_free l s2 \<and> \<not> holding l s2 \<and>
    ncli (cpu s2) = ncli (cpu s) \<and> iflag (cpu s2) = iflag (cpu s)"
proof -
  have ok: "cpu_ok (cpu s)" "0 < ncli (cpu (locked_state l s))"
    using assms by (auto simp: lock_free_def cpu_ok_def)
  then have "release l (locked_state l s) = Ret () (unlocked_state l (locked_state l s))"
    by (intro release_ret) (simp_all add: pushcli_ok)
  moreover have "\<not> holding l (unlocked_state l (locked_state l s))"
    by (simp add: unlocked_state_def holding_def holding_lk_def)
  ultimately show ?thesis
    using assms ok acquire_ret [OF assms] lock_free_unlocked [OF assms refl]
    by (intro exI [of _ "locked_state l s"] exI [of _ "unlocked_state l (locked_state l s)"]) simp
qed

definition spin_example :: spin where
  "spin_example = \<lparr>cpu = \<lparr>cpuid = 0, ncli = 0, intena = False, iflag = True\<rparr>,
     locks = (\<lambda>_. initlock ''l'')\<rparr>"

theorem acquire_release_restores_witness:
  "lock_free StableLock spin_example \<and>
   (\<exists>s1 s2. acquire StableLock spin_example = Ret () s1 \<and> \<not> iflag (cpu s1) \<and>
      release StableLock s1 = Ret () s2 \<and> iflag (cpu s2))"
proof -
  have free: "lock_free StableLock spin_example"
    by (simp add: lock_free_def cpu_ok_def spin_example_def initlock_def)
  show ?thesis
    using free acquire_release_restores [OF free] by (auto simp: spin_example_def)
qed

end
