(* ===== verification/Paging.thy ===== *)
theory Paging
  imports Prelude
begin

text \<open>
  Address arithmetic of \<^verbatim>\<open>mmu.h\<close> and \<^verbatim>\<open>memlayout.h\<close>: the kernel's mapping of physical
  memory, page rounding, the parts of a virtual address and of a page table entry, and their
  characterisation by division on natural numbers.
\<close>

section \<open>Layout (memlayout.h)\<close>

definition EXTMEM :: uint where "EXTMEM = 0x100000"
definition PHYSTOP :: uint where "PHYSTOP = 0xE000000"
definition DEVSPACE :: uint where "DEVSPACE = 0xFE000000"
definition KERNBASE :: uint where "KERNBASE = 0x80000000"
definition KERNLINK :: uint where "KERNLINK = KERNBASE + EXTMEM"

definition v2p :: "uint \<Rightarrow> uint" where "v2p a = a - KERNBASE"
definition p2v :: "uint \<Rightarrow> uint" where "p2v a = a + KERNBASE"

lemma v2p_p2v [simp]: "v2p (p2v a) = a" "p2v (v2p a) = a"
  by (simp_all add: v2p_def p2v_def)

section \<open>Pages and page table entries (mmu.h)\<close>

definition PGSIZE :: uint where "PGSIZE = 4096"
definition NPDENTRIES :: nat where "NPDENTRIES = 1024"
definition NPTENTRIES :: nat where "NPTENTRIES = 1024"

definition PGROUNDUP :: "uint \<Rightarrow> uint" where
  "PGROUNDUP a = (a + PGSIZE - 1) AND NOT (PGSIZE - 1)"

definition PGROUNDDOWN :: "uint \<Rightarrow> uint" where
  "PGROUNDDOWN a = a AND NOT (PGSIZE - 1)"

definition PDX :: "uint \<Rightarrow> uint" where "PDX va = drop_bit 22 va AND 0x3FF"
definition PTX :: "uint \<Rightarrow> uint" where "PTX va = drop_bit 12 va AND 0x3FF"
definition PGADDR :: "uint \<Rightarrow> uint \<Rightarrow> uint \<Rightarrow> uint" where
  "PGADDR d t off = push_bit 22 d OR push_bit 12 t OR off"

definition PTE_P :: uint where "PTE_P = 1"
definition PTE_W :: uint where "PTE_W = 2"
definition PTE_U :: uint where "PTE_U = 4"

definition PTE_ADDR :: "uint \<Rightarrow> uint" where "PTE_ADDR e = e AND NOT 0xFFF"
definition PTE_FLAGS :: "uint \<Rightarrow> uint" where "PTE_FLAGS e = e AND 0xFFF"

section \<open>Arithmetic\<close>

lemma unat_less_2p32 [simp]: "unat (x :: uint) < 4294967296"
  using unsigned_less [of x, where ?'a = nat] by simp

lemma fff_mask: "(0xFFF :: uint) = mask 12" "PGSIZE - 1 = mask 12" "(0x3FF :: uint) = mask 10"
  by (simp_all add: mask_eq_exp_minus_1 PGSIZE_def)

lemma and_not_mask: "(a :: uint) AND NOT (mask n) = push_bit n (drop_bit n a)"
  by (rule bit_word_eqI) (auto simp: bit_simps)

lemma unat_and_not_mask: "unat ((a :: uint) AND NOT (mask 12)) = unat a div 4096 * 4096"
proof -
  have "unat a div 4096 * 4096 \<le> unat a" by (rule div_times_less_eq_dividend)
  then have "unat a div 4096 * 4096 < 4294967296" using unat_less_2p32 [of a] by linarith
  then show ?thesis
    by (simp add: and_not_mask push_bit_eq_mult drop_bit_eq_div unat_word_ariths(2) unat_div_distrib)
qed

lemma unat_PGROUNDDOWN: "unat (PGROUNDDOWN a) = unat a div 4096 * 4096"
  by (simp only: PGROUNDDOWN_def fff_mask unat_and_not_mask)

lemma PTE_ADDR_PGROUNDDOWN: "PTE_ADDR e = PGROUNDDOWN e"
  by (simp only: PTE_ADDR_def PGROUNDDOWN_def fff_mask)

lemma unat_PGROUNDUP:
  assumes "unat a + 4095 < 2 ^ 32"
  shows "unat (PGROUNDUP a) = (unat a + 4095) div 4096 * 4096"
proof -
  have "unat (a + 4095) = unat a + 4095" using assms by (simp add: unat_word_ariths)
  moreover have "PGROUNDUP a = (a + 4095) AND NOT (mask 12)"
    unfolding PGROUNDUP_def fff_mask(2) by (simp add: PGSIZE_def add.commute)
  ultimately show ?thesis by (simp only: unat_and_not_mask)
qed

lemma unat_PDX: "unat (PDX va) = unat va div 2 ^ 22"
proof -
  have "unat va div 2 ^ 22 < 2 ^ 10"
    using unat_less_2p32 [of va] by (simp add: div_less_iff_less_mult)
  then show ?thesis
    by (simp add: PDX_def fff_mask take_bit_eq_mask [symmetric] drop_bit_eq_div take_bit_eq_mod
        unat_div_distrib unat_mod_distrib)
qed

lemma unat_PTX: "unat (PTX va) = unat va div 4096 mod 1024"
  by (simp add: PTX_def fff_mask take_bit_eq_mask [symmetric] drop_bit_eq_div take_bit_eq_mod
      unat_div_distrib unat_mod_distrib)

definition page_aligned :: "uint \<Rightarrow> bool" where
  "page_aligned p \<longleftrightarrow> p mod PGSIZE = 0"

lemma page_aligned_unat: "page_aligned p \<longleftrightarrow> unat p mod 4096 = 0"
proof -
  have "unat (p mod PGSIZE) = unat p mod 4096" by (simp add: PGSIZE_def unat_mod_distrib)
  then show ?thesis by (metis page_aligned_def unat_eq_0)
qed

lemma page_aligned_add: "page_aligned a \<Longrightarrow> page_aligned b \<Longrightarrow> page_aligned (a + b)"
  by (simp add: page_aligned_unat unat_word_ariths mod_mod_cancel mod_0_imp_dvd)

lemma page_aligned_v2p [simp]: "page_aligned (v2p a) = page_aligned a" "page_aligned (p2v a) = page_aligned a"
proof -
  have k: "page_aligned KERNBASE" by (simp add: page_aligned_def KERNBASE_def PGSIZE_def)
  have neg: "- KERNBASE = KERNBASE" by (simp add: KERNBASE_def)
  have "v2p a = a + KERNBASE" for a unfolding v2p_def diff_conv_add_uminus neg ..
  then have v: "page_aligned (v2p a)" if "page_aligned a" for a
    using page_aligned_add [OF that k] by simp
  have p: "page_aligned (p2v a)" if "page_aligned a" for a
    using page_aligned_add [OF that k] by (simp add: p2v_def)
  show "page_aligned (v2p a) = page_aligned a" using v [of a] p [of "v2p a"] by auto
  show "page_aligned (p2v a) = page_aligned a" using p [of a] v [of "p2v a"] by auto
qed

lemma page_aligned_down [simp]: "page_aligned (PGROUNDDOWN a)"
  by (simp add: page_aligned_unat unat_PGROUNDDOWN)

text \<open>The bytes of the page at \<open>p\<close> are the addresses that round down to \<open>p\<close>.\<close>

lemma page_of_nat:
  fixes n k :: nat
  shows "n div 4096 * 4096 = 4096 * k \<longleftrightarrow> 4096 * k \<le> n \<and> n < 4096 * k + 4096"
proof
  assume "n div 4096 * 4096 = 4096 * k"
  with div_mult_mod_eq [of n 4096] mod_less_divisor [of 4096 n]
  show "4096 * k \<le> n \<and> n < 4096 * k + 4096" by linarith
next
  assume "4096 * k \<le> n \<and> n < 4096 * k + 4096"
  then have "n div 4096 = k" by (intro div_nat_eqI) auto
  then show "n div 4096 * 4096 = 4096 * k" by simp
qed

lemma in_page_iff:
  assumes "page_aligned p"
  shows "a - p < PGSIZE \<longleftrightarrow> PGROUNDDOWN a = p"
proof -
  have "4096 dvd unat p" using assms by (simp add: page_aligned_unat mod_0_imp_dvd)
  then obtain k where k: "unat p = 4096 * k" by (elim dvdE)
  then have bound: "k \<le> 1048575" using unat_less_2p32 [of p] by linarith
  have "PGROUNDDOWN a = p \<longleftrightarrow> unat a div 4096 * 4096 = unat p"
    by (simp add: word_unat_eq_iff unat_PGROUNDDOWN)
  also have "\<dots> \<longleftrightarrow> unat p \<le> unat a \<and> unat a < unat p + 4096" unfolding k by (rule page_of_nat)
  also have "\<dots> \<longleftrightarrow> unat (a - p) < 4096"
  proof (cases "unat p \<le> unat a")
    case True
    then have "unat (a - p) = unat a - unat p" by (simp add: unat_sub word_le_nat_alt)
    with True show ?thesis by auto
  next
    case False
    then have "unat (a - p) = unat a + 4294967296 - unat p" by (simp add: unat_sub_if_size word_size)
    with False bound k show ?thesis by auto
  qed
  finally show ?thesis by (simp add: word_less_nat_alt PGSIZE_def)
qed

lemma PGROUNDDOWN_aligned [simp]: "page_aligned p \<Longrightarrow> PGROUNDDOWN p = p"
  using in_page_iff [of p p] by (simp add: PGSIZE_def)

lemma PTE_ADDR_or:
  assumes "page_aligned pa" "f < PGSIZE"
  shows "PTE_ADDR (pa OR f) = pa" "PTE_FLAGS (pa OR f) = f"
proof -
  have lo: "take_bit 12 pa = 0"
    using assms(1) by (simp add: page_aligned_def take_bit_eq_mod PGSIZE_def)
  have "f mod 4096 = f"
    using assms(2) by (simp add: PGSIZE_def word_less_nat_alt word_unat_eq_iff unat_mod_distrib)
  then have hi: "take_bit 12 f = f" by (simp add: take_bit_eq_mod)
  show "PTE_FLAGS (pa OR f) = f"
    by (simp add: PTE_FLAGS_def fff_mask take_bit_eq_mask [symmetric] lo hi)
  have b: "bit pa n \<Longrightarrow> 12 \<le> n" "bit f n \<Longrightarrow> n < 12" for n
    using arg_cong [OF lo, of "\<lambda>w. bit w n"] arg_cong [OF hi, of "\<lambda>w. bit w n"]
    by (auto simp: bit_take_bit_iff)
  show "PTE_ADDR (pa OR f) = pa"
    unfolding PTE_ADDR_def fff_mask by (rule bit_word_eqI) (auto simp: bit_simps dest: b)
qed

end
