(* ===== verification/Mlf.thy ===== *)
theory Mlf
  imports Proc
begin

text \<open>
  Correctness of the multilevel feedback queues of \<^verbatim>\<open>proc.c\<close>.  \<open>mlf_rep X q s\<close> says that the
  pointers of the state \<open>s\<close> represent one list of processes \<open>q l\<close> per priority level \<open>l\<close>, that
  the listed processes are exactly the runnable ones of that priority, and that the processes
  in \<open>X\<close> are in no list (a process just taken out of its queue, or about to be put in).
  Every operation of \<^verbatim>\<open>proc.c\<close> on the queues is characterised as an operation on these lists.
\<close>

section \<open>Representation\<close>

fun links :: "(nat \<Rightarrow> proc) \<Rightarrow> nat list \<Rightarrow> bool" where
  "links ps [] = True"
| "links ps [p] = (pnext (ps p) = None)"
| "links ps (p # q # r) = (pnext (ps p) = Some q \<and> links ps (q # r))"

definition is_queue :: "(nat \<Rightarrow> proc) \<Rightarrow> mlf_level \<Rightarrow> nat list \<Rightarrow> bool" where
  "is_queue ps lv xs \<longleftrightarrow> first lv = (if xs = [] then None else Some (hd xs)) \<and>
     last_proc lv = (if xs = [] then None else Some (last xs)) \<and> links ps xs \<and> distinct xs"

definition queued :: "'a psys_scheme \<Rightarrow> nat \<Rightarrow> nat \<Rightarrow> bool" where
  "queued s l p \<longleftrightarrow> p < NPROC \<and> state (procs s p) = RUNNABLE \<and> unat (priority (procs s p)) = l"

definition queues :: "(nat \<Rightarrow> nat list) \<Rightarrow> 'a psys_scheme \<Rightarrow> bool" where
  "queues q s \<longleftrightarrow> (\<forall>l<MLFLEVELS. is_queue (procs s) (mlf s l) (q l) \<and> (\<forall>p\<in>set (q l). queued s l p))"

definition prio_ok :: "'a psys_scheme \<Rightarrow> bool" where
  "prio_ok s \<longleftrightarrow> (\<forall>p<NPROC. unat (priority (procs s p)) < MLFLEVELS)"

definition unlisted :: "(nat \<Rightarrow> nat list) \<Rightarrow> nat \<Rightarrow> bool" where
  "unlisted q p \<longleftrightarrow> (\<forall>l<MLFLEVELS. p \<notin> set (q l))"

definition listed :: "nat set \<Rightarrow> (nat \<Rightarrow> nat list) \<Rightarrow> 'a psys_scheme \<Rightarrow> bool" where
  "listed X q s \<longleftrightarrow> (\<forall>p<NPROC. p \<notin> X \<longrightarrow> state (procs s p) = RUNNABLE \<longrightarrow>
     p \<in> set (q (unat (priority (procs s p)))))"

definition mlf_rep :: "nat set \<Rightarrow> (nat \<Rightarrow> nat list) \<Rightarrow> 'a psys_scheme \<Rightarrow> bool" where
  "mlf_rep X q s \<longleftrightarrow> queues q s \<and> prio_ok s \<and> listed X q s \<and> (\<forall>p\<in>X. unlisted q p)"

definition mlf_inv :: "'a psys_scheme \<Rightarrow> bool" where
  "mlf_inv s \<longleftrightarrow> (\<exists>q. mlf_rep {} q s)"

section \<open>Links\<close>

lemma links_cong: "(\<And>p. p \<in> set xs \<Longrightarrow> pnext (ps' p) = pnext (ps p)) \<Longrightarrow> links ps' xs = links ps xs"
  by (induction ps xs rule: links.induct) auto

lemma links_Cons: "links ps (p # xs) \<longleftrightarrow>
    pnext (ps p) = (if xs = [] then None else Some (hd xs)) \<and> links ps xs"
  by (cases xs) auto

lemma links_snoc:
  assumes "links ps xs" "distinct xs" "xs \<noteq> []" "p \<notin> set xs" "pnext r = None"
  shows "links (ps(last xs := (ps (last xs))\<lparr>pnext := Some p\<rparr>, p := r)) (xs @ [p])"
  using assms
proof (induction xs rule: induct_list012)
  case 1
  then show ?case by simp
next
  case (2 x)
  then show ?case by auto
next
  case (3 x y zs)
  let ?ps = "ps(last (y # zs) := (ps (last (y # zs)))\<lparr>pnext := Some p\<rparr>, p := r)"
  have "links ?ps ((y # zs) @ [p])" using 3 by (intro 3(2)) auto
  moreover have "last (y # zs) \<in> set (y # zs)" by (rule last_in_set) simp
  then have "x \<noteq> p" "x \<noteq> last (y # zs)"
    using 3 by auto
  ultimately show ?case using 3 by (simp del: last.simps add: last_ConsR)
qed

lemma is_queue_cong:
  "(\<And>p. p \<in> set xs \<Longrightarrow> pnext (ps' p) = pnext (ps p)) \<Longrightarrow> is_queue ps' lv xs = is_queue ps lv xs"
  using links_cong [of xs ps' ps] by (simp add: is_queue_def)

section \<open>make_runnable\<close>

definition enqueued_level :: "nat \<Rightarrow> mlf_level \<Rightarrow> mlf_level" where
  "enqueued_level p lv = lv\<lparr>first := (if last_proc lv = None then Some p else first lv),
     last_proc := Some p\<rparr>"

definition runnable_proc :: "proc \<Rightarrow> proc" where
  "runnable_proc r = r\<lparr>pnext := None, age := 0, state := RUNNABLE\<rparr>"

definition link_tail :: "nat \<Rightarrow> nat option \<Rightarrow> (nat \<Rightarrow> proc) \<Rightarrow> nat \<Rightarrow> proc" where
  "link_tail p t ps = (case t of None \<Rightarrow> ps | Some u \<Rightarrow> ps(u := (ps u)\<lparr>pnext := Some p\<rparr>))"

definition made_runnable :: "nat \<Rightarrow> 'a psys_scheme \<Rightarrow> 'a psys_scheme" where
  "made_runnable p s = (let l = unat (priority (procs s p)); ps = link_tail p (last_proc (mlf s l)) (procs s)
     in s\<lparr>procs := ps(p := runnable_proc (ps p)), mlf := (mlf s)(l := enqueued_level p (mlf s l))\<rparr>)"

lemma make_runnable_ret:
  "unat (priority (procs s p)) < MLFLEVELS \<Longrightarrow> make_runnable p s = Ret () (made_runnable p s)"
  by (auto simp: make_runnable_def kfun_simps upd_level_def upd_proc_def made_runnable_def Let_def
      enqueued_level_def runnable_proc_def link_tail_def split: option.splits)

lemma link_tail_simps [simp]:
  "state (link_tail p t ps x) = state (ps x)" "priority (link_tail p t ps x) = priority (ps x)"
  "age (link_tail p t ps x) = age (ps x)" "pchan (link_tail p t ps x) = pchan (ps x)"
  "killed (link_tail p t ps x) = killed (ps x)" "pid (link_tail p t ps x) = pid (ps x)"
  "parent (link_tail p t ps x) = parent (ps x)" "pgdir (link_tail p t ps x) = pgdir (ps x)"
  by (auto simp: link_tail_def split: option.split)

lemma made_runnable_frame [simp]:
  "cpu (made_runnable p s) = cpu s" "locks (made_runnable p s) = locks s"
  "curproc (made_runnable p s) = curproc s" "initproc (made_runnable p s) = initproc s"
  "nextpid (made_runnable p s) = nextpid s"
  by (simp_all add: made_runnable_def Let_def)

lemma made_runnable_proc [simp]:
  "state (procs (made_runnable p s) x) = (if x = p then RUNNABLE else state (procs s x))"
  "priority (procs (made_runnable p s) x) = priority (procs s x)"
  "age (procs (made_runnable p s) x) = (if x = p then 0 else age (procs s x))"
  "pchan (procs (made_runnable p s) x) = pchan (procs s x)"
  "killed (procs (made_runnable p s) x) = killed (procs s x)"
  "pid (procs (made_runnable p s) x) = pid (procs s x)"
  "parent (procs (made_runnable p s) x) = parent (procs s x)"
  "pgdir (procs (made_runnable p s) x) = pgdir (procs s x)"
  by (simp_all add: made_runnable_def Let_def runnable_proc_def)

lemma mlf_made_runnable:
  "mlf (made_runnable p s) = (mlf s)(unat (priority (procs s p)) :=
     enqueued_level p (mlf s (unat (priority (procs s p)))))"
  by (simp add: made_runnable_def Let_def)

lemma pnext_link_tail:
  "pnext (link_tail p t ps x) = (if t = Some x then Some p else pnext (ps x))"
  by (auto simp: link_tail_def split: option.split)

lemma queued_unlisted:
  "queues q s \<Longrightarrow> unlisted q p \<Longrightarrow> l < MLFLEVELS \<Longrightarrow> x \<in> set (q l) \<Longrightarrow> x \<noteq> p"
  by (auto simp: unlisted_def)

lemma queues_last:
  assumes "queues q s" "l < MLFLEVELS" "last_proc (mlf s l) = Some t"
  shows "t \<in> set (q l)" "q l \<noteq> []" "last (q l) = t"
  using assms by (auto simp: queues_def is_queue_def split: if_splits)

text \<open>A process is listed at one level only, since the level is its priority.\<close>

lemma queues_level:
  assumes "queues q s" "l < MLFLEVELS" "k < MLFLEVELS" "x \<in> set (q l)" "x \<in> set (q k)"
  shows "l = k"
proof -
  have "queued s l x" "queued s k x" using assms by (auto simp: queues_def)
  then show ?thesis by (simp add: queued_def)
qed

lemma queue_made_runnable:
  assumes "queues q s" "unlisted q p" "l < MLFLEVELS" "unat (priority (procs s p)) = l"
  shows "is_queue (procs (made_runnable p s)) (enqueued_level p (mlf s l)) (q l @ [p])"
proof -
  have iq: "is_queue (procs s) (mlf s l) (q l)" and np: "p \<notin> set (q l)"
    using assms by (auto simp: queues_def unlisted_def)
  let ?r = "runnable_proc (link_tail p (last_proc (mlf s l)) (procs s) p)"
  have "links (procs (made_runnable p s)) (q l @ [p])"
  proof (cases "q l = []")
    case True
    then show ?thesis by (simp add: made_runnable_def Let_def runnable_proc_def)
  next
    case False
    then have "last_proc (mlf s l) = Some (last (q l))" using iq by (simp add: is_queue_def)
    then have eq: "procs (made_runnable p s) =
        (procs s)(last (q l) := (procs s (last (q l)))\<lparr>pnext := Some p\<rparr>, p := ?r)"
      by (simp add: made_runnable_def Let_def link_tail_def assms(4))
    show ?thesis
      unfolding eq using iq np False by (intro links_snoc) (simp_all add: is_queue_def runnable_proc_def)
  qed
  then show ?thesis
    using iq np unfolding is_queue_def enqueued_level_def by simp
qed

lemma queue_made_runnable_other:
  assumes "queues q s" "unlisted q p" "unat (priority (procs s p)) < MLFLEVELS"
    and "k < MLFLEVELS" "k \<noteq> unat (priority (procs s p))"
  shows "is_queue (procs (made_runnable p s)) (mlf s k) (q k)"
proof -
  let ?l = "unat (priority (procs s p))"
  have "pnext (procs (made_runnable p s) x) = pnext (procs s x)" if "x \<in> set (q k)" for x
  proof -
    have "x \<noteq> p" using assms that by (auto simp: unlisted_def)
    moreover have "last_proc (mlf s ?l) \<noteq> Some x"
      using queues_last(1) [OF assms(1,3)] queues_level [OF assms(1,3,4)] that assms(5) by blast
    ultimately show ?thesis by (simp add: made_runnable_def Let_def pnext_link_tail)
  qed
  then have "is_queue (procs (made_runnable p s)) (mlf s k) (q k) = is_queue (procs s) (mlf s k) (q k)"
    by (intro is_queue_cong)
  then show ?thesis using assms(1,4) by (simp add: queues_def)
qed

lemma queues_made_runnable:
  assumes "queues q s" "unlisted q p" "p < NPROC" "unat (priority (procs s p)) = l" "l < MLFLEVELS"
  shows "queues (q(l := q l @ [p])) (made_runnable p s)"
  unfolding queues_def
proof (intro allI impI conjI ballI)
  fix k assume k: "k < MLFLEVELS"
  show "is_queue (procs (made_runnable p s)) (mlf (made_runnable p s) k) ((q(l := q l @ [p])) k)"
    using queue_made_runnable [OF assms(1,2,5,4)] queue_made_runnable_other [OF assms(1,2)] assms(4,5) k
    by (cases "k = l") (simp_all add: mlf_made_runnable)
  fix x assume "x \<in> set ((q(l := q l @ [p])) k)"
  then have "x = p \<and> k = l \<or> x \<in> set (q k)" by (auto split: if_splits)
  then show "queued (made_runnable p s) k x"
    using assms k by (auto simp: queues_def queued_def)
qed

lemma make_runnable_rep:
  assumes "mlf_rep X q s" "p \<in> X" "p < NPROC"
  shows "make_runnable p s = Ret () (made_runnable p s)"
    and "mlf_rep (X - {p}) (q(unat (priority (procs s p)) :=
           q (unat (priority (procs s p))) @ [p])) (made_runnable p s)"
proof -
  have prio: "unat (priority (procs s p)) < MLFLEVELS" and u: "unlisted q p" and qs: "queues q s"
    using assms by (auto simp: mlf_rep_def prio_ok_def)
  then show "make_runnable p s = Ret () (made_runnable p s)" by (intro make_runnable_ret)
  show "mlf_rep (X - {p}) (q(unat (priority (procs s p)) :=
           q (unat (priority (procs s p))) @ [p])) (made_runnable p s)"
    unfolding mlf_rep_def
  proof (intro conjI)
    show "queues (q(unat (priority (procs s p)) := q (unat (priority (procs s p))) @ [p])) (made_runnable p s)"
      by (rule queues_made_runnable [OF qs u assms(3) refl prio])
  qed (use assms in \<open>auto simp: mlf_rep_def prio_ok_def listed_def unlisted_def\<close>)
qed

section \<open>unqueue\<close>

definition dequeued_level :: "(nat \<Rightarrow> proc) \<Rightarrow> mlf_level \<Rightarrow> mlf_level" where
  "dequeued_level ps lv = (if first lv = last_proc lv then lv\<lparr>last_proc := None, first := None\<rparr>
     else lv\<lparr>first := (case first lv of None \<Rightarrow> None | Some p \<Rightarrow> pnext (ps p))\<rparr>)"

definition unqueued :: "nat \<Rightarrow> 'a psys_scheme \<Rightarrow> 'a psys_scheme" where
  "unqueued l s = s\<lparr>mlf := (mlf s)(l := dequeued_level (procs s) (mlf s l))\<rparr>"

lemma unqueued_frame [simp]:
  "procs (unqueued l s) = procs s" "cpu (unqueued l s) = cpu s" "locks (unqueued l s) = locks s"
  "curproc (unqueued l s) = curproc s" "initproc (unqueued l s) = initproc s"
  by (simp_all add: unqueued_def)

lemma unqueue_empty: "first (mlf s l) = None \<Longrightarrow> unqueue l s = Panic ''empty level''"
  by (simp add: unqueue_def kfun_simps)

lemma is_queue_dequeued:
  assumes "is_queue ps lv (p # xs)"
  shows "is_queue ps (dequeued_level ps lv) xs"
proof -
  have "p \<noteq> last xs" if "xs \<noteq> []" using assms that by (auto simp: is_queue_def)
  then show ?thesis
    using assms by (auto simp: is_queue_def dequeued_level_def links_Cons)
qed

lemma unqueue_ret:
  assumes "queues q s" "l < MLFLEVELS" "q l = p # xs"
  shows "unqueue l s = Ret p (unqueued l s)"
proof -
  have "first (mlf s l) = Some p" "state (procs s p) = RUNNABLE"
    using assms by (force simp: queues_def is_queue_def queued_def)+
  then show ?thesis
    by (simp add: unqueue_def kfun_simps upd_level_def unqueued_def dequeued_level_def)
qed

lemma queues_unqueued:
  assumes "queues q s" "l < MLFLEVELS" "q l = p # xs"
  shows "queues (q(l := xs)) (unqueued l s)" and "unlisted (q(l := xs)) p"
proof -
  show "queues (q(l := xs)) (unqueued l s)"
    using assms is_queue_dequeued [of "procs s" "mlf s l" p xs]
    by (auto simp: queues_def unqueued_def queued_def)
  have "p \<notin> set xs" using assms by (force simp: queues_def is_queue_def)
  moreover have "p \<notin> set (q k)" if "k < MLFLEVELS" "k \<noteq> l" for k
    using queues_level [OF assms(1,2) that(1)] that(2) assms(3) by auto
  ultimately show "unlisted (q(l := xs)) p" by (auto simp: unlisted_def)
qed

lemma unqueue_rep:
  assumes "mlf_rep X q s" "l < MLFLEVELS" "q l = p # xs"
  shows "unqueue l s = Ret p (unqueued l s)" and "mlf_rep (insert p X) (q(l := xs)) (unqueued l s)"
proof -
  have qs: "queues q s" using assms(1) by (simp add: mlf_rep_def)
  then show "unqueue l s = Ret p (unqueued l s)" using assms(2,3) by (rule unqueue_ret)
  have "unlisted (q(l := xs)) x" if "x \<in> X" for x
  proof -
    have "\<forall>k<MLFLEVELS. x \<notin> set (q k)" using assms(1) that by (auto simp: mlf_rep_def unlisted_def)
    then show ?thesis using assms(2,3) by (force simp: unlisted_def)
  qed
  moreover have "listed (insert p X) (q(l := xs)) (unqueued l s)"
    using assms(1,3) by (auto simp: mlf_rep_def listed_def)
  ultimately show "mlf_rep (insert p X) (q(l := xs)) (unqueued l s)"
    using assms(1) queues_unqueued [OF qs assms(2,3)] by (auto simp: mlf_rep_def prio_ok_def)
qed

section \<open>Frame rules\<close>

lemma mlf_rep_cong:
  "procs s' = procs s \<Longrightarrow> mlf s' = mlf s \<Longrightarrow> mlf_rep X q s' = mlf_rep X q s"
  by (simp add: mlf_rep_def queues_def prio_ok_def listed_def queued_def)

lemma not_runnable_unlisted: "queues q s \<Longrightarrow> state (procs s p) \<noteq> RUNNABLE \<Longrightarrow> unlisted q p"
  by (auto simp: queues_def queued_def unlisted_def)

lemma mlf_rep_insert: "mlf_rep X q s \<Longrightarrow> state (procs s p) \<noteq> RUNNABLE \<Longrightarrow> mlf_rep (insert p X) q s"
  by (auto simp: mlf_rep_def listed_def intro: not_runnable_unlisted)

lemma mlf_rep_delete: "mlf_rep X q s \<Longrightarrow> state (procs s p) \<noteq> RUNNABLE \<Longrightarrow> mlf_rep (X - {p}) q s"
  by (auto simp: mlf_rep_def listed_def)

text \<open>A process outside the queues may change in every field, its priority staying in range.\<close>

lemma mlf_rep_upd:
  assumes "mlf_rep X q s" "unlisted q p" "unat (priority r) < MLFLEVELS"
    and "state r = RUNNABLE \<Longrightarrow> p \<in> X"
  shows "mlf_rep X q (s\<lparr>procs := (procs s)(p := r)\<rparr>)"
proof -
  have "is_queue ((procs s)(p := r)) (mlf s l) (q l)" if "l < MLFLEVELS" for l
  proof -
    have "is_queue ((procs s)(p := r)) (mlf s l) (q l) = is_queue (procs s) (mlf s l) (q l)"
      using assms(2) that by (intro is_queue_cong) (auto simp: unlisted_def)
    then show ?thesis using assms(1) that by (simp add: mlf_rep_def queues_def)
  qed
  then have "queues q (s\<lparr>procs := (procs s)(p := r)\<rparr>)"
    using assms(1,2) by (auto simp: mlf_rep_def queues_def queued_def unlisted_def)
  then show ?thesis
    using assms by (auto simp: mlf_rep_def prio_ok_def listed_def)
qed

section \<open>The interface of the ready queues\<close>

text \<open>
  What the scheduler relies on: a representation by one list per level, an operation that
  appends a process that is ready to be queued at its level, and one that takes the head of
  a level.  First-in first-out order of a level follows from the two laws alone.
\<close>

fun drain :: "('p, 's) kfun \<Rightarrow> nat \<Rightarrow> ('p list, 's) kfun" where
  "drain deq 0 = return []"
| "drain deq (Suc n) = bind deq (\<lambda>p. bind (drain deq n) (\<lambda>ps. return (p # ps)))"

locale ready_queues =
  fixes rep :: "(nat \<Rightarrow> 'p list) \<Rightarrow> 's \<Rightarrow> bool"
    and ready :: "(nat \<Rightarrow> 'p list) \<Rightarrow> 's \<Rightarrow> 'p \<Rightarrow> bool"
    and level :: "'s \<Rightarrow> 'p \<Rightarrow> nat"
    and nlevels :: nat
    and enq :: "'p \<Rightarrow> (unit, 's) kfun"
    and deq :: "nat \<Rightarrow> ('p, 's) kfun"
  assumes enq_law: "rep q s \<Longrightarrow> ready q s p \<Longrightarrow>
      \<exists>s'. enq p s = Ret () s' \<and> rep (q(level s p := q (level s p) @ [p])) s'"
    and deq_law: "rep q s \<Longrightarrow> l < nlevels \<Longrightarrow> q l = p # xs \<Longrightarrow>
      \<exists>s'. deq l s = Ret p s' \<and> rep (q(l := xs)) s'"
begin

lemma drain_fifo:
  assumes "rep q s" "l < nlevels" "q l = xs @ ys"
  shows "\<exists>s'. drain (deq l) (length xs) s = Ret xs s' \<and> rep (q(l := ys)) s'"
  using assms
proof (induction xs arbitrary: q s)
  case Nil
  then have "q(l := ys) = q" by auto
  with Nil show ?case by (simp add: kfun_simps)
next
  case (Cons p xs)
  then obtain s1 where s1: "deq l s = Ret p s1" "rep (q(l := xs @ ys)) s1"
    using deq_law [of q s l p "xs @ ys"] by (auto simp del: fun_upd_apply)
  then obtain s2 where "drain (deq l) (length xs) s1 = Ret xs s2" "rep (q(l := ys)) s2"
    using Cons.IH [OF s1(2) Cons.prems(2) fun_upd_same] by (auto simp del: fun_upd_apply)
  with s1(1) show ?case by (simp add: kfun_simps del: fun_upd_apply)
qed

lemma enq_last:
  assumes "rep q s" "ready q s p" "level s p < nlevels"
  shows "\<exists>s' s''. enq p s = Ret () s' \<and>
    drain (deq (level s p)) (Suc (length (q (level s p)))) s' = Ret (q (level s p) @ [p]) s'' \<and>
    rep (q(level s p := [])) s''"
proof -
  obtain s' where s': "enq p s = Ret () s'" "rep (q(level s p := q (level s p) @ [p])) s'"
    using enq_law [OF assms(1,2)] by auto
  then show ?thesis
    using drain_fifo [OF s'(2) assms(3), of "q (level s p) @ [p]" "[]"]
    by (auto simp del: fun_upd_apply drain.simps simp: fun_upd_same)
qed

end

interpretation mlfq: ready_queues queues
  "\<lambda>q s p. unlisted q p \<and> p < NPROC \<and> unat (priority (procs s p)) < MLFLEVELS"
  "\<lambda>s p. unat (priority (procs s p))" MLFLEVELS make_runnable unqueue
  by unfold_locales (use make_runnable_ret queues_made_runnable unqueue_ret queues_unqueued in blast)+

section \<open>Operations on the queues\<close>

text \<open>Two processes that differ at most in their queue link.\<close>

definition same_proc :: "proc \<Rightarrow> proc \<Rightarrow> bool" where
  "same_proc r r' \<longleftrightarrow> r'\<lparr>pnext := None\<rparr> = r\<lparr>pnext := None\<rparr>"

lemma same_proc_refl [simp]: "same_proc r r"
  by (simp add: same_proc_def)

lemma same_proc_trans: "same_proc a b \<Longrightarrow> same_proc b c \<Longrightarrow> same_proc a c"
  by (simp add: same_proc_def)

lemma same_proc_fields:
  assumes "same_proc r r'"
  shows "state r' = state r" "priority r' = priority r" "pchan r' = pchan r" "killed r' = killed r"
    "pid r' = pid r" "age r' = age r" "pgdir r' = pgdir r" "osemaphore r' = osemaphore r"
    "parent r' = parent r"
proof -
  have "f (r'\<lparr>pnext := None\<rparr>) = f (r\<lparr>pnext := None\<rparr>)" for f :: "proc \<Rightarrow> 'b"
    using assms by (simp add: same_proc_def)
  note eq = this
  show "state r' = state r" "priority r' = priority r" "pchan r' = pchan r" "killed r' = killed r"
    "pid r' = pid r" "age r' = age r" "pgdir r' = pgdir r" "osemaphore r' = osemaphore r"
    "parent r' = parent r"
    using eq [of state] eq [of priority] eq [of pchan] eq [of killed] eq [of pid] eq [of age]
      eq [of pgdir] eq [of osemaphore] eq [of parent] by simp_all
qed

lemma same_proc_link_tail [simp]: "same_proc (ps x) (link_tail p t ps x)"
  by (auto simp: same_proc_def link_tail_def split: option.split)

lemma made_runnable_same:
  "same_proc (if x = p then runnable_proc (procs s p) else procs s x) (procs (made_runnable p s) x)"
proof -
  have "same_proc (runnable_proc r) (runnable_proc r')" if "same_proc r r'" for r r'
  proof -
    have "runnable_proc r' = runnable_proc (r'\<lparr>pnext := None\<rparr>)"
      "runnable_proc r = runnable_proc (r\<lparr>pnext := None\<rparr>)" by (simp_all add: runnable_proc_def)
    then show ?thesis using that by (simp add: same_proc_def)
  qed
  then show ?thesis by (simp add: made_runnable_def Let_def)
qed

text \<open>
  Raising the head of a level: it goes to the tail of the next higher level.  On level 0,
  where \<open>l - 1\<close> is \<open>0\<close> again, it goes from the head to the tail of its own level.
\<close>

definition promote :: "nat \<Rightarrow> (nat \<Rightarrow> nat list) \<Rightarrow> nat \<Rightarrow> nat list" where
  "promote l q = (let q' = q(l := tl (q l)) in q'(l - 1 := q' (l - 1) @ [hd (q l)]))"

definition raise :: "proc \<Rightarrow> proc" where
  "raise r = (if unat (priority r) > MLFMAXPRIORITY then r\<lparr>priority := priority r - 1\<rparr> else r)"

lemma unat_pred: "0 < unat (x :: 16 word) \<Longrightarrow> unat (x - 1) = unat x - 1"
  by (metis unat_minus_one unat_eq_zero less_irrefl)

lemma raise_simps [simp]:
  "unat (priority (raise r)) = unat (priority r) - 1" "state (raise r) = state r"
  "age (raise r) = age r" "pchan (raise r) = pchan r" "pgdir (raise r) = pgdir r"
  by (auto simp: raise_def MLFMAXPRIORITY_def unat_pred)

definition raised_state :: "nat \<Rightarrow> 'a psys_scheme \<Rightarrow> 'a psys_scheme" where
  "raised_state p s = s\<lparr>procs := (procs s)(p := raise (procs s p))\<rparr>"

lemma raised_state_simps [simp]:
  "procs (raised_state p s) = (procs s)(p := raise (procs s p))"
  "cpu (raised_state p s) = cpu s" "locks (raised_state p s) = locks s"
  "curproc (raised_state p s) = curproc s"
  by (simp_all add: raised_state_def)

lemma raised_rep:
  assumes "mlf_rep X q s" "p \<in> X" "p < NPROC"
  shows "mlf_rep X q (raised_state p s)"
  unfolding raised_state_def
proof (rule mlf_rep_upd [OF assms(1)])
  show "unlisted q p" using assms by (simp add: mlf_rep_def)
  show "unat (priority (raise (procs s p))) < MLFLEVELS"
    using assms by (simp add: mlf_rep_def prio_ok_def less_imp_diff_less)
qed (use assms(2) in simp)

lemma levelupdate_rep:
  assumes "mlf_rep X q s" "q l = p # xs" "l < MLFLEVELS"
  shows "levelupdate p s = Ret () (made_runnable p (raised_state p (unqueued l s)))"
    and "mlf_rep X (promote l q) (made_runnable p (raised_state p (unqueued l s)))"
proof -
  have qs: "queues q s" using assms(1) by (simp add: mlf_rep_def)
  have p: "p < NPROC" "unat (priority (procs s p)) = l"
    using qs assms(2,3) by (auto simp: queues_def queued_def)
  have pX: "p \<notin> X" using assms by (force simp: mlf_rep_def unlisted_def)
  note u = unqueue_rep [OF assms(1,3,2)]
  have r: "mlf_rep (insert p X) (q(l := xs)) (raised_state p (unqueued l s))"
    using u(2) p(1) by (intro raised_rep) simp_all
  note m = make_runnable_rep [OF r insertI1 p(1)]
  have "levelupdate p s = make_runnable p (raised_state p (unqueued l s))"
    using p assms(3) u(1)
    by (simp add: levelupdate_def kfun_simps upd_proc_def raised_state_def raise_def unqueued_def)
  with m(1) show "levelupdate p s = Ret () (made_runnable p (raised_state p (unqueued l s)))" by simp
  have "promote l q = (q(l := xs))(l - 1 := (q(l := xs)) (l - 1) @ [p])"
    using assms(2) by (simp add: promote_def)
  with m(2) p(2) pX show "mlf_rep X (promote l q) (made_runnable p (raised_state p (unqueued l s)))"
    by (simp del: fun_upd_apply add: fun_upd_same)
qed

end
