(* ===== verification/Sched.thy ===== *)
theory Sched
  imports Mlf
begin

text \<open>
  The scheduler on top of the ready queues: aging, dispatch, \<^verbatim>\<open>yield\<close>, \<^verbatim>\<open>sleep\<close>, \<^verbatim>\<open>wakeup\<close> and
  \<^verbatim>\<open>kill\<close> each as an operation on the lists the queues represent, and the invariant that holds
  in every state reachable through them.
\<close>

section \<open>Aging\<close>

lemma mlf_rep_upd_same:
  assumes "mlf_rep X q s" "state r = state (procs s p)" "priority r = priority (procs s p)"
    and "pnext r = pnext (procs s p)"
  shows "mlf_rep X q (s\<lparr>procs := (procs s)(p := r)\<rparr>)"
proof -
  have "is_queue ((procs s)(p := r)) lv xs = is_queue (procs s) lv xs" for lv xs
    using assms(4) by (intro is_queue_cong) auto
  then show ?thesis
    using assms by (auto simp: mlf_rep_def queues_def prio_ok_def listed_def queued_def)
qed

definition aged_state :: "nat \<Rightarrow> 'a psys_scheme \<Rightarrow> 'a psys_scheme" where
  "aged_state p s = s\<lparr>procs := (procs s)(p := (procs s p)\<lparr>age := age (procs s p) + 1\<rparr>)\<rparr>"

lemma aged_state_simps [simp]:
  "procs (aged_state p s) = (procs s)(p := (procs s p)\<lparr>age := age (procs s p) + 1\<rparr>)"
  "mlf (aged_state p s) = mlf s" "cpu (aged_state p s) = cpu s" "locks (aged_state p s) = locks s"
  "curproc (aged_state p s) = curproc s"
  by (simp_all add: aged_state_def)

lemma aged_rep: "mlf_rep X q s \<Longrightarrow> mlf_rep X q (aged_state p s)"
  unfolding aged_state_def by (intro mlf_rep_upd_same) auto

lemma queues_first: "queues q s \<Longrightarrow> l < MLFLEVELS \<Longrightarrow> first (mlf s l) = (if q l = [] then None else Some (hd (q l)))"
  by (simp add: queues_def is_queue_def)

lemma rep_first_Nil: "mlf_rep X q s \<Longrightarrow> l < MLFLEVELS \<Longrightarrow> q l = [] \<Longrightarrow> first (mlf s l) = None"
  using queues_first [of q s l] by (simp add: mlf_rep_def)

lemma rep_first_Cons: "mlf_rep X q s \<Longrightarrow> l < MLFLEVELS \<Longrightarrow> q l = p # xs \<Longrightarrow> first (mlf s l) = Some p"
  using queues_first [of q s l] by (simp add: mlf_rep_def)

lemma rep_head:
  assumes "mlf_rep X q s" "l < MLFLEVELS" "q l = p # xs"
  shows "p < NPROC" "state (procs s p) = RUNNABLE" "unat (priority (procs s p)) = l"
  using assms by (auto simp: mlf_rep_def queues_def queued_def)

lemma age_level_empty: "mlf_rep X q s \<Longrightarrow> l < MLFLEVELS \<Longrightarrow> q l = [] \<Longrightarrow> age_level l s = Ret () s"
  using rep_first_Nil [of X q s l] by (simp add: age_level_def kfun_simps)

lemma age_level_young:
  assumes "mlf_rep X q s" "l < MLFLEVELS" "q l = p # xs"
    and "unat (age (procs s p) + 1) \<noteq> AGEFORAGINGS"
  shows "age_level l s = Ret () (aged_state p s)"
proof -
  have "first (mlf s l) = Some p" by (rule rep_first_Cons [OF assms(1-3)])
  with assms(4) show ?thesis
    by (simp add: age_level_def kfun_simps upd_proc_def aged_state_def)
qed

lemma age_level_old:
  assumes "mlf_rep X q s" "l < MLFLEVELS" "q l = p # xs"
    and "unat (age (procs s p) + 1) = AGEFORAGINGS"
  shows "age_level l s = Ret () (made_runnable p (raised_state p (unqueued l (aged_state p s))))"
proof -
  note first = rep_first_Cons [OF assms(1-3)] and prio = rep_head(3) [OF assms(1-3)]
  have "age_level l s = levelupdate p (aged_state p s)"
    using first prio assms(2,4)
    by (simp add: age_level_def kfun_simps upd_proc_def aged_state_def)
  also have "\<dots> = Ret () (made_runnable p (raised_state p (unqueued l (aged_state p s))))"
    by (rule levelupdate_rep(1) [OF aged_rep [OF assms(1)] assms(3,2)])
  finally show ?thesis .
qed

definition age_queues :: "nat \<Rightarrow> 'a psys_scheme \<Rightarrow> (nat \<Rightarrow> nat list) \<Rightarrow> nat \<Rightarrow> nat list" where
  "age_queues l s q = (if q l \<noteq> [] \<and> unat (age (procs s (hd (q l))) + 1) = AGEFORAGINGS
     then promote l q else q)"

text \<open>What one level's aging leaves alone, and how priorities move.\<close>

definition aged_from :: "nat \<Rightarrow> 'a psys_scheme \<Rightarrow> 'a psys_scheme \<Rightarrow> bool" where
  "aged_from l s s' \<longleftrightarrow> cpu s' = cpu s \<and> locks s' = locks s \<and> curproc s' = curproc s \<and>
     (\<forall>p. state (procs s' p) = state (procs s p) \<and> pgdir (procs s' p) = pgdir (procs s p) \<and>
        (unat (priority (procs s' p)) = unat (priority (procs s p)) \<or>
         unat (priority (procs s p)) = l \<and> unat (priority (procs s' p)) = l - 1))"

lemma age_level_rep:
  assumes "mlf_rep {} q s" "l < MLFLEVELS"
  shows "\<exists>s'. age_level l s = Ret () s' \<and> mlf_rep {} (age_queues l s q) s' \<and> aged_from l s s'"
proof (cases "q l")
  case Nil
  with assms show ?thesis by (simp add: age_level_empty age_queues_def aged_from_def)
next
  case (Cons p xs)
  show ?thesis
  proof (cases "unat (age (procs s p) + 1) = AGEFORAGINGS")
    case False
    with Cons show ?thesis
      using age_level_young [OF assms Cons False] aged_rep [OF assms(1)]
      by (auto simp: age_queues_def aged_from_def)
  next
    case True
    have p: "unat (priority (procs s p)) = l" "state (procs s p) = RUNNABLE"
      using rep_head [OF assms Cons] by auto
    let ?s' = "made_runnable p (raised_state p (unqueued l (aged_state p s)))"
    have "mlf_rep {} (promote l q) ?s'"
      by (rule levelupdate_rep(2) [OF aged_rep [OF assms(1)] Cons assms(2)])
    moreover have "aged_from l s ?s'" using p by (auto simp: aged_from_def)
    ultimately show ?thesis
      using age_level_old [OF assms Cons True] Cons True by (simp add: age_queues_def)
  qed
qed

lemma calculateaging_body:
  assumes "mlf_inv s"
  shows "\<exists>s'. for_each [MLFMAXPRIORITY..<MLFLEVELS] age_level s = Ret () s' \<and> mlf_inv s' \<and>
    cpu s' = cpu s \<and> locks s' = locks s \<and> curproc s' = curproc s \<and>
    (\<forall>p. state (procs s' p) = state (procs s p) \<and> pgdir (procs s' p) = pgdir (procs s p) \<and>
       unat (priority (procs s' p)) \<in> {unat (priority (procs s p)) - 1, unat (priority (procs s p))})"
proof -
  let ?I = "\<lambda>i s'. mlf_inv s' \<and> cpu s' = cpu s \<and> locks s' = locks s \<and> curproc s' = curproc s \<and>
    (\<forall>p. state (procs s' p) = state (procs s p) \<and> pgdir (procs s' p) = pgdir (procs s p) \<and>
       (i \<le> unat (priority (procs s' p)) \<longrightarrow> priority (procs s' p) = priority (procs s p)) \<and>
       unat (priority (procs s' p)) \<in> {unat (priority (procs s p)) - 1, unat (priority (procs s p))})"
  have "\<exists>s'. for_each [MLFMAXPRIORITY..<MLFLEVELS] age_level s = Ret () s' \<and> ?I MLFLEVELS s'"
  proof (rule for_each_upto)
    fix i t assume i: "MLFMAXPRIORITY \<le> i" "i < MLFLEVELS" and t: "?I i t"
    then obtain q where "mlf_rep {} q t" by (auto simp: mlf_inv_def)
    then obtain t' where t': "age_level i t = Ret () t'" "mlf_rep {} (age_queues i t q) t'" "aged_from i t t'"
      using age_level_rep [OF _ i(2)] by blast
    have "(Suc i \<le> unat (priority (procs t' p)) \<longrightarrow> priority (procs t' p) = priority (procs s p)) \<and>
       unat (priority (procs t' p)) \<in> {unat (priority (procs s p)) - 1, unat (priority (procs s p))}" for p
    proof -
      have "unat (priority (procs t' p)) = unat (priority (procs t p)) \<or>
         unat (priority (procs t p)) = i \<and> unat (priority (procs t' p)) = i - 1"
        using t'(3) by (simp add: aged_from_def)
      then show ?thesis
      proof
        assume "unat (priority (procs t' p)) = unat (priority (procs t p))"
        then have "priority (procs t' p) = priority (procs t p)" by (simp add: word_unat_eq_iff)
        then show ?thesis using t by (auto dest: spec [of _ p])
      next
        assume a: "unat (priority (procs t p)) = i \<and> unat (priority (procs t' p)) = i - 1"
        then have "priority (procs t p) = priority (procs s p)" using t by auto
        with a show ?thesis by auto
      qed
    qed
    then show "\<exists>t'. age_level i t = Ret () t' \<and> ?I (Suc i) t'"
      using t t' by (auto simp: mlf_inv_def aged_from_def)
  qed (use assms in \<open>auto simp: MLFMAXPRIORITY_def\<close>)
  then show ?thesis by blast
qed

lemma mlf_inv_cong: "procs s' = procs s \<Longrightarrow> mlf s' = mlf s \<Longrightarrow> mlf_inv s' = mlf_inv s"
  using mlf_rep_cong [of s' s] by (simp add: mlf_inv_def)

lemma locked_state_psys [simp]:
  "procs (locked_state l s) = procs s" "mlf (locked_state l s) = mlf s"
  "curproc (locked_state l s) = curproc s" "initproc (locked_state l s) = initproc s"
  "nextpid (locked_state l s) = nextpid s"
  by (simp_all add: locked_state_def)

lemma unlocked_state_psys [simp]:
  "procs (unlocked_state l s) = procs s" "mlf (unlocked_state l s) = mlf s"
  "curproc (unlocked_state l s) = curproc s" "initproc (unlocked_state l s) = initproc s"
  "nextpid (unlocked_state l s) = nextpid s"
  by (simp_all add: unlocked_state_def)

lemma mlf_rep_locked [simp]:
  "mlf_rep X q (locked_state l s) = mlf_rep X q s" "mlf_rep X q (unlocked_state l s) = mlf_rep X q s"
  by (rule mlf_rep_cong; simp)+

lemma mlf_inv_locked [simp]:
  "mlf_inv (locked_state l s) = mlf_inv s" "mlf_inv (unlocked_state l s) = mlf_inv s"
  by (simp_all add: mlf_inv_def)

lemma locks_other [simp]:
  "k \<noteq> l \<Longrightarrow> locks (locked_state l s) k = locks s k" "k \<noteq> l \<Longrightarrow> locks (unlocked_state l s) k = locks s k"
  by (simp_all add: locked_state_def unlocked_state_def)

lemma calculateaging_ret:
  assumes "mlf_inv s" "lock_free PtableLock s"
  shows "\<exists>s'. calculateaging s = Ret () s' \<and> mlf_inv s' \<and> lock_free PtableLock s' \<and>
    ncli (cpu s') = ncli (cpu s) \<and> curproc s' = curproc s \<and>
    (\<forall>p. state (procs s' p) = state (procs s p) \<and> pgdir (procs s' p) = pgdir (procs s p) \<and>
       unat (priority (procs s' p)) \<in> {unat (priority (procs s p)) - 1, unat (priority (procs s p))})"
proof -
  obtain t where t: "for_each [MLFMAXPRIORITY..<MLFLEVELS] age_level (locked_state PtableLock s) = Ret () t"
    "mlf_inv t" "cpu t = cpu (locked_state PtableLock s)" "locks t = locks (locked_state PtableLock s)"
    "curproc t = curproc s"
    "\<forall>p. state (procs t p) = state (procs s p) \<and> pgdir (procs t p) = pgdir (procs s p) \<and>
       unat (priority (procs t p)) \<in> {unat (priority (procs s p)) - 1, unat (priority (procs s p))}"
    using calculateaging_body [of "locked_state PtableLock s"] assms(1) by auto
  have "calculateaging s = Ret () (unlocked_state PtableLock t)"
    unfolding calculateaging_def by (rule with_lock_ret) (rule assms(2) t(1,3,4))+
  then show ?thesis
    using t lock_free_unlocked [OF assms(2) t(3)] by (auto simp: t(3))
qed

section \<open>wakeup\<close>

definition woken :: "chan \<Rightarrow> proc \<Rightarrow> proc" where
  "woken c r = (if state r = SLEEPING \<and> pchan r = Some c then runnable_proc (raise r) else r)"

definition extends :: "(nat \<Rightarrow> nat list) \<Rightarrow> (nat \<Rightarrow> nat list) \<Rightarrow> bool" where
  "extends q q' \<longleftrightarrow> (\<forall>l. \<exists>ys. q' l = q l @ ys)"

lemma extends_refl [simp]: "extends q q"
  by (simp add: extends_def)

lemma extends_trans: "extends q q' \<Longrightarrow> extends q' q'' \<Longrightarrow> extends q q''"
  unfolding extends_def by (metis append.assoc)

lemma extends_snoc [simp]: "extends q (q(l := q l @ xs))"
  by (simp add: extends_def)

lemma same_proc_woken: "same_proc r r' \<Longrightarrow> same_proc (woken c r) (woken c r')"
proof -
  assume s: "same_proc r r'"
  have "(woken c x)\<lparr>pnext := None\<rparr> = (woken c (x\<lparr>pnext := None\<rparr>))\<lparr>pnext := None\<rparr>" for x
    by (simp add: woken_def runnable_proc_def raise_def)
  from this [of r] this [of r'] s show ?thesis by (simp add: same_proc_def)
qed

lemma wake_slot_eq:
  "wake_slot c p s = (if state (procs s p) = SLEEPING \<and> pchan (procs s p) = Some c
     then make_runnable p (raised_state p s) else Ret () s)"
  by (simp add: wake_slot_def kfun_simps upd_proc_def raised_state_def raise_def MLFMAXPRIORITY_def
      word_less_nat_alt)

definition frame :: "'a psys_scheme \<Rightarrow> 'a psys_scheme \<Rightarrow> bool" where
  "frame s s' \<longleftrightarrow> cpu s' = cpu s \<and> locks s' = locks s \<and> curproc s' = curproc s"

lemma wake_slot_rep:
  assumes "mlf_rep {} q s" "p < NPROC"
  shows "\<exists>s' q'. wake_slot c p s = Ret () s' \<and> mlf_rep {} q' s' \<and> extends q q' \<and> frame s s' \<and>
    (\<forall>x. same_proc (if x = p then woken c (procs s x) else procs s x) (procs s' x))"
proof (cases "state (procs s p) = SLEEPING \<and> pchan (procs s p) = Some c")
  case True
  have r: "mlf_rep {p} q (raised_state p s)"
    using mlf_rep_insert [OF assms(1)] True assms(2) by (intro raised_rep) auto
  note m = make_runnable_rep [OF r singletonI assms(2)]
  have "same_proc (if x = p then woken c (procs s x) else procs s x)
      (procs (made_runnable p (raised_state p s)) x)" for x
    using made_runnable_same [of x p "raised_state p s"] True by (auto simp: woken_def split: if_splits)
  moreover have "wake_slot c p s = Ret () (made_runnable p (raised_state p s))"
    using True m(1) by (simp add: wake_slot_eq)
  moreover have "frame s (made_runnable p (raised_state p s))" by (simp add: frame_def)
  moreover have "{p} - {p} = {}" by simp
  ultimately show ?thesis using m(2) extends_snoc by metis
next
  case False
  then have "woken c (procs s p) = procs s p" by (auto simp: woken_def)
  with False assms(1) show ?thesis
    by (intro exI [of _ s] exI [of _ q]) (auto simp: wake_slot_eq frame_def)
qed

lemma wakeup1_rep:
  assumes "mlf_rep {} q s"
  shows "\<exists>s' q'. wakeup1 c s = Ret () s' \<and> mlf_rep {} q' s' \<and> extends q q' \<and> frame s s' \<and>
    (\<forall>x<NPROC. same_proc (woken c (procs s x)) (procs s' x))"
proof -
  let ?I = "\<lambda>i t. frame s t \<and> (\<exists>q'. mlf_rep {} q' t \<and> extends q q') \<and>
     (\<forall>x. same_proc (if x < i then woken c (procs s x) else procs s x) (procs t x))"
  have "\<exists>t. for_each [0..<NPROC] (wake_slot c) s = Ret () t \<and> ?I NPROC t"
  proof (rule for_each_upto)
    fix i t assume i: "i < NPROC" and t: "?I i t"
    then obtain q' where q': "mlf_rep {} q' t" "extends q q'" by blast
    then obtain t' q'' where t': "wake_slot c i t = Ret () t'" "mlf_rep {} q'' t'" "extends q' q''"
      "frame t t'" "\<forall>x. same_proc (if x = i then woken c (procs t x) else procs t x) (procs t' x)"
      using wake_slot_rep [OF q'(1) i, of c] by blast
    have "same_proc (if x < Suc i then woken c (procs s x) else procs s x) (procs t' x)" for x
    proof (cases "x = i")
      case True
      then have "same_proc (procs s i) (procs t i)" using t by (auto dest: spec [of _ i])
      then have "same_proc (woken c (procs s i)) (woken c (procs t i))" by (rule same_proc_woken)
      moreover have "same_proc (woken c (procs t i)) (procs t' i)" using spec [OF t'(5), of i] by simp
      ultimately show ?thesis using True by (auto intro: same_proc_trans)
    next
      case False
      then have "same_proc (procs t x) (procs t' x)" using t'(5) by (auto dest: spec [of _ x])
      moreover have "same_proc (if x < Suc i then woken c (procs s x) else procs s x) (procs t x)"
        using t False by (auto simp: less_Suc_eq dest: spec [of _ x])
      ultimately show ?thesis by (rule same_proc_trans [rotated])
    qed
    moreover have "frame s t'" using t t'(4) by (simp add: frame_def)
    ultimately show "\<exists>t'. wake_slot c i t = Ret () t' \<and> ?I (Suc i) t'"
      using t' extends_trans [OF q'(2) t'(3)] by blast
  qed (use assms in \<open>auto simp: frame_def\<close>)
  then obtain t q' where "for_each [0..<NPROC] (wake_slot c) s = Ret () t" "frame s t"
    "mlf_rep {} q' t" "extends q q'"
    "\<forall>x. same_proc (if x < NPROC then woken c (procs s x) else procs s x) (procs t x)" by blast
  then show ?thesis
    unfolding wakeup1_def by (intro exI [of _ t] exI [of _ q']) (auto dest: spec split: if_splits)
qed

lemma wakeup_ret:
  assumes "mlf_rep {} q s" "lock_free PtableLock s"
  shows "\<exists>s' q'. wakeup c s = Ret () s' \<and> mlf_rep {} q' s' \<and> extends q q' \<and>
    lock_free PtableLock s' \<and> ncli (cpu s') = ncli (cpu s) \<and> curproc s' = curproc s \<and>
    (\<forall>k. k \<noteq> PtableLock \<longrightarrow> locks s' k = locks s k) \<and>
    (\<forall>x<NPROC. same_proc (woken c (procs s x)) (procs s' x))"
proof -
  obtain t q' where t: "wakeup1 c (locked_state PtableLock s) = Ret () t" "mlf_rep {} q' t"
    "extends q q'" "frame (locked_state PtableLock s) t"
    "\<forall>x<NPROC. same_proc (woken c (procs s x)) (procs t x)"
    using wakeup1_rep [of q "locked_state PtableLock s" c] assms(1) by auto
  then have f: "cpu t = cpu (locked_state PtableLock s)" "locks t = locks (locked_state PtableLock s)"
    by (simp_all add: frame_def)
  have "wakeup c s = Ret () (unlocked_state PtableLock t)"
    unfolding wakeup_def by (rule with_lock_ret) (rule assms(2) t(1) f)+
  then show ?thesis
    using t lock_free_unlocked [OF assms(2) f(1)] f
    by (intro exI [of _ "unlocked_state PtableLock t"] exI [of _ q']) (simp add: frame_def)
qed

section \<open>kill\<close>

definition killed_proc :: "proc \<Rightarrow> proc" where
  "killed_proc r = (if state r = SLEEPING then runnable_proc (r\<lparr>killed := True\<rparr>)
     else r\<lparr>killed := True\<rparr>)"

lemma kill_none:
  assumes "lock_free PtableLock s" "\<forall>p<NPROC. pid (procs s p) \<noteq> n"
  shows "kill n s = Ret (- 1) (unlocked_state PtableLock (locked_state PtableLock s))"
proof -
  have "first_index NPROC (\<lambda>p. pid (procs s p) = n) = None" using assms(2) by (simp add: first_index_None)
  then show ?thesis
    unfolding kill_def by (intro with_lock_ret [OF assms(1)]) (simp_all add: kfun_simps kill_locked_def)
qed

lemma kill_some:
  assumes "mlf_rep {} q s" "lock_free PtableLock s" "first_index NPROC (\<lambda>p. pid (procs s p) = n) = Some p"
  shows "\<exists>s' q'. kill n s = Ret 0 s' \<and> mlf_rep {} q' s' \<and> extends q q' \<and>
    lock_free PtableLock s' \<and> ncli (cpu s') = ncli (cpu s) \<and> curproc s' = curproc s \<and>
    (\<forall>x. same_proc (if x = p then killed_proc (procs s x) else procs s x) (procs s' x))"
proof -
  let ?s = "locked_state PtableLock s"
  let ?k = "?s\<lparr>procs := (procs s)(p := (procs s p)\<lparr>killed := True\<rparr>)\<rparr>"
  have p: "p < NPROC" using first_index_Some [OF assms(3)] by simp
  have k: "mlf_rep {} q ?k" using mlf_rep_upd_same [of "{}" q ?s] assms(1) by simp
  have "\<exists>t q'. kill_locked n ?s = Ret 0 t \<and> mlf_rep {} q' t \<and> extends q q' \<and> frame ?s t \<and>
     (\<forall>x. same_proc (if x = p then killed_proc (procs s x) else procs s x) (procs t x))"
  proof (cases "state (procs s p) = SLEEPING")
    case True
    then have k': "mlf_rep {p} q ?k" using mlf_rep_insert [OF k] by simp
    note m = make_runnable_rep [OF k' singletonI p]
    have "same_proc (if x = p then killed_proc (procs s x) else procs s x) (procs (made_runnable p ?k) x)" for x
      using made_runnable_same [of x p ?k] True by (auto simp: killed_proc_def split: if_splits)
    moreover have "kill_locked n ?s = Ret 0 (made_runnable p ?k)"
      using True m(1) assms(3) by (simp add: kfun_simps upd_proc_def kill_locked_def)
    moreover have "frame ?s (made_runnable p ?k)" by (simp add: frame_def)
    moreover have "{p} - {p} = {}" by simp
    ultimately show ?thesis using m(2) extends_snoc by metis
  next
    case False
    then show ?thesis
      using k assms(3)
      by (intro exI [of _ ?k] exI [of _ q]) (auto simp: kfun_simps upd_proc_def frame_def killed_proc_def kill_locked_def)
  qed
  then obtain t q' where t: "kill_locked n ?s = Ret 0 t" "mlf_rep {} q' t" "extends q q'" "frame ?s t"
    "\<forall>x. same_proc (if x = p then killed_proc (procs s x) else procs s x) (procs t x)" by blast
  then have f: "cpu t = cpu ?s" "locks t = locks ?s" by (simp_all add: frame_def)
  have "kill n s = Ret 0 (unlocked_state PtableLock t)"
    unfolding kill_def by (rule with_lock_ret) (rule assms(2) t(1) f)+
  then show ?thesis
    using t lock_free_unlocked [OF assms(2) f(1)] f(1)
    by (intro exI [of _ "unlocked_state PtableLock t"] exI [of _ q']) (simp add: frame_def)
qed

section \<open>Dispatch\<close>

lemma pick_level_eq:
  assumes "queues q s"
  shows "pick_level s = first_index MLFLEVELS (\<lambda>l. q l \<noteq> [])"
proof -
  have "scan (\<lambda>l. first (mlf s l) \<noteq> None) ls = scan (\<lambda>l. q l \<noteq> []) ls"
    if "\<forall>l\<in>set ls. l < MLFLEVELS" for ls
    using that queues_first [OF assms] by (induction ls) auto
  then show ?thesis by (simp add: pick_level_def first_index_def MLFMAXPRIORITY_def)
qed

lemma switchuvm_ret:
  assumes "cpu_ok (cpu s)" "curproc s = Some c" "pgdir (procs s p) \<noteq> 0"
  shows "switchuvm p s = Ret () (s\<lparr>cpu := popcli_cpu (pushcli_cpu (cpu s)),
    tss_esp0 := kstack (procs s c) + of_nat KSTACKSIZE, cr3 := v2p (pgdir (procs s p))\<rparr>)"
proof -
  have "cpu_ok (pushcli_cpu (cpu s))" "0 < ncli (pushcli_cpu (cpu s))"
    using assms(1) pushcli_ok by (auto simp: cpu_ok_def)
  then show ?thesis
    using assms(2,3) by (simp add: switchuvm_def kfun_simps pushcli_def lcr3_def popcli_ret)
qed

lemma switchuvm_no_pgdir:
  "curproc s = Some c \<Longrightarrow> pgdir (procs s p) = 0 \<Longrightarrow> switchuvm p s = Panic ''switchuvm: no pgdir''"
  by (simp add: switchuvm_def kfun_simps pushcli_def)

definition idle :: "'a psys_scheme \<Rightarrow> bool" where
  "idle s \<longleftrightarrow> ncli (cpu s) = 0 \<and> locked (locks s PtableLock) = 0"

lemma idle_lock_free: "idle s \<Longrightarrow> lock_free PtableLock s"
  by (simp add: idle_def lock_free_def cpu_ok_def)

lemma sti_lock_free: "idle s \<Longrightarrow> lock_free PtableLock (s\<lparr>cpu := (cpu s)\<lparr>iflag := True\<rparr>\<rparr>)"
  by (simp add: idle_def lock_free_def cpu_ok_def)

text \<open>The state a context switch happens in: the process lock is held, once, interrupts off.\<close>

definition switching :: "'a psys_scheme \<Rightarrow> bool" where
  "switching s \<longleftrightarrow> holding PtableLock s \<and> ncli (cpu s) = 1 \<and> \<not> iflag (cpu s)"

lemma switching_release:
  assumes "switching s"
  shows "release PtableLock s = Ret () (unlocked_state PtableLock s)" "idle (unlocked_state PtableLock s)"
  using assms by (auto simp: switching_def idle_def cpu_ok_def intro: release_ret)

lemma locked_switching: "idle s \<Longrightarrow> switching (locked_state PtableLock s)"
  by (simp add: switching_def idle_def)

lemma scheduler_pick_none:
  assumes "mlf_rep {} q s" "idle s" "\<forall>l<MLFLEVELS. q l = []"
  shows "\<exists>s'. scheduler_pick s = Ret None s' \<and> idle s' \<and> procs s' = procs s \<and> mlf s' = mlf s \<and>
    curproc s' = curproc s"
proof -
  let ?s = "s\<lparr>cpu := (cpu s)\<lparr>iflag := True\<rparr>\<rparr>"
  have i: "idle ?s" using assms(2) by (simp add: idle_def)
  have "queues q (locked_state PtableLock ?s)"
    using assms(1) mlf_rep_cong [of ?s s "{}" q] by (simp add: mlf_rep_def queues_def queued_def)
  then have "pick_level (locked_state PtableLock ?s) = None"
    using assms(3) by (simp add: pick_level_eq first_index_None)
  then show ?thesis
    using switching_release [OF locked_switching [OF i]] acquire_ret [OF sti_lock_free [OF assms(2)]]
    by (simp add: scheduler_pick_def kfun_simps)
qed

lemma scheduler_pick_some:
  assumes "mlf_rep {} q s" "idle s" "first_index MLFLEVELS (\<lambda>l. q l \<noteq> []) = Some l" "q l = p # xs"
    and "pgdir (procs s p) \<noteq> 0"
  shows "\<exists>s'. scheduler_pick s = Ret (Some p) s' \<and> mlf_rep {} (q(l := xs)) s' \<and> switching s' \<and>
    curproc s' = Some p \<and> procs s' = (procs s)(p := (procs s p)\<lparr>state := RUNNING\<rparr>) \<and>
    cr3 s' = v2p (pgdir (procs s p)) \<and> (\<forall>k. k \<noteq> PtableLock \<longrightarrow> locks s' k = locks s k)"
proof -
  let ?s = "s\<lparr>cpu := (cpu s)\<lparr>iflag := True\<rparr>\<rparr>"
  let ?t = "locked_state PtableLock ?s"
  let ?u = "(unqueued l ?t)\<lparr>curproc := Some p\<rparr>"
  let ?v = "?u\<lparr>cpu := popcli_cpu (pushcli_cpu (cpu ?u)),
    tss_esp0 := kstack (procs ?u p) + of_nat KSTACKSIZE, cr3 := v2p (pgdir (procs ?u p))\<rparr>"
  let ?w = "?v\<lparr>procs := (procs s)(p := (procs s p)\<lparr>state := RUNNING\<rparr>)\<rparr>"
  have l: "l < MLFLEVELS" using first_index_Some [OF assms(3)] by simp
  have t: "mlf_rep {} q ?t" using assms(1) mlf_rep_cong [of ?s s "{}" q] by simp
  have i: "idle ?s" using assms(2) by (simp add: idle_def)
  then have sw: "switching ?t" by (rule locked_switching)
  note u = unqueue_rep [OF t l assms(4)]
  have "cpu_ok (cpu ?u)" using sw by (simp add: switching_def cpu_ok_def)
  then have v: "switchuvm p ?u = Ret () ?v"
    by (rule switchuvm_ret) (use assms(5) in simp_all)
  have "pick_level ?t = Some l"
    using t assms(3) pick_level_eq [of q ?t] by (simp add: mlf_rep_def)
  then have "scheduler_pick s = Ret (Some p) ?w"
    using acquire_ret [OF sti_lock_free [OF assms(2)]] u(1) v
    by (simp add: scheduler_pick_def kfun_simps upd_proc_def)
  moreover have "mlf_rep {p} (q(l := xs)) ?v"
    using u(2) mlf_rep_cong [of ?v "unqueued l ?t"] by simp
  then have "mlf_rep {p} (q(l := xs)) (?v\<lparr>procs := (procs ?v)(p := (procs s p)\<lparr>state := RUNNING\<rparr>)\<rparr>)"
    using rep_head [OF assms(1) l assms(4)] l
    by (intro mlf_rep_upd) (auto simp: mlf_rep_def)
  then have "mlf_rep ({p} - {p}) (q(l := xs)) ?w"
    by (intro mlf_rep_delete) simp_all
  moreover have "switching ?w"
    using sw i by (simp add: switching_def idle_def holding_def popcli_cpu_def pushcli_cpu_def)
  ultimately show ?thesis by (intro exI [of _ ?w]) simp
qed

section \<open>Leaving the CPU\<close>

lemma sched_ret:
  "switching s \<Longrightarrow> curproc s = Some p \<Longrightarrow> state (procs s p) \<noteq> RUNNING \<Longrightarrow> sched s = Ret () s"
  by (simp add: sched_def with_proc_def kfun_simps switching_def)

definition lower :: "proc \<Rightarrow> proc" where
  "lower r = (if unat (priority r) < MLFLEVELS - 1 then r\<lparr>priority := priority r + 1\<rparr> else r)"

lemma lower_simps [simp]:
  "state (lower r) = state r" "unat (priority r) < MLFLEVELS \<Longrightarrow>
     unat (priority (lower r)) = min (unat (priority r) + 1) (MLFLEVELS - 1)"
proof -
  show "state (lower r) = state r" by (simp add: lower_def)
  assume "unat (priority r) < MLFLEVELS"
  moreover have "unat (priority r + 1) = unat (priority r) + 1" if "unat (priority r) < MLFLEVELS - 1"
    using that by (simp add: unat_word_ariths MLFLEVELS_def)
  ultimately show "unat (priority (lower r)) = min (unat (priority r) + 1) (MLFLEVELS - 1)"
    by (auto simp: lower_def min_def MLFLEVELS_def)
qed

lemma made_runnable_switching [simp]: "switching (made_runnable p s) = switching s"
  by (simp add: switching_def holding_def)

lemma yield_ret:
  assumes "mlf_rep {} q s" "idle s" "curproc s = Some p" "p < NPROC" "state (procs s p) = RUNNING"
    and "k = min (unat (priority (procs s p)) + 1) (MLFLEVELS - 1)"
  shows "\<exists>s'. yield s = Ret () s' \<and> mlf_rep {} (q(k := q k @ [p])) s' \<and> switching s' \<and>
    curproc s' = Some p \<and>
    (\<forall>x. same_proc (if x = p then runnable_proc (lower (procs s p)) else procs s x) (procs s' x))"
proof -
  let ?t = "locked_state PtableLock s"
  let ?u = "?t\<lparr>procs := (procs s)(p := lower (procs s p))\<rparr>"
  have prio: "unat (priority (procs s p)) < MLFLEVELS"
    using assms(1,4) by (simp add: mlf_rep_def prio_ok_def)
  then have k: "unat (priority (procs ?u p)) = k" "k < MLFLEVELS"
    using assms(6) by (auto simp: MLFLEVELS_def)
  have t: "mlf_rep {p} q ?t" using assms(1,5) mlf_rep_insert [of "{}" q ?t p] by simp
  then have "mlf_rep {p} q (?t\<lparr>procs := (procs ?t)(p := lower (procs s p))\<rparr>)"
    using k assms(5) by (intro mlf_rep_upd) (auto simp: mlf_rep_def)
  then have u: "mlf_rep {p} q ?u" by simp
  note m = make_runnable_rep [OF u singletonI assms(4)]
  have sw: "switching (made_runnable p ?u)"
    using locked_switching [OF assms(2)] by (simp add: switching_def holding_def)
  then have "sched (made_runnable p ?u) = Ret () (made_runnable p ?u)"
    using assms(3) by (intro sched_ret) auto
  then have "yield s = Ret () (made_runnable p ?u)"
    using m(1) assms(3) acquire_ret [OF idle_lock_free [OF assms(2)]]
    by (cases "unat (priority (procs s p)) < MLFLEVELS - 1")
      (simp_all add: yield_def kfun_simps with_proc_def upd_proc_def lower_def)
  moreover have "mlf_rep {} (q(k := q k @ [p])) (made_runnable p ?u)"
    using m(2) k(1) by simp
  moreover have "same_proc (if x = p then runnable_proc (lower (procs s p)) else procs s x)
      (procs (made_runnable p ?u) x)" for x
    using made_runnable_same [of x p ?u] by (auto split: if_splits)
  ultimately show ?thesis using sw assms(3) by (intro exI [of _ "made_runnable p ?u"]) simp
qed

lemma scheduler_resume_ret:
  assumes "switching s"
  shows "\<exists>s'. scheduler_resume s = Ret () s' \<and> idle s' \<and> procs s' = procs s \<and> mlf s' = mlf s \<and>
    curproc s' = None \<and> cr3 s' = v2p (kpgdir s) \<and> (\<forall>k. k \<noteq> PtableLock \<longrightarrow> locks s' k = locks s k)"
proof -
  let ?t = "s\<lparr>cr3 := v2p (kpgdir s), curproc := None\<rparr>"
  have "switching ?t" using assms by (simp add: switching_def holding_def)
  from switching_release [OF this] show ?thesis
    by (simp add: scheduler_resume_def kfun_simps switchkvm_def lcr3_def unlocked_state_def)
qed

lemma rep_prio: "mlf_rep X q s \<Longrightarrow> p < NPROC \<Longrightarrow> unat (priority (procs s p)) < MLFLEVELS"
  by (simp add: mlf_rep_def prio_ok_def)

definition asleep :: "chan \<Rightarrow> proc \<Rightarrow> proc" where
  "asleep c r = r\<lparr>pchan := Some c, state := SLEEPING\<rparr>"

lemma sleep_ptable_ret:
  assumes "mlf_rep {} q s" "switching s" "curproc s = Some p" "p < NPROC" "state (procs s p) = RUNNING"
  shows "\<exists>s'. sleep c PtableLock s = Sleep c s' \<and> mlf_rep {} q s' \<and> switching s' \<and> curproc s' = Some p \<and>
    procs s' = (procs s)(p := asleep c (procs s p))"
proof -
  let ?t = "s\<lparr>procs := (procs s)(p := asleep c (procs s p))\<rparr>"
  have sw: "switching ?t" using assms(2) by (simp add: switching_def holding_def)
  then have "sched ?t = Ret () ?t" using assms(3) by (intro sched_ret) (auto simp: asleep_def)
  then have "sleep c PtableLock s = Sleep c ?t"
    using assms(3) by (simp add: sleep_def kfun_simps upd_proc_def asleep_def)
  moreover have "mlf_rep {} q ?t"
    using assms(1,4,5) by (intro mlf_rep_upd)
      (auto simp: asleep_def mlf_rep_def prio_ok_def intro: not_runnable_unlisted)
  ultimately show ?thesis using sw assms(3) by (intro exI [of _ ?t]) simp
qed

text \<open>
  \<^verbatim>\<open>sleep\<close> with another lock: the process lock is taken before that lock is given up, so no
  wakeup falls between.
\<close>

lemma sleep_swap:
  assumes "lk \<noteq> PtableLock" "holding lk s" "ncli (cpu s) = 1" "\<not> iflag (cpu s)"
    and "locked (locks s PtableLock) = 0"
  shows "seq (acquire PtableLock) (release lk) s = Ret () (unlocked_state lk (locked_state PtableLock s))"
    and "switching (unlocked_state lk (locked_state PtableLock s))"
proof -
  have ok: "cpu_ok (cpu s)" using assms(3,4) by (simp add: cpu_ok_def)
  have "holding lk (locked_state PtableLock s)"
    using assms(1,2) by (simp add: holding_def locked_state_def holding_lk_def)
  then show "seq (acquire PtableLock) (release lk) s = Ret () (unlocked_state lk (locked_state PtableLock s))"
    using assms ok by (simp add: kfun_simps acquire_ret lock_free_def release_ret pushcli_ok)
  show "switching (unlocked_state lk (locked_state PtableLock s))"
    using assms by (simp add: switching_def holding_def holding_lk_def unlocked_state_def
        locked_state_def popcli_cpu_def)
qed

lemma sleep_other_ret:
  assumes "mlf_rep {} q s" "lk \<noteq> PtableLock" "holding lk s" "ncli (cpu s) = 1" "\<not> iflag (cpu s)"
    and "locked (locks s PtableLock) = 0"
    and "curproc s = Some p" "p < NPROC" "state (procs s p) = RUNNING"
  shows "\<exists>s'. sleep c lk s = Sleep c s' \<and> mlf_rep {} q s' \<and> switching s' \<and> curproc s' = Some p \<and>
    procs s' = (procs s)(p := asleep c (procs s p)) \<and> locked (locks s' lk) = 0"
proof -
  let ?t = "unlocked_state lk (locked_state PtableLock s)"
  note sw = sleep_swap [OF assms(2-6)]
  let ?u = "?t\<lparr>procs := (procs s)(p := asleep c (procs s p))\<rparr>"
  have swu: "switching ?u" using sw(2) by (simp add: switching_def holding_def)
  then have "sched ?u = Ret () ?u" using assms(7) by (intro sched_ret) (auto simp: asleep_def)
  then have "sleep c lk s = Sleep c ?u"
    using assms(2,7) sw(1) by (simp add: sleep_def kfun_simps upd_proc_def asleep_def)
  moreover have "mlf_rep {} q (?t\<lparr>procs := (procs ?t)(p := asleep c (procs s p))\<rparr>)"
    using assms(1,8,9) rep_prio [OF assms(1,8)]
      not_runnable_unlisted [of q s p] mlf_rep_def [of "{}" q s]
    by (intro mlf_rep_upd) (auto simp: asleep_def)
  ultimately show ?thesis using swu assms(7) by (intro exI [of _ ?u]) simp
qed

end
