(* ===== verification/Reach.thy ===== *)
theory Reach
  imports Sched
begin

text \<open>
  The scheduler as a state machine.  A step of \<open>sched_step\<close> is one of the operations of
  \<^verbatim>\<open>proc.c\<close> on the process table, run by the current process or by the scheduler of one CPU:
  creating, starting, killing, waking, aging, dispatching, yielding, sleeping, exiting and
  reaping processes.  \<open>sched_ok\<close> is the invariant of its reachable states: the ready queues
  hold exactly the runnable processes, the running process is the current one, and every
  process that can be dispatched has a page directory.
\<close>

section \<open>The invariant\<close>

definition alive :: "procstate \<Rightarrow> bool" where
  "alive st \<longleftrightarrow> st = RUNNABLE \<or> st = RUNNING \<or> st = SLEEPING"

definition procs_ok :: "'a psys_scheme \<Rightarrow> bool" where
  "procs_ok s \<longleftrightarrow> (\<forall>p<NPROC. (state (procs s p) = RUNNING \<longleftrightarrow> curproc s = Some p) \<and>
     (alive (state (procs s p)) \<longrightarrow> pgdir (procs s p) \<noteq> 0)) \<and>
   (\<forall>p. curproc s = Some p \<longrightarrow> p < NPROC)"

definition sched_ok :: "'a psys_scheme \<Rightarrow> bool" where
  "sched_ok s \<longleftrightarrow> mlf_inv s \<and> idle s \<and> procs_ok s"

text \<open>Steps that at most wake sleeping processes.\<close>

definition wakes :: "'a psys_scheme \<Rightarrow> 'a psys_scheme \<Rightarrow> bool" where
  "wakes s s' \<longleftrightarrow> curproc s' = curproc s \<and> (\<forall>x<NPROC. pgdir (procs s' x) = pgdir (procs s x) \<and>
     (state (procs s' x) = state (procs s x) \<or>
      state (procs s x) = SLEEPING \<and> state (procs s' x) = RUNNABLE))"

lemma wakes_refl [simp]: "wakes s s"
  by (simp add: wakes_def)

lemma wakes_trans: "wakes s t \<Longrightarrow> wakes t u \<Longrightarrow> wakes s u"
  unfolding wakes_def by metis

lemma wakes_procs_ok: "wakes s s' \<Longrightarrow> procs_ok s \<Longrightarrow> procs_ok s'"
  unfolding wakes_def procs_ok_def alive_def by (metis procstate.distinct(20,22,26))

lemma free_idle: "lock_free PtableLock s' \<Longrightarrow> ncli (cpu s') = 0 \<Longrightarrow> idle s'"
  by (simp add: idle_def lock_free_def)

lemma woken_state:
  "state (woken c r) = (if state r = SLEEPING \<and> pchan r = Some c then RUNNABLE else state r)"
  "pgdir (woken c r) = pgdir r"
  by (simp_all add: woken_def runnable_proc_def raise_def)

lemma same_woken_wakes:
  assumes "\<forall>x<NPROC. same_proc (woken c (procs s x)) (procs s' x)" "curproc s' = curproc s"
  shows "wakes s s'"
proof -
  have "state (procs s' x) = state (woken c (procs s x)) \<and> pgdir (procs s' x) = pgdir (procs s x)"
    if "x < NPROC" for x
    using assms(1) that same_proc_fields(1,7) [of "woken c (procs s x)" "procs s' x"]
    by (simp add: woken_state)
  then show ?thesis using assms(2) by (simp add: wakes_def woken_state)
qed

section \<open>Preservation\<close>

lemma sched_ok_idle: "sched_ok s \<Longrightarrow> ncli (cpu s) = 0 \<and> lock_free PtableLock s"
  by (simp add: sched_ok_def idle_def lock_free_def cpu_ok_def)

lemma wakeup_sched_ok:
  assumes "sched_ok s"
  shows "\<exists>s'. wakeup c s = Ret () s' \<and> sched_ok s'"
proof -
  obtain q where q: "mlf_rep {} q s" using assms by (auto simp: sched_ok_def mlf_inv_def)
  obtain s' q' where s': "wakeup c s = Ret () s'" "mlf_rep {} q' s'" "lock_free PtableLock s'"
    "ncli (cpu s') = ncli (cpu s)" "curproc s' = curproc s"
    "\<forall>x<NPROC. same_proc (woken c (procs s x)) (procs s' x)"
    using wakeup_ret [OF q] sched_ok_idle [OF assms] by blast
  then have "wakes s s'" by (intro same_woken_wakes)
  then have "sched_ok s'"
    using s' assms sched_ok_idle [OF assms] wakes_procs_ok [of s s']
    by (auto simp: sched_ok_def mlf_inv_def intro: free_idle)
  with s'(1) show ?thesis by blast
qed

lemma kill_sched_ok:
  assumes "sched_ok s"
  shows "\<exists>r s'. kill n s = Ret r s' \<and> sched_ok s'"
proof (cases "first_index NPROC (\<lambda>p. pid (procs s p) = n)")
  case None
  let ?s = "unlocked_state PtableLock (locked_state PtableLock s)"
  have "kill n s = Ret (- 1) ?s"
    using None sched_ok_idle [OF assms] by (intro kill_none) (auto simp: first_index_None)
  moreover have "sched_ok ?s"
    using assms lock_free_unlocked [of PtableLock s "locked_state PtableLock s"] sched_ok_idle [OF assms]
    by (auto simp: sched_ok_def procs_ok_def intro!: free_idle)
  ultimately show ?thesis by blast
next
  case (Some p)
  obtain q where q: "mlf_rep {} q s" using assms by (auto simp: sched_ok_def mlf_inv_def)
  obtain s' q' where s': "kill n s = Ret 0 s'" "mlf_rep {} q' s'" "lock_free PtableLock s'"
    "ncli (cpu s') = ncli (cpu s)" "curproc s' = curproc s"
    "\<forall>x. same_proc (if x = p then killed_proc (procs s x) else procs s x) (procs s' x)"
    using kill_some [OF q _ Some] sched_ok_idle [OF assms] by blast
  have "wakes s s'"
    unfolding wakes_def
  proof (intro conjI allI impI s'(5))
    fix x
    have "same_proc (if x = p then killed_proc (procs s x) else procs s x) (procs s' x)" using s'(6) ..
    from same_proc_fields(1,7) [OF this] show "pgdir (procs s' x) = pgdir (procs s x)"
      "state (procs s' x) = state (procs s x) \<or> state (procs s x) = SLEEPING \<and> state (procs s' x) = RUNNABLE"
      by (auto simp: killed_proc_def runnable_proc_def split: if_splits)
  qed
  then have "sched_ok s'"
    using s' assms sched_ok_idle [OF assms] wakes_procs_ok [of s s']
    by (auto simp: sched_ok_def mlf_inv_def intro: free_idle)
  with s'(1) show ?thesis by blast
qed

lemma aging_sched_ok:
  assumes "sched_ok s"
  shows "\<exists>s'. calculateaging s = Ret () s' \<and> sched_ok s'"
proof -
  obtain s' where s': "calculateaging s = Ret () s'" "mlf_inv s'" "lock_free PtableLock s'"
    "ncli (cpu s') = ncli (cpu s)" "curproc s' = curproc s"
    "\<forall>p. state (procs s' p) = state (procs s p) \<and> pgdir (procs s' p) = pgdir (procs s p)"
    using calculateaging_ret [of s] assms sched_ok_idle [OF assms] by (auto simp: sched_ok_def)
  then have "sched_ok s'"
    using assms sched_ok_idle [OF assms] by (auto simp: sched_ok_def procs_ok_def intro: free_idle)
  with s'(1) show ?thesis by blast
qed

text \<open>A process chosen by the scheduler returns from \<^verbatim>\<open>sched\<close> and releases the process lock.\<close>

lemma dispatch_sched_ok:
  assumes "sched_ok s" "curproc s = None" "\<exists>p<NPROC. state (procs s p) = RUNNABLE"
  shows "\<exists>p t s'. scheduler_pick s = Ret (Some p) t \<and> yield_resume t = Ret () s' \<and> sched_ok s' \<and>
    curproc s' = Some p \<and> state (procs s p) = RUNNABLE \<and> s' = unlocked_state PtableLock t \<and> switching t \<and>
    p < NPROC \<and> procs t = (procs s)(p := (procs s p)\<lparr>state := RUNNING\<rparr>) \<and>
    (\<forall>k. k \<noteq> PtableLock \<longrightarrow> locks t k = locks s k) \<and>
    (\<forall>x<NPROC. state (procs s x) = RUNNABLE \<longrightarrow> priority (procs s p) \<le> priority (procs s x))"
proof -
  obtain q where q: "mlf_rep {} q s" using assms(1) by (auto simp: sched_ok_def mlf_inv_def)
  obtain y where y: "y < NPROC" "state (procs s y) = RUNNABLE" using assms(3) by blast
  have listed: "q (unat (priority (procs s x))) \<noteq> [] \<and> unat (priority (procs s x)) < MLFLEVELS"
    if "x < NPROC" "state (procs s x) = RUNNABLE" for x
    using q that by (auto simp: mlf_rep_def listed_def prio_ok_def)
  then obtain l where l: "first_index MLFLEVELS (\<lambda>l. q l \<noteq> []) = Some l"
    using y first_index_None [of MLFLEVELS "\<lambda>l. q l \<noteq> []"] by (cases "first_index MLFLEVELS (\<lambda>l. q l \<noteq> [])") auto
  note lq = first_index_Some [OF l]
  obtain p xs where p: "q l = p # xs" using lq by (cases "q l") auto
  have hd: "p < NPROC" "state (procs s p) = RUNNABLE" "unat (priority (procs s p)) = l"
    using q p lq by (auto simp: mlf_rep_def queues_def queued_def)
  then have pg: "pgdir (procs s p) \<noteq> 0"
    using assms(1) by (auto simp: sched_ok_def procs_ok_def alive_def)
  obtain t where t: "scheduler_pick s = Ret (Some p) t" "mlf_rep {} (q(l := xs)) t" "switching t"
    "curproc t = Some p" "procs t = (procs s)(p := (procs s p)\<lparr>state := RUNNING\<rparr>)"
    "\<forall>k. k \<noteq> PtableLock \<longrightarrow> locks t k = locks s k"
    using scheduler_pick_some [OF q _ l p pg] assms(1) by (auto simp: sched_ok_def)
  let ?s' = "unlocked_state PtableLock t"
  have "yield_resume t = Ret () ?s'" "idle ?s'"
    using switching_release [OF t(3)] by (simp_all add: yield_resume_def)
  moreover have "procs_ok ?s'"
    using assms(1,2) t(4,5) hd(1) pg by (auto simp: sched_ok_def procs_ok_def alive_def)
  moreover have "mlf_inv ?s'" using t(2) by (auto simp: mlf_inv_def)
  moreover have "priority (procs s p) \<le> priority (procs s x)" if "x < NPROC" "state (procs s x) = RUNNABLE" for x
    using listed [OF that] first_index_least [OF l, of "unat (priority (procs s x))"] hd(3)
    by (force simp: word_le_nat_alt)
  ultimately show ?thesis
    using t(1,3-6) hd(1,2) by (intro exI [of _ p] exI [of _ t] exI [of _ ?s']) (simp add: sched_ok_def)
qed

text \<open>
  The current process has left the CPU: it is not running any more, and the others at most
  woke up.
\<close>

definition left :: "nat \<Rightarrow> 'a psys_scheme \<Rightarrow> 'a psys_scheme \<Rightarrow> bool" where
  "left p s t \<longleftrightarrow> state (procs t p) \<noteq> RUNNING \<and> (\<forall>x<NPROC. pgdir (procs t x) = pgdir (procs s x) \<and>
     (x \<noteq> p \<longrightarrow> state (procs t x) = state (procs s x) \<or>
        state (procs s x) = SLEEPING \<and> state (procs t x) = RUNNABLE))"

lemma leave_sched_ok:
  assumes "switching t" "mlf_inv t" "procs_ok s" "curproc s = Some p" "left p s t"
  shows "\<exists>s'. scheduler_resume t = Ret () s' \<and> sched_ok s' \<and> procs s' = procs t \<and> curproc s' = None \<and>
    (\<forall>k. k \<noteq> PtableLock \<longrightarrow> locks s' k = locks t k)"
proof -
  obtain s' where s': "scheduler_resume t = Ret () s'" "idle s'" "procs s' = procs t" "mlf s' = mlf t"
    "curproc s' = None" "\<forall>k. k \<noteq> PtableLock \<longrightarrow> locks s' k = locks t k" using scheduler_resume_ret [OF assms(1)] by blast
  then have "mlf_inv s'" using assms(2) mlf_inv_cong [of s' t] by simp
  moreover have "p < NPROC" "pgdir (procs s p) \<noteq> 0"
    using assms(3,4) by (auto simp: procs_ok_def alive_def)
  then have "state (procs t x) \<noteq> RUNNING \<and> (alive (state (procs t x)) \<longrightarrow> pgdir (procs t x) \<noteq> 0)"
    if "x < NPROC" for x
    using assms(3-5) that by (cases "x = p") (auto simp: procs_ok_def left_def alive_def)
  ultimately show ?thesis using s' by (auto simp: sched_ok_def procs_ok_def)
qed

lemma lower_pgdir [simp]: "pgdir (lower r) = pgdir r"
  by (simp add: lower_def)

lemma yield_sched_ok:
  assumes "sched_ok s" "curproc s = Some p"
  shows "\<exists>t s'. yield s = Ret () t \<and> scheduler_resume t = Ret () s' \<and> sched_ok s' \<and>
    state (procs s' p) = RUNNABLE"
proof -
  obtain q where q: "mlf_rep {} q s" using assms(1) by (auto simp: sched_ok_def mlf_inv_def)
  have p: "p < NPROC" "state (procs s p) = RUNNING" and ok: "idle s" "procs_ok s"
    using assms by (auto simp: sched_ok_def procs_ok_def)
  obtain t k where t: "yield s = Ret () t" "mlf_rep {} (q(k := q k @ [p])) t" "switching t"
    "\<forall>x. same_proc (if x = p then runnable_proc (lower (procs s p)) else procs s x) (procs t x)"
    using yield_ret [OF q ok(1) assms(2) p refl] by blast
  have st: "state (procs t x) = (if x = p then RUNNABLE else state (procs s x))"
    "pgdir (procs t x) = pgdir (procs s x)" for x
    using t(4) same_proc_fields(1,7) by (auto simp: runnable_proc_def dest!: spec [of _ x])
  have "mlf_inv t" using t(2) by (auto simp: mlf_inv_def)
  moreover have "left p s t" by (simp add: left_def st)
  ultimately obtain s' where "scheduler_resume t = Ret () s'" "sched_ok s'" "procs s' = procs t"
    using leave_sched_ok [OF t(3) _ ok(2) assms(2)] by blast
  with t(1) st show ?thesis by auto
qed

text \<open>\<^verbatim>\<open>sleep\<close>, called with the lock \<open>lk\<close> held, as \<^verbatim>\<open>sys_sleep\<close>, \<^verbatim>\<open>semdown\<close> and the others do.\<close>

lemma sleep_sched_ok:
  fixes s :: "'a psys_scheme"
  assumes "sched_ok s" "curproc s = Some p" "lk \<noteq> PtableLock" "locked (locks s lk) = 0"
  shows "\<exists>t s'. seq (acquire lk) (sleep c lk) s = (Sleep c t :: ('b, 'a psys_scheme) outcome) \<and> scheduler_resume t = Ret () s' \<and> sched_ok s' \<and>
    procs s' = (procs s)(p := asleep c (procs s p)) \<and> curproc s' = None \<and> locked (locks s' lk) = 0"
proof -
  obtain q where q: "mlf_rep {} q s" using assms(1) by (auto simp: sched_ok_def mlf_inv_def)
  have p: "p < NPROC" "state (procs s p) = RUNNING" and ok: "idle s" "procs_ok s"
    using assms by (auto simp: sched_ok_def procs_ok_def)
  have free: "lock_free lk s" using ok(1) assms(4) by (simp add: lock_free_def idle_def cpu_ok_def)
  let ?l = "locked_state lk s"
  have "mlf_rep {} q ?l" using q by simp
  moreover have "ncli (cpu ?l) = 1" "\<not> iflag (cpu ?l)" "locked (locks ?l PtableLock) = 0" "holding lk ?l"
    using ok(1) assms(3) by (simp_all add: idle_def locked_state_def holding_def holding_lk_def pushcli_cpu_def)
  ultimately obtain t where t: "sleep c lk ?l = (Sleep c t :: ('b, 'a psys_scheme) outcome)" "mlf_rep {} q t" "switching t"
    "procs t = (procs s)(p := asleep c (procs s p))" "locked (locks t lk) = 0"
    using sleep_other_ret [of q ?l lk p c] assms(2,3) p by auto
  then have "mlf_inv t" "left p s t" by (auto simp: mlf_inv_def left_def asleep_def)
  then obtain s' where "scheduler_resume t = Ret () s'" "sched_ok s'" "procs s' = procs t" "curproc s' = None"
    "\<forall>k. k \<noteq> PtableLock \<longrightarrow> locks s' k = locks t k"
    using leave_sched_ok [OF t(3) _ ok(2) assms(2)] by blast
  moreover have "seq (acquire lk) (sleep c lk) s = (Sleep c t :: ('b, 'a psys_scheme) outcome)"
    using t(1) acquire_ret [OF free] by (simp add: kfun_simps)
  ultimately show ?thesis using t(4,5) assms(3) by auto
qed

section \<open>exit\<close>

definition settled :: "'a psys_scheme \<Rightarrow> 'a psys_scheme \<Rightarrow> bool" where
  "settled s t \<longleftrightarrow> mlf_inv t \<and> frame s t \<and> wakes s t"

lemma wakeup1_settled:
  assumes "settled s t"
  shows "\<exists>u. wakeup1 c t = Ret () u \<and> settled s u"
proof -
  obtain q where "mlf_rep {} q t" using assms by (auto simp: settled_def mlf_inv_def)
  from wakeup1_rep [OF this, of c] obtain u q' where u: "wakeup1 c t = Ret () u" "mlf_rep {} q' u" "frame t u"
    "\<forall>x<NPROC. same_proc (woken c (procs t x)) (procs u x)" by blast
  then have "wakes t u" by (intro same_woken_wakes) (auto simp: frame_def)
  with assms u show ?thesis by (auto simp: settled_def mlf_inv_def frame_def intro: wakes_trans)
qed

lemma wakeup_proc_settled:
  "settled s t \<Longrightarrow> \<exists>u. wakeup_proc po t = Ret () u \<and> settled s u"
  using wakeup1_settled by (auto simp: wakeup_proc_def kfun_simps split: option.split)

lemma reparent_settled:
  assumes "settled s t"
  shows "\<exists>u. reparent cp p t = Ret () u \<and> settled s u"
proof -
  let ?t = "t\<lparr>procs := (procs t)(p := (procs t p)\<lparr>parent := initproc t\<rparr>)\<rparr>"
  obtain q where "mlf_rep {} q t" using assms by (auto simp: settled_def mlf_inv_def)
  then have "mlf_rep {} q ?t" by (rule mlf_rep_upd_same) simp_all
  then have "mlf_inv ?t" by (auto simp: mlf_inv_def)
  then have "settled s ?t" using assms by (auto simp: settled_def frame_def wakes_def)
  with wakeup_proc_settled [OF this, of "initproc t"] assms show ?thesis
    by (auto simp: reparent_def kfun_simps upd_proc_def)
qed

lemma exit_sched_ok:
  assumes "sched_ok s" "curproc s = Some p"
  shows "\<exists>t s'. exit_sched s = Ret () t \<and> scheduler_resume t = Ret () s' \<and> sched_ok s' \<and>
    state (procs s' p) = ZOMBIE"
proof -
  let ?l = "locked_state PtableLock s"
  have p: "p < NPROC" "state (procs s p) = RUNNING" and ok: "idle s" "procs_ok s"
    using assms by (auto simp: sched_ok_def procs_ok_def)
  have "settled ?l ?l" using assms(1) by (simp add: settled_def frame_def sched_ok_def)
  from wakeup_proc_settled [OF this] obtain t where t: "wakeup_proc (parent (procs s p)) ?l = Ret () t" "settled ?l t"
    by blast
  have "\<exists>u. for_each [0..<NPROC] (reparent p) t = Ret () u \<and> settled ?l u"
    by (rule for_each_inv) (use t(2) reparent_settled in blast)+
  then obtain u where u: "for_each [0..<NPROC] (reparent p) t = Ret () u" "settled ?l u" by blast
  let ?z = "u\<lparr>procs := (procs u)(p := (procs u p)\<lparr>state := ZOMBIE\<rparr>)\<rparr>"
  have f: "cpu u = cpu ?l" "locks u = locks ?l" "curproc u = Some p" "wakes ?l u"
    using u(2) assms(2) by (auto simp: settled_def frame_def)
  then have run: "state (procs u p) = RUNNING" using p by (auto simp: wakes_def)
  obtain q where q: "mlf_rep {} q u" using u(2) by (auto simp: settled_def mlf_inv_def)
  then have "unlisted q p" using run not_runnable_unlisted [of q u p] by (simp add: mlf_rep_def)
  then have "mlf_rep {} q ?z" using q rep_prio [OF q p(1)] by (intro mlf_rep_upd) auto
  then have inv: "mlf_inv ?z" by (auto simp: mlf_inv_def)
  have sw: "switching ?z" using locked_switching [OF ok(1)] f by (simp add: switching_def holding_def)
  then have "sched ?z = Ret () ?z" using f(3) by (intro sched_ret) auto
  then have "exit_sched s = Ret () ?z"
    using acquire_ret [OF idle_lock_free [OF ok(1)]] t(1) u(1) assms(2)
    by (simp add: exit_sched_def with_proc_def kfun_simps upd_proc_def)
  moreover have "left p s ?z" using f(4) by (auto simp: left_def wakes_def)
  then obtain s' where "scheduler_resume ?z = Ret () s'" "sched_ok s'" "procs s' = procs ?z"
    using leave_sched_ok [OF sw inv ok(2) assms(2)] by blast
  ultimately show ?thesis by auto
qed

section \<open>Process slots\<close>

definition off_cpu :: "procstate \<Rightarrow> bool" where
  "off_cpu st \<longleftrightarrow> st \<noteq> RUNNABLE \<and> st \<noteq> RUNNING"

lemma upd_sched_ok:
  assumes "sched_ok s" "p < NPROC" "off_cpu (state (procs s p))" "off_cpu (state r)"
    and "alive (state r) \<longrightarrow> pgdir r \<noteq> 0" "unat (priority r) < MLFLEVELS"
  shows "sched_ok (s\<lparr>procs := (procs s)(p := r)\<rparr>)"
proof -
  obtain q where q: "mlf_rep {} q s" using assms(1) by (auto simp: sched_ok_def mlf_inv_def)
  then have "unlisted q p"
    using assms(3) not_runnable_unlisted [of q s p] by (simp add: mlf_rep_def off_cpu_def)
  then have "mlf_rep {} q (s\<lparr>procs := (procs s)(p := r)\<rparr>)"
    using q assms(4,6) by (intro mlf_rep_upd) (auto simp: off_cpu_def)
  then show ?thesis
    using assms by (auto simp: sched_ok_def procs_ok_def mlf_inv_def idle_def off_cpu_def)
qed

lemma sched_ok_upd_same:
  assumes "sched_ok s" "state r = state (procs s p)" "priority r = priority (procs s p)"
    and "pnext r = pnext (procs s p)" "pgdir r = pgdir (procs s p)"
  shows "sched_ok (s\<lparr>procs := (procs s)(p := r)\<rparr>)"
proof -
  obtain q where "mlf_rep {} q s" using assms(1) by (auto simp: sched_ok_def mlf_inv_def)
  then have "mlf_rep {} q (s\<lparr>procs := (procs s)(p := r)\<rparr>)"
    using assms(2-4) by (rule mlf_rep_upd_same)
  then show ?thesis
    using assms by (auto simp: sched_ok_def mlf_inv_def procs_ok_def idle_def)
qed

lemma sched_ok_cong:
  assumes "sched_ok s" "procs s' = procs s" "mlf s' = mlf s" "curproc s' = curproc s" "idle s'"
  shows "sched_ok s'"
  using assms mlf_inv_cong [of s' s] by (simp add: sched_ok_def procs_ok_def)

text \<open>A critical section of the process lock around a body that leaves the CPU and the locks alone.\<close>

lemma critical_ret:
  assumes "sched_ok s" "body (locked_state PtableLock s) = Ret x t"
    and "cpu t = cpu (locked_state PtableLock s)" "locks t = locks (locked_state PtableLock s)"
  shows "with_lock PtableLock body s = Ret x (unlocked_state PtableLock t)"
  using sched_ok_idle [OF assms(1)] by (intro with_lock_ret) (use assms(2-4) in blast)+

lemma critical_idle:
  assumes "sched_ok s" "cpu t = cpu (locked_state PtableLock s)"
  shows "idle (unlocked_state PtableLock t)"
  using lock_free_unlocked [OF _ assms(2)] assms(2) sched_ok_idle [OF assms(1)] by (auto intro: free_idle)

definition claimed :: "nat \<Rightarrow> 'a psys_scheme \<Rightarrow> 'a psys_scheme" where
  "claimed p s = s\<lparr>procs := (procs s)(p := (procs s p)\<lparr>state := EMBRYO, pid := nextpid s\<rparr>),
     nextpid := nextpid s + 1\<rparr>"

lemma claimed_simps [simp]:
  "cpu (claimed p s) = cpu s" "locks (claimed p s) = locks s" "mlf (claimed p s) = mlf s"
  "curproc (claimed p s) = curproc s" "nextpid (claimed p s) = nextpid s + 1"
  "procs (claimed p s) = (procs s)(p := (procs s p)\<lparr>state := EMBRYO, pid := nextpid s\<rparr>)"
  by (simp_all add: claimed_def)

lemma alloc_slot_some:
  assumes "sched_ok s" "first_index NPROC (\<lambda>p. state (procs s p) = UNUSED) = Some p"
  shows "alloc_slot s = Ret (Some p) (unlocked_state PtableLock (claimed p (locked_state PtableLock s)))"
    and "sched_ok (unlocked_state PtableLock (claimed p (locked_state PtableLock s)))"
proof -
  have "claim_slot (locked_state PtableLock s) = Ret (Some p) (claimed p (locked_state PtableLock s))"
    using assms(2) by (simp add: kfun_simps upd_proc_def claimed_def claim_slot_def)
  then show "alloc_slot s = Ret (Some p) (unlocked_state PtableLock (claimed p (locked_state PtableLock s)))"
    unfolding alloc_slot_def by (intro critical_ret [OF assms(1)]) simp_all
  have p: "p < NPROC" "state (procs s p) = UNUSED" using first_index_Some [OF assms(2)] by auto
  have "unat (priority (procs s p)) < MLFLEVELS"
    using assms(1) p(1) rep_prio by (auto simp: sched_ok_def mlf_inv_def)
  then have "sched_ok (s\<lparr>procs := (procs s)(p := (procs s p)\<lparr>state := EMBRYO, pid := nextpid s\<rparr>)\<rparr>)"
    using assms(1) p by (intro upd_sched_ok) (auto simp: off_cpu_def alive_def)
  then show "sched_ok (unlocked_state PtableLock (claimed p (locked_state PtableLock s)))"
    by (rule sched_ok_cong) (simp_all add: critical_idle [OF assms(1)])
qed

lemma alloc_slot_none:
  assumes "sched_ok s" "first_index NPROC (\<lambda>p. state (procs s p) = UNUSED) = None"
  shows "alloc_slot s = Ret None (unlocked_state PtableLock (locked_state PtableLock s))"
    and "sched_ok (unlocked_state PtableLock (locked_state PtableLock s))"
proof -
  have "claim_slot (locked_state PtableLock s) = Ret None (locked_state PtableLock s)"
    using assms(2) by (simp add: kfun_simps claim_slot_def)
  then show "alloc_slot s = Ret None (unlocked_state PtableLock (locked_state PtableLock s))"
    unfolding alloc_slot_def by (intro critical_ret [OF assms(1)]) simp_all
  show "sched_ok (unlocked_state PtableLock (locked_state PtableLock s))"
    using assms(1) by (rule sched_ok_cong) (simp_all add: critical_idle [OF assms(1)])
qed

lemma alloc_slot_ok: "sched_ok s \<Longrightarrow> \<exists>r s'. alloc_slot s = Ret r s' \<and> sched_ok s'"
  by (cases "first_index NPROC (\<lambda>p. state (procs s p) = UNUSED)") (blast dest: alloc_slot_some alloc_slot_none)+

lemma start_child_ok:
  assumes "sched_ok s" "p < NPROC" "state (procs s p) = EMBRYO" "pgdir (procs s p) \<noteq> 0"
  shows "\<exists>s'. start_child p s = Ret () s' \<and> sched_ok s' \<and> state (procs s' p) = RUNNABLE \<and>
    curproc s' = curproc s"
proof -
  let ?l = "locked_state PtableLock s"
  let ?t = "unlocked_state PtableLock (made_runnable p ?l)"
  obtain q where "mlf_rep {} q s" using assms(1) by (auto simp: sched_ok_def mlf_inv_def)
  then have "mlf_rep {p} q ?l" using assms(3) mlf_rep_insert [of "{}" q ?l p] by simp
  note m = make_runnable_rep [OF this singletonI assms(2)]
  have "start_child p s = Ret () ?t"
    unfolding start_child_def by (intro critical_ret [OF assms(1)]) (use m(1) in simp_all)
  moreover have "mlf_inv ?t" using m(2) by (auto simp: mlf_inv_def)
  then have "sched_ok ?t"
    using assms critical_idle [OF assms(1), of "made_runnable p ?l"]
    by (auto simp: sched_ok_def procs_ok_def alive_def)
  ultimately show ?thesis by simp
qed

section \<open>The state machine\<close>

inductive sched_step :: "'a psys_scheme \<Rightarrow> 'a psys_scheme \<Rightarrow> bool" where
  step_wakeup: "wakeup c s = Ret () s' \<Longrightarrow> sched_step s s'"
| step_kill: "kill n s = Ret r s' \<Longrightarrow> sched_step s s'"
| step_aging: "calculateaging s = Ret () s' \<Longrightarrow> sched_step s s'"
| step_idle: "curproc s = None \<Longrightarrow> scheduler_pick s = Ret None s' \<Longrightarrow> sched_step s s'"
| step_dispatch: "curproc s = None \<Longrightarrow> scheduler_pick s = Ret (Some p) t \<Longrightarrow> yield_resume t = Ret () s' \<Longrightarrow>
    sched_step s s'"
| step_yield: "curproc s = Some p \<Longrightarrow> yield s = Ret () t \<Longrightarrow> scheduler_resume t = Ret () s' \<Longrightarrow> sched_step s s'"
| step_sleep: "curproc s = Some p \<Longrightarrow> lk \<noteq> PtableLock \<Longrightarrow> locked (locks s lk) = 0 \<Longrightarrow>
    seq (acquire lk) (sleep c lk) s = (Sleep c t :: (unit, 'a psys_scheme) outcome) \<Longrightarrow>
    scheduler_resume t = Ret () s' \<Longrightarrow> sched_step s s'"
| step_exit: "curproc s = Some p \<Longrightarrow> exit_sched s = Ret () t \<Longrightarrow> scheduler_resume t = Ret () s' \<Longrightarrow> sched_step s s'"
| step_alloc: "alloc_slot s = Ret r s' \<Longrightarrow> sched_step s s'"
| step_build: "p < NPROC \<Longrightarrow> state (procs s p) = EMBRYO \<Longrightarrow> state r \<in> {EMBRYO, UNUSED} \<Longrightarrow> priority r = 0 \<Longrightarrow>
    sched_step s (s\<lparr>procs := (procs s)(p := r)\<rparr>)"
| step_start: "p < NPROC \<Longrightarrow> state (procs s p) = EMBRYO \<Longrightarrow> pgdir (procs s p) \<noteq> 0 \<Longrightarrow>
    start_child p s = Ret () s' \<Longrightarrow> sched_step s s'"
| step_reap: "p < NPROC \<Longrightarrow> state (procs s p) = ZOMBIE \<Longrightarrow> reap p s = Ret () s' \<Longrightarrow> sched_step s s'"

inductive sched_reachable :: "'a psys_scheme \<Rightarrow> 'a psys_scheme \<Rightarrow> bool" for s0 where
  sched_reach_init: "sched_reachable s0 s0"
| sched_reach_step: "sched_reachable s0 s \<Longrightarrow> sched_step s s' \<Longrightarrow> sched_reachable s0 s'"

lemma pick_sched_ok:
  assumes "sched_ok s" "curproc s = None" "scheduler_pick s = Ret None s'"
  shows "sched_ok s'"
proof -
  obtain q where q: "mlf_rep {} q s" using assms(1) by (auto simp: sched_ok_def mlf_inv_def)
  show ?thesis
  proof (cases "\<forall>l<MLFLEVELS. q l = []")
    case True
    then obtain t where "scheduler_pick s = Ret None t" "idle t" "procs t = procs s" "mlf t = mlf s" "curproc t = curproc s"
      using scheduler_pick_none [OF q] assms(1) by (auto simp: sched_ok_def)
    then show ?thesis using assms by (auto intro: sched_ok_cong)
  next
    case False
    then obtain l x where "l < MLFLEVELS" "x \<in> set (q l)"
      by (metis list.set_intros(1) neq_Nil_conv)
    then have "\<exists>p<NPROC. state (procs s p) = RUNNABLE"
      using q by (auto simp: mlf_rep_def queues_def queued_def)
    with dispatch_sched_ok [OF assms(1,2)] assms(3) show ?thesis by auto
  qed
qed

lemma pick_runnable:
  assumes "sched_ok s" "scheduler_pick s = Ret (Some p) t"
  shows "\<exists>p<NPROC. state (procs s p) = RUNNABLE"
proof (rule ccontr)
  assume no: "\<not> (\<exists>p<NPROC. state (procs s p) = RUNNABLE)"
  obtain q where q: "mlf_rep {} q s" using assms(1) by (auto simp: sched_ok_def mlf_inv_def)
  then have "\<forall>l<MLFLEVELS. q l = []"
    using no unfolding mlf_rep_def queues_def queued_def by (metis list.set_intros(1) neq_Nil_conv)
  with scheduler_pick_none [OF q] assms show False by (auto simp: sched_ok_def)
qed

lemma dispatch_step_ok:
  assumes "sched_ok s" "curproc s = None" "scheduler_pick s = Ret (Some p) t" "yield_resume t = Ret () s'"
  shows "sched_ok s'"
  using dispatch_sched_ok [OF assms(1,2) pick_runnable [OF assms(1,3)]] assms(3,4) by auto

lemma sched_step_ok: "sched_step s s' \<Longrightarrow> sched_ok s \<Longrightarrow> sched_ok s'"
proof (induction rule: sched_step.induct)
  case (step_build p s r)
  then show ?case by (intro upd_sched_ok) (auto simp: off_cpu_def alive_def MLFLEVELS_def)
next
  case (step_reap p s s')
  then have "unat (priority (procs s p)) < MLFLEVELS"
    using rep_prio by (auto simp: sched_ok_def mlf_inv_def)
  with step_reap show ?case
    by (auto simp: reap_def upd_proc_def kfun_simps off_cpu_def alive_def intro!: upd_sched_ok)
next
  case (step_sleep s p lk c t s')
  with sleep_sched_ok [where 'b = unit, of s p lk c] show ?case by auto
next
  case (step_wakeup c s s')
  with wakeup_sched_ok [of s c] show ?case by auto
next
  case (step_kill n s r s')
  with kill_sched_ok [of s n] show ?case by auto
next
  case (step_aging s s')
  with aging_sched_ok [of s] show ?case by auto
next
  case (step_yield s p t s')
  with yield_sched_ok [of s p] show ?case by auto
next
  case (step_exit s p t s')
  with exit_sched_ok [of s p] show ?case by auto
next
  case (step_alloc s r s')
  with alloc_slot_ok [of s] show ?case by auto
next
  case (step_start p s s')
  with start_child_ok [of s p] show ?case by auto
qed (blast intro: pick_sched_ok dispatch_step_ok)+

section \<open>Boot and an example state\<close>

text \<open>The process table after \<^verbatim>\<open>pinit\<close>: every slot zero, every queue empty, nothing running.\<close>

definition sched_boot :: psys where
  "sched_boot = \<lparr>cpu = \<lparr>cpuid = 0, ncli = 0, intena = False, iflag = False\<rparr>, locks = (\<lambda>_. initlock ''ptable''),
     procs = (\<lambda>_. zero_proc), mlf = (\<lambda>_. \<lparr>first = None, last_proc = None\<rparr>), initproc = None,
     nextpid = 1, curproc = None, kpgdir = 0x80400000, cr3 = 0, tss_esp0 = 0\<rparr>"

text \<open>Process 0 runs, 1 is ready, 2 sleeps on semaphore 0.\<close>

definition sched_demo :: psys where
  "sched_demo = sched_boot\<lparr>procs := (\<lambda>_. zero_proc)
      (0 := zero_proc\<lparr>state := RUNNING, pid := 1, priority := 1, pgdir := 0x80401000\<rparr>,
       1 := zero_proc\<lparr>state := RUNNABLE, pid := 2, priority := 1, pgdir := 0x80402000, age := 4\<rparr>,
       2 := zero_proc\<lparr>state := SLEEPING, pid := 3, priority := 2, pgdir := 0x80403000, pchan := Some (ChSem 0)\<rparr>),
     mlf := (\<lambda>_. \<lparr>first = None, last_proc = None\<rparr>)(1 := \<lparr>first = Some 1, last_proc = Some 1\<rparr>),
     curproc := Some 0, nextpid := 4\<rparr>"

definition demo_queues :: "nat \<Rightarrow> nat list" where
  "demo_queues = (\<lambda>_. [])(1 := [1])"

lemma sched_boot_ok: "sched_ok sched_boot"
proof -
  have "mlf_rep {} (\<lambda>_. []) sched_boot"
    by (simp add: mlf_rep_def queues_def is_queue_def prio_ok_def listed_def sched_boot_def zero_proc_def
        MLFLEVELS_def)
  then show ?thesis
    by (auto simp: sched_ok_def mlf_inv_def idle_def procs_ok_def alive_def sched_boot_def zero_proc_def initlock_def)
qed

lemma sched_demo_rep: "mlf_rep {} demo_queues sched_demo"
  by (auto simp: mlf_rep_def queues_def is_queue_def queued_def prio_ok_def listed_def sched_boot_def
      sched_demo_def demo_queues_def zero_proc_def MLFLEVELS_def NPROC_def)

lemma sched_demo_ok: "sched_ok sched_demo"
  using sched_demo_rep
  by (auto simp: sched_ok_def mlf_inv_def idle_def procs_ok_def alive_def sched_boot_def sched_demo_def
      zero_proc_def initlock_def NPROC_def)

lemma sched_demo_simps:
  "curproc sched_demo = Some 0" "state (procs sched_demo 0) = RUNNING" "state (procs sched_demo 1) = RUNNABLE"
  "state (procs sched_demo 2) = SLEEPING" "pchan (procs sched_demo 2) = Some (ChSem 0)"
  "pid (procs sched_demo 0) = 1" "pid (procs sched_demo 1) = 2" "pid (procs sched_demo 2) = 3"
  "priority (procs sched_demo 0) = 1" "priority (procs sched_demo 1) = 1" "priority (procs sched_demo 2) = 2"
  by (simp_all add: sched_demo_def zero_proc_def)

section \<open>Properties\<close>

lemma sched_reachable_ok: "sched_reachable s0 s \<Longrightarrow> sched_ok s0 \<Longrightarrow> sched_ok s"
  by (induction rule: sched_reachable.induct) (auto intro: sched_step_ok)


lemma boot_runnable:
  "\<exists>s. sched_reachable sched_boot s \<and> curproc s = None \<and> state (procs s 0) = RUNNABLE"
proof -
  let ?a = "unlocked_state PtableLock (claimed 0 (locked_state PtableLock sched_boot))"
  let ?r = "(procs ?a 0)\<lparr>pgdir := 0x80400000\<rparr>"
  let ?b = "?a\<lparr>procs := (procs ?a)(0 := ?r)\<rparr>"
  have "first_index NPROC (\<lambda>p. state (procs sched_boot p) = UNUSED) = Some 0"
    by (simp add: first_index_Some_iff sched_boot_def zero_proc_def NPROC_def)
  note a = alloc_slot_some [OF sched_boot_ok this]
  have pa: "state (procs ?a 0) = EMBRYO" "priority (procs ?a 0) = 0"
    by (simp_all add: sched_boot_def zero_proc_def)
  have sa: "sched_step sched_boot ?a" using a(1) by (rule step_alloc)
  have sb: "sched_step ?a ?b" by (rule step_build) (use pa in \<open>simp_all add: NPROC_def\<close>)
  have okb: "sched_ok ?b" by (rule sched_step_ok [OF sb a(2)])
  have pb: "state (procs ?b 0) = EMBRYO" "pgdir (procs ?b 0) \<noteq> 0" using pa by simp_all
  from start_child_ok [OF okb _ pb] obtain c where c: "start_child 0 ?b = Ret () c"
    "state (procs c 0) = RUNNABLE" "curproc c = curproc ?b" by (auto simp: NPROC_def)
  have "sched_step ?b c" by (rule step_start [OF _ pb c(1)]) (simp add: NPROC_def)
  with sa sb have "sched_reachable sched_boot c" by (blast intro: sched_reachable.intros)
  with c(2,3) show ?thesis by (auto simp: sched_boot_def)
qed


text \<open>
  C2. The scheduler makes progress and respects priorities.  In every reachable state with an
  idle CPU and some runnable process, \<^verbatim>\<open>scheduler\<close> does not panic: it switches to a runnable
  process that no runnable process precedes in priority, and that process becomes the running one.
\<close>

theorem scheduler_dispatches_highest:
  assumes "sched_reachable sched_boot s" "curproc s = None" "y < NPROC" "state (procs s y) = RUNNABLE"
  shows "\<exists>p t s'. scheduler_pick s = Ret (Some p) t \<and> yield_resume t = Ret () s' \<and>
    state (procs s p) = RUNNABLE \<and> curproc s' = Some p \<and> state (procs s' p) = RUNNING \<and>
    (\<forall>x<NPROC. state (procs s x) = RUNNABLE \<longrightarrow> priority (procs s p) \<le> priority (procs s x))"
proof -
  have "sched_ok s" using assms(1) sched_boot_ok by (rule sched_reachable_ok)
  from dispatch_sched_ok [OF this assms(2)] assms(3,4)
  obtain p t s' where "scheduler_pick s = Ret (Some p) t" "yield_resume t = Ret () s'" "sched_ok s'"
    "curproc s' = Some p" "state (procs s p) = RUNNABLE"
    "\<forall>x<NPROC. state (procs s x) = RUNNABLE \<longrightarrow> priority (procs s p) \<le> priority (procs s x)" by blast
  moreover from this have "state (procs s' p) = RUNNING" by (auto simp: sched_ok_def procs_ok_def)
  ultimately show ?thesis by blast
qed

theorem scheduler_dispatches_highest_witness:
  "\<exists>s p t s'. sched_reachable sched_boot s \<and> scheduler_pick s = Ret (Some p) t \<and>
    yield_resume t = Ret () s' \<and> state (procs s' p) = RUNNING"
proof -
  obtain s where s: "sched_reachable sched_boot s" "curproc s = None" "state (procs s 0) = RUNNABLE"
    using boot_runnable by blast
  have "0 < NPROC" by (simp add: NPROC_def)
  from scheduler_dispatches_highest [OF s(1,2) this s(3)] s(1) show ?thesis by metis
qed

text \<open>
  C10. \<^verbatim>\<open>wakeup(chan)\<close> wakes exactly the processes sleeping on \<^verbatim>\<open>chan\<close>.  Each of them becomes
  RUNNABLE one priority level higher (if it was not on the highest), with age 0, and is appended
  to its level behind the processes already there; every other process is unchanged apart from
  its queue link, and the lock is released.
\<close>

theorem wakeup_wakes_exactly:
  assumes "mlf_rep {} q s" "lock_free PtableLock s"
  shows "\<exists>s' q'. wakeup c s = Ret () s' \<and> mlf_rep {} q' s' \<and> lock_free PtableLock s' \<and>
    (\<forall>l. \<exists>new. q' l = q l @ new) \<and>
    (\<forall>x<NPROC. same_proc (if state (procs s x) = SLEEPING \<and> pchan (procs s x) = Some c
        then (procs s x)\<lparr>priority := (if priority (procs s x) > 0 then priority (procs s x) - 1 else 0),
               pnext := None, age := 0, state := RUNNABLE\<rparr>
        else procs s x) (procs s' x))"
proof -
  obtain s' q' where s': "wakeup c s = Ret () s'" "mlf_rep {} q' s'" "extends q q'" "lock_free PtableLock s'"
    "\<forall>x<NPROC. same_proc (woken c (procs s x)) (procs s' x)"
    using wakeup_ret [OF assms, of c] by blast
  have w: "woken c r = (if state r = SLEEPING \<and> pchan r = Some c
        then r\<lparr>priority := (if priority r > 0 then priority r - 1 else 0), pnext := None, age := 0, state := RUNNABLE\<rparr>
        else r)" for r
    by (cases "priority r = 0")
      (auto simp: woken_def runnable_proc_def raise_def MLFMAXPRIORITY_def word_gt_0 unat_gt_0)
  show ?thesis
    using s'(1-4) s'(5) [unfolded w] by (intro exI [of _ s'] exI [of _ q']) (simp add: extends_def)
qed

theorem wakeup_wakes_exactly_witness:
  "\<exists>s' q'. wakeup (ChSem 0) sched_demo = Ret () s' \<and> mlf_rep {} q' s' \<and>
    state (procs s' 2) = RUNNABLE \<and> priority (procs s' 2) = 1 \<and> state (procs s' 0) = RUNNING"
proof -
  have free: "lock_free PtableLock sched_demo" using sched_ok_idle [OF sched_demo_ok] by simp
  obtain s' q' where s': "wakeup (ChSem 0) sched_demo = Ret () s'" "mlf_rep {} q' s'"
    and p: "\<forall>x<NPROC. same_proc (if state (procs sched_demo x) = SLEEPING \<and> pchan (procs sched_demo x) = Some (ChSem 0)
        then (procs sched_demo x)\<lparr>priority := (if priority (procs sched_demo x) > 0
               then priority (procs sched_demo x) - 1 else 0), pnext := None, age := 0, state := RUNNABLE\<rparr>
        else procs sched_demo x) (procs s' x)"
    using wakeup_wakes_exactly [OF sched_demo_rep free, of "ChSem 0"] by blast
  have "state (procs s' 2) = RUNNABLE \<and> priority (procs s' 2) = 1"
    using p [rule_format, of 2] same_proc_fields(1,2)
    by (fastforce simp: NPROC_def sched_demo_simps)
  moreover have "state (procs s' 0) = RUNNING"
    using p [rule_format, of 0] same_proc_fields(1) by (fastforce simp: NPROC_def sched_demo_simps)
  ultimately show ?thesis using s' by blast
qed

text \<open>
  C11. \<^verbatim>\<open>kill(pid)\<close> returns -1 and changes no process when no slot has the pid.  Otherwise it
  returns 0 with the first such process marked killed, made RUNNABLE if it was sleeping (so that
  it gets to notice), and every other process as it was.
\<close>

theorem kill_marks_and_wakes:
  assumes "mlf_rep {} q s" "lock_free PtableLock s"
  shows "case first_index NPROC (\<lambda>p. pid (procs s p) = n) of
      None \<Rightarrow> (\<exists>s'. kill n s = Ret (- 1) s' \<and> procs s' = procs s \<and> mlf s' = mlf s)
    | Some p \<Rightarrow> (\<exists>s' q'. kill n s = Ret 0 s' \<and> mlf_rep {} q' s' \<and> killed (procs s' p) \<and>
        state (procs s' p) = (if state (procs s p) = SLEEPING then RUNNABLE else state (procs s p)) \<and>
        (\<forall>x. x \<noteq> p \<longrightarrow> same_proc (procs s x) (procs s' x)))"
proof (cases "first_index NPROC (\<lambda>p. pid (procs s p) = n)")
  case None
  then have "kill n s = Ret (- 1) (unlocked_state PtableLock (locked_state PtableLock s))"
    by (intro kill_none assms(2)) (simp add: first_index_None)
  with None show ?thesis by simp
next
  case (Some p)
  obtain s' q' where s': "kill n s = Ret 0 s'" "mlf_rep {} q' s'"
    "\<forall>x. same_proc (if x = p then killed_proc (procs s x) else procs s x) (procs s' x)"
    using kill_some [OF assms Some] by blast
  have "same_proc (killed_proc (procs s p)) (procs s' p)" using s'(3) [rule_format, of p] by simp
  from same_proc_fields(1,4) [OF this]
  have "killed (procs s' p)" "state (procs s' p) = (if state (procs s p) = SLEEPING then RUNNABLE else state (procs s p))"
    by (auto simp: killed_proc_def runnable_proc_def)
  moreover have "same_proc (procs s x) (procs s' x)" if "x \<noteq> p" for x
    using s'(3) [rule_format, of x] that by simp
  ultimately show ?thesis using Some s' by auto
qed

theorem kill_marks_and_wakes_witness:
  "(\<exists>s'. kill 3 sched_demo = Ret 0 s' \<and> killed (procs s' 2) \<and> state (procs s' 2) = RUNNABLE) \<and>
   (\<exists>s'. kill 9 sched_demo = Ret (- 1) s' \<and> procs s' = procs sched_demo)"
proof -
  have free: "lock_free PtableLock sched_demo" using sched_ok_idle [OF sched_demo_ok] by simp
  have "first_index NPROC (\<lambda>p. pid (procs sched_demo p) = 3) = Some 2"
    by (auto simp: first_index_Some_iff NPROC_def sched_demo_def zero_proc_def)
  moreover have "first_index NPROC (\<lambda>p. pid (procs sched_demo p) = 9) = None"
    by (auto simp: first_index_None NPROC_def sched_demo_def zero_proc_def sched_boot_def)
  ultimately show ?thesis
    using kill_marks_and_wakes [OF sched_demo_rep free, of 3] kill_marks_and_wakes [OF sched_demo_rep free, of 9]
    by (auto simp: sched_demo_simps)
qed

text \<open>
  C12. A process that uses up its quantum moves down.  \<^verbatim>\<open>yield\<close> does not panic: it reaches the
  context switch with the process lock held once and interrupts off, and the process is RUNNABLE
  at the tail of the next lower level (or of the lowest, if it was there), the other queues
  unchanged.
\<close>

theorem yield_penalises:
  assumes "mlf_rep {} q s" "idle s" "curproc s = Some p" "p < NPROC" "state (procs s p) = RUNNING"
  shows "\<exists>s' k. yield s = Ret () s' \<and> k = min (unat (priority (procs s p)) + 1) (MLFLEVELS - 1) \<and>
    mlf_rep {} (q(k := q k @ [p])) s' \<and> switching s' \<and> state (procs s' p) = RUNNABLE \<and>
    unat (priority (procs s' p)) = k"
proof -
  obtain s' k where s': "yield s = Ret () s'" "mlf_rep {} (q(k := q k @ [p])) s'" "switching s'"
    "k = min (unat (priority (procs s p)) + 1) (MLFLEVELS - 1)"
    "\<forall>x. same_proc (if x = p then runnable_proc (lower (procs s p)) else procs s x) (procs s' x)"
    using yield_ret [OF assms refl] by blast
  have "same_proc (runnable_proc (lower (procs s p))) (procs s' p)" using s'(5) [rule_format, of p] by simp
  from same_proc_fields(1,2) [OF this] rep_prio [OF assms(1,4)] s'(4)
  have "state (procs s' p) = RUNNABLE" "unat (priority (procs s' p)) = k"
    by (simp_all add: runnable_proc_def)
  with s' show ?thesis by blast
qed

theorem yield_penalises_witness:
  "\<exists>s'. yield sched_demo = Ret () s' \<and> mlf_rep {} (demo_queues(2 := [0])) s' \<and> switching s' \<and>
    state (procs s' 0) = RUNNABLE"
proof -
  have "idle sched_demo" using sched_demo_ok by (simp add: sched_ok_def)
  from yield_penalises [OF sched_demo_rep this sched_demo_simps(1) _ sched_demo_simps(2)] show ?thesis
    by (auto simp: NPROC_def MLFLEVELS_def sched_demo_simps demo_queues_def numeral_2_eq_2)
qed



text \<open>
  C14. \<^verbatim>\<open>sys_setpriority\<close> accepts any level.  A process that sets a level of \<^verbatim>\<open>MLFLEVELS\<close> or more is
  told that it succeeded, and its next \<^verbatim>\<open>yield\<close> indexes the array of queues out of bounds.
\<close>

theorem setpriority_unchecked:
  assumes "idle s" "curproc s = Some p" "MLFLEVELS \<le> unat (ucast level :: ushort)"
  shows "\<exists>s'. setpriority level s = Ret 0 s' \<and> yield s' = Fault"
proof -
  let ?s = "s\<lparr>procs := (procs s)(p := (procs s p)\<lparr>priority := ucast level\<rparr>)\<rparr>"
  have "setpriority level s = Ret 0 ?s"
    using assms(2) by (simp add: setpriority_def with_proc_def kfun_simps upd_proc_def)
  moreover have "idle ?s" using assms(1) by (simp add: idle_def)
  note acquire_ret [OF idle_lock_free [OF this]]
  moreover have "\<not> unat (ucast level :: ushort) < MLFLEVELS - Suc 0" using assms(3) by simp
  ultimately have "yield ?s = Fault"
    using assms(2,3) by (simp add: yield_def with_proc_def kfun_simps upd_proc_def make_runnable_def)
  with \<open>setpriority level s = Ret 0 ?s\<close> show ?thesis by blast
qed

theorem setpriority_unchecked_witness:
  "\<exists>s'. setpriority 7 sched_demo = Ret 0 s' \<and> yield s' = Fault"
proof -
  have "idle sched_demo" using sched_demo_ok by (simp add: sched_ok_def)
  from setpriority_unchecked [OF this sched_demo_simps(1), of 7] show ?thesis by (simp add: MLFLEVELS_def)
qed

end
