(* ===== verification/Mem.thy ===== *)
theory Mem
  imports Prelude
begin

text \<open>
  Byte memory and the string functions of \<^verbatim>\<open>string.c\<close>.  The kernel's memory is a function
  from 32-bit virtual addresses to bytes; pointer arithmetic is word arithmetic.  Each loop of
  \<^verbatim>\<open>string.c\<close> is a recursive function on the number of iterations left.
\<close>

type_synonym mem = "uint \<Rightarrow> uchar"

section \<open>Words in memory\<close>

text \<open>The x86 stores a 32-bit word with its least significant byte first.\<close>

definition of_bytes :: "uchar \<Rightarrow> uchar \<Rightarrow> uchar \<Rightarrow> uchar \<Rightarrow> uint" where
  "of_bytes b0 b1 b2 b3 = ucast b0 OR push_bit 8 (ucast b1) OR push_bit 16 (ucast b2) OR push_bit 24 (ucast b3)"

definition load32 :: "mem \<Rightarrow> uint \<Rightarrow> uint" where
  "load32 m a = of_bytes (m a) (m (a + 1)) (m (a + 2)) (m (a + 3))"

definition byte_of :: "uint \<Rightarrow> nat \<Rightarrow> uchar" where
  "byte_of v i = ucast (drop_bit (8 * i) v)"

definition store32 :: "mem \<Rightarrow> uint \<Rightarrow> uint \<Rightarrow> mem" where
  "store32 m a v = m(a := byte_of v 0, a + 1 := byte_of v 1, a + 2 := byte_of v 2, a + 3 := byte_of v 3)"

lemma of_bytes_byte_of [simp]: "of_bytes (byte_of v 0) (byte_of v 1) (byte_of v 2) (byte_of v 3) = v"
proof (rule bit_word_eqI)
  fix n assume "n < LENGTH(32)"
  then have "n < 8 \<or> 8 \<le> n \<and> n < 16 \<or> 16 \<le> n \<and> n < 24 \<or> 24 \<le> n \<and> n < 32" by simp linarith
  then show "bit (of_bytes (byte_of v 0) (byte_of v 1) (byte_of v 2) (byte_of v 3)) n = bit v n"
    by (auto simp: of_bytes_def byte_of_def bit_simps)
qed

lemma byte_of_of_bytes [simp]:
  "byte_of (of_bytes a b c d) 0 = a" "byte_of (of_bytes a b c d) (Suc 0) = b"
  "byte_of (of_bytes a b c d) 2 = c" "byte_of (of_bytes a b c d) 3 = d"
  by (rule bit_word_eqI; auto simp: of_bytes_def byte_of_def bit_simps dest: bit_imp_le_length)+

lemma load_store_same [simp]: "load32 (store32 m a v) a = v"
  by (simp add: load32_def store32_def del: One_nat_def)

lemma store32_other: "4 \<le> b - a \<Longrightarrow> store32 m a v b = m b"
proof -
  assume b: "4 \<le> b - a"
  have "b \<noteq> a + k" if "k < 4" for k using b that by auto
  from this [of 0] this [of 1] this [of 2] this [of 3] show ?thesis by (simp add: store32_def)
qed

section \<open>string.c\<close>

text \<open>The string instructions of \<^verbatim>\<open>x86.h\<close> that \<^verbatim>\<open>memset\<close> uses.\<close>

fun stosb :: "mem \<Rightarrow> uint \<Rightarrow> uchar \<Rightarrow> nat \<Rightarrow> mem" where
  "stosb m d c 0 = m"
| "stosb m d c (Suc n) = stosb (m(d := c)) (d + 1) c n"

fun stosl :: "mem \<Rightarrow> uint \<Rightarrow> uint \<Rightarrow> nat \<Rightarrow> mem" where
  "stosl m d v 0 = m"
| "stosl m d v (Suc n) = stosl (store32 m d v) (d + 4) v n"

definition memset :: "mem \<Rightarrow> uint \<Rightarrow> uint \<Rightarrow> uint \<Rightarrow> mem" where
  "memset m dst c n =
     (if dst mod 4 = 0 \<and> n mod 4 = 0
      then let c = c AND 0xFF
           in stosl m dst (push_bit 24 c OR push_bit 16 c OR push_bit 8 c OR c) (unat (n div 4))
      else stosb m dst (ucast c) (unat n))"

fun memcmp_loop :: "mem \<Rightarrow> uint \<Rightarrow> uint \<Rightarrow> nat \<Rightarrow> int" where
  "memcmp_loop m s1 s2 0 = 0"
| "memcmp_loop m s1 s2 (Suc n) =
     (if m s1 \<noteq> m s2 then uint (m s1) - uint (m s2) else memcmp_loop m (s1 + 1) (s2 + 1) n)"

definition memcmp :: "mem \<Rightarrow> uint \<Rightarrow> uint \<Rightarrow> uint \<Rightarrow> int" where
  "memcmp m v1 v2 n = memcmp_loop m v1 v2 (unat n)"

fun move_down :: "mem \<Rightarrow> uint \<Rightarrow> uint \<Rightarrow> nat \<Rightarrow> mem" where
  "move_down m d s 0 = m"
| "move_down m d s (Suc n) = move_down (m(d - 1 := m (s - 1))) (d - 1) (s - 1) n"

fun move_up :: "mem \<Rightarrow> uint \<Rightarrow> uint \<Rightarrow> nat \<Rightarrow> mem" where
  "move_up m d s 0 = m"
| "move_up m d s (Suc n) = move_up (m(d := m s)) (d + 1) (s + 1) n"

definition memmove :: "mem \<Rightarrow> uint \<Rightarrow> uint \<Rightarrow> uint \<Rightarrow> mem" where
  "memmove m dst src n =
     (if src < dst \<and> src + n > dst then move_down m (dst + n) (src + n) (unat n)
      else move_up m dst src (unat n))"

definition memcpy :: "mem \<Rightarrow> uint \<Rightarrow> uint \<Rightarrow> uint \<Rightarrow> mem" where
  "memcpy m dst src n = memmove m dst src n"

fun strncmp_loop :: "mem \<Rightarrow> uint \<Rightarrow> uint \<Rightarrow> nat \<Rightarrow> int" where
  "strncmp_loop m p q 0 = 0"
| "strncmp_loop m p q (Suc n) =
     (if m p \<noteq> 0 \<and> m p = m q then strncmp_loop m (p + 1) (q + 1) n else uint (m p) - uint (m q))"

definition strncmp :: "mem \<Rightarrow> uint \<Rightarrow> uint \<Rightarrow> uint \<Rightarrow> int" where
  "strncmp m p q n = strncmp_loop m p q (unat n)"

text \<open>\<^verbatim>\<open>strncpy\<close> copies up to and including a zero byte and pads with zero bytes.\<close>

fun strncpy_loop :: "mem \<Rightarrow> uint \<Rightarrow> uint \<Rightarrow> nat \<Rightarrow> mem" where
  "strncpy_loop m s t 0 = m"
| "strncpy_loop m s t (Suc n) =
     (let m' = m(s := m t) in if m t \<noteq> 0 then strncpy_loop m' (s + 1) (t + 1) n else stosb m' (s + 1) 0 n)"

definition strncpy :: "mem \<Rightarrow> uint \<Rightarrow> uint \<Rightarrow> int \<Rightarrow> mem" where
  "strncpy m s t n = strncpy_loop m s t (nat n)"

fun safestrcpy_loop :: "mem \<Rightarrow> uint \<Rightarrow> uint \<Rightarrow> nat \<Rightarrow> mem" where
  "safestrcpy_loop m s t 0 = m(s := 0)"
| "safestrcpy_loop m s t (Suc n) =
     (let m' = m(s := m t) in if m t \<noteq> 0 then safestrcpy_loop m' (s + 1) (t + 1) n else m'(s + 1 := 0))"

definition safestrcpy :: "mem \<Rightarrow> uint \<Rightarrow> uint \<Rightarrow> int \<Rightarrow> mem" where
  "safestrcpy m s t n = (if n \<le> 0 then m else safestrcpy_loop m s t (nat (n - 1)))"

text \<open>A string without terminator keeps \<^verbatim>\<open>strlen\<close> running; then there is no result.\<close>

partial_function (option) strlen_from :: "mem \<Rightarrow> uint \<Rightarrow> nat \<Rightarrow> nat option" where
  "strlen_from m s n = (if m (s + of_nat n) = 0 then Some n else strlen_from m s (Suc n))"

definition strlen :: "mem \<Rightarrow> uint \<Rightarrow> nat option" where
  "strlen m s = strlen_from m s 0"

section \<open>Filling\<close>

lemma unat_pred32: "x \<noteq> 0 \<Longrightarrow> unat (x - 1 :: uint) = unat x - 1"
  by (simp add: unat_minus_one)

lemma unat_bound32 [simp]: "unat (x :: uint) < 2 ^ 32"
  using unsigned_less [of x, where ?'a = nat] by simp

lemma stosb_apply:
  "n \<le> 2 ^ 32 \<Longrightarrow> stosb m d c n a = (if unat (a - d) < n then c else m a)"
proof (induction n arbitrary: m d)
  case 0
  then show ?case by simp
next
  case (Suc n)
  have eq: "a - (d + 1) = (a - d) - 1" by simp
  show ?case
  proof (cases "a = d")
    case True
    have "unat (- 1 :: uint) = 2 ^ 32 - 1" by (simp add: unsigned_minus_1_eq_mask mask_eq_exp_minus_1)
    then have "\<not> unat (a - (d + 1)) < n" using Suc.prems True by simp
    with Suc True show ?thesis by simp
  next
    case False
    then have "unat (a - (d + 1)) = unat (a - d) - 1" "unat (a - d) \<noteq> 0"
      unfolding eq by (auto simp: unat_pred32 unat_eq_0)
    with Suc False show ?thesis by auto
  qed
qed

lemma stosb_add: "stosb (stosb m d c k) (d + of_nat k) c n = stosb m d c (k + n)"
proof (induction k arbitrary: m d)
  case 0
  then show ?case by simp
next
  case (Suc k)
  have eq: "d + of_nat (Suc k) = (d + 1) + of_nat k" by simp
  show ?case by (simp only: eq stosb.simps(2) add_Suc Suc)
qed

lemma store32_fill:
  assumes "byte_of v 0 = c" "byte_of v 1 = c" "byte_of v 2 = c" "byte_of v 3 = c"
  shows "store32 m d v = stosb m d c 4"
proof -
  have "stosb m d c (Suc (Suc (Suc (Suc 0)))) = m(d := c, d + 1 := c, d + 2 := c, d + 3 := c)"
    by (simp add: add.assoc)
  moreover have "Suc (Suc (Suc (Suc 0))) = 4" by simp
  ultimately show ?thesis by (simp only: store32_def assms)
qed

lemma stosl_fill:
  assumes "byte_of v 0 = c" "byte_of v 1 = c" "byte_of v 2 = c" "byte_of v 3 = c"
  shows "stosl m d v n = stosb m d c (4 * n)"
proof (induction n arbitrary: m d)
  case 0
  then show ?case by simp
next
  case (Suc n)
  have "stosl m d v (Suc n) = stosb (stosb m d c 4) (d + of_nat 4) c (4 * n)"
    using Suc store32_fill [OF assms] by simp
  also have "\<dots> = stosb m d c (4 + 4 * n)" by (rule stosb_add)
  finally show ?case by simp
qed

lemma pattern_bytes:
  fixes c :: uint
  assumes "c' = c AND 0xFF" "v = push_bit 24 c' OR push_bit 16 c' OR push_bit 8 c' OR c'"
  shows "byte_of v 0 = ucast c" "byte_of v 1 = ucast c" "byte_of v 2 = ucast c" "byte_of v 3 = ucast c"
proof -
  have "(0xFF :: uint) = mask 8" by (simp add: mask_eq_exp_minus_1)
  then have c': "c' = take_bit 8 c" using assms(1) by (simp only: take_bit_eq_mask)
  show "byte_of v 0 = ucast c" "byte_of v 1 = ucast c" "byte_of v 2 = ucast c" "byte_of v 3 = ucast c"
    unfolding assms(2) c' by (rule bit_word_eqI; simp add: byte_of_def bit_simps; linarith?)+
qed

text \<open>Both paths of \<^verbatim>\<open>memset\<close> fill the \<open>n\<close> bytes from \<open>dst\<close> on, and no others.\<close>

lemma memset_apply: "memset m dst c n a = (if a - dst < n then ucast c else m a)"
proof (cases "dst mod 4 = 0 \<and> n mod 4 = 0")
  case True
  let ?c = "c AND 0xFF"
  let ?v = "push_bit 24 ?c OR push_bit 16 ?c OR push_bit 8 ?c OR ?c"
  have "4 * unat (n div 4) = unat n"
  proof -
    have "unat (n mod 4) = unat n mod 4" by (simp add: unat_mod_distrib)
    then have "unat n mod 4 = 0" using True by simp
    then show ?thesis by (simp add: unat_div_distrib) (metis mod_0_imp_dvd dvd_mult_div_cancel)
  qed
  then have "memset m dst c n = stosb m dst (ucast c) (unat n)"
    using True stosl_fill [OF pattern_bytes [OF refl refl, of c]] by (simp add: memset_def Let_def)
  then show ?thesis by (simp add: stosb_apply [OF less_imp_le [OF unat_bound32]] word_less_nat_alt)
next
  case False
  then have "memset m dst c n = stosb m dst (ucast c) (unat n)" unfolding memset_def by (rule if_not_P)
  then show ?thesis by (simp add: stosb_apply [OF less_imp_le [OF unat_bound32]] word_less_nat_alt)
qed

section \<open>Copying\<close>

lemma unat_add32: "unat a + k < 2 ^ 32 \<Longrightarrow> unat (a + of_nat k :: uint) = unat a + k"
  by (simp add: unat_word_ariths unat_of_nat)

lemma unat_sub32: "unat b \<le> unat a \<Longrightarrow> unat (a - b :: uint) = unat a - unat b"
  by (simp add: unat_sub word_le_nat_alt)

text \<open>\<open>copied m d s n\<close> is the memory after the \<open>n\<close> bytes at \<open>s\<close> are at \<open>d\<close>, all at once.\<close>

definition copied :: "mem \<Rightarrow> uint \<Rightarrow> uint \<Rightarrow> nat \<Rightarrow> mem" where
  "copied m d s n = (\<lambda>a. if unat (a - d) < n then m (s + (a - d)) else m a)"

lemma in_range:
  fixes a d :: uint
  assumes "unat d + n \<le> 2 ^ 32"
  shows "unat (a - d) < n \<longleftrightarrow> unat d \<le> unat a \<and> unat a < unat d + n"
proof (cases "d \<le> a")
  case True
  then have le: "unat d \<le> unat a" by (simp add: word_le_nat_alt)
  with unat_sub32 [OF le] show ?thesis by auto
next
  case False
  then have lt: "unat a < unat d" by (simp add: word_le_nat_alt)
  then have "unat (a - d) = unat a + 2 ^ 32 - unat d" by (simp add: unat_sub_if_size word_size)
  then show ?thesis using assms lt by auto
qed

lemma move_up_copied:
  assumes "unat d + n \<le> 2 ^ 32" "unat s + n \<le> 2 ^ 32" "unat d \<le> unat s \<or> unat s + n \<le> unat d"
  shows "move_up m d s n = copied m d s n"
  using assms
proof (induction n arbitrary: m d s)
  case 0
  then show ?case by (simp add: copied_def)
next
  case (Suc n)
  show ?case
  proof (cases "n = 0")
    case True
    then show ?thesis by (auto simp: copied_def fun_eq_iff unat_eq_0)
  next
    case False
    have su: "unat (d + 1) = unat d + 1" "unat (s + 1) = unat s + 1"
      using Suc.prems(1,2) False unat_add32 [of d 1] unat_add32 [of s 1] by simp_all
    have "move_up m d s (Suc n) = copied (m(d := m s)) (d + 1) (s + 1) n"
      unfolding move_up.simps by (rule Suc.IH) (use Suc.prems su in auto)
    also have "\<dots> = copied m d s (Suc n)"
    proof
      fix a
      have r: "unat (a - (d + 1)) < n \<longleftrightarrow> unat d < unat a \<and> unat a < unat d + Suc n"
        "unat (a - d) < Suc n \<longleftrightarrow> unat d \<le> unat a \<and> unat a < unat d + Suc n"
        using in_range [of "d + 1" n a] in_range [of d "Suc n" a] Suc.prems(1) by (auto simp: su)
      show "copied (m(d := m s)) (d + 1) (s + 1) n a = copied m d s (Suc n) a"
      proof (cases "unat d < unat a \<and> unat a < unat d + Suc n")
        case True
        then have ad: "unat (a - d) = unat a - unat d" by (simp add: unat_sub32)
        have "unat s + (unat a - unat d) < 2 ^ 32" using True Suc.prems(2) by linarith
        then have "unat (s + of_nat (unat (a - d))) = unat s + unat (a - d)"
          unfolding ad [symmetric] by (rule unat_add32)
        then have "unat (s + (a - d)) = unat s + unat (a - d)" by simp
        then have "unat (s + (a - d)) = unat s + (unat a - unat d)" unfolding ad .
        then have "unat (s + (a - d)) \<noteq> unat d" using True Suc.prems(3) by linarith
        then have "s + (a - d) \<noteq> d" by metis
        with True r show ?thesis by (simp add: copied_def algebra_simps)
      next
        case False
        show ?thesis
        proof (cases "a = d")
          case True
          with r show ?thesis by (simp add: copied_def)
        next
          case other: False
          then have "unat a \<noteq> unat d" by (simp add: word_unat_eq_iff)
          with False r other show ?thesis by (auto simp: copied_def)
        qed
      qed
    qed
    finally show ?thesis .
  qed
qed

lemma move_down_copied:
  assumes "unat d + n < 2 ^ 32" "unat s + n < 2 ^ 32" "unat s \<le> unat d"
  shows "move_down m (d + of_nat n) (s + of_nat n) n = copied m d s n"
  using assms
proof (induction n arbitrary: m)
  case 0
  then show ?case by (simp add: copied_def)
next
  case (Suc n)
  let ?m = "m(d + of_nat n := m (s + of_nat n))"
  have eq: "d + of_nat (Suc n) - 1 = d + of_nat n" "s + of_nat (Suc n) - 1 = s + of_nat n" by simp_all
  have "move_down m (d + of_nat (Suc n)) (s + of_nat (Suc n)) (Suc n) = copied ?m d s n"
    unfolding move_down.simps eq using Suc by simp
  also have "\<dots> = copied m d s (Suc n)"
  proof
    fix a
    have un: "unat (d + of_nat n) = unat d + n" "unat (s + of_nat n) = unat s + n"
      using Suc.prems unat_add32 [of d n] unat_add32 [of s n] by simp_all
    have r: "unat (a - d) < n \<longleftrightarrow> unat d \<le> unat a \<and> unat a < unat d + n"
      "unat (a - d) < Suc n \<longleftrightarrow> unat d \<le> unat a \<and> unat a < unat d + Suc n"
      using in_range [of d n a] in_range [of d "Suc n" a] Suc.prems(1) by auto
    show "copied ?m d s n a = copied m d s (Suc n) a"
    proof (cases "unat (a - d) < n")
      case True
      then have "unat (s + (a - d)) = unat s + unat (a - d)"
        using unat_add32 [of s "unat (a - d)"] Suc.prems(2) by simp
      then have "unat (s + (a - d)) < unat (d + of_nat n)" using True un Suc.prems(3) by linarith
      then have "s + (a - d) \<noteq> d + of_nat n" by (metis less_irrefl)
      with True show ?thesis by (simp add: copied_def)
    next
      case False
      then have "unat (a - d) < Suc n \<longleftrightarrow> a = d + of_nat n"
        using r un by (auto simp: word_unat_eq_iff)
      with False show ?thesis by (auto simp: copied_def)
    qed
  qed
  finally show ?case .
qed

text \<open>\<^verbatim>\<open>memmove\<close> is correct for overlapping ranges too.\<close>

lemma memmove_copied:
  assumes "unat dst + unat n < 2 ^ 32" "unat src + unat n < 2 ^ 32"
  shows "memmove m dst src n = copied m dst src (unat n)"
proof (cases "src < dst \<and> src + n > dst")
  case True
  then show ?thesis
    using move_down_copied [of dst "unat n" src m] assms by (simp add: memmove_def word_less_nat_alt)
next
  case False
  have "unat (src + n) = unat src + unat n" using unat_add32 [of src "unat n"] assms by simp
  with False have "unat dst \<le> unat src \<or> unat src + unat n \<le> unat dst" by (auto simp: word_less_nat_alt)
  then have "move_up m dst src (unat n) = copied m dst src (unat n)"
    using assms by (intro move_up_copied) auto
  with False show ?thesis by (auto simp: memmove_def)
qed

section \<open>Strings\<close>

text \<open>\<open>cstring m p xs\<close>: the bytes \<open>xs\<close>, none of them zero, and a zero byte after them start at \<open>p\<close>.\<close>

fun cstring :: "mem \<Rightarrow> uint \<Rightarrow> uchar list \<Rightarrow> bool" where
  "cstring m p [] = (m p = 0)"
| "cstring m p (x # xs) = (m p = x \<and> x \<noteq> 0 \<and> cstring m (p + 1) xs)"

lemma strlen_from_cstring:
  "cstring m (p + of_nat k) xs \<Longrightarrow> strlen_from m p k = Some (k + length xs)"
proof (induction xs arbitrary: k)
  case Nil
  then show ?case by (subst strlen_from.simps) simp
next
  case (Cons x xs)
  have "strlen_from m p (Suc k) = Some (Suc k + length xs)"
    using Cons.prems by (intro Cons.IH) (simp add: add.assoc [symmetric] add.commute [of 1])
  then show ?case using Cons.prems by (subst strlen_from.simps) auto
qed

lemma strlen_cstring: "cstring m p xs \<Longrightarrow> strlen m p = Some (length xs)"
  using strlen_from_cstring [of m p 0 xs] by (simp add: strlen_def)

text \<open>\<^verbatim>\<open>strncmp\<close> compares the first \<open>n\<close> bytes of two strings, in the order of their bytes.\<close>

lemma strncmp_loop_zero:
  "cstring m p xs \<Longrightarrow> cstring m q ys \<Longrightarrow> strncmp_loop m p q n = 0 \<longleftrightarrow> take n xs = take n ys"
proof (induction m p q n arbitrary: xs ys rule: strncmp_loop.induct)
  case (1 m p q)
  then show ?case by simp
next
  case (2 m p q n)
  have eq: "uint (m p) - uint (m q) = 0 \<longleftrightarrow> m p = m q" by (simp add: word_uint_eq_iff)
  show ?case
  proof (cases xs)
    case Nil
    with 2 eq show ?thesis by (cases ys) auto
  next
    case (Cons x xs')
    with 2 eq show ?thesis by (cases ys) (auto simp: word_uint_eq_iff)
  qed
qed

text \<open>\<^verbatim>\<open>safestrcpy\<close> leaves a terminated prefix of the source in a buffer of \<open>n\<close> bytes.\<close>

lemma cstring_cong: "(\<And>k. k \<le> length xs \<Longrightarrow> m' (p + of_nat k) = m (p + of_nat k)) \<Longrightarrow> cstring m' p xs = cstring m p xs"
proof (induction xs arbitrary: p)
  case Nil
  from Nil [of 0] show ?case by simp
next
  case (Cons x xs)
  have "cstring m' (p + 1) xs = cstring m (p + 1) xs"
    using Cons.prems [of "Suc _"] by (intro Cons.IH) (simp add: add.assoc)
  with Cons.prems [of 0] show ?case by simp
qed

lemma safestrcpy_loop_frame:
  "n < 2 ^ 32 \<Longrightarrow> n < unat (a - s) \<Longrightarrow> safestrcpy_loop m s t n a = m a"
proof (induction n arbitrary: m s t)
  case 0
  then show ?case by auto
next
  case (Suc n)
  then have "a \<noteq> s" by auto
  then have "a - s \<noteq> 0" by simp
  then have "unat (a - (s + 1)) = unat (a - s) - 1" using unat_pred32 [of "a - s"] by (simp add: diff_diff_eq)
  moreover from this have "a \<noteq> s + 1" using Suc.prems(2) by auto
  ultimately show ?case using Suc \<open>a \<noteq> s\<close> by (simp add: Let_def)
qed

lemma safestrcpy_loop_cstring:
  assumes "n < 2 ^ 32 - 1" "cstring m t xs"
    and "\<And>i j. i \<le> n \<Longrightarrow> j \<le> length xs \<Longrightarrow> s + of_nat i \<noteq> t + of_nat j"
  shows "cstring (safestrcpy_loop m s t n) s (take n xs)"
  using assms
proof (induction n arbitrary: m s t xs)
  case 0
  then show ?case by simp
next
  case (Suc n)
  show ?case
  proof (cases xs)
    case Nil
    then show ?thesis using Suc.prems(2) by (simp add: Let_def)
  next
    case (Cons x xs')
    let ?m = "m(s := m t)"
    let ?r = "safestrcpy_loop ?m (s + 1) (t + 1) n"
    have x: "m t = x" "x \<noteq> 0" "cstring m (t + 1) xs'" using Suc.prems(2) Cons by auto
    have dis: "s + of_nat i \<noteq> t + of_nat j" if "i \<le> Suc n" "j \<le> Suc (length xs')" for i j
      using Suc.prems(3) [of i j] that Cons by auto
    have "cstring ?r (s + 1) (take n xs')"
    proof (cases "n = 0")
      case True
      then show ?thesis by simp
    next
      case False
      show ?thesis
      proof (rule Suc.IH)
        show "n < 2 ^ 32 - 1" using Suc.prems(1) by simp
        have "s \<noteq> t + 1 + of_nat k" if "k \<le> length xs'" for k
          using dis [of 0 "Suc k"] that by (simp add: add.assoc)
        then have "cstring ?m (t + 1) xs' = cstring m (t + 1) xs'" by (intro cstring_cong) auto
        with x(3) show "cstring ?m (t + 1) xs'" by simp
        fix i j assume "i \<le> n" "j \<le> length xs'"
        then show "s + 1 + of_nat i \<noteq> t + 1 + of_nat j" using dis [of "Suc i" "Suc j"] by (simp add: add.assoc)
      qed
    qed
    moreover have "?r s = ?m s"
    proof (rule safestrcpy_loop_frame)
      have "unat (s - (s + 1)) = 2 ^ 32 - 1" by (simp add: unsigned_minus_1_eq_mask mask_eq_exp_minus_1)
      then show "n < unat (s - (s + 1))" using Suc.prems(1) by simp
    qed (use Suc.prems(1) in simp)
    ultimately show ?thesis using Cons x by (simp add: Let_def)
  qed
qed

section \<open>Properties\<close>

text \<open>
  C20. \<^verbatim>\<open>memmove\<close> copies overlapping ranges correctly.  When neither range wraps around the
  address space, byte \<open>i\<close> of the destination is byte \<open>i\<close> the source had before the call, whichever
  way the ranges overlap, and no other byte changes.
\<close>

theorem memmove_overlapping:
  assumes "unat dst + unat n < 2 ^ 32" "unat src + unat n < 2 ^ 32"
  shows "(\<forall>i<n. memmove m dst src n (dst + i) = m (src + i)) \<and>
    (\<forall>a. (\<forall>i<n. a \<noteq> dst + i) \<longrightarrow> memmove m dst src n a = m a)"
proof (intro conjI allI impI)
  fix i assume "i < n"
  then show "memmove m dst src n (dst + i) = m (src + i)"
    by (simp add: memmove_copied [OF assms] copied_def word_less_nat_alt)
next
  fix a assume a: "\<forall>i<n. a \<noteq> dst + i"
  then have "\<not> a - dst < n" by (metis add_diff_cancel_left' add_diff_eq)
  then show "memmove m dst src n a = m a"
    by (simp add: memmove_copied [OF assms] copied_def word_less_nat_alt)
qed

theorem memmove_overlapping_witness:
  "memmove (\<lambda>a. ucast a) 0x101 0x100 4 0x103 = (0x02 :: uchar) \<and>
   memmove (\<lambda>a. ucast a) 0x100 0x101 4 0x100 = (0x01 :: uchar)"
proof -
  let ?m = "\<lambda>a. ucast a :: uchar"
  have "\<forall>i<4. memmove ?m 0x101 0x100 4 (0x101 + i) = ?m (0x100 + i)"
    using memmove_overlapping [of "0x101" 4 "0x100" ?m] by simp
  moreover have "\<forall>i<4. memmove ?m 0x100 0x101 4 (0x100 + i) = ?m (0x101 + i)"
    using memmove_overlapping [of "0x100" 4 "0x101" ?m] by simp
  ultimately show ?thesis by (fastforce dest: spec [of _ "2 :: uint"] spec [of _ "0 :: uint"])
qed

text \<open>
  C21. \<^verbatim>\<open>memset\<close> fills exactly the bytes of its range.  The path that stores words, taken when
  address and length are multiples of four, and the path that stores bytes have the same effect.
\<close>

theorem memset_fills:
  "memset m dst c n = (\<lambda>a. if a - dst < n then ucast c else m a)"
  by (rule ext) (rule memset_apply)



end
