(* ===== verification/Kalloc.thy ===== *)
theory Kalloc
  imports Mem Paging
begin

text \<open>
  The physical page allocator \<^verbatim>\<open>kalloc.c\<close>.  The free list is kept in the free pages
  themselves, as in the code: the first word of a free page is the address of the next one.
  \<open>chain\<close> relates it to a list of pages.  Every function runs its critical section under
  \<^verbatim>\<open>kmem.lock\<close> and is one step here; the linker symbol \<^verbatim>\<open>end\<close> is the field \<open>kend\<close>.

  The locale \<open>page_allocator\<close> is the contract the memory manager relies on, and it is
  interpreted on \<^verbatim>\<open>kalloc\<close> and \<^verbatim>\<open>kfree\<close>.
\<close>

section \<open>State and operations\<close>

record kmem =
  kmemory :: mem
  freelist :: uint
  use_lock :: bool
  kend :: uint

definition kfree :: "uint \<Rightarrow> (unit, 'a kmem_scheme) kfun" where
  "kfree v =
     seq (panic_if (\<lambda>s. v mod PGSIZE \<noteq> 0 \<or> v < kend s \<or> v2p v \<ge> PHYSTOP) ''kfree'')
    (seq (modify (\<lambda>s. s\<lparr>kmemory := memset (kmemory s) v 1 PGSIZE\<rparr>))
         (modify (\<lambda>s. s\<lparr>kmemory := store32 (kmemory s) v (freelist s), freelist := v\<rparr>)))"

definition kalloc :: "(uint, 'a kmem_scheme) kfun" where
  "kalloc =
     bind (gets freelist) (\<lambda>r.
     seq (if r \<noteq> 0 then modify (\<lambda>s. s\<lparr>freelist := load32 (kmemory s) r\<rparr>) else return ())
         (return r))"

text \<open>
  The loop of \<^verbatim>\<open>freerange\<close>.  The address space has \<open>2 ^ 20\<close> pages, so that \<open>2 ^ 20\<close> iterations
  are enough unless the loop never ends.
\<close>

fun freerange_loop :: "nat \<Rightarrow> uint \<Rightarrow> uint \<Rightarrow> (unit, 'a kmem_scheme) kfun" where
  "freerange_loop 0 p vend = (\<lambda>s. Spin)"
| "freerange_loop (Suc n) p vend =
     (if p + PGSIZE \<le> vend then seq (kfree p) (freerange_loop n (p + PGSIZE) vend) else return ())"

definition freerange :: "uint \<Rightarrow> uint \<Rightarrow> (unit, 'a kmem_scheme) kfun" where
  "freerange vstart vend = freerange_loop (2 ^ 20) (PGROUNDUP vstart) vend"

definition kinit1 :: "uint \<Rightarrow> uint \<Rightarrow> (unit, 'a kmem_scheme) kfun" where
  "kinit1 vstart vend = seq (modify (\<lambda>s. s\<lparr>use_lock := False\<rparr>)) (freerange vstart vend)"

definition kinit2 :: "uint \<Rightarrow> uint \<Rightarrow> (unit, 'a kmem_scheme) kfun" where
  "kinit2 vstart vend = seq (freerange vstart vend) (modify (\<lambda>s. s\<lparr>use_lock := True\<rparr>))"

section \<open>The free list\<close>

fun chain :: "mem \<Rightarrow> uint \<Rightarrow> uint list \<Rightarrow> bool" where
  "chain m r [] = (r = 0)"
| "chain m r (p # ps) = (r = p \<and> p \<noteq> 0 \<and> chain m (load32 m p) ps)"

definition page_ok :: "uint \<Rightarrow> uint \<Rightarrow> bool" where
  "page_ok e p \<longleftrightarrow> page_aligned p \<and> e \<le> p \<and> v2p p < PHYSTOP"

definition free_ok :: "uint list \<Rightarrow> 'a kmem_scheme \<Rightarrow> bool" where
  "free_ok ps s \<longleftrightarrow> KERNBASE < kend s \<and> chain (kmemory s) (freelist s) ps \<and> distinct ps \<and>
     (\<forall>p\<in>set ps. page_ok (kend s) p)"

text \<open>Two memories that agree outside the page at \<open>p\<close>.\<close>

definition same_outside :: "uint set \<Rightarrow> mem \<Rightarrow> mem \<Rightarrow> bool" where
  "same_outside P m m' \<longleftrightarrow> (\<forall>a. PGROUNDDOWN a \<notin> P \<longrightarrow> m' a = m a)"

lemma same_outside_refl [simp]: "same_outside P m m"
  by (simp add: same_outside_def)

lemma same_outside_trans: "same_outside P m m' \<Longrightarrow> same_outside P m' m'' \<Longrightarrow> same_outside P m m''"
  by (simp add: same_outside_def)

lemma same_outside_mono: "same_outside P m m' \<Longrightarrow> P \<subseteq> Q \<Longrightarrow> same_outside Q m m'"
  by (auto simp: same_outside_def)

lemma page_bytes:
  assumes "page_aligned p" "k < PGSIZE"
  shows "PGROUNDDOWN (p + k) = p"
  using in_page_iff [OF assms(1), of "p + k"] assms(2) by simp

lemma load32_outside:
  assumes "same_outside P m m'" "page_aligned p" "p \<notin> P"
  shows "load32 m' p = load32 m p"
proof -
  have "m' (p + k) = m (p + k)" if "k < 4" for k
  proof -
    have "k < PGSIZE" using that by (simp add: PGSIZE_def word_less_nat_alt)
    then show ?thesis using assms page_bytes [OF assms(2)] by (simp add: same_outside_def)
  qed
  from this [of 0] this [of 1] this [of 2] this [of 3] show ?thesis by (simp add: load32_def)
qed

lemma chain_outside:
  assumes "same_outside P m m'" "\<forall>p\<in>set ps. page_aligned p \<and> p \<notin> P"
  shows "chain m' r ps = chain m r ps"
  using assms(2) by (induction ps arbitrary: r) (auto simp: load32_outside [OF assms(1)])

lemma memset_outside: "page_aligned v \<Longrightarrow> same_outside {v} m (memset m v c PGSIZE)"
  using in_page_iff [of v] by (auto simp: same_outside_def memset_apply)

lemma store32_outside:
  assumes "page_aligned v"
  shows "same_outside {v} m (store32 m v x)"
proof (unfold same_outside_def, intro allI impI)
  fix a assume "PGROUNDDOWN a \<notin> {v}"
  then have "\<not> a - v < PGSIZE" using in_page_iff [OF assms] by simp
  then have "4 \<le> a - v" by (simp add: PGSIZE_def word_le_nat_alt word_less_nat_alt)
  then show "store32 m v x a = m a" by (rule store32_other)
qed

section \<open>Behaviour\<close>

lemma kfree_panics:
  "v mod PGSIZE \<noteq> 0 \<or> v < kend s \<or> v2p v \<ge> PHYSTOP \<Longrightarrow> kfree v s = Panic ''kfree''"
  by (auto simp: kfree_def kfun_simps)

lemma kfree_ret:
  assumes "free_ok ps s" "page_ok (kend s) v" "v \<notin> set ps"
  shows "\<exists>m. kfree v s = Ret () (s\<lparr>kmemory := m, freelist := v\<rparr>) \<and> same_outside {v} (kmemory s) m \<and>
    free_ok (v # ps) (s\<lparr>kmemory := m, freelist := v\<rparr>)"
proof -
  let ?m = "store32 (memset (kmemory s) v 1 PGSIZE) v (freelist s)"
  have al: "page_aligned v" using assms(2) by (simp add: page_ok_def)
  have "kfree v s = Ret () (s\<lparr>kmemory := ?m, freelist := v\<rparr>)"
    using assms(2) by (auto simp: kfree_def kfun_simps page_ok_def page_aligned_def)
  moreover have out: "same_outside {v} (kmemory s) ?m"
    using memset_outside [OF al] store32_outside [OF al] same_outside_trans by blast
  moreover have "v \<noteq> 0" using assms(1,2) by (auto simp: free_ok_def page_ok_def KERNBASE_def)
  moreover have "chain ?m (freelist s) ps = chain (kmemory s) (freelist s) ps"
    using assms by (intro chain_outside [OF out]) (auto simp: free_ok_def page_ok_def)
  ultimately show ?thesis
    using assms by (intro exI [of _ ?m]) (auto simp: free_ok_def)
qed

lemma kalloc_empty: "free_ok [] s \<Longrightarrow> kalloc s = Ret 0 s"
  by (simp add: free_ok_def kalloc_def kfun_simps)

lemma kalloc_ret:
  assumes "free_ok (p # ps) s"
  shows "kalloc s = Ret p (s\<lparr>freelist := load32 (kmemory s) p\<rparr>)"
    and "free_ok ps (s\<lparr>freelist := load32 (kmemory s) p\<rparr>)" and "page_ok (kend s) p" and "p \<notin> set ps" and "p \<noteq> 0"
  using assms by (auto simp: free_ok_def kalloc_def kfun_simps)

lemma free_ok_write:
  assumes "free_ok ps s" "same_outside P (kmemory s) m" "set ps \<inter> P = {}"
  shows "free_ok ps (s\<lparr>kmemory := m\<rparr>)"
proof -
  have "chain m (freelist s) ps = chain (kmemory s) (freelist s) ps"
    using assms(1,3) by (intro chain_outside [OF assms(2)]) (auto simp: free_ok_def page_ok_def)
  with assms(1) show ?thesis by (simp add: free_ok_def)
qed

text \<open>The pages of \<^verbatim>\<open>freerange\<close>, in the order they are freed.\<close>

definition pages_from :: "uint \<Rightarrow> nat \<Rightarrow> uint list" where
  "pages_from p k = map (\<lambda>i. p + of_nat i * PGSIZE) [0..<k]"

lemma pages_from_Suc: "pages_from p (Suc k) = p # pages_from (p + PGSIZE) k"
  by (simp add: pages_from_def upt_conv_Cons map_Suc_upt [symmetric] algebra_simps del: upt_Suc)

lemma unat_page_offset:
  assumes "unat p + 4096 * k < 2 ^ 32" "i \<le> k"
  shows "unat (p + of_nat i * PGSIZE) = unat p + 4096 * i"
proof -
  have "unat p + i * 4096 < 4294967296" using assms by simp
  then have "i * 4096 < 4294967296" "i < 4294967296" by auto
  then show ?thesis
    using \<open>unat p + i * 4096 < 4294967296\<close> by (simp add: PGSIZE_def unat_word_ariths unat_of_nat)
qed

lemma freerange_loop_ret:
  assumes "free_ok ps s" "page_aligned p" "kend s \<le> p" "k < n"
    and "unat p + 4096 * k \<le> unat vend" "unat vend < unat p + 4096 * Suc k"
    and "unat vend \<le> unat KERNBASE + unat PHYSTOP"
    and "set ps \<inter> set (pages_from p k) = {}"
  shows "\<exists>s'. freerange_loop n p vend s = Ret () s' \<and> free_ok (rev (pages_from p k) @ ps) s' \<and>
    same_outside (set (pages_from p k)) (kmemory s) (kmemory s') \<and> kend s' = kend s \<and> use_lock s' = use_lock s"
  using assms
proof (induction k arbitrary: n p s ps)
  case 0
  then obtain n' where n: "n = Suc n'" by (cases n) auto
  have "unat (p + PGSIZE) = unat p + 4096"
    using 0(5,7) by (simp add: PGSIZE_def unat_word_ariths KERNBASE_def PHYSTOP_def)
  then have "\<not> p + PGSIZE \<le> vend" using 0(6) by (simp add: word_le_nat_alt)
  with 0(1) n show ?case by (simp add: kfun_simps pages_from_def)
next
  case (Suc k)
  then obtain n' where n: "n = Suc n'" "k < n'" by (cases n) auto
  have nw: "unat p + 4096 * Suc k < 2 ^ 32" using Suc.prems(5,7) by (simp add: KERNBASE_def PHYSTOP_def)
  have p': "unat (p + PGSIZE) = unat p + 4096" using unat_page_offset [OF nw, of 1] by simp
  then have le: "p + PGSIZE \<le> vend" using Suc.prems(5) by (simp add: word_le_nat_alt)
  have kb: "unat KERNBASE < unat (kend s)" "unat (kend s) \<le> unat p"
    using Suc.prems(1,3) by (simp_all add: free_ok_def word_less_nat_alt word_le_nat_alt)
  have ok: "page_ok (kend s) p"
  proof -
    have "unat (v2p p) = unat p - unat KERNBASE" using kb by (simp add: v2p_def unat_sub word_le_nat_alt)
    then have "unat (v2p p) < unat PHYSTOP" using Suc.prems(5,7) kb by (simp add: KERNBASE_def PHYSTOP_def)
    then show ?thesis using Suc.prems(2,3) by (simp add: page_ok_def word_less_nat_alt)
  qed
  have "p \<notin> set ps" using Suc.prems(8) by (auto simp: pages_from_Suc)
  then obtain m where m: "kfree p s = Ret () (s\<lparr>kmemory := m, freelist := p\<rparr>)" "same_outside {p} (kmemory s) m"
    "free_ok (p # ps) (s\<lparr>kmemory := m, freelist := p\<rparr>)"
    using kfree_ret [OF Suc.prems(1) ok] by blast
  let ?s = "s\<lparr>kmemory := m, freelist := p\<rparr>"
  have notp: "p \<notin> set (pages_from (p + PGSIZE) k)"
  proof
    assume "p \<in> set (pages_from (p + PGSIZE) k)"
    then obtain i where i: "i < k" "p = p + of_nat (Suc i) * PGSIZE" by (auto simp: pages_from_def algebra_simps)
    have "unat (p + of_nat (Suc i) * PGSIZE) = unat p + 4096 * Suc i"
      using i(1) by (intro unat_page_offset [OF nw]) simp
    then have "unat p = unat p + 4096 * Suc i" using i(2) by simp
    then show False by simp
  qed
  have al: "page_aligned (p + PGSIZE)" using Suc.prems(2) by (simp add: page_aligned_unat p')
  have "\<exists>s'. freerange_loop n' (p + PGSIZE) vend ?s = Ret () s' \<and> free_ok (rev (pages_from (p + PGSIZE) k) @ p # ps) s' \<and>
    same_outside (set (pages_from (p + PGSIZE) k)) (kmemory ?s) (kmemory s') \<and> kend s' = kend ?s \<and> use_lock s' = use_lock ?s"
  proof (rule Suc.IH [OF m(3) al _ n(2)])
    show "kend ?s \<le> p + PGSIZE" using kb p' by (simp add: word_le_nat_alt)
    show "set (p # ps) \<inter> set (pages_from (p + PGSIZE) k) = {}"
      using Suc.prems(8) notp by (auto simp: pages_from_Suc)
  qed (use Suc.prems p' in simp_all)
  then obtain s' where s': "freerange_loop n' (p + PGSIZE) vend ?s = Ret () s'"
    "free_ok (rev (pages_from (p + PGSIZE) k) @ p # ps) s'"
    "same_outside (set (pages_from (p + PGSIZE) k)) m (kmemory s')" "kend s' = kend s" "use_lock s' = use_lock s"
    by auto
  then have "freerange_loop n p vend s = Ret () s'" using m(1) le n by (simp add: kfun_simps)
  moreover have "same_outside (set (pages_from p (Suc k))) (kmemory s) (kmemory s')"
    using m(2) s'(3) by (auto simp: same_outside_def pages_from_Suc)
  ultimately show ?case using s' by (simp add: pages_from_Suc)
qed

section \<open>Contract\<close>

text \<open>A run of allocations and frees by a client that frees only pages it was given.\<close>

datatype kop = KAlloc | KFree uint

fun kop_step :: "(uint, 's) kfun \<Rightarrow> (uint \<Rightarrow> (unit, 's) kfun) \<Rightarrow> kop \<Rightarrow> 's \<times> uint set \<Rightarrow> ('s \<times> uint set) option" where
  "kop_step alloc free KAlloc (s, U) =
     (case alloc s of Ret p s' \<Rightarrow> Some (s', if p = 0 then U else insert p U) | _ \<Rightarrow> None)"
| "kop_step alloc free (KFree p) (s, U) =
     (if p \<in> U then (case free p s of Ret _ s' \<Rightarrow> Some (s', U - {p}) | _ \<Rightarrow> None) else Some (s, U))"

fun kop_run :: "(uint, 's) kfun \<Rightarrow> (uint \<Rightarrow> (unit, 's) kfun) \<Rightarrow> kop list \<Rightarrow> 's \<times> uint set \<Rightarrow> ('s \<times> uint set) option" where
  "kop_run alloc free [] x = Some x"
| "kop_run alloc free (e # es) x =
     (case kop_step alloc free e x of None \<Rightarrow> None | Some y \<Rightarrow> kop_run alloc free es y)"

locale page_allocator =
  fixes alloc :: "(uint, 's) kfun" and free :: "uint \<Rightarrow> (unit, 's) kfun"
    and inv :: "uint set \<Rightarrow> 's \<Rightarrow> bool" and valid :: "'s \<Rightarrow> uint \<Rightarrow> bool"
  assumes alloc_law: "inv F s \<Longrightarrow> \<exists>p s'. alloc s = Ret p s' \<and> (\<forall>q. valid s' q = valid s q) \<and>
      (if p = 0 then F = {} \<and> inv F s' else p \<in> F \<and> valid s p \<and> inv (F - {p}) s')"
    and free_law: "inv F s \<Longrightarrow> p \<notin> F \<Longrightarrow> valid s p \<Longrightarrow>
      \<exists>s'. free p s = Ret () s' \<and> (\<forall>q. valid s' q = valid s q) \<and> inv (insert p F) s'"
begin

lemma alloc_free_run:
  assumes "inv F s" "F \<inter> U = {}" "\<forall>p\<in>U. valid s p"
  shows "\<exists>s' U' F'. kop_run alloc free es (s, U) = Some (s', U') \<and> inv F' s' \<and> F' \<inter> U' = {} \<and>
    F' \<union> U' = F \<union> U \<and> (\<forall>p\<in>U'. valid s' p)"
  using assms
proof (induction es arbitrary: F s U)
  case Nil
  then show ?case by auto
next
  case (Cons e es)
  have "\<exists>t V G. kop_step alloc free e (s, U) = Some (t, V) \<and> inv G t \<and> G \<inter> V = {} \<and> G \<union> V = F \<union> U \<and>
    (\<forall>p\<in>V. valid t p)"
  proof (cases e)
    case KAlloc
    from alloc_law [OF Cons.prems(1)] obtain p t where t: "alloc s = Ret p t" "\<forall>q. valid t q = valid s q"
      "if p = 0 then F = {} \<and> inv F t else p \<in> F \<and> valid s p \<and> inv (F - {p}) t" by blast
    show ?thesis
    proof (cases "p = 0")
      case True
      then show ?thesis using t Cons.prems KAlloc by auto
    next
      case False
      then show ?thesis
        using t Cons.prems KAlloc by (intro exI [of _ t] exI [of _ "insert p U"] exI [of _ "F - {p}"]) auto
    qed
  next
    case (KFree p)
    show ?thesis
    proof (cases "p \<in> U")
      case False
      then show ?thesis using KFree Cons.prems by auto
    next
      case True
      then have "p \<notin> F" "valid s p" using Cons.prems by auto
      from free_law [OF Cons.prems(1) this] obtain t where t: "free p s = Ret () t"
        "\<forall>q. valid t q = valid s q" "inv (insert p F) t" by blast
      then show ?thesis
        using True Cons.prems KFree by (intro exI [of _ t] exI [of _ "U - {p}"] exI [of _ "insert p F"]) auto
    qed
  qed
  then obtain t V G where t: "kop_step alloc free e (s, U) = Some (t, V)" "inv G t" "G \<inter> V = {}" "G \<union> V = F \<union> U"
    "\<forall>p\<in>V. valid t p" by blast
  from Cons.IH [OF t(2,3,5)] t show ?case by auto
qed

end

definition kmem_inv :: "uint set \<Rightarrow> 'a kmem_scheme \<Rightarrow> bool" where
  "kmem_inv F s \<longleftrightarrow> (\<exists>ps. set ps = F \<and> free_ok ps s)"

interpretation km: page_allocator kalloc kfree kmem_inv "\<lambda>s. page_ok (kend s)"
proof
  fix F and s :: "'a kmem_scheme" assume "kmem_inv F s"
  then obtain ps where ps: "set ps = F" "free_ok ps s" by (auto simp: kmem_inv_def)
  show "\<exists>p s'. kalloc s = Ret p s' \<and> (\<forall>q. page_ok (kend s') q = page_ok (kend s) q) \<and>
      (if p = 0 then F = {} \<and> kmem_inv F s' else p \<in> F \<and> page_ok (kend s) p \<and> kmem_inv (F - {p}) s')"
  proof (cases ps)
    case Nil
    then show ?thesis using ps kalloc_empty [of s] by (auto simp: kmem_inv_def)
  next
    case (Cons p qs)
    then have fo: "free_ok (p # qs) s" using ps(2) by simp
    then show ?thesis
      using kalloc_ret [OF fo] ps(1) Cons by (auto simp: kmem_inv_def intro!: exI [of _ qs])
  qed
next
  fix F and s :: "'a kmem_scheme" and p assume "kmem_inv F s" and p: "p \<notin> F" "page_ok (kend s) p"
  then obtain ps where ps: "set ps = F" "free_ok ps s" by (auto simp: kmem_inv_def)
  with p kfree_ret [OF ps(2) p(2)] obtain m where "kfree p s = Ret () (s\<lparr>kmemory := m, freelist := p\<rparr>)"
    "free_ok (p # ps) (s\<lparr>kmemory := m, freelist := p\<rparr>)" by auto
  with ps show "\<exists>s'. kfree p s = Ret () s' \<and> (\<forall>q. page_ok (kend s') q = page_ok (kend s) q) \<and> kmem_inv (insert p F) s'"
    by (auto simp: kmem_inv_def intro!: exI [of _ "p # ps"])
qed

section \<open>Properties\<close>

definition kmem_demo :: kmem where
  "kmem_demo = \<lparr>kmemory = (\<lambda>_. 0), freelist = 0, use_lock = False, kend = 0x80110000\<rparr>"

text \<open>
  C18. A page is never handed out twice and never lost.  After any sequence of \<^verbatim>\<open>kalloc\<close> calls
  and of \<^verbatim>\<open>kfree\<close> calls on allocated pages, none of which panics, the free list and the allocated
  pages are disjoint and together are the pages there were at the start; the next \<^verbatim>\<open>kalloc\<close> returns
  a free page, or null exactly when no page is free.
\<close>

theorem kalloc_never_twice:
  assumes "free_ok ps (s :: kmem)"
  shows "\<exists>s' U F. kop_run kalloc kfree es (s, {}) = Some (s', U) \<and> U \<inter> F = {} \<and> U \<union> F = set ps \<and>
    (\<exists>p s''. kalloc s' = Ret p s'' \<and> (if F = {} then p = 0 else p \<in> F \<and> p \<notin> U \<and> page_ok (kend s) p))"
proof -
  have inv: "kmem_inv (set ps) s" using assms by (auto simp: kmem_inv_def)
  from km.alloc_free_run [OF inv, of "{}" es] obtain s' U F where r: "kop_run kalloc kfree es (s, {}) = Some (s', U)"
    "kmem_inv F s'" "F \<inter> U = {}" "F \<union> U = set ps" by auto
  from km.alloc_law [OF r(2)] obtain p s'' where p: "kalloc s' = Ret p s''"
    "if p = 0 then F = {} else p \<in> F \<and> page_ok (kend s') p" by (metis (full_types))
  have "if F = {} then p = 0 else p \<in> F \<and> p \<notin> U \<and> page_ok (kend s) p"
  proof (cases "F = {}")
    case True
    with p(2) show ?thesis by (auto split: if_splits)
  next
    case False
    with p(2) have "p \<in> F" by (auto split: if_splits)
    moreover from this have "p \<in> set ps" using r(4) by auto
    ultimately show ?thesis using False r(3) assms by (auto simp: free_ok_def)
  qed
  with r p(1) show ?thesis by (intro exI [of _ s'] exI [of _ U] exI [of _ F]) (auto simp: Int_commute Un_commute)
qed

theorem kalloc_never_twice_witness:
  "\<exists>s' U F. kop_run kalloc kfree [KAlloc, KAlloc, KFree 0x80110000]
      (kmem_demo\<lparr>freelist := 0x80110000\<rparr>, {}) = Some (s', U) \<and> U \<inter> F = {} \<and> U \<union> F = {0x80110000}"
proof -
  have "free_ok [0x80110000] (kmem_demo\<lparr>freelist := 0x80110000\<rparr>)"
    by (simp add: free_ok_def kmem_demo_def page_ok_def page_aligned_def load32_def of_bytes_def KERNBASE_def
        PGSIZE_def v2p_def PHYSTOP_def)
  from kalloc_never_twice [OF this, of "[KAlloc, KAlloc, KFree 0x80110000]"] show ?thesis
    by (simp del: kop_run.simps) blast
qed

text \<open>
  C19. \<^verbatim>\<open>freerange\<close> frees every whole page of its range.  For a range inside physical memory, above
  the kernel and with none of its pages free, the call ends, and the free list is the old one with
  all the pages between \<^verbatim>\<open>PGROUNDUP(vstart)\<close> and \<^verbatim>\<open>vend\<close> in front.
\<close>

theorem freerange_frees_all:
  assumes "free_ok ps (s :: kmem)" "kend s \<le> vstart" "PGROUNDUP vstart \<le> vend" "vend \<le> p2v PHYSTOP"
    and "k = (unat vend - unat (PGROUNDUP vstart)) div 4096"
    and "set ps \<inter> set (pages_from (PGROUNDUP vstart) k) = {}" "vstart \<le> p2v PHYSTOP"
  shows "\<exists>s'. freerange vstart vend s = Ret () s' \<and>
    free_ok (rev (pages_from (PGROUNDUP vstart) k) @ ps) s' \<and>
    same_outside (set (pages_from (PGROUNDUP vstart) k)) (kmemory s) (kmemory s')"
proof -
  let ?p = "PGROUNDUP vstart"
  have top: "unat vend \<le> unat KERNBASE + unat PHYSTOP" "unat vstart + 4095 < 2 ^ 32"
    using assms(4,7) by (auto simp: p2v_def KERNBASE_def PHYSTOP_def word_le_nat_alt)
  have p: "unat ?p = (unat vstart + 4095) div 4096 * 4096" using top(2) by (rule unat_PGROUNDUP)
  have "unat vstart \<le> unat ?p"
    unfolding p using div_mult_mod_eq [of "unat vstart + 4095" 4096] mod_less_divisor [of 4096 "unat vstart + 4095"]
    by linarith
  then have lo: "kend s \<le> ?p" using assms(2) by (simp add: word_le_nat_alt)
  have al: "page_aligned ?p" by (simp add: page_aligned_unat p)
  have le: "unat ?p \<le> unat vend" using assms(3) by (simp add: word_le_nat_alt)
  have kk: "4096 * k \<le> unat vend - unat ?p" "unat vend - unat ?p < 4096 * Suc k"
    using div_mult_mod_eq [of "unat vend - unat ?p" 4096] mod_less_divisor [of 4096 "unat vend - unat ?p"]
    unfolding assms(5) by simp_all
  then have "k < 1048576" using unat_less_2p32 [of vend] le by linarith
  then have "k < 2 ^ 20" by simp
  moreover have "unat ?p + 4096 * k \<le> unat vend" "unat vend < unat ?p + 4096 * Suc k" using kk le by auto
  ultimately show ?thesis
    using freerange_loop_ret [OF assms(1) al lo _ _ _ top(1) assms(6), of "2 ^ 20"] unfolding freerange_def by blast
qed

theorem freerange_frees_all_witness:
  "\<exists>s'. freerange 0x80110001 0x80113000 kmem_demo = Ret () s' \<and> free_ok [0x80112000, 0x80111000] s'"
proof -
  have a: "free_ok [] kmem_demo" by (simp add: free_ok_def kmem_demo_def KERNBASE_def)
  have e: "kend kmem_demo \<le> 0x80110001" by (simp add: kmem_demo_def)
  have up: "PGROUNDUP 0x80110001 = 0x80111000" by (simp add: PGROUNDUP_def PGSIZE_def)
  have pg: "pages_from 0x80111000 2 = [0x80111000, 0x80112000]"
    unfolding numeral_2_eq_2 pages_from_Suc by (simp add: pages_from_def PGSIZE_def)
  have le: "PGROUNDUP 0x80110001 \<le> 0x80113000" "(0x80113000 :: uint) \<le> p2v PHYSTOP" "(0x80110001 :: uint) \<le> p2v PHYSTOP"
    by (simp_all add: up p2v_def PHYSTOP_def KERNBASE_def)
  have k: "2 = (unat (0x80113000 :: uint) - unat (PGROUNDUP 0x80110001)) div 4096" by (simp add: up)
  from freerange_frees_all [OF a e le(1,2) k _ le(3)] show ?thesis unfolding up pg by auto
qed

end
