(* ===== verification/Vm.thy ===== *)
theory Vm
  imports Kalloc
begin

text \<open>
  The two-level page tables of \<^verbatim>\<open>vm.c\<close>.  Page directories and page tables are words in the
  byte memory of the kernel, as in the code; \<open>pte_at\<close> reads the entry that maps a virtual
  address, with 0 when the page table itself is missing.  The invariant \<open>pt_ok\<close> says that the
  directory and its tables are different pages, and the allocator's free pages are none of
  them.

  The address \<^verbatim>\<open>data\<close>, where the kernel's writable data starts, comes from the linker and is an
  argument of \<open>setupkvm\<close>.  Loops over addresses have \<open>2 ^ 20\<close> iterations of fuel, the number of
  pages of the address space.
\<close>

section \<open>Operations\<close>

definition read32 :: "uint \<Rightarrow> (uint, 'a kmem_scheme) kfun" where
  "read32 a = gets (\<lambda>s. load32 (kmemory s) a)"

definition write32 :: "uint \<Rightarrow> uint \<Rightarrow> (unit, 'a kmem_scheme) kfun" where
  "write32 a v = modify (\<lambda>s. s\<lparr>kmemory := store32 (kmemory s) a v\<rparr>)"

definition walkpgdir :: "uint \<Rightarrow> uint \<Rightarrow> bool \<Rightarrow> (uint, 'a kmem_scheme) kfun" where
  "walkpgdir pgdir va alloc =
     (let pde = pgdir + 4 * PDX va in
      bind (read32 pde) (\<lambda>e.
      if e AND PTE_P \<noteq> 0 then return (p2v (PTE_ADDR e) + 4 * PTX va)
      else if \<not> alloc then return 0
      else bind kalloc (\<lambda>pgtab.
        if pgtab = 0 then return 0
        else seq (modify (\<lambda>s. s\<lparr>kmemory := memset (kmemory s) pgtab 0 PGSIZE\<rparr>))
            (seq (write32 pde (v2p pgtab OR PTE_P OR PTE_W OR PTE_U))
                 (return (pgtab + 4 * PTX va))))))"

fun mappages_loop :: "nat \<Rightarrow> uint \<Rightarrow> uint \<Rightarrow> uint \<Rightarrow> uint \<Rightarrow> uint \<Rightarrow> (int, 'a kmem_scheme) kfun" where
  "mappages_loop 0 pgdir a last_page pa prm = (\<lambda>s. Spin)"
| "mappages_loop (Suc n) pgdir a last_page pa prm =
     bind (walkpgdir pgdir a True) (\<lambda>pte.
     if pte = 0 then return (- 1)
     else
       seq (panic_if (\<lambda>s. load32 (kmemory s) pte AND PTE_P \<noteq> 0) ''remap'')
      (seq (write32 pte (pa OR prm OR PTE_P))
           (if a = last_page then return 0
            else mappages_loop n pgdir (a + PGSIZE) last_page (pa + PGSIZE) prm)))"

definition mappages :: "uint \<Rightarrow> uint \<Rightarrow> uint \<Rightarrow> uint \<Rightarrow> uint \<Rightarrow> (int, 'a kmem_scheme) kfun" where
  "mappages pgdir va len pa prm =
     mappages_loop (2 ^ 20) pgdir (PGROUNDDOWN va) (PGROUNDDOWN (va + len - 1)) pa prm"

record kmap_entry =
  virt :: uint
  phys_start :: uint
  phys_end :: uint
  kperm :: uint

definition kmap :: "uint \<Rightarrow> kmap_entry list" where
  "kmap kdata =
     [\<lparr>virt = KERNBASE, phys_start = 0, phys_end = EXTMEM, kperm = PTE_W\<rparr>,
      \<lparr>virt = KERNLINK, phys_start = v2p KERNLINK, phys_end = v2p kdata, kperm = 0\<rparr>,
      \<lparr>virt = kdata, phys_start = v2p kdata, phys_end = PHYSTOP, kperm = PTE_W\<rparr>,
      \<lparr>virt = DEVSPACE, phys_start = DEVSPACE, phys_end = 0, kperm = PTE_W\<rparr>]"

fun setupkvm_loop :: "uint \<Rightarrow> kmap_entry list \<Rightarrow> (uint, 'a kmem_scheme) kfun" where
  "setupkvm_loop pgdir [] = return pgdir"
| "setupkvm_loop pgdir (k # ks) =
     bind (mappages pgdir (virt k) (phys_end k - phys_start k) (phys_start k) (kperm k)) (\<lambda>r.
     if r < 0 then return 0 else setupkvm_loop pgdir ks)"

definition setupkvm :: "uint \<Rightarrow> (uint, 'a kmem_scheme) kfun" where
  "setupkvm kdata =
     bind kalloc (\<lambda>pgdir.
     if pgdir = 0 then return 0
     else
       seq (modify (\<lambda>s. s\<lparr>kmemory := memset (kmemory s) pgdir 0 PGSIZE\<rparr>))
      (seq (panic_if (\<lambda>_. p2v PHYSTOP > DEVSPACE) ''PHYSTOP too high'')
           (setupkvm_loop pgdir (kmap kdata))))"

text \<open>\<^verbatim>\<open>inituvm\<close> does not check what \<^verbatim>\<open>kalloc\<close> and \<^verbatim>\<open>mappages\<close> return; it writes through the pointer.\<close>

definition inituvm :: "uint \<Rightarrow> uint \<Rightarrow> uint \<Rightarrow> (unit, 'a kmem_scheme) kfun" where
  "inituvm pgdir init len =
     seq (panic_if (\<lambda>_. len \<ge> PGSIZE) ''inituvm: more than a page'')
    (bind kalloc (\<lambda>m.
     if m = 0 then fault
     else
     seq (modify (\<lambda>s. s\<lparr>kmemory := memset (kmemory s) m 0 PGSIZE\<rparr>))
    (seq (mappages pgdir 0 PGSIZE (v2p m) (PTE_W OR PTE_U))
         (modify (\<lambda>s. s\<lparr>kmemory := memmove (kmemory s) m init len\<rparr>)))))"

fun deallocuvm_loop :: "nat \<Rightarrow> uint \<Rightarrow> uint \<Rightarrow> uint \<Rightarrow> (unit, 'a kmem_scheme) kfun" where
  "deallocuvm_loop 0 pgdir a oldsz = (\<lambda>s. Spin)"
| "deallocuvm_loop (Suc n) pgdir a oldsz =
     (if a < oldsz
      then
        bind (walkpgdir pgdir a False) (\<lambda>pte.
        if pte = 0 then deallocuvm_loop n pgdir (a + of_nat (NPTENTRIES - 1) * PGSIZE + PGSIZE) oldsz
        else
          bind (read32 pte) (\<lambda>e.
          seq (if e AND PTE_P \<noteq> 0
               then seq (panic_if (\<lambda>_. PTE_ADDR e = 0) ''kfree'')
                   (seq (kfree (p2v (PTE_ADDR e)))
                        (write32 pte 0))
               else return ())
              (deallocuvm_loop n pgdir (a + PGSIZE) oldsz)))
      else return ())"

definition deallocuvm :: "uint \<Rightarrow> uint \<Rightarrow> uint \<Rightarrow> (uint, 'a kmem_scheme) kfun" where
  "deallocuvm pgdir oldsz newsz =
     (if newsz \<ge> oldsz then return oldsz
      else seq (deallocuvm_loop (2 ^ 20 + 1) pgdir (PGROUNDUP newsz) oldsz) (return newsz))"

fun allocuvm_loop :: "nat \<Rightarrow> uint \<Rightarrow> uint \<Rightarrow> uint \<Rightarrow> uint \<Rightarrow> (uint, 'a kmem_scheme) kfun" where
  "allocuvm_loop 0 pgdir oldsz newsz a = (\<lambda>s. Spin)"
| "allocuvm_loop (Suc n) pgdir oldsz newsz a =
     (if a < newsz
      then
        bind kalloc (\<lambda>m.
        if m = 0 then seq (deallocuvm pgdir newsz oldsz) (return 0)
        else
          seq (modify (\<lambda>s. s\<lparr>kmemory := memset (kmemory s) m 0 PGSIZE\<rparr>))
         (seq (mappages pgdir a PGSIZE (v2p m) (PTE_W OR PTE_U))
              (allocuvm_loop n pgdir oldsz newsz (a + PGSIZE))))
      else return newsz)"

definition allocuvm :: "uint \<Rightarrow> uint \<Rightarrow> uint \<Rightarrow> (uint, 'a kmem_scheme) kfun" where
  "allocuvm pgdir oldsz newsz =
     (if newsz \<ge> KERNBASE then return 0
      else if newsz < oldsz then return oldsz
      else allocuvm_loop (2 ^ 20) pgdir oldsz newsz (PGROUNDUP oldsz))"

definition free_table :: "uint \<Rightarrow> nat \<Rightarrow> (unit, 'a kmem_scheme) kfun" where
  "free_table pgdir i =
     bind (read32 (pgdir + 4 * of_nat i)) (\<lambda>e.
     if e AND PTE_P \<noteq> 0 then kfree (p2v (PTE_ADDR e)) else return ())"

definition freevm :: "uint \<Rightarrow> (unit, 'a kmem_scheme) kfun" where
  "freevm pgdir =
     seq (panic_if (\<lambda>_. pgdir = 0) ''freevm: no pgdir'')
    (seq (deallocuvm pgdir KERNBASE 0)
    (seq (for_each [0..<NPDENTRIES] (free_table pgdir))
         (kfree pgdir)))"

definition clearpteu :: "uint \<Rightarrow> uint \<Rightarrow> (unit, 'a kmem_scheme) kfun" where
  "clearpteu pgdir uva =
     bind (walkpgdir pgdir uva False) (\<lambda>pte.
     if pte = 0 then panic ''clearpteu''
     else bind (read32 pte) (\<lambda>e. write32 pte (e AND NOT PTE_U)))"

fun copyuvm_loop :: "nat \<Rightarrow> uint \<Rightarrow> uint \<Rightarrow> uint \<Rightarrow> uint \<Rightarrow> (bool, 'a kmem_scheme) kfun" where
  "copyuvm_loop 0 pgdir d len i = (\<lambda>s. Spin)"
| "copyuvm_loop (Suc n) pgdir d len i =
     (if i < len
      then
        bind (walkpgdir pgdir i False) (\<lambda>pte.
        if pte = 0 then panic ''copyuvm: pte should exist''
        else
          bind (read32 pte) (\<lambda>e.
          if e AND PTE_P = 0 then copyuvm_loop n pgdir d len (i + PGSIZE)
          else
            bind kalloc (\<lambda>m.
            if m = 0 then return False
            else
              seq (modify (\<lambda>s. s\<lparr>kmemory := memmove (kmemory s) m (p2v (PTE_ADDR e)) PGSIZE\<rparr>))
             (bind (mappages d i PGSIZE (v2p m) (PTE_FLAGS e)) (\<lambda>r.
              if r < 0 then return False else copyuvm_loop n pgdir d len (i + PGSIZE))))))
      else return True)"

definition copyuvm :: "uint \<Rightarrow> uint \<Rightarrow> uint \<Rightarrow> (uint, 'a kmem_scheme) kfun" where
  "copyuvm kdata pgdir len =
     bind (setupkvm kdata) (\<lambda>d.
     if d = 0 then return 0
     else bind (copyuvm_loop (2 ^ 20 + 1) pgdir d len 0) (\<lambda>ok.
       if ok then return d else seq (freevm d) (return 0)))"

text \<open>\<^verbatim>\<open>uva2ka\<close> reads the entry without a check that the page table exists.\<close>

definition uva2ka :: "uint \<Rightarrow> uint \<Rightarrow> (uint, 'a kmem_scheme) kfun" where
  "uva2ka pgdir uva =
     bind (walkpgdir pgdir uva False) (\<lambda>pte.
     if pte = 0 then fault
     else
       bind (read32 pte) (\<lambda>e.
       if e AND PTE_P = 0 then return 0
       else if e AND PTE_U = 0 then return 0
       else return (p2v (PTE_ADDR e))))"

fun copyout_loop :: "nat \<Rightarrow> uint \<Rightarrow> uint \<Rightarrow> uint \<Rightarrow> uint \<Rightarrow> (int, 'a kmem_scheme) kfun" where
  "copyout_loop 0 pgdir va buf len = (\<lambda>s. Spin)"
| "copyout_loop (Suc k) pgdir va buf len =
     (if len > 0
      then
        let va0 = PGROUNDDOWN va in
        bind (uva2ka pgdir va0) (\<lambda>pa0.
        if pa0 = 0 then return (- 1)
        else
          let n0 = PGSIZE - (va - va0); n = (if n0 > len then len else n0) in
          seq (modify (\<lambda>s. s\<lparr>kmemory := memmove (kmemory s) (pa0 + (va - va0)) buf n\<rparr>))
              (copyout_loop k pgdir (va0 + PGSIZE) (buf + n) (len - n)))
      else return 0)"

definition copyout :: "uint \<Rightarrow> uint \<Rightarrow> uint \<Rightarrow> uint \<Rightarrow> (int, 'a kmem_scheme) kfun" where
  "copyout pgdir va p len = copyout_loop (2 ^ 20 + 2) pgdir va p len"

definition unmappages :: "uint \<Rightarrow> uint \<Rightarrow> uint \<Rightarrow> (int, 'a kmem_scheme) kfun" where
  "unmappages pgdir va len =
     bind (deallocuvm pgdir (va + len) va) (\<lambda>newsz.
     if newsz = 0 then return (- 1) else return (sint newsz))"

definition pgflags :: "uint \<Rightarrow> uint \<Rightarrow> uint \<Rightarrow> (uint, 'a kmem_scheme) kfun" where
  "pgflags pgdir va flag =
     bind (walkpgdir pgdir va False) (\<lambda>pte.
     if pte \<noteq> 0
     then bind (read32 pte) (\<lambda>e. if e AND flag \<noteq> 0 then return pte else return 0)
     else return 0)"

end
