(* ===== verification/Vm_Map.thy ===== *)
theory Vm_Map
  imports Vm
begin

text \<open>
  What the page tables of \<^verbatim>\<open>vm.c\<close> map.  The lemmas describe \<^verbatim>\<open>walkpgdir\<close> and \<^verbatim>\<open>mappages\<close> by
  their effect on \<open>pte_at\<close>, the entry of a virtual address.
\<close>

section \<open>Entries in memory\<close>

lemma aligned_dvd: "page_aligned p \<Longrightarrow> \<exists>k. unat p = 4096 * k \<and> k \<le> 1048575"
proof -
  assume "page_aligned p"
  then have "4096 dvd unat p" by (simp add: page_aligned_unat mod_0_imp_dvd)
  then obtain k where "unat p = 4096 * k" by (elim dvdE)
  moreover from this have "k \<le> 1048575" using unat_less_2p32 [of p] by linarith
  ultimately show ?thesis by blast
qed

lemma unat_slot:
  assumes "page_aligned p" "i < (1024 :: uint)"
  shows "unat (p + 4 * i) = unat p + 4 * unat i"
proof -
  obtain k where k: "unat p = 4096 * k" "k \<le> 1048575" using aligned_dvd [OF assms(1)] by blast
  have i: "unat i < 1024" using assms(2) by (simp add: word_less_nat_alt)
  then have "unat (4 * i) = 4 * unat i" by (simp add: unat_word_ariths)
  moreover have "unat p + 4 * unat i < 4294967296" using k i by linarith
  ultimately show ?thesis by (simp add: unat_word_ariths)
qed

lemma slot_page:
  assumes "page_aligned p" "i < (1024 :: uint)"
  shows "PGROUNDDOWN (p + 4 * i) = p"
proof (rule page_bytes [OF assms(1)])
  have i: "unat i < 1024" using assms(2) by (simp add: word_less_nat_alt)
  then have "unat (4 * i) = 4 * unat i" by (simp add: unat_word_ariths)
  with i show "4 * i < PGSIZE" by (simp add: word_less_nat_alt PGSIZE_def)
qed

lemma slot_eq:
  assumes "page_aligned p" "page_aligned q" "i < (1024 :: uint)" "j < 1024"
  shows "p + 4 * i = q + 4 * j \<longleftrightarrow> p = q \<and> i = j"
proof
  assume eq: "p + 4 * i = q + 4 * j"
  then have "PGROUNDDOWN (p + 4 * i) = PGROUNDDOWN (q + 4 * j)" by simp
  then have "p = q" by (simp add: slot_page assms)
  moreover have "unat p + 4 * unat i = unat q + 4 * unat j"
    using arg_cong [OF eq, of unat] by (simp add: unat_slot assms)
  ultimately show "p = q \<and> i = j" by (simp add: word_unat_eq_iff)
qed simp

text \<open>Words at different addresses divisible by four do not overlap.\<close>

lemma load_store_aligned:
  assumes "4 dvd unat a" "4 dvd unat b" "a \<noteq> b"
  shows "load32 (store32 m a v) b = load32 m b"
proof -
  obtain x y where xy: "unat a = 4 * x" "unat b = 4 * y" using assms(1,2) by (elim dvdE)
  have neq: "x \<noteq> y" using xy assms(3) by (auto simp: word_unat_eq_iff)
  have bx: "x < 1073741824" "y < 1073741824" using xy unat_less_2p32 [of a] unat_less_2p32 [of b] by linarith+
  have "store32 m a v (b + l) = m (b + l)" if l: "unat l < 4" for l
  proof (rule store32_other)
    have bl: "unat (b + l) = 4 * y + unat l" using l bx xy by (simp add: unat_word_ariths)
    show "4 \<le> b + l - a"
    proof (cases "x < y")
      case True
      then have "unat (b + l - a) = 4 * y + unat l - 4 * x"
        using bl xy by (simp add: unat_sub word_le_nat_alt)
      with True show ?thesis by (simp add: word_le_nat_alt)
    next
      case False
      with neq have "y < x" by simp
      then have "\<not> unat a \<le> unat (b + l)" using bl xy l by simp
      then have "unat (b + l - a) = 4 * y + unat l + 4294967296 - 4 * x"
        using bl xy by (simp add: unat_sub_if_size word_size)
      with bx show ?thesis by (simp add: word_le_nat_alt)
    qed
  qed
  from this [of 0] this [of 1] this [of 2] this [of 3] show ?thesis by (simp add: load32_def)
qed

lemma load_store_slot:
  assumes "page_aligned p" "page_aligned q" "i < (1024 :: uint)" "j < 1024"
  shows "load32 (store32 m (p + 4 * i) v) (q + 4 * j) = (if p = q \<and> i = j then v else load32 m (q + 4 * j))"
proof (cases "p = q \<and> i = j")
  case False
  then have ne: "p + 4 * i \<noteq> q + 4 * j" using slot_eq [OF assms] by simp
  have "4 dvd unat p" "4 dvd unat q"
    using aligned_dvd [OF assms(1)] aligned_dvd [OF assms(2)] by auto
  then have "load32 (store32 m (p + 4 * i) v) (q + 4 * j) = load32 m (q + 4 * j)"
    by (intro load_store_aligned ne) (simp_all add: unat_slot assms)
  with False show ?thesis by auto
qed simp

text \<open>All four bytes of an entry are in its page.\<close>

lemma word_offset:
  assumes "i < (1024 :: uint)" "unat k < 4"
  shows "4 * i + k < PGSIZE"
proof -
  have i: "unat i < 1024" using assms(1) by (simp add: word_less_nat_alt)
  then have "unat (4 * i + k) = 4 * unat i + unat k" using assms(2) by (simp add: unat_word_ariths)
  then show ?thesis using i assms(2) by (simp add: word_less_nat_alt PGSIZE_def)
qed

lemma word_in_page:
  assumes "page_aligned p" "i < (1024 :: uint)" "unat k < 4"
  shows "PGROUNDDOWN (p + 4 * i + k) = p"
  using page_bytes [OF assms(1) word_offset [OF assms(2,3)]] by (simp add: add.assoc)

lemma load32_zeroed:
  assumes "page_aligned p" "i < (1024 :: uint)"
  shows "load32 (memset m p 0 PGSIZE) (p + 4 * i) = 0"
proof -
  have "memset m p 0 PGSIZE (p + 4 * i + k) = 0" if "unat k < 4" for k
    using word_offset [OF assms(2) that] by (simp add: memset_apply add.assoc)
  from this [of 0] this [of 1] this [of 2] this [of 3] show ?thesis by (simp add: load32_def of_bytes_def)
qed

lemma load32_slot_outside:
  assumes "same_outside P m m'" "page_aligned p" "p \<notin> P" "i < (1024 :: uint)"
  shows "load32 m' (p + 4 * i) = load32 m (p + 4 * i)"
proof -
  have "m' (p + 4 * i + k) = m (p + 4 * i + k)" if "unat k < 4" for k
    using word_in_page [OF assms(2,4) that] assms(1,3) by (simp add: same_outside_def)
  from this [of 0] this [of 1] this [of 2] this [of 3] show ?thesis by (simp add: load32_def)
qed

lemma store32_slot_outside:
  assumes "page_aligned p" "i < (1024 :: uint)"
  shows "same_outside {p} m (store32 m (p + 4 * i) v)"
proof (unfold same_outside_def, intro allI impI)
  fix a assume a: "PGROUNDDOWN a \<notin> {p}"
  show "store32 m (p + 4 * i) v a = m a"
  proof (rule store32_other, rule ccontr)
    assume "\<not> 4 \<le> a - (p + 4 * i)"
    then have "unat (a - (p + 4 * i)) < 4" by (simp add: word_le_nat_alt)
    from word_in_page [OF assms this] a show False by simp
  qed
qed

section \<open>The map\<close>

definition present :: "uint \<Rightarrow> bool" where
  "present e \<longleftrightarrow> e AND PTE_P \<noteq> 0"

definition pde_at :: "mem \<Rightarrow> uint \<Rightarrow> uint \<Rightarrow> uint" where
  "pde_at m pgdir i = load32 m (pgdir + 4 * i)"

definition tab_at :: "mem \<Rightarrow> uint \<Rightarrow> uint \<Rightarrow> uint" where
  "tab_at m pgdir i = p2v (PTE_ADDR (pde_at m pgdir i))"

definition pte_at :: "mem \<Rightarrow> uint \<Rightarrow> uint \<Rightarrow> uint" where
  "pte_at m pgdir va = (if present (pde_at m pgdir (PDX va))
     then load32 m (tab_at m pgdir (PDX va) + 4 * PTX va) else 0)"

definition pt_ok :: "uint \<Rightarrow> mem \<Rightarrow> uint \<Rightarrow> bool" where
  "pt_ok e m pgdir \<longleftrightarrow> page_ok e pgdir \<and>
     (\<forall>i<1024. present (pde_at m pgdir i) \<longrightarrow> page_ok e (tab_at m pgdir i) \<and> tab_at m pgdir i \<noteq> pgdir \<and>
        (\<forall>j<1024. present (pde_at m pgdir j) \<and> tab_at m pgdir j = tab_at m pgdir i \<longrightarrow> j = i))"

definition pt_pages :: "mem \<Rightarrow> uint \<Rightarrow> uint set" where
  "pt_pages m pgdir = insert pgdir {tab_at m pgdir i | i. i < 1024 \<and> present (pde_at m pgdir i)}"

lemma PDX_less [simp]: "PDX va < 1024" and PTX_less [simp]: "PTX va < 1024"
proof -
  have "unat va div 4194304 < 1024" using unat_less_2p32 [of va] by (simp add: div_less_iff_less_mult)
  then show "PDX va < 1024" "PTX va < 1024" by (simp_all add: word_less_nat_alt unat_PDX unat_PTX)
qed

text \<open>Directory and table index name the page of an address.\<close>

lemma same_page: "PDX va = PDX vb \<and> PTX va = PTX vb \<longleftrightarrow> PGROUNDDOWN va = PGROUNDDOWN vb"
proof -
  have d: "n div 4194304 = n div 4096 div 1024" for n :: nat using div_mult2_eq [of n 4096 1024] by simp
  have "(unat va div 4194304 = unat vb div 4194304 \<and> unat va div 4096 mod 1024 = unat vb div 4096 mod 1024)
      \<longleftrightarrow> unat va div 4096 = unat vb div 4096"
    unfolding d by (metis div_mult_mod_eq)
  then show ?thesis by (simp add: word_unat_eq_iff unat_PDX unat_PTX unat_PGROUNDDOWN)
qed

lemma page_ok_aligned: "page_ok e p \<Longrightarrow> page_aligned p"
  by (simp add: page_ok_def)

lemma pt_ok_dest:
  assumes "pt_ok e m pgdir"
  shows "page_aligned pgdir" "page_ok e pgdir"
    and "i < 1024 \<Longrightarrow> present (pde_at m pgdir i) \<Longrightarrow>
      page_ok e (tab_at m pgdir i) \<and> page_aligned (tab_at m pgdir i) \<and> tab_at m pgdir i \<noteq> pgdir"
  using assms by (auto simp: pt_ok_def page_ok_aligned)

text \<open>A memory that agrees on the pages of the tables has the same map.\<close>

lemma pde_at_outside:
  assumes "same_outside P m m'" "page_aligned pgdir" "pgdir \<notin> P" "i < 1024"
  shows "pde_at m' pgdir i = pde_at m pgdir i"
  using load32_slot_outside [OF assms(1-3) assms(4)] by (simp add: pde_at_def)

lemma map_outside:
  assumes "pt_ok e m pgdir" "same_outside P m m'" "pt_pages m pgdir \<inter> P = {}"
  shows "pte_at m' pgdir va = pte_at m pgdir va" "pt_ok e m' pgdir" "pt_pages m' pgdir = pt_pages m pgdir"
proof -
  note d = pt_ok_dest [OF assms(1)]
  have "pgdir \<notin> P" using assms(3) by (auto simp: pt_pages_def)
  then have pde: "pde_at m' pgdir i = pde_at m pgdir i" if "i < 1024" for i
    using pde_at_outside [OF assms(2) d(1)] that by blast
  then have tab: "tab_at m' pgdir i = tab_at m pgdir i" if "i < 1024" for i using that by (simp add: tab_at_def)
  have "tab_at m pgdir i \<notin> P" if "i < 1024" "present (pde_at m pgdir i)" for i
    using assms(3) that by (auto simp: pt_pages_def)
  then show "pte_at m' pgdir va = pte_at m pgdir va"
    using load32_slot_outside [OF assms(2), of "tab_at m pgdir (PDX va)" "PTX va"] d(3) [of "PDX va"]
    by (auto simp: pte_at_def pde tab)
  show "pt_ok e m' pgdir" using assms(1) by (simp add: pt_ok_def pde tab)
  show "pt_pages m' pgdir = pt_pages m pgdir" using pde tab by (auto simp: pt_pages_def) metis+
qed

text \<open>Writing the entry of one page.\<close>

lemma map_write:
  assumes "pt_ok e m pgdir" "present (pde_at m pgdir (PDX va))"
    and m': "m' = store32 m (tab_at m pgdir (PDX va) + 4 * PTX va) v"
  shows "pte_at m' pgdir vb = (if PGROUNDDOWN vb = PGROUNDDOWN va then v else pte_at m pgdir vb)"
    and "pt_ok e m' pgdir" and "pt_pages m' pgdir = pt_pages m pgdir"
    and "i < 1024 \<Longrightarrow> pde_at m' pgdir i = pde_at m pgdir i"
    and "same_outside {tab_at m pgdir (PDX va)} m m'"
proof -
  note d = pt_ok_dest [OF assms(1)]
  let ?t = "tab_at m pgdir (PDX va)"
  have t: "page_ok e ?t" "page_aligned ?t" "?t \<noteq> pgdir" using d(3) [OF PDX_less assms(2)] by auto
  have pde: "pde_at m' pgdir i = pde_at m pgdir i" if "i < 1024" for i
    using load_store_slot [OF t(2) d(1) PTX_less that, of m va v] t(3) by (simp add: pde_at_def m')
  then show "i < 1024 \<Longrightarrow> pde_at m' pgdir i = pde_at m pgdir i" .
  have tab: "tab_at m' pgdir i = tab_at m pgdir i" if "i < 1024" for i using that by (simp add: tab_at_def pde)
  show "pt_ok e m' pgdir" using assms(1) by (simp add: pt_ok_def pde tab)
  show "pt_pages m' pgdir = pt_pages m pgdir" using pde tab by (auto simp: pt_pages_def) metis+
  show "pte_at m' pgdir vb = (if PGROUNDDOWN vb = PGROUNDDOWN va then v else pte_at m pgdir vb)"
  proof (cases "present (pde_at m pgdir (PDX vb))")
    case False
    then have "PDX vb \<noteq> PDX va" using assms(2) by auto
    then have "PGROUNDDOWN vb \<noteq> PGROUNDDOWN va" using same_page [of vb va] by simp
    with False show ?thesis by (simp add: pte_at_def pde)
  next
    case True
    have tb: "page_aligned (tab_at m pgdir (PDX vb))" using d(3) [OF PDX_less True] by simp
    have inj: "?t = tab_at m pgdir (PDX vb) \<longleftrightarrow> PDX vb = PDX va"
    proof
      assume "?t = tab_at m pgdir (PDX vb)"
      with assms(1,2) True show "PDX vb = PDX va" unfolding pt_ok_def by (metis PDX_less)
    qed simp
    have ld: "load32 m' (tab_at m pgdir (PDX vb) + 4 * PTX vb) =
        (if ?t = tab_at m pgdir (PDX vb) \<and> PTX va = PTX vb then v else load32 m (tab_at m pgdir (PDX vb) + 4 * PTX vb))"
      unfolding m' by (rule load_store_slot [OF t(2) tb PTX_less PTX_less])
    have "pte_at m' pgdir vb = load32 m' (tab_at m pgdir (PDX vb) + 4 * PTX vb)"
      "pte_at m pgdir vb = load32 m (tab_at m pgdir (PDX vb) + 4 * PTX vb)"
      using True by (simp_all add: pte_at_def pde tab)
    moreover have "(?t = tab_at m pgdir (PDX vb) \<and> PTX va = PTX vb) = (PGROUNDDOWN vb = PGROUNDDOWN va)"
      unfolding inj same_page [of vb va, symmetric] by auto
    ultimately show ?thesis by (simp only: ld)
  qed
  show "same_outside {?t} m m'" unfolding m' using store32_slot_outside [OF t(2) PTX_less] .
qed

section \<open>walkpgdir\<close>

definition vm_inv :: "uint set \<Rightarrow> uint \<Rightarrow> 'a kmem_scheme \<Rightarrow> bool" where
  "vm_inv F pgdir s \<longleftrightarrow> kmem_inv F s \<and> pt_ok (kend s) (kmemory s) pgdir \<and> pt_pages (kmemory s) pgdir \<inter> F = {}"

lemma kmem_inv_page: "kmem_inv F s \<Longrightarrow> p \<in> F \<Longrightarrow> page_ok (kend s) p \<and> page_aligned p \<and> p \<noteq> 0"
  by (auto simp: kmem_inv_def free_ok_def page_ok_def KERNBASE_def)

lemma page_ok_nonzero: "kmem_inv F s \<Longrightarrow> page_ok (kend s) p \<Longrightarrow> unat p > 2147483648"
  by (auto simp: kmem_inv_def free_ok_def page_ok_def KERNBASE_def word_less_nat_alt word_le_nat_alt)

lemma kmem_inv_write:
  assumes "kmem_inv F s" "same_outside P (kmemory s) m" "P \<inter> F = {}"
  shows "kmem_inv F (s\<lparr>kmemory := m\<rparr>)"
proof -
  obtain ps where "set ps = F" "free_ok ps s" using assms(1) by (auto simp: kmem_inv_def)
  moreover from this have "free_ok ps (s\<lparr>kmemory := m\<rparr>)"
    using free_ok_write [of ps s P m] assms(2,3) by auto
  ultimately show ?thesis by (auto simp: kmem_inv_def)
qed

lemma slot_nonzero:
  assumes "kmem_inv F s" "page_ok (kend s) p" "i < (1024 :: uint)"
  shows "p + 4 * i \<noteq> 0"
proof -
  have "unat (p + 4 * i) = unat p + 4 * unat i" using assms(2,3) by (intro unat_slot) (auto simp: page_ok_def)
  then have "0 < unat (p + 4 * i)" using page_ok_nonzero [OF assms(1,2)] by simp
  then show ?thesis by auto
qed

lemma walkpgdir_lookup:
  "walkpgdir pgdir va False s = Ret (if present (pde_at (kmemory s) pgdir (PDX va))
     then tab_at (kmemory s) pgdir (PDX va) + 4 * PTX va else 0) s"
  by (simp add: walkpgdir_def Let_def kfun_simps read32_def present_def pde_at_def tab_at_def)

lemma walkpgdir_hit:
  "present (pde_at (kmemory s) pgdir (PDX va)) \<Longrightarrow>
   walkpgdir pgdir va alloc s = Ret (tab_at (kmemory s) pgdir (PDX va) + 4 * PTX va) s"
  by (simp add: walkpgdir_def Let_def kfun_simps read32_def present_def pde_at_def tab_at_def)

lemma present_bit: "present e = bit e 0"
  by (simp add: present_def PTE_P_def and_one_eq bit_0 odd_iff_mod_2_eq_one)

lemma pde_value:
  assumes "page_aligned t"
  shows "PTE_ADDR (v2p t OR PTE_P OR PTE_W OR PTE_U) = v2p t" "present (v2p t OR PTE_P OR PTE_W OR PTE_U)"
proof -
  have "PTE_P OR PTE_W OR PTE_U < PGSIZE" by (simp add: PTE_P_def PTE_W_def PTE_U_def PGSIZE_def)
  then have "PTE_ADDR (v2p t OR (PTE_P OR PTE_W OR PTE_U)) = v2p t"
    using assms by (intro PTE_ADDR_or(1)) simp_all
  then show "PTE_ADDR (v2p t OR PTE_P OR PTE_W OR PTE_U) = v2p t" by (simp add: or.assoc)
  have "bit PTE_P 0" by (simp add: PTE_P_def bit_0)
  then show "present (v2p t OR PTE_P OR PTE_W OR PTE_U)" by (simp add: present_bit bit_or_iff)
qed

text \<open>Entering a new, zeroed page table changes no entry.\<close>

lemma map_new_table:
  assumes "pt_ok e m pgdir" "\<not> present (pde_at m pgdir i)" "i < 1024" "page_ok e p" "p \<notin> pt_pages m pgdir"
    and m2: "m2 = store32 (memset m p 0 PGSIZE) (pgdir + 4 * i) (v2p p OR PTE_P OR PTE_W OR PTE_U)"
  shows "pde_at m2 pgdir i = v2p p OR PTE_P OR PTE_W OR PTE_U" "tab_at m2 pgdir i = p"
    and "pte_at m2 pgdir va = pte_at m pgdir va" and "pt_ok e m2 pgdir"
    and "pt_pages m2 pgdir = insert p (pt_pages m pgdir)"
    and "same_outside {p, pgdir} m m2"
proof -
  let ?m1 = "memset m p 0 PGSIZE"
  note d = pt_ok_dest [OF assms(1)]
  have al: "page_aligned p" using assms(4) by (rule page_ok_aligned)
  have ne: "p \<noteq> pgdir" "pgdir \<notin> {p}" using assms(5) by (auto simp: pt_pages_def)
  have o1: "same_outside {p} m ?m1" by (rule memset_outside [OF al])
  have pde1: "pde_at ?m1 pgdir j = pde_at m pgdir j" if "j < 1024" for j
    using pde_at_outside [OF o1 d(1) ne(2) that] .
  have pde: "pde_at m2 pgdir j = (if j = i then v2p p OR PTE_P OR PTE_W OR PTE_U else pde_at m pgdir j)" if "j < 1024" for j
    using load_store_slot [OF d(1) d(1) assms(3) that, of ?m1 "v2p p OR PTE_P OR PTE_W OR PTE_U"] pde1 [OF that]
    by (auto simp: pde_at_def m2)
  then show pi: "pde_at m2 pgdir i = v2p p OR PTE_P OR PTE_W OR PTE_U" using assms(3) by simp
  then show ti: "tab_at m2 pgdir i = p" using pde_value(1) [OF al] by (simp add: tab_at_def)
  have tab: "tab_at m2 pgdir j = (if j = i then p else tab_at m pgdir j)" if "j < 1024" for j
    using ti pde [OF that] by (auto simp: tab_at_def)
  have np: "tab_at m pgdir j \<noteq> p" if "j < 1024" "present (pde_at m pgdir j)" for j
    using assms(5) that by (auto simp: pt_pages_def)
  have pr: "present (v2p p OR PTE_P OR PTE_W OR PTE_U)" by (rule pde_value(2) [OF al])
  show "pt_ok e m2 pgdir"
    using assms(1,4) ne np by (auto simp: pt_ok_def pde tab split: if_splits)
  show "pt_pages m2 pgdir = insert p (pt_pages m pgdir)"
  proof (rule set_eqI)
    fix q
    have "(\<exists>j. q = tab_at m2 pgdir j \<and> j < 1024 \<and> present (pde_at m2 pgdir j)) \<longleftrightarrow>
        q = p \<or> (\<exists>j. q = tab_at m pgdir j \<and> j < 1024 \<and> present (pde_at m pgdir j))" (is "?L = ?R")
    proof
      assume ?L
      then obtain j where "q = tab_at m2 pgdir j" "j < 1024" "present (pde_at m2 pgdir j)" by blast
      then show ?R using pde [of j] tab [of j] by (cases "j = i") auto
    next
      assume ?R
      then show ?L
      proof
        assume "q = p"
        then show ?L using ti pi pr assms(3) by auto
      next
        assume "\<exists>j. q = tab_at m pgdir j \<and> j < 1024 \<and> present (pde_at m pgdir j)"
        then obtain j where j: "q = tab_at m pgdir j" "j < 1024" "present (pde_at m pgdir j)" by blast
        then have "j \<noteq> i" using assms(2) by auto
        then show ?L using j pde [OF j(2)] tab [OF j(2)] by (intro exI [of _ j]) simp
      qed
    qed
    then show "q \<in> pt_pages m2 pgdir \<longleftrightarrow> q \<in> insert p (pt_pages m pgdir)" by (auto simp: pt_pages_def)
  qed
  have o2: "same_outside {pgdir} ?m1 m2" unfolding m2 by (rule store32_slot_outside [OF d(1) assms(3)])
  then show "same_outside {p, pgdir} m m2" using o1 by (auto simp: same_outside_def)
  show "pte_at m2 pgdir va = pte_at m pgdir va"
  proof (cases "PDX va = i")
    case True
    have "load32 m2 (p + 4 * PTX va) = load32 ?m1 (p + 4 * PTX va)"
      using load32_slot_outside [OF o2 al _ PTX_less] ne by auto
    then show ?thesis
      using True assms(2) load32_zeroed [OF al PTX_less] by (simp add: pte_at_def ti pi)
  next
    case False
    then have eq: "pde_at m2 pgdir (PDX va) = pde_at m pgdir (PDX va)" "tab_at m2 pgdir (PDX va) = tab_at m pgdir (PDX va)"
      by (simp_all add: pde tab)
    show ?thesis
    proof (cases "present (pde_at m pgdir (PDX va))")
      case True
      have t: "page_aligned (tab_at m pgdir (PDX va))" "tab_at m pgdir (PDX va) \<noteq> pgdir" "tab_at m pgdir (PDX va) \<noteq> p"
        using d(3) [OF PDX_less True] np [OF PDX_less True] by auto
      have "load32 m2 (tab_at m pgdir (PDX va) + 4 * PTX va) = load32 m (tab_at m pgdir (PDX va) + 4 * PTX va)"
        using load32_slot_outside [OF o2 t(1) _ PTX_less] load32_slot_outside [OF o1 t(1) _ PTX_less] t by auto
      then show ?thesis by (simp add: pte_at_def eq)
    next
      case False
      then show ?thesis by (simp add: pte_at_def eq)
    qed
  qed
qed

lemma walkpgdir_alloc:
  assumes "vm_inv F pgdir s"
  shows "\<exists>r s' F'. walkpgdir pgdir va True s = Ret r s' \<and> vm_inv F' pgdir s' \<and> F' \<subseteq> F \<and> card F \<le> Suc (card F') \<and>
    kend s' = kend s \<and>
    (\<forall>vb. pte_at (kmemory s') pgdir vb = pte_at (kmemory s) pgdir vb) \<and>
    pt_pages (kmemory s) pgdir \<subseteq> pt_pages (kmemory s') pgdir \<and>
    pt_pages (kmemory s') pgdir \<subseteq> pt_pages (kmemory s) pgdir \<union> F \<and>
    same_outside (pt_pages (kmemory s') pgdir) (kmemory s) (kmemory s') \<and>
    (if r = 0 then F = {} \<and> s' = s
     else present (pde_at (kmemory s') pgdir (PDX va)) \<and> r = tab_at (kmemory s') pgdir (PDX va) + 4 * PTX va)"
proof (cases "present (pde_at (kmemory s) pgdir (PDX va))")
  case True
  have "kmem_inv F s" "page_ok (kend s) (tab_at (kmemory s) pgdir (PDX va))"
    using pt_ok_dest(3) [OF _ PDX_less True] assms by (auto simp: vm_inv_def)
  then have "tab_at (kmemory s) pgdir (PDX va) + 4 * PTX va \<noteq> 0" by (rule slot_nonzero) (rule PTX_less)
  with True walkpgdir_hit [OF True, of True] assms show ?thesis by (intro exI) auto
next
  case False
  have inv: "kmem_inv F s" "pt_ok (kend s) (kmemory s) pgdir" "pt_pages (kmemory s) pgdir \<inter> F = {}"
    using assms by (auto simp: vm_inv_def)
  from km.alloc_law [OF inv(1)] obtain p t where t: "kalloc s = Ret p t"
    "if p = 0 then F = {} \<and> kmem_inv F t else p \<in> F \<and> page_ok (kend s) p \<and> kmem_inv (F - {p}) t" by blast
  have frame: "kmemory t = kmemory s" "kend t = kend s" "p = 0 \<longrightarrow> t = s"
    using t(1) by (auto simp: kalloc_def kfun_simps split: if_splits)
  show ?thesis
  proof (cases "p = 0")
    case True
    then have "walkpgdir pgdir va True s = Ret 0 s"
      using False t(1) frame by (simp add: walkpgdir_def Let_def kfun_simps read32_def present_def pde_at_def)
    with True t(2) assms show ?thesis by (intro exI) auto
  next
    case nz: False
    let ?m2 = "store32 (memset (kmemory s) p 0 PGSIZE) (pgdir + 4 * PDX va) (v2p p OR PTE_P OR PTE_W OR PTE_U)"
    let ?s = "t\<lparr>kmemory := ?m2\<rparr>"
    have p: "p \<in> F" "page_ok (kend s) p" "kmem_inv (F - {p}) t" using t(2) nz by auto
    have pn: "p \<notin> pt_pages (kmemory s) pgdir" using p(1) inv(3) by auto
    note n = map_new_table [OF inv(2) False PDX_less p(2) pn refl]
    have "walkpgdir pgdir va True s = Ret (p + 4 * PTX va) ?s"
      using False t(1) nz frame
      by (simp add: walkpgdir_def Let_def kfun_simps read32_def write32_def present_def pde_at_def)
    moreover have "vm_inv (F - {p}) pgdir ?s"
    proof -
      have "same_outside {p, pgdir} (kmemory t) ?m2" using n(6) frame by simp
      then have "kmem_inv (F - {p}) ?s"
        using p(3) inv(3) by (intro kmem_inv_write) (auto simp: pt_pages_def)
      then show ?thesis using n(4,5) frame inv(3) by (auto simp: vm_inv_def)
    qed
    moreover have "p + 4 * PTX va \<noteq> 0" using slot_nonzero [OF inv(1) p(2) PTX_less] .
    moreover have "same_outside (pt_pages ?m2 pgdir) (kmemory s) ?m2"
      using n(5,6) by (auto simp: same_outside_def pt_pages_def)
    moreover have "present (pde_at ?m2 pgdir (PDX va))"
      using n(1) pde_value(2) [OF page_ok_aligned [OF p(2)]] by simp
    moreover have "card F \<le> Suc (card (F - {p}))" by (cases "p \<in> F") (auto simp: card_Diff_singleton_if)
    ultimately show ?thesis
      using n(2,3,5) frame p(1) by (intro exI [of _ "p + 4 * PTX va"] exI [of _ ?s] exI [of _ "F - {p}"]) auto
  qed
qed

section \<open>mappages\<close>

text \<open>The distance of the page of \<open>vb\<close> from \<open>a\<close>, and the entries after \<open>j\<close> pages from \<open>a\<close> on are mapped.\<close>

definition page_dist :: "uint \<Rightarrow> uint \<Rightarrow> uint" where
  "page_dist a vb = PGROUNDDOWN vb - a"

definition mapped :: "uint \<Rightarrow> uint \<Rightarrow> uint \<Rightarrow> nat \<Rightarrow> (uint \<Rightarrow> uint) \<Rightarrow> uint \<Rightarrow> uint" where
  "mapped a pa prm j f vb = (if unat (page_dist a vb) < 4096 * j then (pa + page_dist a vb) OR prm OR PTE_P else f vb)"

lemma page_aligned_diff: "page_aligned a \<Longrightarrow> page_aligned b \<Longrightarrow> page_aligned (a - b)"
proof -
  assume a: "page_aligned a" "page_aligned b"
  obtain x y where x: "unat a = 4096 * x" "x \<le> 1048575" and y: "unat b = 4096 * y" "y \<le> 1048575"
    using a aligned_dvd by metis
  show ?thesis
  proof (cases "unat b \<le> unat a")
    case True
    then have "unat (a - b) = 4096 * (x - y)" using x y by (simp add: unat_sub word_le_nat_alt diff_mult_distrib2)
    then show ?thesis by (simp add: page_aligned_unat)
  next
    case False
    then have "unat (a - b) = 4096 * x + 4294967296 - 4096 * y"
      using x y by (simp add: unat_sub_if_size word_size)
    also have "\<dots> = 4096 * (x + 1048576 - y)" using y(2) by simp
    finally show ?thesis by (simp add: page_aligned_unat)
  qed
qed

lemma page_dist_zero: "page_dist a vb = 0 \<longleftrightarrow> PGROUNDDOWN vb = a"
  by (simp add: page_dist_def)

lemma page_dist_step:
  assumes "page_aligned a" "j \<le> 1048575"
  shows "unat (page_dist (a + PGSIZE) vb) < 4096 * j \<longleftrightarrow>
      page_dist a vb \<noteq> 0 \<and> unat (page_dist a vb) < 4096 * Suc j"
    and "page_dist (a + PGSIZE) vb + PGSIZE = page_dist a vb"
    and "unat (page_dist a vb) < 4096 * Suc 0 \<longleftrightarrow> page_dist a vb = 0"
proof -
  let ?d = "page_dist a vb"
  obtain k where k: "unat ?d = 4096 * k"
    using aligned_dvd [of ?d] page_aligned_diff [OF page_aligned_down assms(1)] by (auto simp: page_dist_def)
  have eq: "page_dist (a + PGSIZE) vb = ?d - 4096" by (simp add: page_dist_def PGSIZE_def)
  then show "page_dist (a + PGSIZE) vb + PGSIZE = ?d" by (simp add: PGSIZE_def)
  show z: "unat ?d < 4096 * Suc 0 \<longleftrightarrow> ?d = 0" using k by (auto simp: unat_eq_0 [symmetric])
  show "unat (page_dist (a + PGSIZE) vb) < 4096 * j \<longleftrightarrow> ?d \<noteq> 0 \<and> unat ?d < 4096 * Suc j"
  proof (cases "?d = 0")
    case True
    then have "unat (page_dist (a + PGSIZE) vb) = 4294963200" by (simp add: eq)
    with True assms(2) show ?thesis by simp
  next
    case False
    then have "4096 \<le> unat ?d" using z by simp
    then have "unat (?d - 4096) = unat ?d - 4096" by (simp add: unat_sub word_le_nat_alt)
    with False \<open>4096 \<le> unat ?d\<close> show ?thesis by (auto simp: eq)
  qed
qed

lemma mapped_step:
  assumes "page_aligned a" "j \<le> 1048575"
  shows "mapped (a + PGSIZE) (pa + PGSIZE) prm j (\<lambda>v. if PGROUNDDOWN v = a then pa OR prm OR PTE_P else f v) vb =
    mapped a pa prm (Suc j) f vb"
proof -
  have eq: "pa + PGSIZE + page_dist (a + PGSIZE) vb = pa + page_dist a vb"
    unfolding page_dist_step(2) [OF assms, of vb, symmetric] by (simp only: ac_simps)
  show ?thesis
    using page_dist_step(1) [OF assms, of vb] page_dist_zero [of a vb] unfolding mapped_def eq by auto
qed

lemma mappages_entry:
  assumes "vm_inv F pgdir s" "present (pde_at (kmemory s) pgdir (PDX a))"
    and pte: "pte = tab_at (kmemory s) pgdir (PDX a) + 4 * PTX a"
  shows "vm_inv F pgdir (s\<lparr>kmemory := store32 (kmemory s) pte v\<rparr>)"
    and "pte_at (store32 (kmemory s) pte v) pgdir vb = (if PGROUNDDOWN vb = PGROUNDDOWN a then v else pte_at (kmemory s) pgdir vb)"
    and "pt_pages (store32 (kmemory s) pte v) pgdir = pt_pages (kmemory s) pgdir"
    and "same_outside (pt_pages (kmemory s) pgdir) (kmemory s) (store32 (kmemory s) pte v)"
    and "load32 (kmemory s) pte = pte_at (kmemory s) pgdir a"
proof -
  have inv: "kmem_inv F s" "pt_ok (kend s) (kmemory s) pgdir" "pt_pages (kmemory s) pgdir \<inter> F = {}"
    using assms(1) by (auto simp: vm_inv_def)
  note w = map_write [OF inv(2) assms(2), of "store32 (kmemory s) pte v" v, unfolded pte, OF refl, folded pte]
  have t: "tab_at (kmemory s) pgdir (PDX a) \<in> pt_pages (kmemory s) pgdir"
    using assms(2) PDX_less [of a] by (auto simp: pt_pages_def)
  have "kmem_inv F (s\<lparr>kmemory := store32 (kmemory s) pte v\<rparr>)"
    by (rule kmem_inv_write [OF inv(1) w(5)]) (use t inv(3) in auto)
  then show "vm_inv F pgdir (s\<lparr>kmemory := store32 (kmemory s) pte v\<rparr>)"
    using w(2,3) inv(3) by (simp add: vm_inv_def)
  show "pte_at (store32 (kmemory s) pte v) pgdir vb = (if PGROUNDDOWN vb = PGROUNDDOWN a then v else pte_at (kmemory s) pgdir vb)"
    by (rule w(1))
  show "pt_pages (store32 (kmemory s) pte v) pgdir = pt_pages (kmemory s) pgdir" by (rule w(3))
  show "same_outside (pt_pages (kmemory s) pgdir) (kmemory s) (store32 (kmemory s) pte v)"
    using t by (intro same_outside_mono [OF w(5)]) auto
  show "load32 (kmemory s) pte = pte_at (kmemory s) pgdir a" using assms(2) by (simp add: pte_at_def pte)
qed

text \<open>One iteration of the loop: out of memory, or one page mapped.\<close>

lemma mappages_iter:
  assumes "vm_inv F pgdir s" "page_aligned a" "\<not> present (pte_at (kmemory s) pgdir a)"
  shows "F = {} \<and> (\<forall>n lst. mappages_loop (Suc n) pgdir a lst pa prm s = Ret (- 1) s) \<or>
    (\<exists>t G. (\<forall>n lst. mappages_loop (Suc n) pgdir a lst pa prm s =
        (if a = lst then Ret 0 t else mappages_loop n pgdir (a + PGSIZE) lst (pa + PGSIZE) prm t)) \<and>
      vm_inv G pgdir t \<and> G \<subseteq> F \<and> card F \<le> Suc (card G) \<and> kend t = kend s \<and>
      (\<forall>vb. pte_at (kmemory t) pgdir vb = (if PGROUNDDOWN vb = a then pa OR prm OR PTE_P else pte_at (kmemory s) pgdir vb)) \<and>
      pt_pages (kmemory s) pgdir \<subseteq> pt_pages (kmemory t) pgdir \<and>
      pt_pages (kmemory t) pgdir \<subseteq> pt_pages (kmemory s) pgdir \<union> F \<and>
      same_outside (pt_pages (kmemory t) pgdir) (kmemory s) (kmemory t))"
proof -
  obtain r t G where t: "walkpgdir pgdir a True s = Ret r t" "vm_inv G pgdir t" "G \<subseteq> F" "kend t = kend s"
    "\<forall>vb. pte_at (kmemory t) pgdir vb = pte_at (kmemory s) pgdir vb"
    "pt_pages (kmemory s) pgdir \<subseteq> pt_pages (kmemory t) pgdir"
    "pt_pages (kmemory t) pgdir \<subseteq> pt_pages (kmemory s) pgdir \<union> F"
    "same_outside (pt_pages (kmemory t) pgdir) (kmemory s) (kmemory t)"
    "if r = 0 then F = {} \<and> t = s
     else present (pde_at (kmemory t) pgdir (PDX a)) \<and> r = tab_at (kmemory t) pgdir (PDX a) + 4 * PTX a"
    "card F \<le> Suc (card G)"
    using walkpgdir_alloc [OF assms(1), of a] by blast
  show ?thesis
  proof (cases "r = 0")
    case True
    then show ?thesis using t by (auto simp: kfun_simps)
  next
    case False
    then have pr: "present (pde_at (kmemory t) pgdir (PDX a))" "r = tab_at (kmemory t) pgdir (PDX a) + 4 * PTX a"
      using t(9) by auto
    note e = mappages_entry [OF t(2) pr]
    let ?v = "pa OR prm OR PTE_P"
    let ?s = "t\<lparr>kmemory := store32 (kmemory t) r ?v\<rparr>"
    have "\<not> present (load32 (kmemory t) r)" using e(5) t(5) assms(3) by simp
    then have "mappages_loop (Suc n) pgdir a lst pa prm s =
        (if a = lst then Ret 0 ?s else mappages_loop n pgdir (a + PGSIZE) lst (pa + PGSIZE) prm ?s)" for n lst
      using t(1) False by (simp add: kfun_simps write32_def present_def)
    moreover have "same_outside (pt_pages (kmemory ?s) pgdir) (kmemory s) (kmemory ?s)"
      using t(8) e(3,4) [of ?v] by (auto intro: same_outside_trans)
    ultimately show ?thesis
      using t(3-7,10) e(1-3) [of ?v] assms(2) by (intro disjI2 exI [of _ ?s] exI [of _ G]) auto
  qed
qed

definition mappages_post :: "uint set \<Rightarrow> uint \<Rightarrow> uint \<Rightarrow> uint \<Rightarrow> uint \<Rightarrow> nat \<Rightarrow> 'a kmem_scheme \<Rightarrow> (int, 'a kmem_scheme) outcome \<Rightarrow> bool" where
  "mappages_post F pgdir a pa prm k s out \<longleftrightarrow> (\<exists>r s' F' j. out = Ret r s' \<and> vm_inv F' pgdir s' \<and> F' \<subseteq> F \<and> kend s' = kend s \<and>
     (\<forall>vb. pte_at (kmemory s') pgdir vb = mapped a pa prm j (pte_at (kmemory s) pgdir) vb) \<and>
     pt_pages (kmemory s) pgdir \<subseteq> pt_pages (kmemory s') pgdir \<and>
     pt_pages (kmemory s') pgdir \<subseteq> pt_pages (kmemory s) pgdir \<union> F \<and>
     same_outside (pt_pages (kmemory s') pgdir) (kmemory s) (kmemory s') \<and>
     card F \<le> card F' + j \<and> (r = 0 \<and> j = Suc k \<or> r = - 1 \<and> j \<le> k \<and> F' = {}))"

lemma mapped_0 [simp]: "mapped a pa prm 0 f = f"
  by (simp add: mapped_def fun_eq_iff)

lemma mappages_loop_post:
  assumes "vm_inv F pgdir s" "page_aligned a" "k < n" "unat a + 4096 * k < 2 ^ 32"
    and "\<forall>vb. unat (page_dist a vb) < 4096 * Suc k \<longrightarrow> \<not> present (pte_at (kmemory s) pgdir vb)"
  shows "mappages_post F pgdir a pa prm k s (mappages_loop n pgdir a (a + of_nat k * PGSIZE) pa prm s)"
  using assms
proof (induction k arbitrary: n a pa s F)
  case (0 n a pa s F)
  obtain n' where n: "n = Suc n'" using 0(3) by (cases n) auto
  have "page_dist a a = 0" using 0(2) by (simp add: page_dist_def)
  then have np: "\<not> present (pte_at (kmemory s) pgdir a)" using 0(5) by simp
  from mappages_iter [OF 0(1,2) np, of pa prm] show ?case
  proof (elim disjE conjE exE)
    assume "F = {}" "\<forall>n lst. mappages_loop (Suc n) pgdir a lst pa prm s = Ret (- 1) s"
    then show ?thesis using n 0(1) unfolding mappages_post_def
      by (intro exI [of _ "- 1"] exI [of _ s] exI [of _ "{}"] exI [of _ 0]) (auto simp del: mappages_loop.simps)
  next
    fix t G
    assume t: "\<forall>n lst. mappages_loop (Suc n) pgdir a lst pa prm s =
        (if a = lst then Ret 0 t else mappages_loop n pgdir (a + PGSIZE) lst (pa + PGSIZE) prm t)"
      "vm_inv G pgdir t" "G \<subseteq> F" "kend t = kend s"
      "\<forall>vb. pte_at (kmemory t) pgdir vb = (if PGROUNDDOWN vb = a then pa OR prm OR PTE_P else pte_at (kmemory s) pgdir vb)"
      "pt_pages (kmemory s) pgdir \<subseteq> pt_pages (kmemory t) pgdir"
      "pt_pages (kmemory t) pgdir \<subseteq> pt_pages (kmemory s) pgdir \<union> F"
      "same_outside (pt_pages (kmemory t) pgdir) (kmemory s) (kmemory t)" "card F \<le> Suc (card G)"
    have "pte_at (kmemory t) pgdir vb = mapped a pa prm (Suc 0) (pte_at (kmemory s) pgdir) vb" for vb
      using t(5) page_dist_step(3) [OF 0(2) le0, of vb] page_dist_zero [of a vb] by (auto simp: mapped_def)
    then show ?thesis using n t unfolding mappages_post_def
      by (intro exI [of _ 0] exI [of _ t] exI [of _ G] exI [of _ "Suc 0"]) (auto simp del: mappages_loop.simps)
  qed
next
  case (Suc k n a pa s F)
  obtain n' where n: "n = Suc n'" "k < n'" using Suc.prems(3) by (cases n) auto
  have "page_dist a a = 0" using Suc.prems(2) by (simp add: page_dist_def)
  then have np: "\<not> present (pte_at (kmemory s) pgdir a)" using Suc.prems(5) by simp
  have kb: "k \<le> 1048574" using Suc.prems(4) by simp
  from mappages_iter [OF Suc.prems(1,2) np, of pa prm] show ?case
  proof (elim disjE conjE exE)
    assume "F = {}" "\<forall>n lst. mappages_loop (Suc n) pgdir a lst pa prm s = Ret (- 1) s"
    then show ?thesis using n Suc.prems(1) unfolding mappages_post_def
      by (intro exI [of _ "- 1"] exI [of _ s] exI [of _ "{}"] exI [of _ 0]) (auto simp del: mappages_loop.simps)
  next
    fix t G
    assume t: "\<forall>n lst. mappages_loop (Suc n) pgdir a lst pa prm s =
        (if a = lst then Ret 0 t else mappages_loop n pgdir (a + PGSIZE) lst (pa + PGSIZE) prm t)"
      "vm_inv G pgdir t" "G \<subseteq> F" "kend t = kend s"
      "\<forall>vb. pte_at (kmemory t) pgdir vb = (if PGROUNDDOWN vb = a then pa OR prm OR PTE_P else pte_at (kmemory s) pgdir vb)"
      "pt_pages (kmemory s) pgdir \<subseteq> pt_pages (kmemory t) pgdir"
      "pt_pages (kmemory t) pgdir \<subseteq> pt_pages (kmemory s) pgdir \<union> F"
      "same_outside (pt_pages (kmemory t) pgdir) (kmemory s) (kmemory t)" "card F \<le> Suc (card G)"
    let ?b = "a + PGSIZE"
    have lst: "a + of_nat (Suc k) * PGSIZE = ?b + of_nat k * PGSIZE" by (simp add: algebra_simps)
    have ub: "unat ?b = unat a + 4096"
      using unat_page_offset [of a "Suc k" 1] Suc.prems(4) by simp
    have ne: "a \<noteq> a + of_nat (Suc k) * PGSIZE"
    proof
      assume "a = a + of_nat (Suc k) * PGSIZE"
      then have "unat a = unat a + 4096 * Suc k"
        using unat_page_offset [of a "Suc k" "Suc k"] Suc.prems(4) by simp
      then show False by simp
    qed
    have al: "page_aligned ?b" using Suc.prems(2) by (simp add: page_aligned_unat ub)
    have npb: "\<forall>vb. unat (page_dist ?b vb) < 4096 * Suc k \<longrightarrow> \<not> present (pte_at (kmemory t) pgdir vb)"
      using page_dist_step(1) [OF Suc.prems(2), of "Suc k"] kb Suc.prems(5) t(5) page_dist_zero [of a] by auto
    have "mappages_post G pgdir ?b (pa + PGSIZE) prm k t (mappages_loop n' pgdir ?b (?b + of_nat k * PGSIZE) (pa + PGSIZE) prm t)"
      by (rule Suc.IH [OF t(2) al n(2) _ npb]) (use ub Suc.prems(4) in simp)
    then obtain r s' F' j where s': "mappages_loop n' pgdir ?b (?b + of_nat k * PGSIZE) (pa + PGSIZE) prm t = Ret r s'"
      "vm_inv F' pgdir s'" "F' \<subseteq> G" "kend s' = kend t"
      "\<forall>vb. pte_at (kmemory s') pgdir vb = mapped ?b (pa + PGSIZE) prm j (pte_at (kmemory t) pgdir) vb"
      "pt_pages (kmemory t) pgdir \<subseteq> pt_pages (kmemory s') pgdir"
      "pt_pages (kmemory s') pgdir \<subseteq> pt_pages (kmemory t) pgdir \<union> G"
      "same_outside (pt_pages (kmemory s') pgdir) (kmemory t) (kmemory s')"
      "card G \<le> card F' + j" "r = 0 \<and> j = Suc k \<or> r = - 1 \<and> j \<le> k \<and> F' = {}" unfolding mappages_post_def by blast
    have "pte_at (kmemory t) pgdir = (\<lambda>v. if PGROUNDDOWN v = a then pa OR prm OR PTE_P else pte_at (kmemory s) pgdir v)"
      using t(5) by auto
    then have "pte_at (kmemory s') pgdir vb = mapped a pa prm (Suc j) (pte_at (kmemory s) pgdir) vb" for vb
      using s'(5,10) mapped_step [OF Suc.prems(2), of j] kb by auto
    moreover have "same_outside (pt_pages (kmemory s') pgdir) (kmemory s) (kmemory s')"
      using same_outside_mono [OF t(8) s'(6)] s'(8) by (rule same_outside_trans)
    moreover have "mappages_loop n pgdir a (a + of_nat (Suc k) * PGSIZE) pa prm s = Ret r s'"
      using ne s'(1) unfolding n(1) t(1) [rule_format] lst by (simp only: if_False)
    ultimately show ?thesis using s' t unfolding mappages_post_def
      by (intro exI [of _ r] exI [of _ s'] exI [of _ F'] exI [of _ "Suc j"]) auto
  qed
qed

text \<open>The number of pages after the first that a range of \<open>len\<close> bytes at \<open>va\<close> touches.\<close>

definition span :: "uint \<Rightarrow> uint \<Rightarrow> nat" where
  "span va len = (unat va + unat len - 1) div 4096 - unat va div 4096"

lemma mappages_ret:
  assumes "vm_inv F pgdir s" "0 < len" "unat va + unat len \<le> 2 ^ 32"
    and "\<forall>vb. unat (page_dist (PGROUNDDOWN va) vb) < 4096 * Suc (span va len) \<longrightarrow> \<not> present (pte_at (kmemory s) pgdir vb)"
  shows "mappages_post F pgdir (PGROUNDDOWN va) pa prm (span va len) s (mappages pgdir va len pa prm s)"
proof -
  let ?a = "PGROUNDDOWN va" and ?k = "span va len"
  have len: "0 < unat len" using assms(2) by (simp add: word_less_nat_alt)
  have end_: "unat (va + len - 1) = unat va + unat len - 1"
  proof -
    have "unat (len - 1) = unat len - 1" using len by (simp add: unat_minus_one unat_eq_0 [symmetric])
    moreover have "va + len - 1 = va + (len - 1)" by simp
    moreover have "unat va + (unat len - 1) < 4294967296" using assms(3) len by simp
    ultimately show ?thesis using len by (simp only: unat_word_ariths) simp
  qed
  have le: "unat va div 4096 \<le> (unat va + unat len - 1) div 4096" using len by (intro div_le_mono) simp
  have bound: "(unat va + unat len - 1) div 4096 \<le> 1048575" using assms(3) by (simp add: div_le_mono [of _ 4294967295 4096, simplified])
  have ua: "unat ?a + 4096 * ?k = (unat va + unat len - 1) div 4096 * 4096"
    using le by (simp add: unat_PGROUNDDOWN span_def diff_mult_distrib2)
  then have nw: "unat ?a + 4096 * ?k < 2 ^ 32" using bound by simp
  have "PGROUNDDOWN (va + len - 1) = ?a + of_nat ?k * PGSIZE"
    using unat_page_offset [OF nw, of ?k] ua by (simp add: word_unat_eq_iff unat_PGROUNDDOWN end_)
  moreover have "?k < 2 ^ 20" using bound by (simp add: span_def)
  ultimately show ?thesis
    unfolding mappages_def using mappages_loop_post [OF assms(1) page_aligned_down _ nw assms(4)] by metis
qed

end
