(* ===== verification/Uvm.thy ===== *)
theory Uvm
  imports Vm_Map
begin

text \<open>
  The size of a process: \<^verbatim>\<open>allocuvm\<close> and \<^verbatim>\<open>deallocuvm\<close> of \<^verbatim>\<open>vm.c\<close>, by their effect on the map of the
  process and on the free pages.
\<close>

section \<open>Growing a process\<close>

definition zeroed :: "mem \<Rightarrow> uint \<Rightarrow> bool" where
  "zeroed m p \<longleftrightarrow> (\<forall>off<PGSIZE. m (p + off) = 0)"

lemma zeroed_outside:
  assumes "zeroed m p" "same_outside P m m'" "page_aligned p" "p \<notin> P"
  shows "zeroed m' p"
  using assms page_bytes [OF assms(3)] by (simp add: zeroed_def same_outside_def)

lemma zeroed_memset: "zeroed (memset m p 0 PGSIZE) p"
  by (simp add: zeroed_def memset_apply)

lemma in_page_unat:
  assumes "page_aligned a"
  shows "PGROUNDDOWN vb = a \<longleftrightarrow> unat a \<le> unat vb \<and> unat vb < unat a + 4096"
proof -
  obtain k where k: "unat a = 4096 * k" using aligned_dvd [OF assms] by blast
  let ?q = "unat vb div 4096" and ?r = "unat vb mod 4096"
  have vb: "unat vb = 4096 * ?q + ?r" "?r < 4096" by simp_all
  have "?q = k \<longleftrightarrow> 4096 * k \<le> 4096 * ?q + ?r \<and> 4096 * ?q + ?r < 4096 * k + 4096"
  proof
    assume "?q = k"
    with vb(2) show "4096 * k \<le> 4096 * ?q + ?r \<and> 4096 * ?q + ?r < 4096 * k + 4096" by simp
  next
    assume "4096 * k \<le> 4096 * ?q + ?r \<and> 4096 * ?q + ?r < 4096 * k + 4096"
    with vb(2) show "?q = k" by linarith
  qed
  moreover have "PGROUNDDOWN vb = a \<longleftrightarrow> ?q = k" by (simp add: word_unat_eq_iff unat_PGROUNDDOWN k)
  ultimately show ?thesis unfolding k vb(1) [symmetric] by simp
qed

lemma kmem_inv_finite: "kmem_inv F s \<Longrightarrow> finite F"
  by (auto simp: kmem_inv_def)

lemma kalloc_take:
  assumes "kmem_inv F s" "F \<noteq> {}"
  shows "\<exists>p f. kalloc s = Ret p (s\<lparr>freelist := f\<rparr>) \<and> p \<in> F \<and> p \<noteq> 0 \<and> page_aligned p \<and> kmem_inv (F - {p}) (s\<lparr>freelist := f\<rparr>)"
proof -
  obtain ps where ps: "set ps = F" "free_ok ps s" using assms(1) by (auto simp: kmem_inv_def)
  then obtain p qs where c: "ps = p # qs" using assms(2) by (cases ps) auto
  then have fo: "free_ok (p # qs) s" using ps(2) by simp
  note k = kalloc_ret [OF fo]
  then have "kmem_inv (F - {p}) (s\<lparr>freelist := load32 (kmemory s) p\<rparr>)"
    using ps(1) c by (auto simp: kmem_inv_def intro!: exI [of _ qs])
  with k ps(1) c show ?thesis by (auto simp: page_ok_def)
qed

text \<open>A page taken from the free list and cleared, as the loops of \<^verbatim>\<open>vm.c\<close> do.\<close>

lemma fresh_page:
  assumes "vm_inv F pgdir s" "F \<noteq> {}"
  shows "\<exists>p t. kalloc s = Ret p t \<and> p \<in> F \<and> p \<noteq> 0 \<and> page_aligned p \<and> kend t = kend s \<and>
    (let u = t\<lparr>kmemory := memset (kmemory t) p 0 PGSIZE\<rparr> in
      vm_inv (F - {p}) pgdir u \<and> zeroed (kmemory u) p \<and> same_outside {p} (kmemory s) (kmemory u) \<and>
      (\<forall>vb. pte_at (kmemory u) pgdir vb = pte_at (kmemory s) pgdir vb) \<and>
      pt_pages (kmemory u) pgdir = pt_pages (kmemory s) pgdir)"
proof -
  have inv: "kmem_inv F s" "pt_ok (kend s) (kmemory s) pgdir" "pt_pages (kmemory s) pgdir \<inter> F = {}"
    using assms(1) by (auto simp: vm_inv_def)
  obtain p f where p: "kalloc s = Ret p (s\<lparr>freelist := f\<rparr>)" "p \<in> F" "p \<noteq> 0" "page_aligned p"
    "kmem_inv (F - {p}) (s\<lparr>freelist := f\<rparr>)" using kalloc_take [OF inv(1) assms(2)] by blast
  let ?m = "memset (kmemory s) p 0 PGSIZE"
  have out: "same_outside {p} (kmemory s) ?m" using p(4) by (rule memset_outside)
  have dis: "pt_pages (kmemory s) pgdir \<inter> {p} = {}" using inv(3) p(2) by auto
  note mo = map_outside [OF inv(2) out dis]
  have "kmem_inv (F - {p}) (s\<lparr>freelist := f\<rparr>\<lparr>kmemory := ?m\<rparr>)"
    by (rule kmem_inv_write [OF p(5)]) (use out in auto)
  then have "vm_inv (F - {p}) pgdir (s\<lparr>freelist := f\<rparr>\<lparr>kmemory := ?m\<rparr>)"
    using mo inv(3) by (auto simp: vm_inv_def)
  with p mo out show ?thesis by (intro exI [of _ p] exI [of _ "s\<lparr>freelist := f\<rparr>"]) (auto simp: Let_def zeroed_memset)
qed

text \<open>One iteration of the loop of \<^verbatim>\<open>allocuvm\<close> with two pages to spare.\<close>

lemma allocuvm_iter:
  assumes "vm_inv F pgdir s" "page_aligned a" "\<not> present (pte_at (kmemory s) pgdir a)" "2 \<le> card F"
    "unat a + 4096 \<le> 2 ^ 32"
  shows "\<exists>p t G. (\<forall>n oldsz newsz. a < newsz \<longrightarrow>
        allocuvm_loop (Suc n) pgdir oldsz newsz a s = allocuvm_loop n pgdir oldsz newsz (a + PGSIZE) t) \<and>
      p \<in> F \<and> page_aligned p \<and> vm_inv G pgdir t \<and> G \<subseteq> F - {p} \<and> card F \<le> card G + 2 \<and> kend t = kend s \<and>
      (\<forall>vb. pte_at (kmemory t) pgdir vb =
         (if PGROUNDDOWN vb = a then v2p p OR (PTE_W OR PTE_U) OR PTE_P else pte_at (kmemory s) pgdir vb)) \<and>
      p \<notin> pt_pages (kmemory t) pgdir \<and> pt_pages (kmemory t) pgdir \<subseteq> pt_pages (kmemory s) pgdir \<union> F \<and>
      zeroed (kmemory t) p \<and> same_outside (F \<union> pt_pages (kmemory s) pgdir) (kmemory s) (kmemory t)"
proof -
  have fin: "finite F" and dis: "pt_pages (kmemory s) pgdir \<inter> F = {}" using assms(1) kmem_inv_finite by (auto simp: vm_inv_def)
  have "F \<noteq> {}" using assms(4) by auto
  then obtain p t0 where p: "kalloc s = Ret p t0" "p \<in> F" "p \<noteq> 0" "page_aligned p" "kend t0 = kend s"
    and u0: "let u = t0\<lparr>kmemory := memset (kmemory t0) p 0 PGSIZE\<rparr> in
      vm_inv (F - {p}) pgdir u \<and> zeroed (kmemory u) p \<and> same_outside {p} (kmemory s) (kmemory u) \<and>
      (\<forall>vb. pte_at (kmemory u) pgdir vb = pte_at (kmemory s) pgdir vb) \<and>
      pt_pages (kmemory u) pgdir = pt_pages (kmemory s) pgdir"
    using fresh_page [OF assms(1)] by blast
  define u where "u = t0\<lparr>kmemory := memset (kmemory t0) p 0 PGSIZE\<rparr>"
  have u: "vm_inv (F - {p}) pgdir u" "zeroed (kmemory u) p" "same_outside {p} (kmemory s) (kmemory u)"
    "\<forall>vb. pte_at (kmemory u) pgdir vb = pte_at (kmemory s) pgdir vb"
    "pt_pages (kmemory u) pgdir = pt_pages (kmemory s) pgdir" "kend u = kend s"
    using u0 p(5) by (auto simp: Let_def u_def)
  have a: "PGROUNDDOWN a = a" using assms(2) in_page_iff [OF assms(2), of a] by (simp add: PGSIZE_def)
  have sp: "span a PGSIZE = 0"
    using aligned_dvd [OF assms(2)] by (auto simp: span_def PGSIZE_def)
  have np: "\<forall>vb. unat (page_dist a vb) < 4096 * Suc 0 \<longrightarrow> \<not> present (pte_at (kmemory u) pgdir vb)"
  proof (intro allI impI)
    fix vb assume "unat (page_dist a vb) < 4096 * Suc 0"
    then have "PGROUNDDOWN vb = PGROUNDDOWN a"
      using page_dist_step(3) [OF assms(2) le0, of vb] page_dist_zero [of a vb] a by auto
    then have "PDX vb = PDX a" "PTX vb = PTX a" using same_page [of vb a] by auto
    then have "pte_at (kmemory s) pgdir vb = pte_at (kmemory s) pgdir a" by (simp add: pte_at_def)
    then show "\<not> present (pte_at (kmemory u) pgdir vb)" using u(4) assms(3) by simp
  qed
  have "mappages_post (F - {p}) pgdir a (v2p p) (PTE_W OR PTE_U) 0 u (mappages pgdir a PGSIZE (v2p p) (PTE_W OR PTE_U) u)"
    using mappages_ret [OF u(1), of PGSIZE a "v2p p" "PTE_W OR PTE_U"] np assms(5) unfolding a sp by (simp add: PGSIZE_def)
  then obtain r t G j where t: "mappages pgdir a PGSIZE (v2p p) (PTE_W OR PTE_U) u = Ret r t"
    "vm_inv G pgdir t" "G \<subseteq> F - {p}" "kend t = kend u"
    "\<forall>vb. pte_at (kmemory t) pgdir vb = mapped a (v2p p) (PTE_W OR PTE_U) j (pte_at (kmemory u) pgdir) vb"
    "pt_pages (kmemory t) pgdir \<subseteq> pt_pages (kmemory u) pgdir \<union> (F - {p})"
    "same_outside (pt_pages (kmemory t) pgdir) (kmemory u) (kmemory t)"
    "card (F - {p}) \<le> card G + j" "r = 0 \<and> j = Suc 0 \<or> r = - 1 \<and> j = 0 \<and> G = {}"
    unfolding mappages_post_def by blast
  have cF: "card (F - {p}) = card F - 1" using p(2) fin by simp
  then have j: "j = Suc 0" using t(8,9) assms(4) by auto
  have pte: "pte_at (kmemory t) pgdir vb =
         (if PGROUNDDOWN vb = a then v2p p OR (PTE_W OR PTE_U) OR PTE_P else pte_at (kmemory s) pgdir vb)" for vb
    using t(5) u(4) page_dist_step(3) [OF assms(2) le0, of vb] page_dist_zero [of a vb] by (auto simp: j mapped_def)
  have pn: "p \<notin> pt_pages (kmemory t) pgdir" using t(6) u(5) dis p(2) by auto
  have so: "same_outside (F \<union> pt_pages (kmemory s) pgdir) (kmemory s) (kmemory t)"
    by (rule same_outside_trans [OF same_outside_mono [OF u(3)] same_outside_mono [OF t(7)]]) (use p(2) t(6) u(5) in auto)
  have loop: "a < newsz \<longrightarrow> allocuvm_loop (Suc n) pgdir oldsz newsz a s = allocuvm_loop n pgdir oldsz newsz (a + PGSIZE) t" for n oldsz newsz
    using p(1,3) t(1) by (simp add: kfun_simps u_def)
  show ?thesis
    using loop p(2,4) t(2,3,6) u(5,6) t(4) pte pn so zeroed_outside [OF u(2) t(7) p(4) pn] t(8) cF j assms(4)
    by (intro exI [of _ p] exI [of _ t] exI [of _ G]) auto
qed

text \<open>The whole loop: \<open>ps\<close> are the pages the new range is mapped to.\<close>

definition grown :: "uint list \<Rightarrow> uint \<Rightarrow> (uint \<Rightarrow> uint) \<Rightarrow> uint \<Rightarrow> uint" where
  "grown ps a f vb = (if unat a \<le> unat vb \<and> unat vb < unat a + 4096 * length ps
     then v2p (ps ! ((unat vb - unat a) div 4096)) OR (PTE_W OR PTE_U) OR PTE_P else f vb)"

lemma grown_Cons:
  assumes "page_aligned a" "unat (a + PGSIZE) = unat a + 4096"
  shows "grown (p # ps) a f vb =
    grown ps (a + PGSIZE) (\<lambda>v. if PGROUNDDOWN v = a then v2p p OR (PTE_W OR PTE_U) OR PTE_P else f v) vb"
proof -
  consider "unat vb < unat a" | "unat a \<le> unat vb" "unat vb < unat a + 4096" | "unat a + 4096 \<le> unat vb" by linarith
  then show ?thesis
  proof cases
    case 3
    have "(unat vb - unat a) div 4096 = Suc ((unat vb - (unat a + 4096)) div 4096)"
      using 3 by (simp add: div_if)
    with 3 show ?thesis by (auto simp: grown_def in_page_unat [OF assms(1)] assms(2))
  qed (auto simp: grown_def in_page_unat [OF assms(1)] assms(2))
qed

lemma allocuvm_loop_ret:
  assumes "vm_inv F pgdir s" "page_aligned a" "k < n" "2 * k \<le> card F" "unat a + 4096 * k < 2 ^ 32"
    and "unat newsz \<le> unat a + 4096 * k" "k = 0 \<or> unat a + 4096 * (k - 1) < unat newsz"
    and "\<forall>vb. unat a \<le> unat vb \<and> unat vb < unat a + 4096 * k \<longrightarrow> \<not> present (pte_at (kmemory s) pgdir vb)"
  shows "\<exists>s' ps F'. allocuvm_loop n pgdir oldsz newsz a s = Ret newsz s' \<and> vm_inv F' pgdir s' \<and>
    length ps = k \<and> distinct ps \<and> set ps \<subseteq> F \<and> set ps \<inter> (F' \<union> pt_pages (kmemory s') pgdir) = {} \<and> F' \<subseteq> F \<and>
    (\<forall>vb. pte_at (kmemory s') pgdir vb = grown ps a (pte_at (kmemory s) pgdir) vb) \<and>
    (\<forall>p\<in>set ps. zeroed (kmemory s') p) \<and>
    pt_pages (kmemory s') pgdir \<subseteq> pt_pages (kmemory s) pgdir \<union> F \<and> kend s' = kend s \<and>
    same_outside (F \<union> pt_pages (kmemory s) pgdir) (kmemory s) (kmemory s')"
  using assms
proof (induction k arbitrary: n a s F)
  case (0 n a s F)
  then obtain n' where "n = Suc n'" by (cases n) auto
  then show ?case using 0 by (intro exI [of _ s] exI [of _ "[]"] exI [of _ F]) (auto simp: kfun_simps grown_def word_less_nat_alt)
next
  case (Suc k n a s F)
  obtain n' where n: "n = Suc n'" "k < n'" using Suc.prems(3) by (cases n) auto
  have np: "\<not> present (pte_at (kmemory s) pgdir a)" using Suc.prems(8) by simp
  have c2: "2 \<le> card F" "unat a + 4096 \<le> 2 ^ 32" using Suc.prems(4,5) by auto
  obtain p t G where t: "\<forall>n oldsz newsz. a < newsz \<longrightarrow>
        allocuvm_loop (Suc n) pgdir oldsz newsz a s = allocuvm_loop n pgdir oldsz newsz (a + PGSIZE) t"
      "p \<in> F" "page_aligned p" "vm_inv G pgdir t" "G \<subseteq> F - {p}" "card F \<le> card G + 2" "kend t = kend s"
      "\<forall>vb. pte_at (kmemory t) pgdir vb =
         (if PGROUNDDOWN vb = a then v2p p OR (PTE_W OR PTE_U) OR PTE_P else pte_at (kmemory s) pgdir vb)"
      "p \<notin> pt_pages (kmemory t) pgdir" "pt_pages (kmemory t) pgdir \<subseteq> pt_pages (kmemory s) pgdir \<union> F"
      "zeroed (kmemory t) p" "same_outside (F \<union> pt_pages (kmemory s) pgdir) (kmemory s) (kmemory t)"
    using allocuvm_iter [OF Suc.prems(1,2) np c2] by blast
  let ?b = "a + PGSIZE"
  have ub: "unat ?b = unat a + 4096" using unat_page_offset [of a "Suc k" 1] Suc.prems(5) by simp
  have lt: "a < newsz" using Suc.prems(7) by (simp add: word_less_nat_alt)
  have al: "page_aligned ?b" using Suc.prems(2) by (simp add: page_aligned_unat ub)
  have npb: "\<forall>vb. unat ?b \<le> unat vb \<and> unat vb < unat ?b + 4096 * k \<longrightarrow> \<not> present (pte_at (kmemory t) pgdir vb)"
    using Suc.prems(8) t(8) by (auto simp: ub in_page_unat [OF Suc.prems(2)])
  have "k = 0 \<or> unat ?b + 4096 * (k - 1) < unat newsz" using Suc.prems(7) ub by (cases k) auto
  then obtain s' ps F' where s': "allocuvm_loop n' pgdir oldsz newsz ?b t = Ret newsz s'" "vm_inv F' pgdir s'"
      "length ps = k" "distinct ps" "set ps \<subseteq> G" "set ps \<inter> (F' \<union> pt_pages (kmemory s') pgdir) = {}" "F' \<subseteq> G"
      "\<forall>vb. pte_at (kmemory s') pgdir vb = grown ps ?b (pte_at (kmemory t) pgdir) vb"
      "\<forall>p\<in>set ps. zeroed (kmemory s') p"
      "pt_pages (kmemory s') pgdir \<subseteq> pt_pages (kmemory t) pgdir \<union> G" "kend s' = kend t"
      "same_outside (G \<union> pt_pages (kmemory t) pgdir) (kmemory t) (kmemory s')"
    using Suc.IH [OF t(4) al n(2) _ _ _ _ npb] t(6) Suc.prems(4-6) ub by auto
  have pG: "p \<notin> G \<union> pt_pages (kmemory t) pgdir" using t(5,9) by auto
  have "allocuvm_loop n pgdir oldsz newsz a s = Ret newsz s'" using t(1) lt s'(1) n(1) by simp
  moreover have "zeroed (kmemory s') p" by (rule zeroed_outside [OF t(11) s'(12) t(3) pG])
  moreover have "pte_at (kmemory s') pgdir vb = grown (p # ps) a (pte_at (kmemory s) pgdir) vb" for vb
  proof -
    have "pte_at (kmemory t) pgdir = (\<lambda>v. if PGROUNDDOWN v = a then v2p p OR (PTE_W OR PTE_U) OR PTE_P else pte_at (kmemory s) pgdir v)"
      using t(8) by auto
    then show ?thesis using s'(8) grown_Cons [OF Suc.prems(2) ub] by simp
  qed
  moreover have "same_outside (F \<union> pt_pages (kmemory s) pgdir) (kmemory s) (kmemory s')"
    by (rule same_outside_trans [OF t(12) same_outside_mono [OF s'(12)]]) (use t(5,10) in auto)
  moreover have "p \<notin> F' \<union> pt_pages (kmemory s') pgdir" "p \<notin> set ps" using pG s'(5,7,10) by auto
  moreover have "pt_pages (kmemory s') pgdir \<subseteq> pt_pages (kmemory s) pgdir \<union> F" using s'(10) t(5,10) by auto
  ultimately show ?case using s'(2-7,9,11) t(2,5,7)
    by (intro exI [of _ s'] exI [of _ "p # ps"] exI [of _ F']) auto
qed

section \<open>Shrinking a process\<close>

text \<open>The physical pages, by their kernel addresses, that the addresses from \<open>lo\<close> up to \<open>hi\<close> are mapped to.\<close>

definition frame_of :: "uint \<Rightarrow> uint" where
  "frame_of e = p2v (PTE_ADDR e)"

definition frames :: "mem \<Rightarrow> uint \<Rightarrow> nat \<Rightarrow> nat \<Rightarrow> uint set" where
  "frames m pgdir lo hi = {frame_of (pte_at m pgdir vb) | vb. lo \<le> unat vb \<and> unat vb < hi \<and> present (pte_at m pgdir vb)}"

text \<open>
  The user pages of a range are pages of the allocator, in use, no table, and mapped once.
\<close>

definition owns :: "uint set \<Rightarrow> uint \<Rightarrow> nat \<Rightarrow> nat \<Rightarrow> 'a kmem_scheme \<Rightarrow> bool" where
  "owns F pgdir lo hi s \<longleftrightarrow>
     (\<forall>vb. lo \<le> unat vb \<and> unat vb < hi \<and> present (pte_at (kmemory s) pgdir vb) \<longrightarrow>
        page_ok (kend s) (frame_of (pte_at (kmemory s) pgdir vb)) \<and>
        frame_of (pte_at (kmemory s) pgdir vb) \<notin> F \<union> pt_pages (kmemory s) pgdir \<and>
        (\<forall>vc. lo \<le> unat vc \<and> unat vc < hi \<and> present (pte_at (kmemory s) pgdir vc) \<and>
           frame_of (pte_at (kmemory s) pgdir vc) = frame_of (pte_at (kmemory s) pgdir vb) \<longrightarrow>
           PGROUNDDOWN vc = PGROUNDDOWN vb))"

lemma pte_same_page: "PGROUNDDOWN vb = PGROUNDDOWN va \<Longrightarrow> pte_at m pgdir vb = pte_at m pgdir va"
  using same_page [of vb va] by (simp add: pte_at_def)

lemma page_ok_frame:
  assumes "kmem_inv F s" "page_ok (kend s) (frame_of e)"
  shows "PTE_ADDR e \<noteq> 0"
proof
  assume "PTE_ADDR e = 0"
  then have "unat (frame_of e) = 2147483648" by (simp add: frame_of_def p2v_def KERNBASE_def)
  with page_ok_nonzero [OF assms] show False by simp
qed

lemma kfree_page:
  assumes "kmem_inv F s" "page_ok (kend s) p" "p \<notin> F"
  shows "\<exists>m. kfree p s = Ret () (s\<lparr>kmemory := m, freelist := p\<rparr>) \<and> same_outside {p} (kmemory s) m \<and>
    kmem_inv (insert p F) (s\<lparr>kmemory := m, freelist := p\<rparr>)"
proof -
  obtain ps where ps: "set ps = F" "free_ok ps s" using assms(1) by (auto simp: kmem_inv_def)
  with kfree_ret [OF ps(2) assms(2)] assms(3) show ?thesis by (auto simp: kmem_inv_def intro!: exI [of _ "p # ps"])
qed

text \<open>One iteration of the loop of \<^verbatim>\<open>deallocuvm\<close> under a page table that exists.\<close>

lemma deallocuvm_iter:
  assumes "vm_inv F pgdir s" "page_aligned a" "present (pde_at (kmemory s) pgdir (PDX a))"
    and "present (pte_at (kmemory s) pgdir a) \<Longrightarrow> page_ok (kend s) (frame_of (pte_at (kmemory s) pgdir a)) \<and>
      frame_of (pte_at (kmemory s) pgdir a) \<notin> F \<union> pt_pages (kmemory s) pgdir"
  shows "\<exists>t. (\<forall>n oldsz. a < oldsz \<longrightarrow> deallocuvm_loop (Suc n) pgdir a oldsz s = deallocuvm_loop n pgdir (a + PGSIZE) oldsz t) \<and>
    vm_inv (if present (pte_at (kmemory s) pgdir a) then insert (frame_of (pte_at (kmemory s) pgdir a)) F else F) pgdir t \<and>
    kend t = kend s \<and> pt_pages (kmemory t) pgdir = pt_pages (kmemory s) pgdir \<and>
    (\<forall>i<1024. present (pde_at (kmemory t) pgdir i) = present (pde_at (kmemory s) pgdir i)) \<and>
    (\<forall>vb. pte_at (kmemory t) pgdir vb =
      (if PGROUNDDOWN vb = a \<and> present (pte_at (kmemory s) pgdir vb) then 0 else pte_at (kmemory s) pgdir vb))"
proof -
  have inv: "kmem_inv F s" "pt_ok (kend s) (kmemory s) pgdir" "pt_pages (kmemory s) pgdir \<inter> F = {}"
    using assms(1) by (auto simp: vm_inv_def)
  let ?e = "pte_at (kmemory s) pgdir a" and ?pte = "tab_at (kmemory s) pgdir (PDX a) + 4 * PTX a"
  have a: "PGROUNDDOWN a = a" using assms(2) in_page_iff [OF assms(2), of a] by (simp add: PGSIZE_def)
  have w: "walkpgdir pgdir a False s = Ret ?pte s" "?pte \<noteq> 0" "load32 (kmemory s) ?pte = ?e"
    using walkpgdir_lookup [of pgdir a s] assms(3) pt_ok_dest(3) [OF inv(2) PDX_less assms(3)] slot_nonzero [OF inv(1) _ PTX_less]
    by (auto simp: pte_at_def)
  show ?thesis
  proof (cases "present ?e")
    case False
    then have "a < oldsz \<longrightarrow> deallocuvm_loop (Suc n) pgdir a oldsz s = deallocuvm_loop n pgdir (a + PGSIZE) oldsz s" for n oldsz
      using w by (simp add: kfun_simps read32_def present_def)
    moreover have "\<not> present (pte_at (kmemory s) pgdir vb)" if "PGROUNDDOWN vb = a" for vb
      using pte_same_page [of vb a] that a False by simp
    ultimately show ?thesis using assms(1) False by (intro exI [of _ s]) auto
  next
    case True
    let ?p = "frame_of ?e"
    have p: "page_ok (kend s) ?p" "?p \<notin> F" "?p \<notin> pt_pages (kmemory s) pgdir" using assms(4) True by auto
    obtain m where m: "kfree ?p s = Ret () (s\<lparr>kmemory := m, freelist := ?p\<rparr>)" "same_outside {?p} (kmemory s) m"
      "kmem_inv (insert ?p F) (s\<lparr>kmemory := m, freelist := ?p\<rparr>)" using kfree_page [OF inv(1) p(1,2)] by blast
    let ?t = "s\<lparr>kmemory := m, freelist := ?p\<rparr>"
    have dis: "pt_pages (kmemory s) pgdir \<inter> {?p} = {}" using p(3) by auto
    note mo = map_outside [OF inv(2) m(2) dis]
    have pde: "pde_at m pgdir i = pde_at (kmemory s) pgdir i" if "i < 1024" for i
      using pde_at_outside [OF m(2) pt_ok_dest(1) [OF inv(2)] _ that] dis by (auto simp: pt_pages_def)
    then have tab: "tab_at m pgdir (PDX a) = tab_at (kmemory s) pgdir (PDX a)" by (simp add: tab_at_def)
    have it: "vm_inv (insert ?p F) pgdir ?t" using m(3) mo inv(3) p(3) by (auto simp: vm_inv_def)
    have pr: "present (pde_at (kmemory ?t) pgdir (PDX a))" "?pte = tab_at (kmemory ?t) pgdir (PDX a) + 4 * PTX a"
      using assms(3) pde tab by auto
    note e = mappages_entry [OF it pr]
    have pok: "pt_ok (kend ?t) (kmemory ?t) pgdir" using mo by simp
    have pde': "pde_at (store32 m ?pte 0) pgdir i = pde_at m pgdir i" if "i < 1024" for i
      using map_write(4) [OF pok pr(1) refl that, of 0] tab by simp
    have "a < oldsz \<longrightarrow> deallocuvm_loop (Suc n) pgdir a oldsz s =
        deallocuvm_loop n pgdir (a + PGSIZE) oldsz (?t\<lparr>kmemory := store32 (kmemory ?t) ?pte 0\<rparr>)" for n oldsz
      using w True m(1) page_ok_frame [OF inv(1) p(1)]
      by (simp add: kfun_simps read32_def write32_def present_def frame_of_def)
    moreover have "pte_at (store32 (kmemory ?t) ?pte 0) pgdir vb =
      (if PGROUNDDOWN vb = a \<and> present (pte_at (kmemory s) pgdir vb) then 0 else pte_at (kmemory s) pgdir vb)" for vb
      using e(2) [of 0 vb] mo(1) a True pte_same_page [of vb a "kmemory s"] by auto
    ultimately show ?thesis using True e(1,3) [of 0] mo(3) pde pde'
      by (intro exI [of _ "?t\<lparr>kmemory := store32 (kmemory ?t) ?pte 0\<rparr>"]) auto
  qed
qed

lemma owns_step:
  assumes "owns F pgdir lo hi s" "page_aligned a" "lo = unat a" "lo + 4096 \<le> hi" "kend t = kend s"
    and "pt_pages (kmemory t) pgdir = pt_pages (kmemory s) pgdir"
    and pte: "\<forall>vb. pte_at (kmemory t) pgdir vb =
      (if PGROUNDDOWN vb = a \<and> present (pte_at (kmemory s) pgdir vb) then 0 else pte_at (kmemory s) pgdir vb)"
  shows "owns (if present (pte_at (kmemory s) pgdir a) then insert (frame_of (pte_at (kmemory s) pgdir a)) F else F)
    pgdir (lo + 4096) hi t"
proof -
  have same: "pte_at (kmemory t) pgdir vb = pte_at (kmemory s) pgdir vb" if "lo + 4096 \<le> unat vb" for vb
    using pte that assms(3) by (simp add: in_page_unat [OF assms(2)])
  have "frame_of (pte_at (kmemory s) pgdir vb) \<noteq> frame_of (pte_at (kmemory s) pgdir a)"
    if "lo + 4096 \<le> unat vb" "unat vb < hi" "present (pte_at (kmemory s) pgdir vb)" "present (pte_at (kmemory s) pgdir a)" for vb
  proof
    assume eq: "frame_of (pte_at (kmemory s) pgdir vb) = frame_of (pte_at (kmemory s) pgdir a)"
    have "lo \<le> unat a" "unat a < hi" "lo \<le> unat vb" using assms(3,4) that by auto
    then have "PGROUNDDOWN vb = PGROUNDDOWN a" using assms(1) that eq unfolding owns_def by metis
    then have "PGROUNDDOWN vb = a" using in_page_unat [OF assms(2), of a] by simp
    then show False using that(1) assms(3) by (simp add: in_page_unat [OF assms(2)])
  qed
  with assms(1,5,6) same show ?thesis unfolding owns_def by auto
qed

lemma framesI: "lo \<le> unat vb \<Longrightarrow> unat vb < hi \<Longrightarrow> present (pte_at m pgdir vb) \<Longrightarrow> frame_of (pte_at m pgdir vb) \<in> frames m pgdir lo hi"
  unfolding frames_def by (intro CollectI exI [of _ vb]) simp

lemma framesE:
  assumes "p \<in> frames m pgdir lo hi"
  obtains vb where "p = frame_of (pte_at m pgdir vb)" "lo \<le> unat vb" "unat vb < hi" "present (pte_at m pgdir vb)"
  using assms unfolding frames_def by blast

lemma frames_empty [simp]: "frames m pgdir lo lo = {}"
  by (auto elim: framesE)

lemma frames_step:
  assumes "page_aligned a" "lo = unat a" "lo + 4096 \<le> hi"
    and pte: "\<forall>vb. pte_at m' pgdir vb = (if PGROUNDDOWN vb = a \<and> present (pte_at m pgdir vb) then 0 else pte_at m pgdir vb)"
  shows "frames m pgdir lo hi = frames m' pgdir (lo + 4096) hi \<union>
    (if present (pte_at m pgdir a) then {frame_of (pte_at m pgdir a)} else {})"
proof -
  have aa: "PGROUNDDOWN a = a" using in_page_unat [OF assms(1), of a] by simp
  have same: "pte_at m' pgdir vb = pte_at m pgdir vb" if "lo + 4096 \<le> unat vb" for vb
    using pte that assms(2) by (simp add: in_page_unat [OF assms(1)])
  have low: "pte_at m pgdir vb = pte_at m pgdir a" if "lo \<le> unat vb" "unat vb < lo + 4096" for vb
    using pte_same_page [of vb a] that assms(2) in_page_unat [OF assms(1), of vb] aa by simp
  show ?thesis
  proof (intro subset_antisym subsetI)
    fix p assume "p \<in> frames m pgdir lo hi"
    then obtain vb where vb: "p = frame_of (pte_at m pgdir vb)" "lo \<le> unat vb" "unat vb < hi" "present (pte_at m pgdir vb)"
      by (elim framesE)
    show "p \<in> frames m' pgdir (lo + 4096) hi \<union> (if present (pte_at m pgdir a) then {frame_of (pte_at m pgdir a)} else {})"
    proof (cases "unat vb < lo + 4096")
      case True
      then show ?thesis using low [of vb] vb by simp
    next
      case False
      then show ?thesis using same [of vb] vb framesI [of "lo + 4096" vb hi m' pgdir] by simp
    qed
  next
    fix p assume "p \<in> frames m' pgdir (lo + 4096) hi \<union> (if present (pte_at m pgdir a) then {frame_of (pte_at m pgdir a)} else {})"
    then consider "p \<in> frames m' pgdir (lo + 4096) hi" | "present (pte_at m pgdir a)" "p = frame_of (pte_at m pgdir a)"
      by (auto split: if_splits)
    then show "p \<in> frames m pgdir lo hi"
    proof cases
      case 1
      then obtain vb where "p = frame_of (pte_at m' pgdir vb)" "lo + 4096 \<le> unat vb" "unat vb < hi" "present (pte_at m' pgdir vb)"
        by (elim framesE)
      then show ?thesis using same [of vb] framesI [of lo vb hi m pgdir] by simp
    next
      case 2
      then show ?thesis using assms(2,3) framesI [of lo a hi m pgdir] by simp
    qed
  qed
qed

lemma deallocuvm_loop_ret:
  assumes "vm_inv F pgdir s" "page_aligned a" "k < n" "unat a + 4096 * k < 2 ^ 32"
    and "unat oldsz \<le> unat a + 4096 * k" "k = 0 \<or> unat a + 4096 * (k - 1) < unat oldsz"
    and "owns F pgdir (unat a) (unat a + 4096 * k) s"
    and "\<forall>vb. unat a \<le> unat vb \<and> unat vb < unat a + 4096 * k \<longrightarrow> present (pde_at (kmemory s) pgdir (PDX vb))"
  shows "\<exists>s'. deallocuvm_loop n pgdir a oldsz s = Ret () s' \<and>
    vm_inv (F \<union> frames (kmemory s) pgdir (unat a) (unat a + 4096 * k)) pgdir s' \<and> kend s' = kend s \<and>
    pt_pages (kmemory s') pgdir = pt_pages (kmemory s) pgdir \<and>
    (\<forall>vb. pte_at (kmemory s') pgdir vb =
      (if unat a \<le> unat vb \<and> unat vb < unat a + 4096 * k \<and> present (pte_at (kmemory s) pgdir vb) then 0
       else pte_at (kmemory s) pgdir vb))"
  using assms
proof (induction k arbitrary: n a s F)
  case (0 n a s F)
  then obtain n' where "n = Suc n'" by (cases n) auto
  then show ?case using 0 by (auto simp: kfun_simps word_less_nat_alt)
next
  case (Suc k n a s F)
  obtain n' where n: "n = Suc n'" "k < n'" using Suc.prems(3) by (cases n) auto
  let ?e = "pte_at (kmemory s) pgdir a" and ?hi = "unat a + 4096 * Suc k"
  let ?G = "if present ?e then insert (frame_of ?e) F else F"
  have pd: "present (pde_at (kmemory s) pgdir (PDX a))" using Suc.prems(8) by simp
  have pok: "page_ok (kend s) (frame_of ?e) \<and> frame_of ?e \<notin> F \<union> pt_pages (kmemory s) pgdir" if "present ?e"
    using Suc.prems(7) that unfolding owns_def by simp
  obtain t where t: "\<forall>n oldsz. a < oldsz \<longrightarrow> deallocuvm_loop (Suc n) pgdir a oldsz s = deallocuvm_loop n pgdir (a + PGSIZE) oldsz t"
    "vm_inv ?G pgdir t" "kend t = kend s" "pt_pages (kmemory t) pgdir = pt_pages (kmemory s) pgdir"
    "\<forall>i<1024. present (pde_at (kmemory t) pgdir i) = present (pde_at (kmemory s) pgdir i)"
    "\<forall>vb. pte_at (kmemory t) pgdir vb =
      (if PGROUNDDOWN vb = a \<and> present (pte_at (kmemory s) pgdir vb) then 0 else pte_at (kmemory s) pgdir vb)"
    using deallocuvm_iter [OF Suc.prems(1,2) pd pok] by blast
  let ?b = "a + PGSIZE"
  have ub: "unat ?b = unat a + 4096" using unat_page_offset [of a "Suc k" 1] Suc.prems(4) by simp
  have lt: "a < oldsz" using Suc.prems(6) by (simp add: word_less_nat_alt)
  have al: "page_aligned ?b" using Suc.prems(2) by (simp add: page_aligned_unat ub)
  have hi: "unat ?b + 4096 * k = ?hi" by (simp add: ub)
  have ow: "owns ?G pgdir (unat ?b) (unat ?b + 4096 * k) t"
    using owns_step [OF Suc.prems(7,2) refl _ t(3,4,6)] by (simp add: ub add.assoc)
  have fr: "frames (kmemory s) pgdir (unat a) ?hi = frames (kmemory t) pgdir (unat ?b) (unat ?b + 4096 * k) \<union>
      (if present ?e then {frame_of ?e} else {})"
    using frames_step [OF Suc.prems(2) refl _ t(6), of ?hi] unfolding ub by (simp add: add.assoc)
  have "k = 0 \<or> unat ?b + 4096 * (k - 1) < unat oldsz" using Suc.prems(6) ub by (cases k) auto
  moreover have "\<forall>vb. unat ?b \<le> unat vb \<and> unat vb < unat ?b + 4096 * k \<longrightarrow> present (pde_at (kmemory t) pgdir (PDX vb))"
    using Suc.prems(8) t(5) by (auto simp: ub)
  moreover have "unat ?b + 4096 * k < 2 ^ 32" "unat oldsz \<le> unat ?b + 4096 * k" using Suc.prems(4,5) by (auto simp: ub)
  ultimately obtain s' where s': "deallocuvm_loop n' pgdir ?b oldsz t = Ret () s'"
    "vm_inv (?G \<union> frames (kmemory t) pgdir (unat ?b) (unat ?b + 4096 * k)) pgdir s'" "kend s' = kend t"
    "pt_pages (kmemory s') pgdir = pt_pages (kmemory t) pgdir"
    "\<forall>vb. pte_at (kmemory s') pgdir vb =
      (if unat ?b \<le> unat vb \<and> unat vb < unat ?b + 4096 * k \<and> present (pte_at (kmemory t) pgdir vb) then 0
       else pte_at (kmemory t) pgdir vb)"
    using Suc.IH [OF t(2) al n(2) _ _ _ ow] by blast
  have "pte_at (kmemory s') pgdir vb =
      (if unat a \<le> unat vb \<and> unat vb < ?hi \<and> present (pte_at (kmemory s) pgdir vb) then 0 else pte_at (kmemory s) pgdir vb)" for vb
    using s'(5) t(6) by (auto simp: ub in_page_unat [OF Suc.prems(2)])
  moreover have "?G \<union> frames (kmemory t) pgdir (unat ?b) (unat ?b + 4096 * k) = F \<union> frames (kmemory s) pgdir (unat a) ?hi"
    unfolding fr by auto
  ultimately show ?case using s' t(1,3,4) lt n(1) by (intro exI [of _ s']) simp
qed

section \<open>Properties\<close>

lemma aligned_up: "unat sz + 4095 < 2 ^ 32 \<Longrightarrow> page_aligned (PGROUNDUP sz)"
  by (simp add: page_aligned_unat unat_PGROUNDUP)

definition npages :: "uint \<Rightarrow> nat" where
  "npages sz = (unat sz + 4095) div 4096"

lemma npages_bounds: "unat sz \<le> npages sz * 4096" "npages sz * 4096 < unat sz + 4096"
  using div_mult_mod_eq [of "unat sz + 4095" 4096] mod_less_divisor [of 4096 "unat sz + 4095"]
  unfolding npages_def by linarith+

lemma div_page_diff: "(x - n * 4096) div 4096 = x div 4096 - (n :: nat)"
proof (cases "n * 4096 \<le> x")
  case True
  then obtain y where "x = y + n * 4096" by (metis le_add_diff_inverse2)
  then show ?thesis by simp
next
  case False
  then have "x div 4096 < n" by (simp add: div_less_iff_less_mult)
  with False show ?thesis by simp
qed

text \<open>
  C16. \<^verbatim>\<open>allocuvm\<close> grows a process by zeroed pages of its own.  With two free pages for each new
  page (one may become a page table) and nothing mapped there yet, it returns the new size; every
  address from the old size, rounded up, to the new size, rounded up, is mapped writable for the
  user to a page that was free, a different page for each page of addresses and filled with zeros;
  every other address keeps its entry, and no page used is still on the free list.
\<close>

theorem allocuvm_grows:
  assumes "vm_inv F pgdir (s :: kmem)" "oldsz \<le> newsz" "newsz < KERNBASE"
    and "2 * (npages newsz - npages oldsz) \<le> card F"
    and "\<forall>vb. npages oldsz * 4096 \<le> unat vb \<and> unat vb < npages newsz * 4096 \<longrightarrow> \<not> present (pte_at (kmemory s) pgdir vb)"
  shows "\<exists>s' ps F'. allocuvm pgdir oldsz newsz s = Ret newsz s' \<and> vm_inv F' pgdir s' \<and>
    length ps = npages newsz - npages oldsz \<and> distinct ps \<and> set ps \<subseteq> F - F' \<and> (\<forall>p\<in>set ps. zeroed (kmemory s') p) \<and>
    (\<forall>vb. pte_at (kmemory s') pgdir vb =
      (if npages oldsz * 4096 \<le> unat vb \<and> unat vb < npages newsz * 4096
       then v2p (ps ! (unat vb div 4096 - npages oldsz)) OR (PTE_W OR PTE_U) OR PTE_P
       else pte_at (kmemory s) pgdir vb))"
proof -
  let ?k = "npages newsz - npages oldsz" and ?a = "PGROUNDUP oldsz"
  have le: "npages oldsz \<le> npages newsz" using assms(2) unfolding npages_def word_le_nat_alt by (intro div_le_mono) simp
  have nb: "unat newsz < 2147483648" "unat oldsz \<le> unat newsz"
    using assms(2,3) by (simp_all add: KERNBASE_def word_less_nat_alt word_le_nat_alt)
  then have ua: "unat ?a = npages oldsz * 4096" by (subst unat_PGROUNDUP) (simp_all add: npages_def)
  have al: "page_aligned ?a" using nb by (intro aligned_up) simp
  have ab: "unat ?a + 4096 * ?k = npages newsz * 4096" using le by (simp add: ua diff_mult_distrib2)
  have kb: "?k < 2 ^ 20" using npages_bounds [of newsz] nb by simp
  have f: "unat ?a + 4096 * ?k < 2 ^ 32" "unat newsz \<le> unat ?a + 4096 * ?k"
    using npages_bounds [of newsz] nb unfolding ab by simp_all
  have g: "?k = 0 \<or> unat ?a + 4096 * (?k - 1) < unat newsz"
    using npages_bounds [of newsz] ab by (cases ?k) auto
  have np: "\<forall>vb. unat ?a \<le> unat vb \<and> unat vb < unat ?a + 4096 * ?k \<longrightarrow> \<not> present (pte_at (kmemory s) pgdir vb)"
    using assms(5) by (simp add: ab) (simp add: ua)
  obtain s' ps F' where s': "allocuvm_loop (2 ^ 20) pgdir oldsz newsz ?a s = Ret newsz s'" "vm_inv F' pgdir s'"
    "length ps = ?k" "distinct ps" "set ps \<subseteq> F" "set ps \<inter> (F' \<union> pt_pages (kmemory s') pgdir) = {}"
    "\<forall>vb. pte_at (kmemory s') pgdir vb = grown ps ?a (pte_at (kmemory s) pgdir) vb" "\<forall>p\<in>set ps. zeroed (kmemory s') p"
    using allocuvm_loop_ret [OF assms(1) al kb assms(4) f g np, of oldsz] by blast
  have "allocuvm pgdir oldsz newsz s = Ret newsz s'" using s'(1) assms(2,3) by (simp add: allocuvm_def not_le [symmetric])
  with s' show ?thesis using ab by (intro exI [of _ s'] exI [of _ ps] exI [of _ F']) (auto simp: grown_def div_page_diff ua)
qed

text \<open>
  C17. \<^verbatim>\<open>deallocuvm\<close> gives back exactly the pages above the new size.  Where every address of the
  range has a page table and its pages belong to this process alone, the call ends without a panic
  and returns the new size; the pages of the range join the free pages, their entries are cleared,
  and every other address keeps its entry.
\<close>

theorem deallocuvm_frees:
  assumes "vm_inv F pgdir (s :: kmem)" "newsz < oldsz" "oldsz \<le> KERNBASE"
    and "owns F pgdir (npages newsz * 4096) (npages oldsz * 4096) s"
    and "\<forall>vb. npages newsz * 4096 \<le> unat vb \<and> unat vb < npages oldsz * 4096 \<longrightarrow> present (pde_at (kmemory s) pgdir (PDX vb))"
  shows "\<exists>s'. deallocuvm pgdir oldsz newsz s = Ret newsz s' \<and>
    vm_inv (F \<union> frames (kmemory s) pgdir (npages newsz * 4096) (npages oldsz * 4096)) pgdir s' \<and>
    (\<forall>vb. pte_at (kmemory s') pgdir vb =
      (if npages newsz * 4096 \<le> unat vb \<and> unat vb < npages oldsz * 4096 \<and> present (pte_at (kmemory s) pgdir vb) then 0
       else pte_at (kmemory s) pgdir vb))"
proof -
  let ?k = "npages oldsz - npages newsz" and ?a = "PGROUNDUP newsz"
  have nb: "unat oldsz \<le> 2147483648" "unat newsz < unat oldsz"
    using assms(2,3) by (simp_all add: KERNBASE_def word_less_nat_alt word_le_nat_alt)
  then have le: "npages newsz \<le> npages oldsz" unfolding npages_def by (intro div_le_mono) simp
  have ua: "unat ?a = npages newsz * 4096" using nb by (subst unat_PGROUNDUP) (simp_all add: npages_def)
  have al: "page_aligned ?a" using nb by (intro aligned_up) simp
  have ab: "unat ?a + 4096 * ?k = npages oldsz * 4096" using le by (simp add: ua diff_mult_distrib2)
  have kb: "?k < 2 ^ 20 + 1" using npages_bounds [of oldsz] nb by simp
  have f: "unat ?a + 4096 * ?k < 2 ^ 32" "unat oldsz \<le> unat ?a + 4096 * ?k"
    using npages_bounds [of oldsz] nb unfolding ab by simp_all
  have g: "?k = 0 \<or> unat ?a + 4096 * (?k - 1) < unat oldsz"
    using npages_bounds [of oldsz] ab by (cases ?k) auto
  have ow: "owns F pgdir (unat ?a) (unat ?a + 4096 * ?k) s" using assms(4) unfolding ab unfolding ua .
  have pd: "\<forall>vb. unat ?a \<le> unat vb \<and> unat vb < unat ?a + 4096 * ?k \<longrightarrow> present (pde_at (kmemory s) pgdir (PDX vb))"
    using assms(5) unfolding ab unfolding ua .
  obtain s' where s': "deallocuvm_loop (2 ^ 20 + 1) pgdir ?a oldsz s = Ret () s'"
    "vm_inv (F \<union> frames (kmemory s) pgdir (unat ?a) (unat ?a + 4096 * ?k)) pgdir s'"
    "\<forall>vb. pte_at (kmemory s') pgdir vb =
      (if unat ?a \<le> unat vb \<and> unat vb < unat ?a + 4096 * ?k \<and> present (pte_at (kmemory s) pgdir vb) then 0
       else pte_at (kmemory s) pgdir vb)"
    using deallocuvm_loop_ret [OF assms(1) al kb f g ow pd] by blast
  have "deallocuvm pgdir oldsz newsz s = Ret newsz s'"
    using s'(1) assms(2) by (simp add: deallocuvm_def not_le [symmetric] kfun_simps)
  with s'(2,3) show ?thesis unfolding ab unfolding ua by blast
qed

text \<open>
  C23. Memory can run out unnoticed.  With exactly one free page and no page table for the new
  page, \<^verbatim>\<open>allocuvm\<close> takes that page, \<^verbatim>\<open>mappages\<close> fails and its result is ignored: the new size is
  returned, the address is still unmapped and the page is on no list any more.
\<close>

theorem allocuvm_ignores_mappages:
  assumes "vm_inv {p} pgdir (s :: kmem)" "page_aligned oldsz" "unat oldsz + 4096 < 2 ^ 31"
    and "\<not> present (pde_at (kmemory s) pgdir (PDX oldsz))"
  shows "\<exists>s'. allocuvm pgdir oldsz (oldsz + PGSIZE) s = Ret (oldsz + PGSIZE) s' \<and> vm_inv {} pgdir s' \<and>
    pte_at (kmemory s') pgdir oldsz = 0 \<and> p \<notin> pt_pages (kmemory s') pgdir"
proof -
  have dis: "p \<notin> pt_pages (kmemory s) pgdir" using assms(1) by (auto simp: vm_inv_def)
  obtain t where t: "kalloc s = Ret p t" "p \<noteq> 0" "kend t = kend s"
    and u0: "let u = t\<lparr>kmemory := memset (kmemory t) p 0 PGSIZE\<rparr> in
      vm_inv {} pgdir u \<and> same_outside {p} (kmemory s) (kmemory u) \<and> (\<forall>vb. pte_at (kmemory u) pgdir vb = pte_at (kmemory s) pgdir vb) \<and>
      pt_pages (kmemory u) pgdir = pt_pages (kmemory s) pgdir"
    using fresh_page [OF assms(1)] by (auto simp: Let_def)
  define u where "u = t\<lparr>kmemory := memset (kmemory t) p 0 PGSIZE\<rparr>"
  have u: "vm_inv {} pgdir u" "\<forall>vb. pte_at (kmemory u) pgdir vb = pte_at (kmemory s) pgdir vb"
    "pt_pages (kmemory u) pgdir = pt_pages (kmemory s) pgdir" "same_outside {p} (kmemory s) (kmemory u)" using u0 by (auto simp: Let_def u_def)
  let ?n = "oldsz + PGSIZE"
  have n: "unat ?n = unat oldsz + 4096" using assms(3) by (simp add: PGSIZE_def unat_word_ariths)
  have lt: "oldsz < ?n" "\<not> ?n < oldsz" "\<not> KERNBASE \<le> ?n"
    using n assms(3) by (simp_all add: word_less_nat_alt word_le_nat_alt KERNBASE_def)
  have "\<not> present (pte_at (kmemory s) pgdir oldsz)" using assms(4) by (simp add: pte_at_def present_def)
  then have np: "\<not> present (pte_at (kmemory u) pgdir oldsz)" using u(2) by simp
  have up: "PGROUNDUP oldsz = oldsz" using assms(2,3) aligned_dvd [OF assms(2)]
    by (auto simp: word_unat_eq_iff unat_PGROUNDUP)
  have dn: "PGROUNDDOWN oldsz = oldsz" using in_page_unat [OF assms(2), of oldsz] by simp
  have ptz: "pte_at (kmemory s) pgdir oldsz = 0" using assms(4) by (simp add: pte_at_def)
  have "pgdir \<notin> {p}" using dis by (auto simp: pt_pages_def)
  then have "pde_at (kmemory u) pgdir (PDX oldsz) = pde_at (kmemory s) pgdir (PDX oldsz)"
    using pde_at_outside [OF u(4) _ _ PDX_less] assms(1) pt_ok_dest(1) by (auto simp: vm_inv_def)
  then have "\<not> present (load32 (kmemory u) (pgdir + 4 * PDX oldsz))" using assms(4) by (simp add: pde_at_def)
  moreover have "kalloc u = Ret 0 u" using u(1) kalloc_empty by (auto simp: vm_inv_def kmem_inv_def)
  ultimately have w: "walkpgdir pgdir oldsz True u = Ret 0 u"
    by (simp add: walkpgdir_def Let_def kfun_simps read32_def present_def)
  have loop: "mappages_loop (Suc k) pgdir oldsz lst pa prm u = Ret (- 1) u" for k lst pa prm
    using w by (simp add: kfun_simps)
  have "mappages pgdir oldsz PGSIZE (v2p p) (PTE_W OR PTE_U) u = Ret (- 1) u"
    using loop [of 1048575] unfolding mappages_def dn by simp
  then have "allocuvm_loop (Suc (Suc k)) pgdir oldsz ?n oldsz s = Ret ?n u" for k
    using t(1,2) lt(1) by (simp add: kfun_simps u_def)
  from this [of 1048574] have "allocuvm_loop (2 ^ 20) pgdir oldsz ?n oldsz s = Ret ?n u" by simp
  then have "allocuvm pgdir oldsz ?n s = Ret ?n u" using lt up by (simp add: allocuvm_def)
  with u ptz dis show ?thesis by auto
qed

text \<open>
  C24. A missing page table makes \<^verbatim>\<open>deallocuvm\<close> step over pages of the next one.  When the first
  address to free has no page table, the loop goes on 4 MiB further without aligning: an old size
  within that distance is reached at once, and the call returns with nothing freed, whatever the
  next page table maps.
\<close>

theorem deallocuvm_steps_over:
  assumes "newsz < oldsz" "unat newsz + 4095 < 2 ^ 32" "unat (PGROUNDUP newsz) + 4194304 < 2 ^ 32"
    and "\<not> present (pde_at (kmemory s) pgdir (PDX (PGROUNDUP newsz)))"
    and "unat oldsz \<le> unat (PGROUNDUP newsz) + 4194304"
  shows "deallocuvm pgdir oldsz newsz (s :: kmem) = Ret newsz s"
proof -
  let ?a = "PGROUNDUP newsz"
  have w: "walkpgdir pgdir ?a False s = Ret 0 s" using walkpgdir_lookup [of pgdir ?a s] assms(4) by simp
  have st: "?a + of_nat (NPTENTRIES - 1) * PGSIZE + PGSIZE = ?a + 0x400000" by (simp add: NPTENTRIES_def PGSIZE_def)
  have "unat (?a + 0x400000) = unat ?a + 4194304" using assms(3) by (simp add: unat_word_ariths)
  then have "\<not> ?a + 0x400000 < oldsz" using assms(5) by (simp add: word_less_nat_alt)
  then have "deallocuvm_loop (Suc (Suc k)) pgdir ?a oldsz s = Ret () s" for k
    using w unfolding deallocuvm_loop.simps st by (simp add: kfun_simps)
  from this [of 1048575] have "deallocuvm_loop (2 ^ 20 + 1) pgdir ?a oldsz s = Ret () s" by simp
  with assms(1) show ?thesis by (simp add: deallocuvm_def not_le [symmetric] kfun_simps)
qed

text \<open>
  A small memory: a page directory, one page table for the addresses from 4 MiB on, one user page
  mapped at 4 MiB, and two free pages.
\<close>

definition vm_demo_mem :: mem where
  "vm_demo_mem = store32 (store32 (store32 (\<lambda>_. 0) (0x80113000 + 4 * 0) 0x80114000)
     (0x80110000 + 4 * 1) 0x111007) (0x80111000 + 4 * 0) 0x112007"

definition vm_demo :: "uint \<Rightarrow> kmem" where
  "vm_demo f = \<lparr>kmemory = vm_demo_mem, freelist = f, use_lock = False, kend = 0x80110000\<rparr>"

lemma load32_zero [simp]: "load32 (\<lambda>_. 0) a = 0"
  by (simp add: load32_def of_bytes_def)

lemma demo_slot:
  assumes "p \<in> {0x80110000, 0x80111000, 0x80113000, 0x80114000}" "i < 1024"
  shows "load32 vm_demo_mem (p + 4 * i) =
    (if p = 0x80111000 \<and> i = 0 then 0x112007 else if p = 0x80110000 \<and> i = 1 then 0x111007
     else if p = 0x80113000 \<and> i = 0 then 0x80114000 else 0)"
proof -
  have al: "page_aligned p" "page_aligned 0x80110000" "page_aligned 0x80111000" "page_aligned 0x80113000"
    using assms(1) by (auto simp: page_aligned_def PGSIZE_def)
  have i: "(0 :: uint) < 1024" "(1 :: uint) < 1024" by simp_all
  show ?thesis
    unfolding vm_demo_mem_def load_store_slot [OF al(3,1) i(1) assms(2)] load_store_slot [OF al(2,1) i(2) assms(2)]
      load_store_slot [OF al(4,1) i(1) assms(2)]
    by auto
qed

lemma demo_map:
  "pde_at vm_demo_mem 0x80110000 i = (if i = 1 then 0x111007 else 0)" if "i < 1024"
  using demo_slot [of "0x80110000" i] that by (simp add: pde_at_def)

lemma demo_pte: "pte_at vm_demo_mem 0x80110000 vb = (if PGROUNDDOWN vb = 0x400000 then 0x112007 else 0)"
proof -
  have "PDX 0x400000 = 1" "PTX 0x400000 = 0" "PGROUNDDOWN 0x400000 = 0x400000"
    by (simp_all add: word_unat_eq_iff unat_PDX unat_PTX unat_PGROUNDDOWN)
  then have "PDX vb = 1 \<and> PTX vb = 0 \<longleftrightarrow> PGROUNDDOWN vb = 0x400000" using same_page [of vb "0x400000"] by simp
  moreover have "tab_at vm_demo_mem 0x80110000 1 = 0x80111000"
    by (simp add: tab_at_def demo_map PTE_ADDR_def p2v_def KERNBASE_def)
  ultimately show ?thesis using demo_slot [of "0x80111000" "PTX vb"]
    by (auto simp: pte_at_def demo_map present_def PTE_P_def)
qed

lemma demo_inv:
  shows "vm_inv {0x80113000, 0x80114000} 0x80110000 (vm_demo 0x80113000)"
    and "vm_inv {0x80114000} 0x80110000 (vm_demo 0x80114000)" and "vm_inv {} 0x80110000 (vm_demo 0)"
proof -
  have tab: "tab_at vm_demo_mem 0x80110000 1 = 0x80111000"
    by (simp add: tab_at_def demo_map PTE_ADDR_def p2v_def KERNBASE_def)
  have pr: "present (pde_at vm_demo_mem 0x80110000 i) \<longleftrightarrow> i = 1" if "i < 1024" for i
    using that by (simp add: demo_map present_def PTE_P_def)
  have ok: "page_ok 0x80110000 p" if "p \<in> {0x80110000, 0x80111000, 0x80113000, 0x80114000}" for p
    using that by (auto simp: page_ok_def page_aligned_def PGSIZE_def v2p_def PHYSTOP_def KERNBASE_def)
  have pt: "pt_ok 0x80110000 vm_demo_mem 0x80110000"
    unfolding pt_ok_def using pr tab ok by auto
  have "pt_pages vm_demo_mem 0x80110000 = {0x80110000, 0x80111000}"
    unfolding pt_pages_def using pr tab by auto
  note c = this pt
  have l: "load32 vm_demo_mem 0x80113000 = 0x80114000" "load32 vm_demo_mem 0x80114000 = 0"
    using demo_slot [of "0x80113000" 0] demo_slot [of "0x80114000" 0] by simp_all
  have "free_ok [0x80113000, 0x80114000] (vm_demo 0x80113000)" "free_ok [0x80114000] (vm_demo 0x80114000)"
    "free_ok [] (vm_demo 0)"
    using ok by (simp_all add: free_ok_def vm_demo_def l KERNBASE_def)
  then have "kmem_inv {0x80113000, 0x80114000} (vm_demo 0x80113000)" "kmem_inv {0x80114000} (vm_demo 0x80114000)"
    "kmem_inv {} (vm_demo 0)"
    unfolding kmem_inv_def by (intro exI conjI; simp)+
  with c show "vm_inv {0x80113000, 0x80114000} 0x80110000 (vm_demo 0x80113000)"
    "vm_inv {0x80114000} 0x80110000 (vm_demo 0x80114000)" "vm_inv {} 0x80110000 (vm_demo 0)"
    by (simp_all add: vm_inv_def vm_demo_def)
qed

lemma demo_simps [simp]: "kmemory (vm_demo f) = vm_demo_mem" "kend (vm_demo f) = 0x80110000"
  by (simp_all add: vm_demo_def)

lemma demo_frame: "frame_of 0x112007 = 0x80112000" "present 0x112007" "\<not> present 0"
  by (simp_all add: frame_of_def PTE_ADDR_def p2v_def KERNBASE_def present_def PTE_P_def)

lemma demo_range: "PGROUNDDOWN vb = 0x400000 \<longleftrightarrow> 4194304 \<le> unat vb \<and> unat vb < 4198400"
  using in_page_unat [of "0x400000" vb] by (simp add: page_aligned_def PGSIZE_def)

theorem allocuvm_grows_witness:
  "\<exists>s' p. allocuvm 0x80110000 0x401000 0x402000 (vm_demo 0x80113000) = Ret 0x402000 s' \<and>
    p \<in> {0x80113000, 0x80114000} \<and> zeroed (kmemory s') p \<and>
    pte_at (kmemory s') 0x80110000 0x401000 = v2p p OR (PTE_W OR PTE_U) OR PTE_P"
proof -
  have np: "npages 0x401000 = 1025" "npages 0x402000 = 1026" by (simp_all add: npages_def)
  have a: "(0x401000 :: uint) \<le> 0x402000" "(0x402000 :: uint) < KERNBASE" by (simp_all add: KERNBASE_def)
  have b: "2 * (npages 0x402000 - npages 0x401000) \<le> card {0x80113000, 0x80114000 :: uint}" by (simp add: np)
  have c: "\<forall>vb. npages 0x401000 * 4096 \<le> unat vb \<and> unat vb < npages 0x402000 * 4096 \<longrightarrow>
      \<not> present (pte_at (kmemory (vm_demo 0x80113000)) 0x80110000 vb)"
    by (simp add: np demo_pte demo_range demo_frame)
  obtain s' ps F' where s': "allocuvm 0x80110000 0x401000 0x402000 (vm_demo 0x80113000) = Ret 0x402000 s'"
    "length ps = 1" "set ps \<subseteq> {0x80113000, 0x80114000} - F'" "\<forall>p\<in>set ps. zeroed (kmemory s') p"
    "\<forall>vb. pte_at (kmemory s') 0x80110000 vb =
      (if 1025 * 4096 \<le> unat vb \<and> unat vb < 1026 * 4096
       then v2p (ps ! (unat vb div 4096 - 1025)) OR (PTE_W OR PTE_U) OR PTE_P
       else pte_at (kmemory (vm_demo 0x80113000)) 0x80110000 vb)"
    using allocuvm_grows [OF demo_inv(1) a b c] unfolding np by auto
  obtain p where "ps = [p]" using s'(2) by (auto simp: length_Suc_conv)
  with s' s'(5) [rule_format, of "0x401000"] show ?thesis by (intro exI [of _ s'] exI [of _ p]) auto
qed

theorem deallocuvm_frees_witness:
  "\<exists>s'. deallocuvm 0x80110000 0x401000 0x400000 (vm_demo 0) = Ret 0x400000 s' \<and>
    vm_inv {0x80112000} 0x80110000 s' \<and> pte_at (kmemory s') 0x80110000 0x400000 = 0"
proof -
  have np: "npages 0x401000 = 1025" "npages 0x400000 = 1024" by (simp_all add: npages_def)
  have a: "(0x400000 :: uint) < 0x401000" "(0x401000 :: uint) \<le> KERNBASE" by (simp_all add: KERNBASE_def)
  have "pt_pages vm_demo_mem 0x80110000 = {0x80110000, 0x80111000}"
    unfolding pt_pages_def by (auto simp: demo_map present_def PTE_P_def tab_at_def PTE_ADDR_def p2v_def KERNBASE_def
      intro!: exI [of _ 1] split: if_splits)
  then have b: "owns {} 0x80110000 (npages 0x400000 * 4096) (npages 0x401000 * 4096) (vm_demo 0)"
    unfolding owns_def np by (simp add: demo_pte demo_range demo_frame page_ok_def page_aligned_def PGSIZE_def v2p_def PHYSTOP_def KERNBASE_def)
      (metis demo_range)
  have c: "\<forall>vb. npages 0x400000 * 4096 \<le> unat vb \<and> unat vb < npages 0x401000 * 4096 \<longrightarrow>
      present (pde_at (kmemory (vm_demo 0)) 0x80110000 (PDX vb))"
  proof (intro allI impI)
    fix vb :: uint assume "npages 0x400000 * 4096 \<le> unat vb \<and> unat vb < npages 0x401000 * 4096"
    then have "PGROUNDDOWN vb = PGROUNDDOWN 0x400000" using demo_range [of vb] demo_range [of "0x400000"] by (simp add: np)
    then have "PDX vb = PDX 0x400000" using same_page by blast
    also have "\<dots> = 1" by (simp add: word_unat_eq_iff unat_PDX)
    finally show "present (pde_at (kmemory (vm_demo 0)) 0x80110000 (PDX vb))" by (simp add: demo_map present_def PTE_P_def)
  qed
  have "frames vm_demo_mem 0x80110000 4194304 4198400 = {0x80112000}"
  proof (intro subset_antisym subsetI)
    fix p assume "p \<in> frames vm_demo_mem 0x80110000 4194304 4198400"
    then show "p \<in> {0x80112000}" by (elim framesE) (auto simp: demo_pte demo_frame split: if_splits)
  next
    fix p :: uint assume "p \<in> {0x80112000}"
    then show "p \<in> frames vm_demo_mem 0x80110000 4194304 4198400"
      using framesI [of 4194304 "0x400000" 4198400 vm_demo_mem "0x80110000"] demo_range [of "0x400000"]
      by (simp add: demo_pte demo_frame)
  qed
  with deallocuvm_frees [OF demo_inv(3) a b c] show ?thesis unfolding np
    by (auto simp: demo_pte demo_frame)
qed

theorem allocuvm_ignores_mappages_witness:
  "\<exists>s'. allocuvm 0x80110000 0 (0 + PGSIZE) (vm_demo 0x80114000) = Ret (0 + PGSIZE) s' \<and> vm_inv {} 0x80110000 s' \<and>
    pte_at (kmemory s') 0x80110000 0 = 0"
proof -
  have "PDX 0 = 0" by (simp add: word_unat_eq_iff unat_PDX)
  then have "\<not> present (pde_at (kmemory (vm_demo 0x80114000)) 0x80110000 (PDX 0))" by (simp add: demo_map demo_frame)
  moreover have "page_aligned 0" by (simp add: page_aligned_def)
  ultimately show ?thesis using allocuvm_ignores_mappages [OF demo_inv(2), of 0] by auto
qed

theorem deallocuvm_steps_over_witness:
  "deallocuvm 0x80110000 0x401000 0x1000 (vm_demo 0) = Ret 0x1000 (vm_demo 0) \<and>
   present (pte_at (kmemory (vm_demo 0)) 0x80110000 0x400000)"
proof -
  have up: "PGROUNDUP 0x1000 = 0x1000" by (simp add: PGROUNDUP_def PGSIZE_def)
  have "PDX 0x1000 = 0" by (simp add: word_unat_eq_iff unat_PDX)
  then have "\<not> present (pde_at (kmemory (vm_demo 0)) 0x80110000 (PDX (PGROUNDUP 0x1000)))" by (simp add: demo_map up demo_frame)
  then have "deallocuvm 0x80110000 0x401000 0x1000 (vm_demo 0) = Ret 0x1000 (vm_demo 0)"
    by (intro deallocuvm_steps_over) (simp_all add: up)
  then show ?thesis by (simp add: demo_pte demo_range demo_frame)
qed

end
