(* ===== verification/Bio.thy ===== *)
theory Bio
  imports Mem
begin

text \<open>
  The buffer cache (\<^verbatim>\<open>bio.c\<close>, \<^verbatim>\<open>buf.h\<close>) on the memory disk of \<^verbatim>\<open>memide.c\<close>.

  A \<^verbatim>\<open>struct buf\<close> is a record; a pointer to a buffer is its index in \<^verbatim>\<open>bcache.buf\<close>, and the
  index \<^const>\<open>NBUF\<close> is \<^verbatim>\<open>bcache.head\<close>.  The three bits of \<^verbatim>\<open>flags\<close> are three booleans.  The
  disk is a function from sector numbers to blocks.  Sections between \<^verbatim>\<open>acquire\<close> and \<^verbatim>\<open>release\<close>
  of \<^verbatim>\<open>bcache.lock\<close> are atomic (theory \<open>Spinlock\<close>), so the lock itself is left out.  A process
  that waits for a busy buffer ends the call with \<open>Sleep\<close>; when it is woken it runs the loop
  again from its start, which is the call itself.  Calls of \<^verbatim>\<open>wakeup\<close> are recorded in order.

  The field \<open>dwrites\<close> records the sectors written to the disk, newest last.  No code reads it; the
  crash-safety lemmas of theory \<open>Log\<close> take its prefixes as the disks a crash can leave.
\<close>

section \<open>Data\<close>

type_synonym block = "nat \<Rightarrow> uchar"

definition BSIZE :: nat where "BSIZE = 512"

record buf =
  bbusy :: bool
  bvalid :: bool
  bdirty :: bool
  bdev :: uint
  bsector :: uint
  bprev :: nat
  bnext :: nat
  bdata :: block

record bio =
  bufs :: "nat \<Rightarrow> buf"
  disk :: "uint \<Rightarrow> block"
  disksize :: uint
  dwrites :: "(uint \<times> block) list"
  wakeups :: "chan list"

definition upd_buf :: "nat \<Rightarrow> (buf \<Rightarrow> buf) \<Rightarrow> (unit, 'a bio_scheme) kfun" where
  "upd_buf b f = modify (\<lambda>s. s\<lparr>bufs := (bufs s)(b := f (bufs s b))\<rparr>)"

definition wake :: "chan \<Rightarrow> (unit, 'a bio_scheme) kfun" where
  "wake c = modify (\<lambda>s. s\<lparr>wakeups := wakeups s @ [c]\<rparr>)"

definition put_sector :: "uint \<Rightarrow> block \<Rightarrow> (unit, 'a bio_scheme) kfun" where
  "put_sector k d = modify (\<lambda>s. s\<lparr>disk := (disk s)(k := d), dwrites := dwrites s @ [(k, d)]\<rparr>)"

section \<open>The memory disk\<close>

definition iderw :: "nat \<Rightarrow> (unit, 'a bio_scheme) kfun" where
  "iderw b =
     seq (panic_if (\<lambda>s. \<not> bbusy (bufs s b)) ''iderw: buf not busy'')
    (seq (panic_if (\<lambda>s. bvalid (bufs s b) \<and> \<not> bdirty (bufs s b)) ''iderw: nothing to do'')
    (seq (panic_if (\<lambda>s. bdev (bufs s b) \<noteq> 1) ''iderw: request not for disk 1'')
    (seq (panic_if (\<lambda>s. bsector (bufs s b) \<ge> disksize s) ''iderw: sector out of range'')
    (seq (branch (\<lambda>s. bdirty (bufs s b))
           (seq (upd_buf b (\<lambda>x. x\<lparr>bdirty := False\<rparr>))
                (bind (gets (\<lambda>s. bufs s b)) (\<lambda>x. put_sector (bsector x) (bdata x))))
           (bind (gets (\<lambda>s. disk s (bsector (bufs s b)))) (\<lambda>d. upd_buf b (\<lambda>x. x\<lparr>bdata := d\<rparr>))))
         (upd_buf b (\<lambda>x. x\<lparr>bvalid := True\<rparr>))))))"

section \<open>The cache\<close>

definition binit_buf :: "nat \<Rightarrow> (unit, 'a bio_scheme) kfun" where
  "binit_buf b =
     bind (gets (\<lambda>s. bnext (bufs s NBUF))) (\<lambda>first.
     seq (upd_buf b (\<lambda>x. x\<lparr>bnext := first\<rparr>))
    (seq (upd_buf b (\<lambda>x. x\<lparr>bprev := NBUF\<rparr>))
    (seq (upd_buf b (\<lambda>x. x\<lparr>bdev := - 1\<rparr>))
    (bind (gets (\<lambda>s. bnext (bufs s NBUF))) (\<lambda>h.
     seq (upd_buf h (\<lambda>x. x\<lparr>bprev := b\<rparr>))
         (upd_buf NBUF (\<lambda>x. x\<lparr>bnext := b\<rparr>)))))))"

definition binit :: "(unit, 'a bio_scheme) kfun" where
  "binit =
     seq (upd_buf NBUF (\<lambda>x. x\<lparr>bprev := NBUF\<rparr>))
    (seq (upd_buf NBUF (\<lambda>x. x\<lparr>bnext := NBUF\<rparr>))
         (for_each [0..<NBUF] binit_buf))"

text \<open>The two searches of \<^verbatim>\<open>bget\<close>; fuel \<open>Suc NBUF\<close> visits every buffer and the head.\<close>

fun bget_cached :: "nat \<Rightarrow> uint \<Rightarrow> uint \<Rightarrow> nat \<Rightarrow> (nat option, 'a bio_scheme) kfun" where
  "bget_cached 0 dev sector b = (\<lambda>s. Spin)"
| "bget_cached (Suc n) dev sector b = (\<lambda>s.
     if b = NBUF then Ret None s
     else if bdev (bufs s b) = dev \<and> bsector (bufs s b) = sector then Ret (Some b) s
     else bget_cached n dev sector (bnext (bufs s b)) s)"

fun bget_clean :: "nat \<Rightarrow> nat \<Rightarrow> (nat option, 'a bio_scheme) kfun" where
  "bget_clean 0 b = (\<lambda>s. Spin)"
| "bget_clean (Suc n) b = (\<lambda>s.
     if b = NBUF then Ret None s
     else if \<not> bbusy (bufs s b) \<and> \<not> bdirty (bufs s b) then Ret (Some b) s
     else bget_clean n (bprev (bufs s b)) s)"

definition bget :: "uint \<Rightarrow> uint \<Rightarrow> (nat, 'a bio_scheme) kfun" where
  "bget dev sector =
     bind (gets (\<lambda>s. bnext (bufs s NBUF))) (\<lambda>first.
     bind (bget_cached (Suc NBUF) dev sector first) (\<lambda>r.
     case r of
       Some b \<Rightarrow> branch (\<lambda>s. \<not> bbusy (bufs s b))
         (seq (upd_buf b (\<lambda>x. x\<lparr>bbusy := True\<rparr>)) (return b))
         (\<lambda>s. Sleep (ChBuf b) s)
     | None \<Rightarrow>
         bind (gets (\<lambda>s. bprev (bufs s NBUF))) (\<lambda>lst.
         bind (bget_clean (Suc NBUF) lst) (\<lambda>c.
         case c of
           Some b \<Rightarrow>
             seq (upd_buf b (\<lambda>x. x\<lparr>bdev := dev, bsector := sector, bbusy := True, bvalid := False, bdirty := False\<rparr>))
                 (return b)
         | None \<Rightarrow> panic ''bget: no buffers''))))"

definition bread :: "uint \<Rightarrow> uint \<Rightarrow> (nat, 'a bio_scheme) kfun" where
  "bread dev sector =
     bind (bget dev sector) (\<lambda>b.
     seq (branch (\<lambda>s. \<not> bvalid (bufs s b)) (iderw b) (return ()))
         (return b))"

definition bwrite :: "nat \<Rightarrow> (unit, 'a bio_scheme) kfun" where
  "bwrite b =
     seq (panic_if (\<lambda>s. \<not> bbusy (bufs s b)) ''bwrite'')
    (seq (upd_buf b (\<lambda>x. x\<lparr>bdirty := True\<rparr>))
         (iderw b))"

definition bunlink :: "nat \<Rightarrow> (unit, 'a bio_scheme) kfun" where
  "bunlink b =
     bind (gets (\<lambda>s. bufs s b)) (\<lambda>x.
     seq (upd_buf (bnext x) (\<lambda>y. y\<lparr>bprev := bprev x\<rparr>))
     (bind (gets (\<lambda>s. bufs s b)) (\<lambda>x.
         upd_buf (bprev x) (\<lambda>y. y\<lparr>bnext := bnext x\<rparr>))))"

definition bpush :: "nat \<Rightarrow> (unit, 'a bio_scheme) kfun" where
  "bpush b =
     bind (gets (\<lambda>s. bnext (bufs s NBUF))) (\<lambda>first.
     seq (upd_buf b (\<lambda>x. x\<lparr>bnext := first\<rparr>))
    (seq (upd_buf b (\<lambda>x. x\<lparr>bprev := NBUF\<rparr>))
    (bind (gets (\<lambda>s. bnext (bufs s NBUF))) (\<lambda>h.
     seq (upd_buf h (\<lambda>x. x\<lparr>bprev := b\<rparr>))
         (upd_buf NBUF (\<lambda>x. x\<lparr>bnext := b\<rparr>))))))"

definition brelse :: "nat \<Rightarrow> (unit, 'a bio_scheme) kfun" where
  "brelse b =
     seq (panic_if (\<lambda>s. \<not> bbusy (bufs s b)) ''brelse'')
    (seq (bunlink b)
    (seq (bpush b)
    (seq (upd_buf b (\<lambda>x. x\<lparr>bbusy := False\<rparr>))
         (wake (ChBuf b)))))"

section \<open>The list of buffers\<close>

text \<open>\<open>linked B a xs z\<close>: the buffers \<open>xs\<close> are linked in this order between \<open>a\<close> and \<open>z\<close>, both ways.\<close>

fun linked :: "(nat \<Rightarrow> buf) \<Rightarrow> nat \<Rightarrow> nat list \<Rightarrow> nat \<Rightarrow> bool" where
  "linked B a [] z = (bnext (B a) = z \<and> bprev (B z) = a)"
| "linked B a (x # xs) z = (bnext (B a) = x \<and> bprev (B x) = a \<and> linked B x xs z)"

definition lru :: "(nat \<Rightarrow> buf) \<Rightarrow> nat list \<Rightarrow> bool" where
  "lru B xs \<longleftrightarrow> linked B NBUF xs NBUF \<and> distinct xs \<and> set xs = {..<NBUF}"

lemma linked_append: "linked B a (ys @ b # zs) z \<longleftrightarrow> linked B a ys b \<and> linked B b zs z"
  by (induction ys arbitrary: a) auto

lemma linked_cong:
  assumes "\<forall>x\<in>set (a # xs). bnext (B' x) = bnext (B x)" "\<forall>x\<in>set (xs @ [z]). bprev (B' x) = bprev (B x)"
  shows "linked B' a xs z = linked B a xs z"
  using assms by (induction xs arbitrary: a) auto

lemma linked_first: "linked B a xs z \<Longrightarrow> bnext (B a) = hd (xs @ [z])"
  by (cases xs) auto

lemma linked_last: "linked B a xs z \<Longrightarrow> bprev (B z) = last (a # xs)"
  by (induction xs arbitrary: a) auto

lemma linked_join:
  assumes "linked B a ys b" "linked B b zs z"
    and "distinct ys" "a \<notin> set ys" "distinct zs" "z \<notin> set zs"
    and "set (a # ys) \<inter> set zs = {}" "set ys \<inter> set (zs @ [z]) = {}"
    and nx: "\<forall>x. bnext (B' x) = (if x = last (a # ys) then hd (zs @ [z]) else bnext (B x))"
    and pv: "\<forall>x. bprev (B' x) = (if x = hd (zs @ [z]) then last (a # ys) else bprev (B x))"
  shows "linked B' a (ys @ zs) z"
proof -
  have l: "linked B' a ys (hd (zs @ [z]))"
  proof (cases ys rule: rev_cases)
    case Nil
    then show ?thesis using nx pv by simp
  next
    case (snoc us u)
    then have "linked B a us u" using assms(1) linked_append [of B a us u "[]" b] by simp
    then have "linked B' a us u"
      using assms(3,4,8) snoc nx pv by (subst linked_cong [of a us B' B u]) (cases zs; auto)+
    then show ?thesis using nx pv snoc linked_append [of B' a us u "[]"] by simp
  qed
  show ?thesis
  proof (cases zs)
    case Nil
    then show ?thesis using l by simp
  next
    case (Cons v vs)
    have "linked B v vs z" using assms(2) Cons by simp
    moreover have "last (a # ys) \<in> set (a # ys)" by (rule last_in_set) simp
    ultimately have "linked B' v vs z"
      using assms(5,6,7) Cons nx pv by (subst linked_cong [of v vs B' B z]) auto
    then show ?thesis using l Cons by (simp add: linked_append)
  qed
qed

lemma linked_unlink:
  assumes "linked B a (ys @ b # zs) z" "distinct (ys @ b # zs)" "a \<notin> set (ys @ b # zs)" "z \<notin> set (ys @ b # zs)"
    and "B1 = B(bnext (B b) := (B (bnext (B b)))\<lparr>bprev := bprev (B b)\<rparr>)"
    and "B2 = B1(bprev (B1 b) := (B1 (bprev (B1 b)))\<lparr>bnext := bnext (B1 b)\<rparr>)"
  shows "linked B2 a (ys @ zs) z"
proof -
  have l: "linked B a ys b" "linked B b zs z" using assms(1) by (simp_all add: linked_append)
  have b: "bnext (B b) = hd (zs @ [z])" "bprev (B b) = last (a # ys)" using linked_first [OF l(2)] linked_last [OF l(1)] .
  have "hd (zs @ [z]) \<noteq> b" "last (a # ys) \<noteq> b"
  proof -
    show "hd (zs @ [z]) \<noteq> b" using assms(2,4) by (cases zs) auto
    have "last (a # ys) \<in> set (a # ys)" by (rule last_in_set) simp
    then show "last (a # ys) \<noteq> b" using assms(2,3) by auto
  qed
  with b show ?thesis using assms by (intro linked_join [OF l]) auto
qed

lemma linked_push:
  assumes "linked B a xs z" "b \<notin> set xs" "b \<noteq> a" "b \<noteq> z" "z \<notin> set xs" "a \<notin> set xs" "distinct xs"
    and "B1 = B(b := (B b)\<lparr>bnext := bnext (B a), bprev := a\<rparr>)"
    and "B2 = B1(bnext (B1 a) := (B1 (bnext (B1 a)))\<lparr>bprev := b\<rparr>)"
    and "B3 = B2(a := (B2 a)\<lparr>bnext := b\<rparr>)"
  shows "linked B3 a (b # xs) z"
proof -
  have f: "bnext (B1 a) = hd (xs @ [z])" using linked_first [OF assms(1)] assms(3,8) by simp
  have hb: "hd (xs @ [z]) \<noteq> b" using assms(2,4) by (cases xs) auto
  have "linked B3 b xs z"
  proof (cases xs)
    case Nil
    then show ?thesis using assms f hb by auto
  next
    case (Cons v vs)
    then have "linked B v vs z" using assms(1) by simp
    then have "linked B3 v vs z" using assms Cons f by (subst linked_cong [of v vs B3 B z]) auto
    then show ?thesis using Cons assms f hb by auto
  qed
  then show ?thesis using assms f hb by auto
qed

section \<open>The cache as a view of the disk\<close>

definition holds :: "(nat \<Rightarrow> buf) \<Rightarrow> uint \<Rightarrow> nat \<Rightarrow> bool" where
  "holds B k i \<longleftrightarrow> bdev (B i) = 1 \<and> bsector (B i) = k"

definition view :: "'a bio_scheme \<Rightarrow> uint \<Rightarrow> block" where
  "view s k = (case first_index NBUF (holds (bufs s) k) of Some i \<Rightarrow> bdata (bufs s i) | None \<Rightarrow> disk s k)"

text \<open>
  The invariant of the cache while the buffers of \<open>H\<close> are in use: the buffers form one list, no
  sector is cached twice, and a buffer that nobody uses and that is not waiting for a commit holds
  what the disk holds.
\<close>

definition buf_ok :: "nat set \<Rightarrow> 'a bio_scheme \<Rightarrow> nat \<Rightarrow> bool" where
  "buf_ok H s i \<longleftrightarrow> (bbusy (bufs s i) \<longleftrightarrow> i \<in> H) \<and>
     (if bdev (bufs s i) = 1
      then bvalid (bufs s i) \<and> bsector (bufs s i) < disksize s \<and>
        (i \<in> H \<or> bdirty (bufs s i) \<or> bdata (bufs s i) = disk s (bsector (bufs s i)))
      else bdev (bufs s i) = - 1 \<and> i \<notin> H \<and> \<not> bdirty (bufs s i))"

definition bio_ok :: "nat set \<Rightarrow> 'a bio_scheme \<Rightarrow> bool" where
  "bio_ok H s \<longleftrightarrow> (\<exists>xs. lru (bufs s) xs) \<and> H \<subseteq> {..<NBUF} \<and> (\<forall>i<NBUF. buf_ok H s i) \<and>
     (\<forall>i<NBUF. \<forall>j<NBUF. \<forall>k. holds (bufs s) k i \<and> holds (bufs s) k j \<longrightarrow> i = j)"

text \<open>What a call leaves alone: the disk and everything outside the cache.\<close>

definition quiet :: "'a bio_scheme \<Rightarrow> 'a bio_scheme \<Rightarrow> bool" where
  "quiet s t \<longleftrightarrow> disk t = disk s \<and> disksize t = disksize s \<and> dwrites t = dwrites s \<and> bio.more t = bio.more s"

definition same_buf :: "buf \<Rightarrow> buf \<Rightarrow> bool" where
  "same_buf x y \<longleftrightarrow> bdev y = bdev x \<and> bsector y = bsector x \<and> bvalid y = bvalid x \<and> bdirty y = bdirty x \<and> bdata y = bdata x"

lemma quiet_refl [simp]: "quiet s s"
  by (simp add: quiet_def)

lemma quiet_trans: "quiet s t \<Longrightarrow> quiet t u \<Longrightarrow> quiet s u"
  by (simp add: quiet_def)

lemma same_buf_refl [simp]: "same_buf x x"
  by (simp add: same_buf_def)

lemma same_buf_trans: "same_buf x y \<Longrightarrow> same_buf y z \<Longrightarrow> same_buf x z"
  by (simp add: same_buf_def)

lemma view_hit:
  assumes "bio_ok H s" "i < NBUF" "holds (bufs s) k i"
  shows "view s k = bdata (bufs s i)"
proof -
  obtain j where j: "first_index NBUF (holds (bufs s) k) = Some j"
    using assms(2,3) by (cases "first_index NBUF (holds (bufs s) k)") (auto simp: first_index_None)
  then have "j = i" using first_index_Some [OF j] assms unfolding bio_ok_def by blast
  with j show ?thesis by (simp add: view_def)
qed

lemma view_miss: "\<forall>i<NBUF. \<not> holds (bufs s) k i \<Longrightarrow> view s k = disk s k"
  using first_index_None [of NBUF "holds (bufs s) k"] by (simp add: view_def)

lemma view_cong:
  assumes "bio_ok H s" "\<forall>i<NBUF. same_buf (bufs s i) (bufs t i)" "disk t = disk s"
  shows "view t k = view s k"
proof -
  have "first_index NBUF (holds (bufs t) k) = first_index NBUF (holds (bufs s) k)"
    using assms(2) by (intro first_index_cong) (simp add: holds_def same_buf_def)
  then show ?thesis using assms(2,3) first_index_Some [of NBUF "holds (bufs s) k"]
    by (auto simp: view_def same_buf_def split: option.split)
qed

section \<open>Laws of the operations\<close>

lemma bget_cached_ret:
  assumes "linked (bufs s) a xs NBUF" "NBUF \<notin> set xs" "length xs < n"
  shows "bget_cached n dev k (hd (xs @ [NBUF])) s = Ret (find (\<lambda>b. bdev (bufs s b) = dev \<and> bsector (bufs s b) = k) xs) s"
  using assms
proof (induction xs arbitrary: a n)
  case Nil
  then show ?case by (cases n) auto
next
  case (Cons x xs)
  then obtain n' where n: "n = Suc n'" "length xs < n'" by (cases n) auto
  have l: "linked (bufs s) x xs NBUF" using Cons.prems(1) by simp
  then show ?case using Cons.IH [OF l _ n(2)] linked_first [OF l] Cons.prems(2) n(1) by auto
qed

lemma bget_clean_ret:
  assumes "linked (bufs s) NBUF xs z" "NBUF \<notin> set xs" "length xs < n"
  shows "bget_clean n (last (NBUF # xs)) s = Ret (find (\<lambda>b. \<not> bbusy (bufs s b) \<and> \<not> bdirty (bufs s b)) (rev xs)) s"
  using assms
proof (induction xs arbitrary: n z rule: rev_induct)
  case Nil
  then show ?case by (cases n) auto
next
  case (snoc x xs)
  then obtain n' where n: "n = Suc n'" "length xs < n'" by (cases n) auto
  have l: "linked (bufs s) NBUF xs x" using snoc.prems(1) linked_append [of "bufs s" NBUF xs x "[]" z] by simp
  then show ?case using snoc.IH [OF l _ n(2)] linked_last [OF l] snoc.prems(2) n(1) by auto
qed

lemma lru_starts:
  assumes "lru B xs"
  shows "bnext (B NBUF) = hd (xs @ [NBUF])" "bprev (B NBUF) = last (NBUF # xs)" "NBUF \<notin> set xs" "length xs < Suc NBUF"
proof -
  have l: "linked B NBUF xs NBUF" "distinct xs" "set xs = {..<NBUF}" using assms by (auto simp: lru_def)
  show "bnext (B NBUF) = hd (xs @ [NBUF])" "bprev (B NBUF) = last (NBUF # xs)"
    using linked_first [OF l(1)] linked_last [OF l(1)] .
  show "NBUF \<notin> set xs" using l(3) by simp
  show "length xs < Suc NBUF" using distinct_card [OF l(2)] l(3) by simp
qed

text \<open>\<^verbatim>\<open>bget\<close> takes the cached buffer, or the least recently used clean one.\<close>

lemma bget_ret:
  assumes "lru (bufs s) xs"
  shows "bget dev k s =
    (case find (\<lambda>b. bdev (bufs s b) = dev \<and> bsector (bufs s b) = k) xs of
       Some b \<Rightarrow> if bbusy (bufs s b) then Sleep (ChBuf b) s
         else Ret b (s\<lparr>bufs := (bufs s)(b := (bufs s b)\<lparr>bbusy := True\<rparr>)\<rparr>)
     | None \<Rightarrow> (case find (\<lambda>b. \<not> bbusy (bufs s b) \<and> \<not> bdirty (bufs s b)) (rev xs) of
         Some b \<Rightarrow> Ret b (s\<lparr>bufs := (bufs s)(b := (bufs s b)\<lparr>bdev := dev, bsector := k, bbusy := True,
             bvalid := False, bdirty := False\<rparr>)\<rparr>)
       | None \<Rightarrow> Panic ''bget: no buffers''))"
proof -
  have l: "linked (bufs s) NBUF xs NBUF" using assms by (auto simp: lru_def)
  note st = lru_starts [OF assms]
  show ?thesis
    unfolding bget_def by (simp add: kfun_simps upd_buf_def st(1,2) bget_cached_ret [OF l st(3,4)]
        bget_clean_ret [OF l st(3,4)] del: bget_cached.simps bget_clean.simps last.simps split: option.split)
qed

lemma find_in: "find P xs = Some x \<Longrightarrow> x \<in> set xs \<and> P x"
  by (auto simp: find_Some_iff)

lemma lru_upd:
  assumes "lru B xs" "bnext x = bnext (B b)" "bprev x = bprev (B b)"
  shows "lru (B(b := x)) xs"
proof -
  have "linked (B(b := x)) NBUF xs NBUF = linked B NBUF xs NBUF"
    using assms(2,3) by (intro linked_cong) auto
  with assms(1) show ?thesis by (simp add: lru_def)
qed

text \<open>The room \<^verbatim>\<open>bread\<close> needs: the sector is cached, or some clean buffer is free.\<close>

definition room :: "nat set \<Rightarrow> 'a bio_scheme \<Rightarrow> uint \<Rightarrow> bool" where
  "room H s k \<longleftrightarrow> (\<exists>i<NBUF. holds (bufs s) k i) \<or> (\<exists>i<NBUF. i \<notin> H \<and> \<not> bdirty (bufs s i))"

definition bread_post :: "nat set \<Rightarrow> uint \<Rightarrow> 'a bio_scheme \<Rightarrow> nat \<Rightarrow> 'a bio_scheme \<Rightarrow> bool" where
  "bread_post H k s b t \<longleftrightarrow> b < NBUF \<and> b \<notin> H \<and> bio_ok (insert b H) t \<and> quiet s t \<and> wakeups t = wakeups s \<and>
     holds (bufs t) k b \<and> bdata (bufs t b) = view s k \<and> (\<forall>j. view t j = view s j) \<and>
     (bdirty (bufs t b) \<or> bdata (bufs t b) = disk t k) \<and>
     (\<forall>i\<in>H. bufs t i = bufs s i) \<and> (\<forall>i<NBUF. bdirty (bufs t i) = bdirty (bufs s i)) \<and>
     (\<forall>i j. i < NBUF \<and> bdirty (bufs s i) \<longrightarrow> holds (bufs t) j i = holds (bufs s) j i)"

lemma room_clean:
  assumes "bio_ok H s" "lru (bufs s) xs" "room H s k" "\<forall>i<NBUF. \<not> holds (bufs s) k i"
  shows "\<exists>b. find (\<lambda>b. \<not> bbusy (bufs s b) \<and> \<not> bdirty (bufs s b)) (rev xs) = Some b"
proof -
  obtain i where "i < NBUF" "i \<notin> H" "\<not> bdirty (bufs s i)" using assms(3,4) by (auto simp: room_def)
  moreover from this have "\<not> bbusy (bufs s i)" using assms(1) by (auto simp: bio_ok_def buf_ok_def)
  moreover have "i \<in> set (rev xs)" using assms(2) \<open>i < NBUF\<close> by (auto simp: lru_def)
  ultimately show ?thesis by (cases "find (\<lambda>b. \<not> bbusy (bufs s b) \<and> \<not> bdirty (bufs s b)) (rev xs)")
      (auto simp: find_None_iff)
qed

lemma bread_ret:
  assumes "bio_ok H s" "k < disksize s" "room H s k" "\<forall>i\<in>H. bsector (bufs s i) \<noteq> k"
  shows "\<exists>b t. bread 1 k s = Ret b t \<and> bread_post H k s b t"
proof -
  obtain xs where xs: "lru (bufs s) xs" using assms(1) by (auto simp: bio_ok_def)
  let ?m = "\<lambda>b. bdev (bufs s b) = 1 \<and> bsector (bufs s b) = k"
  have xset: "set xs = {..<NBUF}" using xs by (auto simp: lru_def)
  have ok: "\<forall>i<NBUF. buf_ok H s i" "H \<subseteq> {..<NBUF}"
    "\<forall>i<NBUF. \<forall>j<NBUF. \<forall>k. holds (bufs s) k i \<and> holds (bufs s) k j \<longrightarrow> i = j"
    using assms(1) unfolding bio_ok_def by blast+
  show ?thesis
  proof (cases "find ?m xs")
    case (Some b)
    then have b: "b < NBUF" "holds (bufs s) k b" using find_in [OF Some] xset by (auto simp: holds_def)
    then have nb: "b \<notin> H" using assms(4) by (auto simp: holds_def)
    let ?t = "s\<lparr>bufs := (bufs s)(b := (bufs s b)\<lparr>bbusy := True\<rparr>)\<rparr>"
    have bo: "buf_ok H s b" using ok(1) b(1) by simp
    then have v: "\<not> bbusy (bufs s b)" "bvalid (bufs s b)" using b nb by (auto simp: buf_ok_def holds_def)
    then have r: "bread 1 k s = Ret b ?t"
      using bget_ret [OF xs, of 1 k] Some by (simp add: bread_def kfun_simps)
    have "lru (bufs ?t) xs" using lru_upd [OF xs] by simp
    moreover have "\<forall>i<NBUF. buf_ok (insert b H) ?t i" using ok(1) v b(2) by (auto simp: buf_ok_def holds_def)
    ultimately have io: "bio_ok (insert b H) ?t" using ok(2,3) b(1) by (auto simp: bio_ok_def holds_def)
    have "\<forall>i<NBUF. same_buf (bufs s i) (bufs ?t i)" by (simp add: same_buf_def)
    then have "\<forall>j. view ?t j = view s j" using view_cong [OF assms(1), of ?t] by simp
    moreover have "bdirty (bufs s b) \<or> bdata (bufs s b) = disk s k" using bo b(2) nb by (auto simp: buf_ok_def holds_def)
    ultimately have "bread_post H k s b ?t"
      using io b nb view_hit [OF assms(1) b] by (auto simp: bread_post_def quiet_def holds_def)
    with r show ?thesis by blast
  next
    case None
    then have nh: "\<forall>i<NBUF. \<not> holds (bufs s) k i" using xset by (auto simp: find_None_iff holds_def)
    then obtain b where f: "find (\<lambda>b. \<not> bbusy (bufs s b) \<and> \<not> bdirty (bufs s b)) (rev xs) = Some b"
      using room_clean [OF assms(1) xs assms(3)] by blast
    then have b: "b < NBUF" "\<not> bbusy (bufs s b)" "\<not> bdirty (bufs s b)" using find_in [OF f] xset by auto
    then have nb: "b \<notin> H" using ok(1) by (auto simp: buf_ok_def)
    let ?x = "(bufs s b)\<lparr>bdev := 1, bsector := k, bbusy := True, bdirty := False, bdata := disk s k, bvalid := True\<rparr>"
    let ?t = "s\<lparr>bufs := (bufs s)(b := ?x)\<rparr>"
    have r: "bread 1 k s = Ret b ?t"
      using bget_ret [OF xs, of 1 k] None f assms(2)
      by (simp add: bread_def kfun_simps iderw_def upd_buf_def not_le)
    have "lru (bufs ?t) xs" using lru_upd [OF xs] by simp
    moreover have "\<forall>i<NBUF. buf_ok (insert b H) ?t i" using ok(1) assms(2) by (auto simp: buf_ok_def)
    moreover have "\<forall>i<NBUF. \<forall>j<NBUF. \<forall>l. holds (bufs ?t) l i \<and> holds (bufs ?t) l j \<longrightarrow> i = j"
      using ok(3) nh by (auto simp: holds_def)
    ultimately have io: "bio_ok (insert b H) ?t" using ok(2) b(1) by (auto simp: bio_ok_def)
    have vw: "view ?t j = view s j" for j
    proof -
      consider "j = k" | i where "j \<noteq> k" "i < NBUF" "holds (bufs s) j i" "i \<noteq> b"
        | "j \<noteq> k" "holds (bufs s) j b" | "j \<noteq> k" "\<forall>i<NBUF. \<not> holds (bufs s) j i" using b(1) by blast
      then show ?thesis
      proof cases
        case 1
        then show ?thesis using view_hit [OF io b(1), of k] view_miss [OF nh] by (simp add: holds_def)
      next
        case 2
        then show ?thesis using view_hit [OF io, of i j] view_hit [OF assms(1), of i j] by (simp add: holds_def)
      next
        case 3
        then have "\<forall>i<NBUF. \<not> holds (bufs ?t) j i" using ok(3) b(1) by (auto simp: holds_def)
        then have "view ?t j = disk s j" using view_miss [of ?t j] by simp
        moreover have "bdata (bufs s b) = disk s j" using 3 ok(1) b nb by (auto simp: buf_ok_def holds_def)
        ultimately show ?thesis using view_hit [OF assms(1) b(1) 3(2)] by simp
      next
        case 4
        then have "\<forall>i<NBUF. \<not> holds (bufs ?t) j i" by (auto simp: holds_def)
        then show ?thesis using view_miss [of ?t j] view_miss [of s j] 4 by simp
      qed
    qed
    have "bread_post H k s b ?t"
      unfolding bread_post_def using io b nb view_miss [OF nh] vw by (auto simp: quiet_def holds_def)
    with r show ?thesis by blast
  qed
qed

text \<open>Changing the contents of a buffer in use.\<close>

lemma buf_write:
  assumes "bio_ok H s" "b \<in> H" and t: "t = s\<lparr>bufs := (bufs s)(b := (bufs s b)\<lparr>bdata := d\<rparr>)\<rparr>"
  shows "bio_ok H t" "view t j = (if j = bsector (bufs s b) then d else view s j)"
    "quiet s t" "wakeups t = wakeups s" "holds (bufs t) j i = holds (bufs s) j i" "bdirty (bufs t i) = bdirty (bufs s i)"
    "bdata (bufs t b) = d" "i \<noteq> b \<Longrightarrow> bufs t i = bufs s i" "bsector (bufs t i) = bsector (bufs s i)"
proof -
  have ok: "\<forall>i<NBUF. buf_ok H s i" "H \<subseteq> {..<NBUF}"
    "\<forall>i<NBUF. \<forall>j<NBUF. \<forall>k. holds (bufs s) k i \<and> holds (bufs s) k j \<longrightarrow> i = j"
    using assms(1) unfolding bio_ok_def by blast+
  obtain xs where xs: "lru (bufs s) xs" using assms(1) by (auto simp: bio_ok_def)
  have "lru (bufs t) xs" using lru_upd [OF xs] t by simp
  moreover have "\<forall>i<NBUF. buf_ok H t i" using ok(1) assms(2) t by (auto simp: buf_ok_def)
  ultimately show io: "bio_ok H t" using ok(2,3) t by (auto simp: bio_ok_def holds_def)
  have b: "b < NBUF" using ok(2) assms(2) by auto
  then have hb: "holds (bufs s) (bsector (bufs s b)) b" using ok(1) assms(2) by (auto simp: buf_ok_def holds_def split: if_splits)
  show h: "holds (bufs t) j i = holds (bufs s) j i" for i j using t by (simp add: holds_def)
  show "view t j = (if j = bsector (bufs s b) then d else view s j)"
  proof (cases "j = bsector (bufs s b)")
    case True
    then show ?thesis using view_hit [OF io b, of j] h hb t by simp
  next
    case False
    then have nb: "\<not> holds (bufs s) j b" by (simp add: holds_def)
    show ?thesis
    proof (cases "\<exists>i<NBUF. holds (bufs s) j i")
      case True
      then obtain i where "i < NBUF" "holds (bufs s) j i" by blast
      then show ?thesis using view_hit [OF io, of i j] view_hit [OF assms(1), of i j] h nb t False by auto
    next
      case none: False
      then show ?thesis using view_miss [of t j] view_miss [of s j] h t False by auto
    qed
  qed
qed (auto simp: t quiet_def)

text \<open>Marking a buffer in use as dirty.\<close>

lemma buf_dirty:
  assumes "bio_ok H s" "b \<in> H" and t: "t = s\<lparr>bufs := (bufs s)(b := (bufs s b)\<lparr>bdirty := True\<rparr>)\<rparr>"
  shows "bio_ok H t" "view t j = view s j" "quiet s t" "wakeups t = wakeups s" "holds (bufs t) j i = holds (bufs s) j i"
    "bdirty (bufs t i) = (i = b \<or> bdirty (bufs s i))" "bdata (bufs t i) = bdata (bufs s i)"
    "i \<noteq> b \<Longrightarrow> bufs t i = bufs s i" "bsector (bufs t i) = bsector (bufs s i)"
proof -
  have ok: "\<forall>i<NBUF. buf_ok H s i" "H \<subseteq> {..<NBUF}"
    "\<forall>i<NBUF. \<forall>j<NBUF. \<forall>k. holds (bufs s) k i \<and> holds (bufs s) k j \<longrightarrow> i = j"
    using assms(1) unfolding bio_ok_def by blast+
  obtain xs where xs: "lru (bufs s) xs" using assms(1) by (auto simp: bio_ok_def)
  have "lru (bufs t) xs" using lru_upd [OF xs] t by simp
  moreover have "\<forall>i<NBUF. buf_ok H t i" using ok(1) assms(2) t by (auto simp: buf_ok_def)
  ultimately show io: "bio_ok H t" using ok(2,3) t by (auto simp: bio_ok_def holds_def)
  have "holds (bufs t) j = holds (bufs s) j" by (auto simp: t holds_def fun_eq_iff)
  then show "view t j = view s j" by (auto simp: view_def t split: option.split)
qed (auto simp: t quiet_def holds_def)

text \<open>\<^verbatim>\<open>bwrite\<close> puts the buffer on the disk.\<close>

lemma bwrite_ret:
  assumes "bio_ok H s" "b \<in> H" "holds (bufs s) k b"
  shows "\<exists>t. bwrite b s = Ret () t \<and> bio_ok H t \<and> disk t = (disk s)(k := bdata (bufs s b)) \<and>
    dwrites t = dwrites s @ [(k, bdata (bufs s b))] \<and> disksize t = disksize s \<and> bio.more t = bio.more s \<and>
    (\<forall>j. view t j = view s j) \<and> (\<forall>i j. holds (bufs t) j i = holds (bufs s) j i) \<and>
    (\<forall>i. bdirty (bufs t i) = (i \<noteq> b \<and> bdirty (bufs s i))) \<and> (\<forall>i. bdata (bufs t i) = bdata (bufs s i)) \<and>
    (\<forall>i. i \<noteq> b \<longrightarrow> bufs t i = bufs s i) \<and> wakeups t = wakeups s"
proof -
  have ok: "\<forall>i<NBUF. buf_ok H s i" "H \<subseteq> {..<NBUF}"
    "\<forall>i<NBUF. \<forall>j<NBUF. \<forall>k. holds (bufs s) k i \<and> holds (bufs s) k j \<longrightarrow> i = j"
    using assms(1) unfolding bio_ok_def by blast+
  obtain xs where xs: "lru (bufs s) xs" using assms(1) by (auto simp: bio_ok_def)
  have b: "b < NBUF" "bbusy (bufs s b)" "bsector (bufs s b) < disksize s"
    using ok assms(2,3) by (auto simp: buf_ok_def holds_def)
  let ?t = "s\<lparr>bufs := (bufs s)(b := (bufs s b)\<lparr>bdirty := False, bvalid := True\<rparr>), disk := (disk s)(k := bdata (bufs s b)),
      dwrites := dwrites s @ [(k, bdata (bufs s b))]\<rparr>"
  have r: "bwrite b s = Ret () ?t"
    using b assms(3) by (simp add: bwrite_def iderw_def kfun_simps upd_buf_def put_sector_def holds_def not_le)
  have "lru (bufs ?t) xs" using lru_upd [OF xs] by simp
  moreover have "\<forall>i<NBUF. buf_ok H ?t i"
  proof (intro allI impI)
    fix i assume i: "i < NBUF"
    then have "i = b \<or> \<not> holds (bufs s) k i" using ok(3) b(1) assms(3) by blast
    then show "buf_ok H ?t i" using ok(1) i assms(2,3) by (auto simp: buf_ok_def holds_def)
  qed
  ultimately have io: "bio_ok H ?t" using ok(2,3) by (auto simp: bio_ok_def holds_def)
  have h: "holds (bufs ?t) j i = holds (bufs s) j i" for i j by (simp add: holds_def)
  have "view ?t j = view s j" for j
  proof (cases "\<exists>i<NBUF. holds (bufs s) j i")
    case True
    then obtain i where "i < NBUF" "holds (bufs s) j i" by blast
    then show ?thesis using view_hit [OF io, of i j] view_hit [OF assms(1), of i j] h by auto
  next
    case False
    then have "j \<noteq> k" using b(1) assms(3) by auto
    then show ?thesis using view_miss [of ?t j] view_miss [of s j] h False by auto
  qed
  with r io h show ?thesis by (intro exI [of _ ?t]) auto
qed

text \<open>\<^verbatim>\<open>brelse\<close> moves the buffer to the front of the list and frees it.\<close>

lemma brelse_links:
  assumes "lru (bufs s) xs" "b < NBUF"
  shows "\<exists>t B. bunlink b s = Ret () t \<and> bpush b t = Ret () (s\<lparr>bufs := B\<rparr>) \<and> lru B (b # remove1 b xs) \<and>
    (\<forall>i. same_buf (bufs s i) (B i) \<and> bbusy (B i) = bbusy (bufs s i))"
proof -
  let ?B = "bufs s"
  have l: "linked ?B NBUF xs NBUF" "distinct xs" "set xs = {..<NBUF}" using assms(1) by (auto simp: lru_def)
  have "b \<in> set xs" using l(3) assms(2) by simp
  then obtain ys zs where xs: "xs = ys @ b # zs" by (meson split_list)
  have d: "distinct (ys @ zs)" "b \<notin> set (ys @ zs)" "NBUF \<notin> set (ys @ b # zs)" using l(2,3) unfolding xs by auto
  define B1 where "B1 = ?B(bnext (?B b) := (?B (bnext (?B b)))\<lparr>bprev := bprev (?B b)\<rparr>)"
  define B2 where "B2 = B1(bprev (B1 b) := (B1 (bprev (B1 b)))\<lparr>bnext := bnext (B1 b)\<rparr>)"
  define B3 where "B3 = B2(b := (B2 b)\<lparr>bnext := bnext (B2 NBUF), bprev := NBUF\<rparr>)"
  define B4 where "B4 = B3(bnext (B3 NBUF) := (B3 (bnext (B3 NBUF)))\<lparr>bprev := b\<rparr>)"
  define B5 where "B5 = B4(NBUF := (B4 NBUF)\<lparr>bnext := b\<rparr>)"
  have l2: "linked B2 NBUF (ys @ zs) NBUF"
    using l(1,2) d(3) unfolding xs by (intro linked_unlink [OF _ _ _ _ B1_def B2_def]) auto
  have l5: "linked B5 NBUF (b # ys @ zs) NBUF"
    by (rule linked_push [OF l2 d(2) _ _ _ _ d(1) B3_def B4_def B5_def]) (use assms(2) d(3) in auto)
  have "remove1 b xs = ys @ zs" using l(2) unfolding xs by (simp add: remove1_append)
  then have "lru B5 (b # remove1 b xs)" using l5 d l(3) unfolding xs lru_def by auto
  moreover have "same_buf (?B i) (B5 i) \<and> bbusy (B5 i) = bbusy (?B i)" for i
  proof -
    have "same_buf (?B i) (B1 i) \<and> bbusy (B1 i) = bbusy (?B i)" by (simp add: B1_def same_buf_def)
    moreover have "same_buf (B1 i) (B2 i) \<and> bbusy (B2 i) = bbusy (B1 i)" by (simp add: B2_def same_buf_def)
    moreover have "same_buf (B2 i) (B3 i) \<and> bbusy (B3 i) = bbusy (B2 i)" by (simp add: B3_def same_buf_def)
    moreover have "same_buf (B3 i) (B4 i) \<and> bbusy (B4 i) = bbusy (B3 i)" by (simp add: B4_def same_buf_def)
    moreover have "same_buf (B4 i) (B5 i) \<and> bbusy (B5 i) = bbusy (B4 i)" by (simp add: B5_def same_buf_def)
    ultimately show ?thesis by (simp add: same_buf_def)
  qed
  moreover have "bunlink b s = Ret () (s\<lparr>bufs := B2\<rparr>)"
    unfolding B1_def B2_def by (simp add: bunlink_def upd_buf_def kfun_simps)
  moreover have "bpush b (s\<lparr>bufs := B2\<rparr>) = Ret () (s\<lparr>bufs := B5\<rparr>)"
    by (simp add: bpush_def upd_buf_def kfun_simps B3_def [symmetric] B4_def [symmetric] B5_def [symmetric] fun_upd_same del: fun_upd_apply)
  ultimately show ?thesis by blast
qed

lemma brelse_ret:
  assumes "bio_ok H s" "b \<in> H" "bdirty (bufs s b) \<or> bdata (bufs s b) = disk s (bsector (bufs s b))"
  shows "\<exists>t. brelse b s = Ret () t \<and> bio_ok (H - {b}) t \<and> quiet s t \<and> wakeups t = wakeups s @ [ChBuf b] \<and>
    (\<forall>j. view t j = view s j) \<and> (\<forall>i. same_buf (bufs s i) (bufs t i))"
proof -
  have ok: "\<forall>i<NBUF. buf_ok H s i" "H \<subseteq> {..<NBUF}"
    "\<forall>i<NBUF. \<forall>j<NBUF. \<forall>k. holds (bufs s) k i \<and> holds (bufs s) k j \<longrightarrow> i = j"
    using assms(1) unfolding bio_ok_def by blast+
  obtain xs where xs: "lru (bufs s) xs" using assms(1) by (auto simp: bio_ok_def)
  have b: "b < NBUF" "bbusy (bufs s b)" using ok assms(2) by (auto simp: buf_ok_def)
  obtain t B where t: "bunlink b s = Ret () t" "bpush b t = Ret () (s\<lparr>bufs := B\<rparr>)" "lru B (b # remove1 b xs)"
    "\<forall>i. same_buf (bufs s i) (B i) \<and> bbusy (B i) = bbusy (bufs s i)"
    using brelse_links [OF xs b(1)] by blast
  let ?u = "s\<lparr>bufs := B(b := (B b)\<lparr>bbusy := False\<rparr>), wakeups := wakeups s @ [ChBuf b]\<rparr>"
  have "brelse b s = Ret () ?u"
    using t(1,2) b(2) by (simp add: brelse_def kfun_simps upd_buf_def wake_def)
  moreover have "lru (bufs ?u) (b # remove1 b xs)" using lru_upd [OF t(3)] by simp
  moreover have sb: "\<forall>i. same_buf (bufs s i) (bufs ?u i)" using t(4) by (simp add: same_buf_def)
  moreover have "\<forall>i<NBUF. buf_ok (H - {b}) ?u i"
    using ok(1) t(4) assms(2,3) by (auto simp: buf_ok_def same_buf_def)
  moreover have "view ?u j = view s j" for j using view_cong [OF assms(1), of ?u j] sb by simp
  moreover have "holds (bufs ?u) k i = holds (bufs s) k i" for i k using sb by (simp add: holds_def same_buf_def)
  ultimately show ?thesis using ok(2,3)
    by (intro exI [of _ ?u]) (auto simp: bio_ok_def quiet_def)
qed

text \<open>\<^verbatim>\<open>binit\<close> links all buffers.\<close>

lemma binit_lru:
  "\<exists>t xs. binit s = Ret () t \<and> lru (bufs t) xs \<and> (\<forall>i<NBUF. bdev (bufs t i) = - 1 \<and>
     bbusy (bufs t i) = bbusy (bufs s i) \<and> bdirty (bufs t i) = bdirty (bufs s i)) \<and> quiet s t \<and> wakeups t = wakeups s"
proof -
  let ?I = "\<lambda>n t. linked (bufs t) NBUF (rev [0..<n]) NBUF \<and> (\<forall>i<n. bdev (bufs t i) = - 1) \<and>
     (\<forall>i. bbusy (bufs t i) = bbusy (bufs s i) \<and> bdirty (bufs t i) = bdirty (bufs s i)) \<and> quiet s t \<and> wakeups t = wakeups s"
  define s1 where "s1 = s\<lparr>bufs := (bufs s)(NBUF := (bufs s NBUF)\<lparr>bprev := NBUF, bnext := NBUF\<rparr>)\<rparr>"
  have "\<exists>t. for_each [0..<NBUF] binit_buf s1 = Ret () t \<and> ?I NBUF t"
  proof (rule for_each_upto [where I = ?I])
    show "?I 0 s1" by (simp add: s1_def quiet_def)
  next
    fix b t assume b: "b < NBUF" and I: "?I b t"
    let ?B = "bufs t"
    define B1 where "B1 = ?B(b := (?B b)\<lparr>bnext := bnext (?B NBUF), bprev := NBUF\<rparr>)"
    define B2 where "B2 = B1(bnext (B1 NBUF) := (B1 (bnext (B1 NBUF)))\<lparr>bprev := b\<rparr>)"
    define B3 where "B3 = B2(NBUF := (B2 NBUF)\<lparr>bnext := b\<rparr>)"
    define C where "C = B3(b := (B3 b)\<lparr>bdev := - 1\<rparr>)"
    have l: "linked B3 NBUF (b # rev [0..<b]) NBUF"
      using I b by (intro linked_push [OF _ _ _ _ _ _ _ B1_def B2_def B3_def]) auto
    have "linked C NBUF (b # rev [0..<b]) NBUF = linked B3 NBUF (b # rev [0..<b]) NBUF"
      by (rule linked_cong) (auto simp: C_def)
    with l have l': "linked C NBUF (rev [0..<Suc b]) NBUF" by simp
    have nb: "bnext (?B NBUF) \<noteq> b" using I b linked_first [of ?B NBUF "rev [0..<b]" NBUF] by (cases b) auto
    have "binit_buf b t = Ret () (t\<lparr>bufs := C\<rparr>)"
      using b nb by (simp add: binit_buf_def kfun_simps upd_buf_def C_def B1_def B2_def B3_def fun_upd_twist)
    moreover have "?I (Suc b) (t\<lparr>bufs := C\<rparr>)"
    proof -
      have "\<forall>i<Suc b. bdev (C i) = - 1" using I b by (auto simp: C_def B1_def B2_def B3_def less_Suc_eq)
      moreover have "\<forall>i. bbusy (C i) = bbusy (bufs s i) \<and> bdirty (C i) = bdirty (bufs s i)"
        using I by (simp add: C_def B1_def B2_def B3_def)
      ultimately show ?thesis using l' I by (simp add: quiet_def)
    qed
    ultimately show "\<exists>t'. binit_buf b t = Ret () t' \<and> ?I (Suc b) t'" by blast
  qed simp
  then obtain t where t: "for_each [0..<NBUF] binit_buf s1 = Ret () t" "?I NBUF t" by blast
  have "binit s = Ret () t" using t(1) by (simp add: binit_def kfun_simps upd_buf_def s1_def)
  then show ?thesis using t(2) by (intro exI [of _ t] exI [of _ "rev [0..<NBUF]"]) (auto simp: lru_def)
qed

section \<open>Contract\<close>

text \<open>
  What a client sees: an array of blocks.  \<open>block_read\<close> and \<open>block_write\<close> are the protocol the
  head comment of \<^verbatim>\<open>bio.c\<close> prescribes.
\<close>

definition block_read :: "uint \<Rightarrow> (block, 'a bio_scheme) kfun" where
  "block_read k = bind (bread 1 k) (\<lambda>b. bind (gets (\<lambda>s. bdata (bufs s b))) (\<lambda>d. seq (brelse b) (return d)))"

definition block_write :: "uint \<Rightarrow> block \<Rightarrow> (unit, 'a bio_scheme) kfun" where
  "block_write k d = bind (bread 1 k) (\<lambda>b. seq (upd_buf b (\<lambda>x. x\<lparr>bdata := d\<rparr>)) (seq (bwrite b) (brelse b)))"

datatype block_op = BRead uint | BWrite uint block

fun sector_of :: "block_op \<Rightarrow> uint" where
  "sector_of (BRead k) = k"
| "sector_of (BWrite k d) = k"

fun array_run :: "block_op list \<Rightarrow> (uint \<Rightarrow> block) \<Rightarrow> block list \<times> (uint \<Rightarrow> block)" where
  "array_run [] a = ([], a)"
| "array_run (BRead k # ops) a = (let (ds, a') = array_run ops a in (a k # ds, a'))"
| "array_run (BWrite k d # ops) a = array_run ops (a(k := d))"

fun store_run :: "(uint \<Rightarrow> (block, 's) kfun) \<Rightarrow> (uint \<Rightarrow> block \<Rightarrow> (unit, 's) kfun) \<Rightarrow> block_op list \<Rightarrow> (block list, 's) kfun" where
  "store_run rd wr [] = return []"
| "store_run rd wr (BRead k # ops) = bind (rd k) (\<lambda>d. bind (store_run rd wr ops) (\<lambda>ds. return (d # ds)))"
| "store_run rd wr (BWrite k d # ops) = seq (wr k d) (store_run rd wr ops)"

locale block_store =
  fixes rd :: "uint \<Rightarrow> (block, 's) kfun"
    and wr :: "uint \<Rightarrow> block \<Rightarrow> (unit, 's) kfun"
    and contents :: "'s \<Rightarrow> uint \<Rightarrow> block"
    and inv :: "'s \<Rightarrow> bool"
    and valid :: "'s \<Rightarrow> uint \<Rightarrow> bool"
  assumes rd_law: "inv s \<Longrightarrow> valid s k \<Longrightarrow> \<exists>t. rd k s = Ret (contents s k) t \<and> inv t \<and> contents t = contents s \<and> valid t = valid s"
    and wr_law: "inv s \<Longrightarrow> valid s k \<Longrightarrow> \<exists>t. wr k d s = Ret () t \<and> inv t \<and> contents t = (contents s)(k := d) \<and> valid t = valid s"
begin

lemma run_refines:
  assumes "inv s" "\<forall>op\<in>set ops. valid s (sector_of op)"
  shows "\<exists>t. store_run rd wr ops s = Ret (fst (array_run ops (contents s))) t \<and> inv t \<and>
    contents t = snd (array_run ops (contents s))"
  using assms
proof (induction ops arbitrary: s)
  case Nil
  then show ?case by (simp add: kfun_simps)
next
  case (Cons op ops)
  show ?case
  proof (cases op)
    case (BRead k)
    then obtain t where t: "rd k s = Ret (contents s k) t" "inv t" "contents t = contents s" "valid t = valid s"
      using rd_law [of s k] Cons.prems by auto
    obtain u where "store_run rd wr ops t = Ret (fst (array_run ops (contents t))) u" "inv u"
      "contents u = snd (array_run ops (contents t))" using Cons.IH [of t] t(2,4) Cons.prems by auto
    then show ?thesis using BRead t by (auto simp: kfun_simps Let_def split: prod.split)
  next
    case (BWrite k d)
    then obtain t where t: "wr k d s = Ret () t" "inv t" "contents t = (contents s)(k := d)" "valid t = valid s"
      using wr_law [of s k d] Cons.prems by auto
    obtain u where "store_run rd wr ops t = Ret (fst (array_run ops (contents t))) u" "inv u"
      "contents u = snd (array_run ops (contents t))" using Cons.IH [of t] t(2,4) Cons.prems by auto
    then show ?thesis using BWrite t by (auto simp: kfun_simps)
  qed
qed

end

text \<open>Between calls no buffer is in use and none waits for a commit: the disk is what the cache shows.\<close>

definition clean :: "'a bio_scheme \<Rightarrow> bool" where
  "clean s \<longleftrightarrow> bio_ok {} s \<and> (\<forall>i<NBUF. \<not> bdirty (bufs s i))"

lemma clean_view:
  assumes "clean s"
  shows "view s = disk s"
proof
  fix k
  have io: "bio_ok {} s" using assms by (simp add: clean_def)
  show "view s k = disk s k"
  proof (cases "\<exists>i<NBUF. holds (bufs s) k i")
    case True
    then obtain i where i: "i < NBUF" "holds (bufs s) k i" by blast
    then have "bdata (bufs s i) = disk s k" using assms by (auto simp: clean_def bio_ok_def buf_ok_def holds_def)
    then show ?thesis using view_hit [OF io i] by simp
  next
    case False
    then show ?thesis using view_miss by auto
  qed
qed

lemma clean_room: "clean s \<Longrightarrow> room {} s k"
proof -
  assume "clean s"
  moreover have "0 < NBUF" by (simp add: param_defs)
  ultimately show "room {} s k" unfolding room_def clean_def by blast
qed

interpretation bcache_store: block_store block_read block_write disk clean "\<lambda>s k. k < disksize s"
proof
  fix s :: "'a bio_scheme" and k assume c: "clean s" and k: "k < disksize s"
  then have io: "bio_ok {} s" by (simp add: clean_def)
  obtain b t where b: "bread 1 k s = Ret b t" "bread_post {} k s b t" using bread_ret [OF io k clean_room [OF c]] by auto
  then have t: "b < NBUF" "bio_ok {b} t" "quiet s t" "holds (bufs t) k b" "bdata (bufs t b) = view s k"
    "\<forall>i<NBUF. bdirty (bufs t i) = bdirty (bufs s i)" "bdirty (bufs t b) \<or> bdata (bufs t b) = disk t k"
    by (auto simp: bread_post_def)
  then have "bdirty (bufs t b) \<or> bdata (bufs t b) = disk t (bsector (bufs t b))" by (simp add: holds_def)
  then obtain u where u: "brelse b t = Ret () u" "bio_ok ({b} - {b}) u" "quiet t u" "\<forall>i. same_buf (bufs t i) (bufs u i)"
    using brelse_ret [OF t(2), of b] by blast
  have "clean u" using u(2,4) t(6) c by (auto simp: clean_def same_buf_def)
  moreover have "disk u = disk s" "disksize u = disksize s" using u(3) t(3) by (auto simp: quiet_def)
  ultimately show "\<exists>t. block_read k s = Ret (disk s k) t \<and> clean t \<and> disk t = disk s \<and> (\<lambda>k. k < disksize t) = (\<lambda>k. k < disksize s)"
    using b(1) u(1) t(5) clean_view [OF c] by (auto simp: block_read_def kfun_simps)
next
  fix s :: "'a bio_scheme" and k d assume c: "clean s" and k: "k < disksize s"
  then have io: "bio_ok {} s" by (simp add: clean_def)
  obtain b t where b: "bread 1 k s = Ret b t" "bread_post {} k s b t" using bread_ret [OF io k clean_room [OF c]] by auto
  then have t: "b < NBUF" "bio_ok {b} t" "quiet s t" "holds (bufs t) k b"
    "\<forall>i<NBUF. bdirty (bufs t i) = bdirty (bufs s i)" by (auto simp: bread_post_def)
  define w where "w = t\<lparr>bufs := (bufs t)(b := (bufs t b)\<lparr>bdata := d\<rparr>)\<rparr>"
  note bw = buf_write [OF t(2) _ w_def]
  have w: "bio_ok {b} w" "holds (bufs w) k b" "bdata (bufs w b) = d" "quiet t w" "\<forall>i. bdirty (bufs w i) = bdirty (bufs t i)"
    using bw(1,3,5,6,7) t(4) by auto
  obtain v where v: "bwrite b w = Ret () v" "bio_ok {b} v" "disk v = (disk w)(k := d)" "disksize v = disksize w"
    "\<forall>i j. holds (bufs v) j i = holds (bufs w) j i" "\<forall>i. bdirty (bufs v i) = (i \<noteq> b \<and> bdirty (bufs w i))"
    "\<forall>i. bdata (bufs v i) = bdata (bufs w i)" using bwrite_ret [OF w(1) _ w(2)] w(3) by auto
  have "bdata (bufs v b) = disk v (bsector (bufs v b))" using v(3,5,7) w(2,3) by (auto simp: holds_def)
  then obtain u where u: "brelse b v = Ret () u" "bio_ok ({b} - {b}) u" "quiet v u" "\<forall>i. same_buf (bufs v i) (bufs u i)"
    using brelse_ret [OF v(2), of b] by blast
  have "clean u" using u(2,4) v(6) w(5) t(5) c by (auto simp: clean_def same_buf_def)
  moreover have "disk u = (disk s)(k := d)" "disksize u = disksize s"
    using u(3) v(3,4) w(4) t(3) by (auto simp: quiet_def)
  ultimately show "\<exists>t. block_write k d s = Ret () t \<and> clean t \<and> disk t = (disk s)(k := d) \<and> (\<lambda>k. k < disksize t) = (\<lambda>k. k < disksize s)"
    using b(1) v(1) u(1) by (auto simp: block_write_def kfun_simps upd_buf_def w_def)
qed

lemma binit_clean:
  assumes "\<forall>i<NBUF. \<not> bbusy (bufs s i) \<and> \<not> bdirty (bufs s i)"
  shows "\<exists>t. binit s = Ret () t \<and> clean t \<and> quiet s t"
proof -
  obtain t xs where t: "binit s = Ret () t" "lru (bufs t) xs" "\<forall>i<NBUF. bdev (bufs t i) = - 1 \<and>
     bbusy (bufs t i) = bbusy (bufs s i) \<and> bdirty (bufs t i) = bdirty (bufs s i)" "quiet s t" using binit_lru by blast
  have "clean t" using t(2,3) assms by (auto simp: clean_def bio_ok_def buf_ok_def holds_def)
  with t(1,4) show ?thesis by blast
qed

section \<open>Properties\<close>

text \<open>
  C6. The buffer cache is a transparent, write-through array of blocks.  Any sequence of block
  reads and writes through \<^verbatim>\<open>bread\<close>, \<^verbatim>\<open>bwrite\<close> and \<^verbatim>\<open>brelse\<close> runs to its end without a panic,
  returns what the same sequence returns on a plain array holding the disk, and leaves the disk as
  that array, whichever of the \<^verbatim>\<open>NBUF\<close> buffers are recycled on the way.
\<close>

theorem cache_refines_disk:
  assumes "clean (s :: bio)" "\<forall>op\<in>set ops. sector_of op < disksize s"
  shows "\<exists>t. store_run block_read block_write ops s = Ret (fst (array_run ops (disk s))) t \<and> clean t \<and>
    disk t = snd (array_run ops (disk s))"
  by (rule bcache_store.run_refines) (use assms in auto)

definition bio_demo :: bio where
  "bio_demo = \<lparr>bufs = (\<lambda>_. \<lparr>bbusy = False, bvalid = False, bdirty = False, bdev = 0, bsector = 0, bprev = 0,
     bnext = 0, bdata = (\<lambda>_. 0)\<rparr>), disk = (\<lambda>_ _. 0), disksize = 1024, dwrites = [], wakeups = []\<rparr>"

theorem cache_refines_disk_witness:
  "\<exists>s t. binit bio_demo = Ret () s \<and>
     store_run block_read block_write [BRead 3, BWrite 3 (\<lambda>_. 7), BRead 3] s = Ret [\<lambda>_. 0, \<lambda>_. 7] t \<and> disk t 3 = (\<lambda>_. 7)"
proof -
  have "\<forall>i<NBUF. \<not> bbusy (bufs bio_demo i) \<and> \<not> bdirty (bufs bio_demo i)" by (simp add: bio_demo_def)
  then obtain s where s: "binit bio_demo = Ret () s" "clean s" "quiet bio_demo s" using binit_clean by blast
  have "disk s = (\<lambda>_ _. 0)" "disksize s = 1024" using s(3) by (auto simp: quiet_def bio_demo_def)
  then show ?thesis
    using cache_refines_disk [OF s(2), of "[BRead 3, BWrite 3 (\<lambda>_. 7), BRead 3]"] s(1) by auto
qed

end
