(* ===== verification/Layout.thy ===== *)
theory Layout
  imports Bio
begin

text \<open>
  The on-disk format (\<^verbatim>\<open>fs.h\<close>): the super block, inodes and directory entries as bytes of a block,
  and where on the disk they are.
\<close>

section \<open>Integers in a block\<close>

text \<open>Little-endian, as the processor stores them through a cast of \<^verbatim>\<open>bp->data\<close>.\<close>

definition word_at :: "block \<Rightarrow> nat \<Rightarrow> uint" where
  "word_at d i = of_bytes (d i) (d (i + 1)) (d (i + 2)) (d (i + 3))"

definition put_word :: "block \<Rightarrow> nat \<Rightarrow> uint \<Rightarrow> block" where
  "put_word d i w = d(i := byte_of w 0, i + 1 := byte_of w 1, i + 2 := byte_of w 2, i + 3 := byte_of w 3)"

definition half_at :: "block \<Rightarrow> nat \<Rightarrow> ushort" where
  "half_at d i = word_cat (d (i + 1)) (d i)"

definition put_half :: "block \<Rightarrow> nat \<Rightarrow> ushort \<Rightarrow> block" where
  "put_half d i w = d(i := ucast w, i + 1 := ucast (drop_bit 8 w))"

lemma word_put_same [simp]: "word_at (put_word d i w) i = w"
  using load_store_same [of "\<lambda>_. 0" 0 w] by (simp add: word_at_def put_word_def load32_def store32_def)

lemma word_put_other: "i + 4 \<le> j \<or> j + 4 \<le> i \<Longrightarrow> word_at (put_word d i w) j = word_at d j"
  by (auto simp: word_at_def put_word_def)

section \<open>Super block\<close>

definition ROOTINO :: uint where "ROOTINO = 1"
definition NDIRECT :: nat where "NDIRECT = 12"
definition NINDIRECT :: nat where "NINDIRECT = BSIZE div 4"
definition MAXFILE :: nat where "MAXFILE = NDIRECT + NINDIRECT"

record superblock =
  sb_size :: uint
  sb_nblocks :: uint
  sb_ninodes :: uint
  sb_nlog :: uint

definition superblock_of :: "block \<Rightarrow> superblock" where
  "superblock_of d = \<lparr>sb_size = word_at d 0, sb_nblocks = word_at d 4, sb_ninodes = word_at d 8, sb_nlog = word_at d 12\<rparr>"

text \<open>\<^verbatim>\<open>readsb\<close> fills the super block of its caller; here it returns it.\<close>

definition readsb :: "uint \<Rightarrow> (superblock, 'a bio_scheme) kfun" where
  "readsb dev =
     bind (bread dev 1) (\<lambda>bp.
     bind (gets (\<lambda>s. superblock_of (bdata (bufs s bp)))) (\<lambda>sb.
     seq (brelse bp) (return sb)))"

end
