(* ===== verification/Log.thy ===== *)
theory Log
  imports Layout
begin

text \<open>
  The redo log of \<^verbatim>\<open>log.c\<close>.  The state extends the buffer cache with \<^verbatim>\<open>struct log\<close>.  Sections under
  \<^verbatim>\<open>log.lock\<close> are atomic; a process that has to wait in \<^verbatim>\<open>begin_op\<close> ends the call with \<open>Sleep\<close>
  and runs the test again when it is woken.  An access to \<^verbatim>\<open>log.lh.sector\<close> out of its bounds is
  \<open>Fault\<close>.
\<close>

section \<open>The code\<close>

record logsys = bio +
  lstart :: uint
  lsize :: int
  outstanding :: int
  committing :: bool
  ldev :: uint
  lh_n :: int
  lh_sector :: "nat \<Rightarrow> uint"

definition get_sector :: "nat \<Rightarrow> (uint, 'a logsys_scheme) kfun" where
  "get_sector i = (if i < LOGSIZE then gets (\<lambda>s. lh_sector s i) else fault)"

definition set_sector :: "nat \<Rightarrow> uint \<Rightarrow> (unit, 'a logsys_scheme) kfun" where
  "set_sector i k = (if i < LOGSIZE then modify (\<lambda>s. s\<lparr>lh_sector := (lh_sector s)(i := k)\<rparr>) else fault)"

definition log_bread :: "('a logsys_scheme \<Rightarrow> uint) \<Rightarrow> (nat, 'a logsys_scheme) kfun" where
  "log_bread k = bind (gets (\<lambda>s. (ldev s, k s))) (\<lambda>(d, k). bread d k)"

definition copy_data :: "nat \<Rightarrow> nat \<Rightarrow> (unit, 'a bio_scheme) kfun" where
  "copy_data dst src = bind (gets (\<lambda>s. bdata (bufs s src))) (\<lambda>d. upd_buf dst (\<lambda>x. x\<lparr>bdata := d\<rparr>))"

definition install_block :: "nat \<Rightarrow> (unit, 'a logsys_scheme) kfun" where
  "install_block tail =
     bind (log_bread (\<lambda>s. lstart s + of_nat tail + 1)) (\<lambda>lbuf.
     bind (get_sector tail) (\<lambda>k.
     bind (log_bread (\<lambda>_. k)) (\<lambda>dbuf.
     seq (copy_data dbuf lbuf)
    (seq (bwrite dbuf)
    (seq (brelse lbuf)
         (brelse dbuf))))))"

definition install_trans :: "(unit, 'a logsys_scheme) kfun" where
  "install_trans = bind (gets lh_n) (\<lambda>n. for_each [0..<nat n] install_block)"

definition read_head :: "(unit, 'a logsys_scheme) kfun" where
  "read_head =
     bind (log_bread lstart) (\<lambda>b.
     bind (gets (\<lambda>s. bdata (bufs s b))) (\<lambda>d.
     seq (modify (\<lambda>s. s\<lparr>lh_n := sint (word_at d 0)\<rparr>))
    (bind (gets lh_n) (\<lambda>n.
     seq (for_each [0..<nat n] (\<lambda>i. set_sector i (word_at d (4 + 4 * i))))
         (brelse b)))))"

definition write_head :: "(unit, 'a logsys_scheme) kfun" where
  "write_head =
     bind (log_bread lstart) (\<lambda>b.
     bind (gets lh_n) (\<lambda>n.
     seq (upd_buf b (\<lambda>x. x\<lparr>bdata := put_word (bdata x) 0 (of_int n)\<rparr>))
    (seq (for_each [0..<nat n] (\<lambda>i.
            bind (get_sector i) (\<lambda>k. upd_buf b (\<lambda>x. x\<lparr>bdata := put_word (bdata x) (4 + 4 * i) k\<rparr>))))
    (seq (bwrite b)
         (brelse b)))))"

definition recover_from_log :: "(unit, 'a logsys_scheme) kfun" where
  "recover_from_log =
     seq read_head
    (seq install_trans
    (seq (modify (\<lambda>s. s\<lparr>lh_n := 0\<rparr>))
         write_head))"

definition initlog :: "(unit, 'a logsys_scheme) kfun" where
  "initlog =
     seq (panic_if (\<lambda>_. 4 + 4 * LOGSIZE \<ge> BSIZE) ''initlog: too big logheader'')
    (bind (readsb (of_nat ROOTDEV)) (\<lambda>sb.
     seq (modify (\<lambda>s. s\<lparr>lstart := sb_size sb - sb_nlog sb, lsize := sint (sb_nlog sb), ldev := of_nat ROOTDEV\<rparr>))
         recover_from_log))"

definition begin_op :: "(unit, 'a logsys_scheme) kfun" where
  "begin_op = (\<lambda>s.
     if committing s then Sleep ChLog s
     else if lh_n s + (outstanding s + 1) * int MAXOPBLOCKS > int LOGSIZE then Sleep ChLog s
     else Ret () (s\<lparr>outstanding := outstanding s + 1\<rparr>))"

definition write_log_block :: "nat \<Rightarrow> (unit, 'a logsys_scheme) kfun" where
  "write_log_block tail =
     bind (log_bread (\<lambda>s. lstart s + of_nat tail + 1)) (\<lambda>to.
     bind (get_sector tail) (\<lambda>k.
     bind (log_bread (\<lambda>_. k)) (\<lambda>from.
     seq (copy_data to from)
    (seq (bwrite to)
    (seq (brelse from)
         (brelse to))))))"

definition write_log :: "(unit, 'a logsys_scheme) kfun" where
  "write_log = bind (gets lh_n) (\<lambda>n. for_each [0..<nat n] write_log_block)"

definition commit :: "(unit, 'a logsys_scheme) kfun" where
  "commit =
     branch (\<lambda>s. lh_n s > 0)
       (seq write_log
       (seq write_head
       (seq install_trans
       (seq (modify (\<lambda>s. s\<lparr>lh_n := 0\<rparr>))
            write_head))))
       (return ())"

definition end_op :: "(unit, 'a logsys_scheme) kfun" where
  "end_op =
     seq (modify (\<lambda>s. s\<lparr>outstanding := outstanding s - 1\<rparr>))
    (seq (panic_if committing ''log.committing'')
    (branch (\<lambda>s. outstanding s = 0)
       (seq (modify (\<lambda>s. s\<lparr>committing := True\<rparr>))
       (seq commit
       (seq (modify (\<lambda>s. s\<lparr>committing := False\<rparr>))
            (wake ChLog))))
       (wake ChLog)))"

definition log_write :: "nat \<Rightarrow> (unit, 'a logsys_scheme) kfun" where
  "log_write b =
     seq (panic_if (\<lambda>s. lh_n s \<ge> int LOGSIZE \<or> lh_n s \<ge> lsize s - 1) ''too big a transaction'')
    (seq (panic_if (\<lambda>s. outstanding s < 1) ''log_write outside of trans'')
    (bind (gets (\<lambda>s. bsector (bufs s b))) (\<lambda>k.
     bind (gets (\<lambda>s. case first_index (nat (lh_n s)) (\<lambda>i. lh_sector s i = k) of Some i \<Rightarrow> i | None \<Rightarrow> nat (lh_n s))) (\<lambda>i.
     seq (set_sector i k)
    (seq (modify (\<lambda>s. s\<lparr>lh_n := (if int i = lh_n s then lh_n s + 1 else lh_n s)\<rparr>))
         (upd_buf b (\<lambda>x. x\<lparr>bdirty := True\<rparr>)))))))"

section \<open>Sectors waiting for a commit\<close>

definition dirty_sectors :: "'a bio_scheme \<Rightarrow> uint set" where
  "dirty_sectors s = {k. \<exists>i<NBUF. holds (bufs s) k i \<and> bdirty (bufs s i)}"

definition fits :: "nat set \<Rightarrow> 'a bio_scheme \<Rightarrow> uint \<Rightarrow> bool" where
  "fits H s k \<longleftrightarrow> k \<in> dirty_sectors s \<or> card (dirty_sectors s) + card H < NBUF"

lemma dirty_buffers:
  assumes "bio_ok H s"
  shows "card {i. i < NBUF \<and> bdirty (bufs s i)} = card (dirty_sectors s)" "finite (dirty_sectors s)"
proof -
  let ?D = "{i. i < NBUF \<and> bdirty (bufs s i)}"
  have h: "holds (bufs s) (bsector (bufs s i)) i" if "i \<in> ?D" for i
    using assms that by (auto simp: bio_ok_def buf_ok_def holds_def split: if_splits)
  have img: "dirty_sectors s = (\<lambda>i. bsector (bufs s i)) ` ?D"
    using h by (auto simp: dirty_sectors_def holds_def)
  have "inj_on (\<lambda>i. bsector (bufs s i)) ?D"
  proof (rule inj_onI)
    fix i j assume ij: "i \<in> ?D" "j \<in> ?D" "bsector (bufs s i) = bsector (bufs s j)"
    then have "holds (bufs s) (bsector (bufs s i)) i" "holds (bufs s) (bsector (bufs s i)) j" using h [of i] h [of j] by simp_all
    then show "i = j" using assms ij unfolding bio_ok_def by blast
  qed
  then show "card ?D = card (dirty_sectors s)" unfolding img by (simp add: card_image)
  show "finite (dirty_sectors s)" unfolding img by simp
qed

lemma fits_room:
  assumes "bio_ok H s" "fits H s k"
  shows "room H s k"
proof (cases "k \<in> dirty_sectors s")
  case True
  then show ?thesis by (auto simp: room_def dirty_sectors_def)
next
  case False
  let ?D = "{i. i < NBUF \<and> bdirty (bufs s i)}"
  have fin: "finite H" using assms(1) finite_subset by (auto simp: bio_ok_def)
  have "card (?D \<union> H) \<le> card ?D + card H" by (rule card_Un_le)
  also have "\<dots> < NBUF" using False assms(2) dirty_buffers(1) [OF assms(1)] by (simp add: fits_def)
  finally have "\<not> {..<NBUF} \<subseteq> ?D \<union> H" using fin card_mono [of "?D \<union> H" "{..<NBUF}"] by auto
  then show ?thesis by (auto simp: room_def)
qed

lemma dirty_sectors_quiet:
  assumes "bio_ok H s" "bio_ok H' t" "\<forall>i<NBUF. bdirty (bufs t i) = bdirty (bufs s i)"
    "\<forall>i j. i < NBUF \<and> bdirty (bufs s i) \<longrightarrow> holds (bufs t) j i = holds (bufs s) j i"
  shows "dirty_sectors t = dirty_sectors s"
  using assms(3,4) by (auto simp: dirty_sectors_def)

lemma bread_fits:
  assumes "bio_ok H s" "k < disksize s" "fits H s k" "\<forall>i\<in>H. bsector (bufs s i) \<noteq> k"
  shows "\<exists>b t. bread 1 k s = Ret b t \<and> bread_post H k s b t \<and> dirty_sectors t = dirty_sectors s"
proof -
  obtain b t where b: "bread 1 k s = Ret b t" "bread_post H k s b t"
    using bread_ret [OF assms(1,2) fits_room [OF assms(1,3)] assms(4)] by blast
  moreover from b(2) have "dirty_sectors t = dirty_sectors s"
    using dirty_sectors_quiet [OF assms(1), of "insert b H" t] by (auto simp: bread_post_def)
  ultimately show ?thesis by blast
qed

lemma brelse_fits:
  assumes "bio_ok H s" "b \<in> H" "bdirty (bufs s b) \<or> bdata (bufs s b) = disk s (bsector (bufs s b))"
  shows "\<exists>t. brelse b s = Ret () t \<and> bio_ok (H - {b}) t \<and> quiet s t \<and> (\<forall>j. view t j = view s j) \<and>
    (\<forall>i. same_buf (bufs s i) (bufs t i)) \<and> dirty_sectors t = dirty_sectors s"
proof -
  obtain t where t: "brelse b s = Ret () t" "bio_ok (H - {b}) t" "quiet s t" "\<forall>j. view t j = view s j"
    "\<forall>i. same_buf (bufs s i) (bufs t i)" using brelse_ret [OF assms] by blast
  then have "dirty_sectors t = dirty_sectors s" by (auto simp: dirty_sectors_def holds_def same_buf_def)
  with t show ?thesis by blast
qed

text \<open>Copying one buffer to another, writing it and releasing both.\<close>

lemma copy_tail:
  assumes "bio_ok {x, y} t" "x \<noteq> y" "{x, y} = {dst, src}" "holds (bufs t) kd dst" "holds (bufs t) ks src"
    and "bdirty (bufs t src) \<or> bdata (bufs t src) = disk t ks"
  shows "\<exists>u. seq (copy_data dst src) (seq (bwrite dst) (seq (brelse x) (brelse y))) t = Ret () u \<and> bio_ok {} u \<and>
    disk u = (disk t)(kd := view t ks) \<and> dwrites u = dwrites t @ [(kd, view t ks)] \<and> disksize u = disksize t \<and>
    bio.more u = bio.more t \<and> (\<forall>j. view u j = (if j = kd then view t ks else view t j)) \<and>
    dirty_sectors u = dirty_sectors t - {kd}"
proof -
  have ds: "dst \<in> {x, y}" "src \<in> {x, y}" "dst \<noteq> src" using assms(2,3) by auto
  have lt: "dst < NBUF" "src < NBUF" using ds(1,2) assms(1) by (auto simp: bio_ok_def)
  have vs: "view t ks = bdata (bufs t src)" using view_hit [OF assms(1) lt(2) assms(5)] .
  define w where "w = t\<lparr>bufs := (bufs t)(dst := (bufs t dst)\<lparr>bdata := bdata (bufs t src)\<rparr>)\<rparr>"
  note bw = buf_write [OF assms(1) ds(1) w_def]
  have hd: "holds (bufs w) kd dst" "bdata (bufs w dst) = bdata (bufs t src)" using bw(5,7) assms(4) by auto
  obtain v where v: "bwrite dst w = Ret () v" "bio_ok {x, y} v" "disk v = (disk w)(kd := bdata (bufs w dst))"
    "dwrites v = dwrites w @ [(kd, bdata (bufs w dst))]" "disksize v = disksize w" "bio.more v = bio.more w"
    "\<forall>j. view v j = view w j" "\<forall>i j. holds (bufs v) j i = holds (bufs w) j i"
    "\<forall>i. bdirty (bufs v i) = (i \<noteq> dst \<and> bdirty (bufs w i))" "\<forall>i. bdata (bufs v i) = bdata (bufs w i)"
    using bwrite_ret [OF bw(1) ds(1) hd(1)] by blast
  have ne: "kd \<noteq> ks" using assms(1,4,5) ds lt unfolding bio_ok_def by blast
  have clean_v: "bdirty (bufs v i) \<or> bdata (bufs v i) = disk v (bsector (bufs v i))" if "i \<in> {x, y}" for i
  proof (cases "i = dst")
    case True
    then show ?thesis using v(3,8,10) hd by (auto simp: holds_def)
  next
    case False
    then have i: "i = src" using that assms(3) by auto
    have "holds (bufs v) ks src" "bufs w src = bufs t src" using v(8) bw(5,8) assms(5) ds(3) by auto
    then show ?thesis using assms(6) v(3,9,10) ne bw(3) i ds(3) by (auto simp: holds_def quiet_def)
  qed
  obtain v1 where v1: "brelse x v = Ret () v1" "bio_ok ({x, y} - {x}) v1" "quiet v v1" "\<forall>j. view v1 j = view v j"
    "\<forall>i. same_buf (bufs v i) (bufs v1 i)" "dirty_sectors v1 = dirty_sectors v"
    using brelse_fits [OF v(2) _ clean_v [of x]] by auto
  have "bio_ok {y} v1" using v1(2) assms(2) by (simp add: insert_Diff_if)
  moreover have "bdirty (bufs v1 y) \<or> bdata (bufs v1 y) = disk v1 (bsector (bufs v1 y))"
    using clean_v [of y] v1(3,5) by (auto simp: same_buf_def quiet_def)
  ultimately obtain u where u: "brelse y v1 = Ret () u" "bio_ok ({y} - {y}) u" "quiet v1 u" "\<forall>j. view u j = view v1 j"
    "dirty_sectors u = dirty_sectors v1" using brelse_fits [of "{y}" v1 y] by auto
  have "dirty_sectors v = dirty_sectors t - {kd}"
  proof -
    have "i = dst" if "i < NBUF" "holds (bufs t) kd i" for i using that lt(1) assms(1,4) unfolding bio_ok_def by blast
    then show ?thesis using v(8,9) bw(5,6) assms(4) by (auto simp: dirty_sectors_def holds_def)
  qed
  moreover have "view u j = (if j = kd then view t ks else view t j)" for j
    using u(4) v1(4) v(7) bw(2) vs assms(4) by (auto simp: holds_def)
  ultimately show ?thesis
    using v v1 u bw(3) hd vs by (intro exI [of _ u]) (auto simp: kfun_simps copy_data_def upd_buf_def w_def [symmetric] quiet_def)
qed

section \<open>The steps of a commit\<close>

definition same_log :: "'a logsys_scheme \<Rightarrow> 'a logsys_scheme \<Rightarrow> bool" where
  "same_log s t \<longleftrightarrow> disksize t = disksize s \<and> lstart t = lstart s \<and> lsize t = lsize s \<and> outstanding t = outstanding s \<and>
     committing t = committing s \<and> ldev t = ldev s \<and> lh_n t = lh_n s \<and> lh_sector t = lh_sector s \<and> logsys.more t = logsys.more s"

lemma same_log_refl [simp]: "same_log s s"
  by (simp add: same_log_def)

lemma same_log_trans: "same_log s t \<Longrightarrow> same_log t u \<Longrightarrow> same_log s u"
  by (simp add: same_log_def)

lemma same_log_more:
  fixes s t :: "'a logsys_scheme"
  assumes "disksize t = disksize s" "bio.more t = bio.more s"
  shows "same_log s t"
  using assms by (cases s; cases t) (simp add: same_log_def)

lemma quiet_log: "quiet s t \<Longrightarrow> same_log s t"
  by (rule same_log_more) (simp_all add: quiet_def)

text \<open>One block written: the disk, the record of writes, the view and the dirty sectors afterwards.\<close>

definition wrote :: "uint \<Rightarrow> block \<Rightarrow> 'a logsys_scheme \<Rightarrow> 'a logsys_scheme \<Rightarrow> bool" where
  "wrote k d s t \<longleftrightarrow> bio_ok {} t \<and> same_log s t \<and> disk t = (disk s)(k := d) \<and> dwrites t = dwrites s @ [(k, d)] \<and>
     view t = (view s)(k := d) \<and> dirty_sectors t = dirty_sectors s - {k}"

lemma copy_two:
  assumes "bio_ok {} s" "ldev s = 1" "fst_k \<noteq> snd_k" "fst_k < disksize s" "snd_k < disksize s"
    and "fits {} s fst_k" "\<And>b. fits {b} s snd_k"
  shows "\<exists>x y t. bread 1 fst_k s = Ret x t \<and> same_log s t \<and>
    (\<exists>u. bread 1 snd_k t = Ret y u \<and> same_log s u \<and>
      (\<exists>v. seq (copy_data x y) (seq (bwrite x) (seq (brelse y) (brelse x))) u = Ret () v \<and> wrote fst_k (view s snd_k) s v) \<and>
      (\<exists>v. seq (copy_data y x) (seq (bwrite y) (seq (brelse x) (brelse y))) u = Ret () v \<and> wrote snd_k (view s fst_k) s v))"
proof -
  obtain x t where x: "bread 1 fst_k s = Ret x t" "bread_post {} fst_k s x t" "dirty_sectors t = dirty_sectors s"
    using bread_fits [OF assms(1,4,6)] by auto
  then have t: "bio_ok {x} t" "quiet s t" "holds (bufs t) fst_k x" "\<forall>j. view t j = view s j" "x < NBUF"
    "bdirty (bufs t x) \<or> bdata (bufs t x) = disk t fst_k" by (auto simp: bread_post_def)
  have f: "fits {x} t snd_k" using assms(7) [of x] x(3) by (simp add: fits_def)
  have "snd_k < disksize t" "\<forall>i\<in>{x}. bsector (bufs t i) \<noteq> snd_k" using assms(3,5) t(2,3) by (auto simp: quiet_def holds_def)
  then obtain y u where y: "bread 1 snd_k t = Ret y u" "bread_post {x} snd_k t y u" "dirty_sectors u = dirty_sectors t"
    using bread_fits [OF t(1) _ f] by blast
  then have u: "bio_ok {x, y} u" "quiet t u" "holds (bufs u) snd_k y" "\<forall>j. view u j = view t j" "x \<noteq> y" "bufs u x = bufs t x"
    "bdirty (bufs u y) \<or> bdata (bufs u y) = disk u snd_k" by (auto simp: bread_post_def insert_commute)
  have hx: "holds (bufs u) fst_k x" "bdirty (bufs u x) \<or> bdata (bufs u x) = disk u fst_k"
    using t(3,6) u(2,6) by (auto simp: holds_def quiet_def)
  have q: "quiet s u" using t(2) u(2) by (rule quiet_trans)
  have "wrote k d s v" if "bio_ok {} v" "disk v = (disk u)(k := d)" "dwrites v = dwrites u @ [(k, d)]"
    "disksize v = disksize u" "bio.more v = bio.more u" "\<forall>j. view v j = (if j = k then d else view u j)"
    "dirty_sectors v = dirty_sectors u - {k}" for v k d
  proof -
    have "same_log s v" using that(4,5) q by (intro same_log_more) (auto simp: quiet_def)
    then show ?thesis using that q x(3) y(3) t(4) u(4) by (auto simp: wrote_def quiet_def)
  qed
  note w = this
  have vu: "view u j = view s j" for j using t(4) u(4) by simp
  have yx: "bio_ok {y, x} u" using u(1) by (simp add: insert_commute)
  have "\<exists>v. seq (copy_data x y) (seq (bwrite x) (seq (brelse y) (brelse x))) u = Ret () v \<and> wrote fst_k (view s snd_k) s v"
    using copy_tail [OF yx _ _ hx(1) u(3,7)] u(5) w vu by (auto simp: insert_commute)
  moreover have "\<exists>v. seq (copy_data y x) (seq (bwrite y) (seq (brelse x) (brelse y))) u = Ret () v \<and> wrote snd_k (view s fst_k) s v"
    using copy_tail [OF u(1,5) _ u(3) hx] w vu by (auto simp: insert_commute)
  ultimately show ?thesis using x(1) y(1) quiet_log [OF t(2)] quiet_log [OF q] by blast
qed

definition log_block :: "'a logsys_scheme \<Rightarrow> nat \<Rightarrow> uint" where
  "log_block s t = lstart s + of_nat t + 1"

lemma same_log_block [simp]: "same_log s t \<Longrightarrow> log_block t i = log_block s i"
  by (simp add: same_log_def log_block_def)

lemma write_log_block_ret:
  assumes "bio_ok {} s" "ldev s = 1" "i < LOGSIZE" "log_block s i \<noteq> lh_sector s i" "log_block s i < disksize s"
    "lh_sector s i < disksize s" "fits {} s (log_block s i)" "\<And>b. fits {b} s (lh_sector s i)"
  shows "\<exists>t. write_log_block i s = Ret () t \<and> wrote (log_block s i) (view s (lh_sector s i)) s t"
proof -
  obtain x y t u v where r: "bread 1 (log_block s i) s = Ret x t" "same_log s t" "bread 1 (lh_sector s i) t = Ret y u"
    "seq (copy_data x y) (seq (bwrite x) (seq (brelse y) (brelse x))) u = Ret () v" "wrote (log_block s i) (view s (lh_sector s i)) s v"
    using copy_two [OF assms(1,2,4-8)] by blast
  then show ?thesis using assms(2,3)
    by (auto simp: write_log_block_def bind_apply log_bread_def gets_apply get_sector_def same_log_def log_block_def)
qed

lemma install_block_ret:
  assumes "bio_ok {} s" "ldev s = 1" "i < LOGSIZE" "log_block s i \<noteq> lh_sector s i" "log_block s i < disksize s"
    "lh_sector s i < disksize s" "fits {} s (log_block s i)" "\<And>b. fits {b} s (lh_sector s i)"
  shows "\<exists>t. install_block i s = Ret () t \<and> wrote (lh_sector s i) (view s (log_block s i)) s t"
proof -
  obtain x y t u v where r: "bread 1 (log_block s i) s = Ret x t" "same_log s t" "bread 1 (lh_sector s i) t = Ret y u"
    "seq (copy_data y x) (seq (bwrite y) (seq (brelse x) (brelse y))) u = Ret () v" "wrote (lh_sector s i) (view s (log_block s i)) s v"
    using copy_two [OF assms(1,2,4-8)] by blast
  then show ?thesis using assms(2,3)
    by (auto simp: install_block_def bind_apply log_bread_def gets_apply get_sector_def same_log_def log_block_def)
qed

text \<open>The header block.\<close>

definition head_block :: "block \<Rightarrow> int \<Rightarrow> (nat \<Rightarrow> uint) \<Rightarrow> block" where
  "head_block d n secs = foldl (\<lambda>d i. put_word d (4 + 4 * i) (secs i)) (put_word d 0 (of_int n)) [0..<nat n]"

lemma head_block_words:
  "word_at (foldl (\<lambda>d i. put_word d (4 + 4 * i) (secs i)) d [0..<m]) 0 = word_at d 0"
  "j < m \<Longrightarrow> word_at (foldl (\<lambda>d i. put_word d (4 + 4 * i) (secs i)) d [0..<m]) (4 + 4 * j) = secs j"
proof (induction m)
  case (Suc m)
  case 1
  then show ?case using Suc.IH(1) by (simp add: word_put_other)
next
  case (Suc m)
  case 2
  show ?case
  proof (cases "j = m")
    case True
    then show ?thesis by simp
  next
    case False
    then have "j < m" using 2 by simp
    then show ?thesis using Suc.IH(2) by (simp add: word_put_other)
  qed
qed simp_all

lemma head_block_n: "word_at (head_block d n secs) 0 = of_int n"
  and head_block_sector: "j < nat n \<Longrightarrow> word_at (head_block d n secs) (4 + 4 * j) = secs j"
  by (simp_all only: head_block_def head_block_words word_put_same)

lemma write_head_loop:
  assumes "b < NBUF" "m \<le> LOGSIZE"
  shows "for_each [0..<m] (\<lambda>i. bind (get_sector i) (\<lambda>k. upd_buf b (\<lambda>x. x\<lparr>bdata := put_word (bdata x) (4 + 4 * i) k\<rparr>))) s =
    Ret () (s\<lparr>bufs := (bufs s)(b := (bufs s b)\<lparr>bdata := foldl (\<lambda>d i. put_word d (4 + 4 * i) (lh_sector s i)) (bdata (bufs s b)) [0..<m]\<rparr>)\<rparr>)"
    (is "for_each _ ?body s = _")
proof -
  let ?d = "\<lambda>m. foldl (\<lambda>d i. put_word d (4 + 4 * i) (lh_sector s i)) (bdata (bufs s b)) [0..<m]"
  let ?I = "\<lambda>m t. t = s\<lparr>bufs := (bufs s)(b := (bufs s b)\<lparr>bdata := ?d m\<rparr>)\<rparr>"
  have "\<exists>t. for_each [0..<m] ?body s = Ret () t \<and> ?I m t"
  proof (rule for_each_upto [where I = ?I])
    fix i t assume "i < m" "?I i t"
    then show "\<exists>t'. ?body i t = Ret () t' \<and> ?I (Suc i) t'"
      using assms(2) by (simp add: kfun_simps get_sector_def upd_buf_def)
  qed simp_all
  then show ?thesis by auto
qed

lemma write_head_ret:
  assumes "bio_ok {} s" "ldev s = 1" "lstart s < disksize s" "fits {} s (lstart s)" "lh_n s \<le> int LOGSIZE"
  shows "\<exists>t. write_head s = Ret () t \<and> wrote (lstart s) (head_block (view s (lstart s)) (lh_n s) (lh_sector s)) s t"
proof -
  let ?h = "head_block (view s (lstart s)) (lh_n s) (lh_sector s)"
  obtain b t where b: "bread 1 (lstart s) s = Ret b t" "bread_post {} (lstart s) s b t" "dirty_sectors t = dirty_sectors s"
    using bread_fits [OF assms(1,3,4)] by auto
  then have t: "bio_ok {b} t" "quiet s t" "holds (bufs t) (lstart s) b" "\<forall>j. view t j = view s j" "b < NBUF"
    "bdata (bufs t b) = view s (lstart s)" by (auto simp: bread_post_def)
  have sl: "same_log s t" using t(2) by (rule quiet_log)
  have n: "nat (lh_n s) \<le> LOGSIZE" using assms(5) by simp
  define w where "w = t\<lparr>bufs := (bufs t)(b := (bufs t b)\<lparr>bdata := ?h\<rparr>)\<rparr>"
  note bw = buf_write [OF t(1) _ w_def]
  have hw: "holds (bufs w) (lstart s) b" using bw(5) t(3) by simp
  obtain v where v: "bwrite b w = Ret () v" "bio_ok {b} v" "disk v = (disk w)(lstart s := bdata (bufs w b))"
    "dwrites v = dwrites w @ [(lstart s, bdata (bufs w b))]" "disksize v = disksize w" "bio.more v = bio.more w"
    "\<forall>j. view v j = view w j" "\<forall>i j. holds (bufs v) j i = holds (bufs w) j i"
    "\<forall>i. bdirty (bufs v i) = (i \<noteq> b \<and> bdirty (bufs w i))" "\<forall>i. bdata (bufs v i) = bdata (bufs w i)"
    using bwrite_ret [OF bw(1) _ hw] by blast
  have "bdirty (bufs v b) \<or> bdata (bufs v b) = disk v (bsector (bufs v b))"
    using v(3,8,10) hw by (auto simp: holds_def)
  then obtain u where u: "brelse b v = Ret () u" "bio_ok ({b} - {b}) u" "quiet v u" "\<forall>j. view u j = view v j"
    "dirty_sectors u = dirty_sectors v" using brelse_fits [OF v(2), of b] by auto
  have dv: "dirty_sectors v = dirty_sectors t - {lstart s}"
  proof -
    have "i = b" if "i < NBUF" "holds (bufs t) (lstart s) i" for i using that t(1,3,5) unfolding bio_ok_def by blast
    then show ?thesis using v(8,9) bw(5,6) t(3) by (auto simp: dirty_sectors_def holds_def)
  qed
  have bs: "bsector (bufs t b) = lstart s" using t(3) by (simp add: holds_def)
  have "view u j = (if j = lstart s then ?h else view s j)" for j
    using u(4) v(7) bw(2) [of j] t(4) bs by simp
  then have "view u = (view s)(lstart s := ?h)" by auto
  moreover have "same_log s u" using u(3) v(5,6) bw(3) t(2) by (intro same_log_more) (auto simp: quiet_def)
  ultimately have "wrote (lstart s) ?h s u"
    using u(2,3,5) v(3,4) bw(3,7) t(2) dv b(3) by (auto simp: wrote_def quiet_def)
  moreover have "write_head s = Ret () u"
  proof -
    let ?t1 = "t\<lparr>bufs := (bufs t)(b := (bufs t b)\<lparr>bdata := put_word (bdata (bufs t b)) 0 (of_int (lh_n s))\<rparr>)\<rparr>"
    have "for_each [0..<nat (lh_n s)] (\<lambda>i. bind (get_sector i) (\<lambda>k. upd_buf b (\<lambda>x. x\<lparr>bdata := put_word (bdata x) (4 + 4 * i) k\<rparr>))) ?t1 = Ret () w"
      using write_head_loop [OF t(5) n, of ?t1] sl t(6) by (simp add: w_def head_block_def same_log_def)
    then show ?thesis using b(1) v(1) u(1) sl assms(2)
      by (simp add: write_head_def log_bread_def kfun_simps upd_buf_def same_log_def)
  qed
  ultimately show ?thesis by blast
qed

section \<open>Sequences of writes\<close>

definition apply_writes :: "(uint \<times> block) list \<Rightarrow> (uint \<Rightarrow> block) \<Rightarrow> uint \<Rightarrow> block" where
  "apply_writes ws f = fold (\<lambda>(k, d) g. g(k := d)) ws f"

lemma apply_writes_Nil [simp]: "apply_writes [] f = f"
  by (simp add: apply_writes_def)

lemma apply_writes_append: "apply_writes (vs @ ws) f = apply_writes ws (apply_writes vs f)"
  by (simp add: apply_writes_def)

lemma apply_writes_single [simp]: "apply_writes [(k, d)] f = f(k := d)"
  by (simp add: apply_writes_def)

lemma apply_writes_other: "k \<notin> fst ` set ws \<Longrightarrow> apply_writes ws f k = f k"
proof (induction ws arbitrary: f)
  case (Cons w ws)
  then show ?case by (cases w) (simp add: apply_writes_def)
qed simp

lemma apply_writes_in:
  assumes "distinct (map fst ws)" "(k, d) \<in> set ws"
  shows "apply_writes ws f k = d"
  using assms
proof (induction ws arbitrary: f)
  case (Cons w ws)
  show ?case
  proof (cases "w = (k, d)")
    case True
    then have "k \<notin> fst ` set ws" using Cons.prems(1) by auto
    then show ?thesis using apply_writes_other [of k ws] True by (simp add: apply_writes_def)
  next
    case False
    then show ?thesis using Cons by (cases w) (auto simp: apply_writes_def)
  qed
qed simp

definition wrote_all :: "(uint \<times> block) list \<Rightarrow> 'a logsys_scheme \<Rightarrow> 'a logsys_scheme \<Rightarrow> bool" where
  "wrote_all ws s t \<longleftrightarrow> bio_ok {} t \<and> same_log s t \<and> disk t = apply_writes ws (disk s) \<and> dwrites t = dwrites s @ ws \<and>
     view t = apply_writes ws (view s) \<and> dirty_sectors t = dirty_sectors s - fst ` set ws"

lemma wrote_all_Nil: "bio_ok {} s \<Longrightarrow> wrote_all [] s s"
  by (simp add: wrote_all_def)

lemma wrote_all_step: "wrote_all ws s t \<Longrightarrow> wrote k d t u \<Longrightarrow> wrote_all (ws @ [(k, d)]) s u"
  using same_log_trans [of s t u] by (auto simp: wrote_all_def wrote_def apply_writes_append)

lemma wrote_all_trans: "wrote_all vs s t \<Longrightarrow> wrote_all ws t u \<Longrightarrow> wrote_all (vs @ ws) s u"
  using same_log_trans [of s t u] by (auto simp: wrote_all_def apply_writes_append)

section \<open>A transaction ready to commit\<close>

definition logged :: "'a logsys_scheme \<Rightarrow> uint list" where
  "logged s = map (lh_sector s) [0..<nat (lh_n s)]"

definition log_geom :: "'a logsys_scheme \<Rightarrow> bool" where
  "log_geom s \<longleftrightarrow> ldev s = 1 \<and> 0 < lsize s \<and> lsize s \<le> int LOGSIZE \<and> unat (lstart s) + nat (lsize s) \<le> unat (disksize s) \<and> unat (disksize s) < 2 ^ 31"

definition log_ok :: "'a logsys_scheme \<Rightarrow> bool" where
  "log_ok s \<longleftrightarrow> bio_ok {} s \<and> log_geom s \<and> 0 \<le> lh_n s \<and> lh_n s \<le> int LOGSIZE \<and> lh_n s < lsize s \<and> lh_n s < int NBUF \<and>
     distinct (logged s) \<and> (\<forall>k\<in>set (logged s). k < lstart s) \<and> dirty_sectors s = set (logged s)"

lemma logged_length [simp]: "length (logged s) = nat (lh_n s)"
  by (simp add: logged_def)

lemma logged_nth: "i < nat (lh_n s) \<Longrightarrow> lh_sector s i = logged s ! i"
  by (simp add: logged_def)

lemma log_block_unat:
  assumes "log_geom s" "int i < lsize s - 1"
  shows "unat (log_block s i) = unat (lstart s) + i + 1" "log_block s i < disksize s" "\<not> log_block s i \<le> lstart s"
proof -
  have b1: "unat (lstart s) + nat (lsize s) \<le> unat (disksize s)" using assms(1) by (simp only: log_geom_def)
  have b2: "i + 1 < nat (lsize s)" using assms(2) by linarith
  note b = b1 b2
  have d: "unat (disksize s) < 2147483648" using assms(1) unfolding log_geom_def by simp
  have s31: "unat (lstart s) + i + 1 < 2147483648" using b d by linarith
  have "(of_nat (unat (lstart s) + i + 1) :: uint) = lstart s + of_nat i + 1" by simp
  moreover have "unat (of_nat (unat (lstart s) + i + 1) :: uint) = unat (lstart s) + i + 1"
    using s31 by (subst unat_of_nat) (rule mod_less, simp)
  ultimately have "unat (lstart s + of_nat i + 1) = unat (lstart s) + i + 1" by (simp only:)
  then show u: "unat (log_block s i) = unat (lstart s) + i + 1" by (simp add: log_block_def)
  show "log_block s i < disksize s" unfolding word_less_nat_alt u using b by linarith
  show "\<not> log_block s i \<le> lstart s" unfolding word_le_nat_alt u by linarith
qed

lemma log_block_inj:
  assumes "log_geom s" "int i < lsize s - 1" "int j < lsize s - 1" "log_block s i = log_block s j"
  shows "i = j"
  using arg_cong [OF assms(4), of unat] unfolding log_block_unat(1) [OF assms(1,2)] log_block_unat(1) [OF assms(1,3)] by simp

definition log_writes :: "'a logsys_scheme \<Rightarrow> (uint \<Rightarrow> block) \<Rightarrow> nat \<Rightarrow> (uint \<times> block) list" where
  "log_writes s v n = map (\<lambda>i. (log_block s i, v (lh_sector s i))) [0..<n]"

definition home_writes :: "'a logsys_scheme \<Rightarrow> (uint \<Rightarrow> block) \<Rightarrow> nat \<Rightarrow> (uint \<times> block) list" where
  "home_writes s v n = map (\<lambda>i. (lh_sector s i, v (lh_sector s i))) [0..<n]"

lemma log_writes_Suc: "log_writes s v (Suc n) = log_writes s v n @ [(log_block s n, v (lh_sector s n))]"
  and home_writes_Suc: "home_writes s v (Suc n) = home_writes s v n @ [(lh_sector s n, v (lh_sector s n))]"
  by (simp_all add: log_writes_def home_writes_def)

lemma write_log_ret:
  assumes "log_ok s"
  shows "\<exists>t. write_log s = Ret () t \<and> wrote_all (log_writes s (view s) (nat (lh_n s))) s t"
proof -
  let ?n = "nat (lh_n s)" and ?I = "\<lambda>i t. wrote_all (log_writes s (view s) i) s t"
  have ok: "bio_ok {} s" "log_geom s" "lh_n s \<le> int LOGSIZE" "lh_n s < lsize s" "lh_n s < int NBUF" "distinct (logged s)"
    "\<forall>k\<in>set (logged s). k < lstart s" "dirty_sectors s = set (logged s)" using assms by (auto simp: log_ok_def)
  have "\<exists>t. for_each [0..<?n] write_log_block s = Ret () t \<and> ?I ?n t"
  proof (rule for_each_upto [where I = ?I])
    show "?I 0 s" using ok(1) by (simp add: log_writes_def wrote_all_Nil)
  next
    fix i t assume i: "i < ?n" and t: "?I i t"
    then have t': "bio_ok {} t" "same_log s t" "view t = apply_writes (log_writes s (view s) i) (view s)"
      "dirty_sectors t = dirty_sectors s - fst ` set (log_writes s (view s) i)" by (auto simp: wrote_all_def)
    have il: "int i < lsize s - 1" "i < LOGSIZE" using i ok(3,4) by auto
    note lb = log_block_unat [OF ok(2) il(1)]
    have k: "lh_sector s i \<in> set (logged s)" using i by (simp add: logged_nth)
    then have kl: "lh_sector s i < lstart s" using ok(7) by simp
    have nin: "k \<notin> fst ` set (log_writes s (view s) i)" if "k < lstart s" for k
    proof
      assume "k \<in> fst ` set (log_writes s (view s) i)"
      then obtain j where j: "j < i" "k = log_block s j" by (auto simp: log_writes_def)
      then show False using log_block_unat(3) [OF ok(2), of j] il(1) that by (simp add: less_imp_le)
    qed
    have d: "dirty_sectors t = set (logged s)"
      unfolding t'(4) ok(8) using ok(7) nin by blast
    have c: "card (set (logged s)) < NBUF" using distinct_card [OF ok(6)] ok(5) assms by (simp add: log_ok_def nat_less_iff)
    have sl: "ldev t = 1" "log_block t i = log_block s i" "lh_sector t i = lh_sector s i" "disksize t = disksize s"
      using t'(2) ok(2) by (auto simp: same_log_def log_geom_def)
    have vk: "view t (lh_sector s i) = view s (lh_sector s i)" using t'(3) apply_writes_other nin kl by simp
    have "\<exists>u. write_log_block i t = Ret () u \<and> wrote (log_block t i) (view t (lh_sector t i)) t u"
    proof (rule write_log_block_ret [OF t'(1) sl(1) il(2)])
      show "log_block t i \<noteq> lh_sector t i" using lb(3) kl sl by (auto simp: less_imp_le)
      show "log_block t i < disksize t" using lb(2) sl by simp
      have "lstart s \<le> log_block s i" using lb(3) by simp
      then show "lh_sector t i < disksize t" using kl lb(2) sl by simp
      show "fits {} t (log_block t i)" using c d by (simp add: fits_def)
      show "fits {b} t (lh_sector t i)" for b using k d sl by (simp add: fits_def)
    qed
    then obtain u where "write_log_block i t = Ret () u" "wrote (log_block s i) (view s (lh_sector s i)) t u"
      using sl vk by auto
    then show "\<exists>u. write_log_block i t = Ret () u \<and> ?I (Suc i) u"
      using wrote_all_step [OF t] by (auto simp: log_writes_Suc)
  qed simp
  then show ?thesis by (simp add: write_log_def kfun_simps)
qed

definition install_writes :: "'a logsys_scheme \<Rightarrow> (uint \<Rightarrow> block) \<Rightarrow> nat \<Rightarrow> (uint \<times> block) list" where
  "install_writes s v n = map (\<lambda>i. (lh_sector s i, v (log_block s i))) [0..<n]"

lemma install_writes_Suc: "install_writes s v (Suc n) = install_writes s v n @ [(lh_sector s n, v (log_block s n))]"
  by (simp add: install_writes_def)

lemma install_trans_ret:
  assumes "bio_ok {} s" "log_geom s" "lh_n s \<le> int LOGSIZE" "lh_n s < lsize s" "distinct (logged s)"
    "\<forall>k\<in>set (logged s). k < lstart s" "card (dirty_sectors s) < NBUF"
    "\<forall>k\<in>set (logged s). k \<in> dirty_sectors s \<or> card (dirty_sectors s) + 1 < NBUF"
  shows "\<exists>t. install_trans s = Ret () t \<and> wrote_all (install_writes s (view s) (nat (lh_n s))) s t"
proof -
  let ?n = "nat (lh_n s)" and ?I = "\<lambda>i t. wrote_all (install_writes s (view s) i) s t"
  have "\<exists>t. for_each [0..<?n] install_block s = Ret () t \<and> ?I ?n t"
  proof (rule for_each_upto [where I = ?I])
    show "?I 0 s" using assms(1) by (simp add: install_writes_def wrote_all_Nil)
  next
    fix i t assume i: "i < ?n" and t: "?I i t"
    then have t': "bio_ok {} t" "same_log s t" "view t = apply_writes (install_writes s (view s) i) (view s)"
      "dirty_sectors t = dirty_sectors s - fst ` set (install_writes s (view s) i)" by (auto simp: wrote_all_def)
    have il: "int i < lsize s - 1" "i < LOGSIZE" using i assms(3,4) by auto
    note lb = log_block_unat [OF assms(2) il(1)]
    have k: "lh_sector s i \<in> set (logged s)" using i by (simp add: logged_nth)
    then have kl: "lh_sector s i < lstart s" using assms(6) by simp
    have fs: "fst ` set (install_writes s (view s) i) = lh_sector s ` {..<i}" by (force simp: install_writes_def)
    have nk: "lh_sector s i \<notin> lh_sector s ` {..<i}"
      using assms(5) i by (auto simp: logged_nth nth_eq_iff_index_eq)
    have nl: "log_block s i \<notin> lh_sector s ` {..<i}"
    proof
      assume "log_block s i \<in> lh_sector s ` {..<i}"
      then obtain j where "j < i" "log_block s i = lh_sector s j" by auto
      then have "log_block s i < lstart s" using assms(6) i by (simp add: logged_nth)
      then show False using lb(3) by simp
    qed
    have "card (dirty_sectors t) \<le> card (dirty_sectors s)"
      unfolding t'(4) using dirty_buffers(2) [OF assms(1)] by (intro card_mono) auto
    then have c: "card (dirty_sectors t) < NBUF" "lh_sector s i \<in> dirty_sectors t \<or> card (dirty_sectors t) + 1 < NBUF"
      using assms(7,8) k nk unfolding t'(4) fs by auto
    have sl: "ldev t = 1" "log_block t i = log_block s i" "lh_sector t i = lh_sector s i" "disksize t = disksize s"
      using t'(2) assms(2) by (auto simp: same_log_def log_geom_def)
    have vl: "view t (log_block s i) = view s (log_block s i)" using t'(3) apply_writes_other nl fs by simp
    have "\<exists>u. install_block i t = Ret () u \<and> wrote (lh_sector t i) (view t (log_block t i)) t u"
    proof (rule install_block_ret [OF t'(1) sl(1) il(2)])
      show "log_block t i \<noteq> lh_sector t i" using lb(3) kl sl by (auto simp: less_imp_le)
      show "log_block t i < disksize t" using lb(2) sl by simp
      have "lstart s \<le> log_block s i" using lb(3) by simp
      then show "lh_sector t i < disksize t" using kl lb(2) sl by simp
      show "fits {} t (log_block t i)" using c by (simp add: fits_def)
      show "fits {b} t (lh_sector t i)" for b using c sl by (simp add: fits_def)
    qed
    then obtain u where "install_block i t = Ret () u" "wrote (lh_sector s i) (view s (log_block s i)) t u"
      using sl vl by auto
    then show "\<exists>u. install_block i t = Ret () u \<and> ?I (Suc i) u"
      using wrote_all_step [OF t] by (auto simp: install_writes_Suc)
  qed simp
  then show ?thesis by (simp add: install_trans_def kfun_simps)
qed

text \<open>All the writes of a commit, in order.\<close>

definition commit_writes :: "'a logsys_scheme \<Rightarrow> (uint \<times> block) list" where
  "commit_writes s = (let n = nat (lh_n s); h = head_block (view s (lstart s)) (lh_n s) (lh_sector s) in
     log_writes s (view s) n @ [(lstart s, h)] @ home_writes s (view s) n @ [(lstart s, head_block h 0 (lh_sector s))])"

lemma log_writes_lookup:
  assumes "log_geom s" "int n < lsize s" "i < n"
  shows "apply_writes (log_writes s v n) f (log_block s i) = v (lh_sector s i)"
proof (rule apply_writes_in)
  show "distinct (map fst (log_writes s v n))"
    using log_block_inj [OF assms(1)] assms(2) by (auto simp: log_writes_def distinct_map inj_on_def comp_def)
  show "(log_block s i, v (lh_sector s i)) \<in> set (log_writes s v n)" using assms(3) by (auto simp: log_writes_def)
qed

lemma log_writes_other:
  assumes "log_geom s" "int n < lsize s" "k \<le> lstart s"
  shows "apply_writes (log_writes s v n) f k = f k"
proof (rule apply_writes_other)
  show "k \<notin> fst ` set (log_writes s v n)"
  proof
    assume "k \<in> fst ` set (log_writes s v n)"
    then obtain j where j: "j < n" "k = log_block s j" by (auto simp: log_writes_def)
    then show False using log_block_unat(3) [OF assms(1), of j] assms(2,3) by simp
  qed
qed

lemma home_writes_lookup:
  assumes "distinct (map (lh_sector s) [0..<n])"
  shows "apply_writes (home_writes s v n) f k = (if k \<in> lh_sector s ` {..<n} then v k else f k)"
proof (cases "k \<in> lh_sector s ` {..<n}")
  case True
  have "apply_writes (home_writes s v n) f k = v k"
  proof (rule apply_writes_in)
    show "distinct (map fst (home_writes s v n))" using assms by (simp add: home_writes_def comp_def)
    show "(k, v k) \<in> set (home_writes s v n)" using True by (auto simp: home_writes_def)
  qed
  with True show ?thesis by simp
next
  case False
  then have "k \<notin> fst ` set (home_writes s v n)" by (force simp: home_writes_def)
  with False show ?thesis by (simp add: apply_writes_other)
qed

lemma cache_log_upd [simp]:
  "bio_ok H (s\<lparr>lh_n := n\<rparr>) = bio_ok H s" "view (s\<lparr>lh_n := n\<rparr>) = view s" "dirty_sectors (s\<lparr>lh_n := n\<rparr>) = dirty_sectors s"
  "bio_ok H (s\<lparr>lh_sector := f\<rparr>) = bio_ok H s" "view (s\<lparr>lh_sector := f\<rparr>) = view s" "dirty_sectors (s\<lparr>lh_sector := f\<rparr>) = dirty_sectors s"
  "bio_ok H (s\<lparr>outstanding := n\<rparr>) = bio_ok H s" "view (s\<lparr>outstanding := n\<rparr>) = view s" "dirty_sectors (s\<lparr>outstanding := n\<rparr>) = dirty_sectors s"
  "bio_ok H (s\<lparr>committing := b\<rparr>) = bio_ok H s" "view (s\<lparr>committing := b\<rparr>) = view s" "dirty_sectors (s\<lparr>committing := b\<rparr>) = dirty_sectors s"
  by (auto simp: bio_ok_def buf_ok_def view_def dirty_sectors_def split: option.split)

lemma apply_writes_Cons [simp]: "apply_writes ((k, d) # ws) f = apply_writes ws (f(k := d))"
  by (simp add: apply_writes_def)

lemma commit_ret:
  assumes "log_ok s" "0 < lh_n s"
  shows "\<exists>t. commit s = Ret () t \<and> bio_ok {} t \<and> same_log (s\<lparr>lh_n := 0\<rparr>) t \<and> dwrites t = dwrites s @ commit_writes s \<and>
    disk t = apply_writes (commit_writes s) (disk s) \<and> view t = apply_writes (commit_writes s) (view s) \<and> dirty_sectors t = {}"
proof -
  let ?n = "nat (lh_n s)" and ?h = "head_block (view s (lstart s)) (lh_n s) (lh_sector s)"
  have ok: "bio_ok {} s" "log_geom s" "lh_n s \<le> int LOGSIZE" "lh_n s < lsize s" "lh_n s < int NBUF" "distinct (logged s)"
    "\<forall>k\<in>set (logged s). k < lstart s" "dirty_sectors s = set (logged s)" using assms(1) by (auto simp: log_ok_def)
  have c: "card (set (logged s)) < NBUF" using distinct_card [OF ok(6)] ok(5) assms(2) by (simp add: nat_less_iff)
  have lsd: "lstart s < disksize s" using ok(2) unfolding log_geom_def word_less_nat_alt by linarith
  have n: "int ?n < lsize s" using ok(4) assms(2) by simp
  obtain t1 where t1: "write_log s = Ret () t1" "wrote_all (log_writes s (view s) ?n) s t1" using write_log_ret [OF assms(1)] by blast
  then have w1: "bio_ok {} t1" "same_log s t1" "view t1 = apply_writes (log_writes s (view s) ?n) (view s)"
    "dirty_sectors t1 = set (logged s) - fst ` set (log_writes s (view s) ?n)" using ok(8) by (auto simp: wrote_all_def)
  have v1: "view t1 (lstart s) = view s (lstart s)" using w1(3) log_writes_other [OF ok(2) n, of "lstart s"] by simp
  have d1: "dirty_sectors t1 = set (logged s)"
  proof -
    have "k \<notin> fst ` set (log_writes s (view s) ?n)" if "k < lstart s" for k
    proof
      assume "k \<in> fst ` set (log_writes s (view s) ?n)"
      then obtain j where "j < ?n" "k = log_block s j" by (auto simp: log_writes_def)
      then show False using log_block_unat(3) [OF ok(2), of j] n that by (simp add: less_imp_le)
    qed
    then show ?thesis unfolding w1(4) using ok(7) by blast
  qed
  have l1: "ldev t1 = 1" "lstart t1 = lstart s" "disksize t1 = disksize s" "lh_n t1 = lh_n s" "lh_sector t1 = lh_sector s"
    using w1(2) ok(2) by (auto simp: same_log_def log_geom_def)
  have "fits {} t1 (lstart t1)" using c d1 by (simp add: fits_def)
  then obtain t2 where t2: "write_head t1 = Ret () t2" "wrote (lstart s) ?h t1 t2"
    using write_head_ret [OF w1(1) l1(1)] lsd ok(3) l1 v1 by auto
  have a2: "wrote_all (log_writes s (view s) ?n @ [(lstart s, ?h)]) s t2" by (rule wrote_all_step [OF t1(2) t2(2)])
  have w2: "bio_ok {} t2" "same_log t1 t2" "view t2 = (view t1)(lstart s := ?h)" "dirty_sectors t2 = set (logged s) - {lstart s}"
    using t2(2) d1 by (auto simp: wrote_def)
  have sl2: "same_log s t2" using w1(2) w2(2) by (rule same_log_trans)
  have d2: "dirty_sectors t2 = set (logged s)" unfolding w2(4) using ok(7) by auto
  have f2: "log_geom t2" "lh_n t2 = lh_n s" "lsize t2 = lsize s" "logged t2 = logged s" "lstart t2 = lstart s" "lh_sector t2 = lh_sector s"
    using sl2 ok(2) by (auto simp: same_log_def log_geom_def logged_def)
  have "install_writes t2 (view t2) ?n = home_writes s (view s) ?n"
  proof -
    have "view t2 (log_block s i) = view s (lh_sector s i)" if "i < ?n" for i
    proof -
      have "log_block s i \<noteq> lstart s" using log_block_unat(3) [OF ok(2), of i] n that by auto
      then show ?thesis using w2(3) w1(3) log_writes_lookup [OF ok(2) n that] by simp
    qed
    then show ?thesis using same_log_block [OF sl2] f2(6) by (simp add: install_writes_def home_writes_def)
  qed
  moreover have "\<exists>t. install_trans t2 = Ret () t \<and> wrote_all (install_writes t2 (view t2) (nat (lh_n t2))) t2 t"
    using ok c d2 w2(1) f2 by (intro install_trans_ret) auto
  ultimately obtain t3 where t3: "install_trans t2 = Ret () t3" "wrote_all (home_writes s (view s) ?n) t2 t3"
    using f2(2) by auto
  have a3: "wrote_all ((log_writes s (view s) ?n @ [(lstart s, ?h)]) @ home_writes s (view s) ?n) s t3"
    by (rule wrote_all_trans [OF a2 t3(2)])
  have w3: "bio_ok {} t3" "same_log s t3" "view t3 = apply_writes (home_writes s (view s) ?n) (view t2)" "dirty_sectors t3 = {}"
  proof -
    show "bio_ok {} t3" "same_log s t3" using a3 by (auto simp: wrote_all_def)
    show "view t3 = apply_writes (home_writes s (view s) ?n) (view t2)" using t3(2) by (simp add: wrote_all_def)
    have "fst ` set (home_writes s (view s) ?n) = set (logged s)" by (force simp: home_writes_def logged_def)
    then show "dirty_sectors t3 = {}" using t3(2) d2 by (simp add: wrote_all_def)
  qed
  have "lstart s \<notin> lh_sector s ` {..<?n}" using ok(7) by (auto simp: logged_def)
  then have v3: "view t3 (lstart s) = ?h"
    using w3(3) w2(3) home_writes_lookup [of s ?n] ok(6) by (simp add: logged_def)
  let ?t = "t3\<lparr>lh_n := 0\<rparr>"
  have l3: "ldev ?t = 1" "lstart ?t = lstart s" "disksize ?t = disksize s" "lh_sector ?t = lh_sector s"
    using w3(2) ok(2) by (auto simp: same_log_def log_geom_def)
  have "fits {} ?t (lstart ?t)" using w3(4) c by (simp add: fits_def)
  then obtain t4 where t4: "write_head ?t = Ret () t4" "wrote (lstart s) (head_block ?h 0 (lh_sector s)) ?t t4"
    using write_head_ret [of ?t] w3(1) l3 lsd v3 by auto
  have "commit s = Ret () t4" using assms(2) t1(1) t2(1) t3(1) t4(1) by (simp add: commit_def kfun_simps)
  moreover have "same_log (s\<lparr>lh_n := 0\<rparr>) ?t" using w3(2) by (auto simp: same_log_def)
  then have "same_log (s\<lparr>lh_n := 0\<rparr>) t4" using t4(2) same_log_trans by (auto simp: wrote_def)
  ultimately show ?thesis
    using t4(2) a3 w3(4) by (intro exI [of _ t4]) (auto simp: wrote_def wrote_all_def commit_writes_def Let_def apply_writes_append)
qed

section \<open>Recovery\<close>

lemma clean_iff: "clean s \<longleftrightarrow> bio_ok {} s \<and> dirty_sectors s = {}"
proof
  assume "bio_ok {} s \<and> dirty_sectors s = {}"
  moreover have "holds (bufs s) (bsector (bufs s i)) i" if "bio_ok {} s" "i < NBUF" "bdirty (bufs s i)" for i
    using that by (auto simp: bio_ok_def buf_ok_def holds_def split: if_splits)
  ultimately show "clean s" by (auto simp: clean_def dirty_sectors_def)
qed (auto simp: clean_def dirty_sectors_def)

lemma read_head_loop:
  assumes "m \<le> LOGSIZE"
  shows "\<exists>t. for_each [0..<m] (\<lambda>i. set_sector i (f i)) s = Ret () t \<and> t = s\<lparr>lh_sector := lh_sector t\<rparr> \<and>
    (\<forall>i<m. lh_sector t i = f i)"
proof -
  let ?I = "\<lambda>m t. t = s\<lparr>lh_sector := lh_sector t\<rparr> \<and> (\<forall>i<m. lh_sector t i = f i)"
  show ?thesis
  proof (rule for_each_upto [where I = ?I])
    fix i t assume i: "i < m" and t: "?I i t"
    let ?t = "t\<lparr>lh_sector := (lh_sector t)(i := f i)\<rparr>"
    have "set_sector i (f i) t = Ret () ?t" using i assms by (simp add: set_sector_def kfun_simps)
    moreover have "?t = s\<lparr>lh_sector := lh_sector ?t\<rparr>" using t [THEN conjunct1] by (metis logsys.update_convs(7) logsys.select_convs(7) logsys.surjective)
    moreover have "\<forall>j<Suc i. lh_sector ?t j = f j" using t by (simp add: less_Suc_eq)
    ultimately show "\<exists>t'. set_sector i (f i) t = Ret () t' \<and> ?I (Suc i) t'" by blast
  qed simp_all
qed

definition disk_head :: "'a logsys_scheme \<Rightarrow> nat \<Rightarrow> (nat \<Rightarrow> uint) \<Rightarrow> bool" where
  "disk_head s n f \<longleftrightarrow> word_at (disk s (lstart s)) 0 = of_nat n \<and> n \<le> LOGSIZE \<and> int n < lsize s \<and>
     (\<forall>i<n. word_at (disk s (lstart s)) (4 + 4 * i) = f i \<and> f i < lstart s) \<and> distinct (map f [0..<n])"

lemma sint_small: "n < 2 ^ 31 \<Longrightarrow> sint (of_nat n :: uint) = int n"
  by (simp add: signed_of_nat signed_take_bit_int_eq_self)

lemma read_head_ret:
  assumes "clean s" "log_geom s" "disk_head s n f"
  shows "\<exists>t. read_head s = Ret () t \<and> clean t \<and> quiet s (t\<lparr>lh_n := lh_n s, lh_sector := lh_sector s\<rparr>) \<and>
    lh_n t = int n \<and> (\<forall>i<n. lh_sector t i = f i)"
proof -
  have io: "bio_ok {} s" and ldev: "ldev s = 1" using assms(1,2) by (simp_all add: clean_def log_geom_def)
  have ls: "lstart s < disksize s" using assms(2) unfolding log_geom_def word_less_nat_alt by linarith
  obtain b t where b: "bread 1 (lstart s) s = Ret b t" "bread_post {} (lstart s) s b t" using bread_ret [OF io ls clean_room [OF assms(1)]] by auto
  then have t: "b < NBUF" "bio_ok {b} t" "quiet s t" "holds (bufs t) (lstart s) b" "bdata (bufs t b) = view s (lstart s)"
    "\<forall>i<NBUF. bdirty (bufs t i) = bdirty (bufs s i)" "bdirty (bufs t b) \<or> bdata (bufs t b) = disk t (lstart s)"
    by (auto simp: bread_post_def)
  let ?d = "disk s (lstart s)"
  have dd: "bdata (bufs t b) = ?d" using t(5) clean_view [OF assms(1)] by simp
  have n: "n \<le> LOGSIZE" "word_at ?d 0 = of_nat n" using assms(3) by (auto simp: disk_head_def)
  then have sn: "sint (word_at ?d 0) = int n" using sint_small [of n] by (simp add: param_defs)
  let ?u = "t\<lparr>lh_n := int n\<rparr>"
  obtain v where v: "for_each [0..<n] (\<lambda>i. set_sector i (word_at ?d (4 + 4 * i))) ?u = Ret () v"
    "v = ?u\<lparr>lh_sector := lh_sector v\<rparr>" "\<forall>i<n. lh_sector v i = word_at ?d (4 + 4 * i)"
    using read_head_loop [OF n(1), of "\<lambda>i. word_at ?d (4 + 4 * i)" ?u] by blast
  then obtain g where g: "v = ?u\<lparr>lh_sector := g\<rparr>" by blast
  have bv: "bio_ok {b} v" "bdirty (bufs v b) \<or> bdata (bufs v b) = disk v (bsector (bufs v b))"
    using t(2,4,7) g by (auto simp: holds_def)
  obtain w where w: "brelse b v = Ret () w" "bio_ok ({b} - {b}) w" "quiet v w" "\<forall>i. same_buf (bufs v i) (bufs w i)"
    using brelse_ret [OF bv(1) _ bv(2)] by blast
  have "clean w" using w(2,4) t(6) g assms(1) by (auto simp: clean_def same_buf_def)
  moreover have sl: "same_log v w" using w(3) by (rule quiet_log)
  moreover have "quiet s (w\<lparr>lh_n := lh_n s, lh_sector := lh_sector s\<rparr>)"
  proof -
    have "same_log s t" using t(3) by (rule quiet_log)
    then have "bio.more (w\<lparr>lh_n := lh_n s, lh_sector := lh_sector s\<rparr>) = bio.more s"
      using sl g by (cases s; cases w) (auto simp: same_log_def)
    then show ?thesis using w(3) t(3) g by (auto simp: quiet_def)
  qed
  moreover have "read_head s = Ret () w"
    using b(1) v(1) w(1) dd sn ldev by (simp add: read_head_def log_bread_def kfun_simps)
  ultimately show ?thesis using v(3) g assms(3) by (intro exI [of _ w]) (auto simp: same_log_def disk_head_def)
qed

definition recover_writes :: "'a logsys_scheme \<Rightarrow> nat \<Rightarrow> (nat \<Rightarrow> uint) \<Rightarrow> (uint \<times> block) list" where
  "recover_writes s n f = map (\<lambda>i. (f i, disk s (log_block s i))) [0..<n]"

lemma recover_ret:
  assumes "clean s" "log_geom s" "disk_head s n f"
  shows "\<exists>t h. recover_from_log s = Ret () t \<and> clean t \<and> log_geom t \<and> lstart t = lstart s \<and> lsize t = lsize s \<and>
    outstanding t = outstanding s \<and> committing t = committing s \<and> disksize t = disksize s \<and> lh_n t = 0 \<and>
    word_at h 0 = 0 \<and> disk t = (apply_writes (recover_writes s n f) (disk s))(lstart s := h)"
proof -
  obtain t1 where t1: "read_head s = Ret () t1" "clean t1" "quiet s (t1\<lparr>lh_n := lh_n s, lh_sector := lh_sector s\<rparr>)"
    "lh_n t1 = int n" "\<forall>i<n. lh_sector t1 i = f i" using read_head_ret [OF assms] by blast
  have sl1: "same_log s (t1\<lparr>lh_n := lh_n s, lh_sector := lh_sector s\<rparr>)" using t1(3) by (rule quiet_log)
  have f1: "log_geom t1" "lstart t1 = lstart s" "lsize t1 = lsize s" "disk t1 = disk s" "disksize t1 = disksize s"
    "outstanding t1 = outstanding s" "committing t1 = committing s" "ldev t1 = 1"
    using sl1 t1(3) assms(2) by (auto simp: same_log_def quiet_def log_geom_def)
  have lb: "log_block t1 i = log_block s i" for i using f1(2) by (simp add: log_block_def)
  have lg: "logged t1 = map f [0..<n]" using t1(4,5) by (simp add: logged_def)
  have dh: "n \<le> LOGSIZE" "int n < lsize s" "\<forall>i<n. f i < lstart s" "distinct (map f [0..<n])"
    using assms(3) by (auto simp: disk_head_def)
  have d1: "bio_ok {} t1" "dirty_sectors t1 = {}" "view t1 = disk t1" using t1(2) clean_iff clean_view by blast+
  have nb: "1 < NBUF" by (simp add: param_defs)
  have iw: "install_writes t1 (view t1) n = recover_writes s n f"
    using t1(5) lb d1(3) f1(4) by (simp add: install_writes_def recover_writes_def)
  obtain t2 where t2: "install_trans t1 = Ret () t2" "wrote_all (recover_writes s n f) t1 t2"
    using install_trans_ret [OF d1(1) f1(1)] t1(4) f1 dh lg d1(2) nb iw by auto
  let ?t = "t2\<lparr>lh_n := 0\<rparr>"
  have w2: "bio_ok {} ?t" "dirty_sectors ?t = {}" "disk ?t = apply_writes (recover_writes s n f) (disk s)" "same_log t1 t2"
    using t2(2) d1(2) f1(4) by (auto simp: wrote_all_def)
  have f2: "ldev ?t = 1" "lstart ?t = lstart s" "disksize ?t = disksize s" "log_geom ?t"
    using w2(4) f1 by (auto simp: same_log_def log_geom_def)
  have ls: "lstart ?t < disksize ?t" using f2(4) unfolding log_geom_def word_less_nat_alt by linarith
  have "fits {} ?t (lstart ?t)" using w2(2) nb by (simp add: fits_def)
  then obtain t3 h where t3: "write_head ?t = Ret () t3" "wrote (lstart s) h ?t t3" "word_at h 0 = 0"
    using write_head_ret [OF w2(1) f2(1) ls] f2(2) head_block_n [of _ 0] by fastforce
  have "recover_from_log s = Ret () t3" using t1(1) t2(1) t3(1) by (simp add: recover_from_log_def kfun_simps)
  moreover have "clean t3" using t3(2) w2(2) by (auto simp: wrote_def clean_iff)
  moreover have "log_geom t3" "lstart t3 = lstart s" "lsize t3 = lsize s" "outstanding t3 = outstanding s" "committing t3 = committing s"
    "disksize t3 = disksize s" "lh_n t3 = 0"
    using t3(2) w2(4) f1 f2(4) by (auto simp: wrote_def same_log_def log_geom_def)
  moreover have "disk t3 = (apply_writes (recover_writes s n f) (disk s))(lstart s := h)" using t3(2) w2(3) by (simp add: wrote_def)
  ultimately show ?thesis using t3(3) by blast
qed

text \<open>Reading the super block.\<close>

lemma readsb_ret:
  assumes "clean s" "1 < disksize s"
  shows "\<exists>t. readsb 1 s = Ret (superblock_of (disk s 1)) t \<and> clean t \<and> quiet s t"
proof -
  have io: "bio_ok {} s" using assms(1) by (simp add: clean_def)
  obtain b t where b: "bread 1 1 s = Ret b t" "bread_post {} 1 s b t" using bread_ret [OF io assms(2) clean_room [OF assms(1)]] by auto
  then have t: "b < NBUF" "bio_ok {b} t" "quiet s t" "holds (bufs t) 1 b" "bdata (bufs t b) = view s 1"
    "\<forall>i<NBUF. bdirty (bufs t i) = bdirty (bufs s i)" "bdirty (bufs t b) \<or> bdata (bufs t b) = disk t 1"
    by (auto simp: bread_post_def)
  have "bdirty (bufs t b) \<or> bdata (bufs t b) = disk t (bsector (bufs t b))" using t(4,7) by (auto simp: holds_def)
  then obtain u where u: "brelse b t = Ret () u" "bio_ok ({b} - {b}) u" "quiet t u" "\<forall>i. same_buf (bufs t i) (bufs u i)"
    using brelse_ret [OF t(2), of b] by blast
  have "clean u" using u(2,4) t(6) assms(1) by (auto simp: clean_def same_buf_def)
  with b(1) u(1,3) t(3,5) show ?thesis using clean_view [OF assms(1)] quiet_trans
    by (auto simp: readsb_def kfun_simps)
qed

end
