(* ===== verification/Trans.thy ===== *)
theory Trans
  imports Log
begin

text \<open>
  Transactions as the file system uses them: blocks are read with \<^verbatim>\<open>bread\<close>, changed in the cache,
  recorded with \<^verbatim>\<open>log_write\<close> and released with \<^verbatim>\<open>brelse\<close>.  Between \<^verbatim>\<open>begin_op\<close> and \<^verbatim>\<open>end_op\<close> the
  disk does not change; the view of the cache does.
\<close>

section \<open>The invariant inside a transaction\<close>

definition log_inv :: "nat set \<Rightarrow> 'a logsys_scheme \<Rightarrow> bool" where
  "log_inv H s \<longleftrightarrow> bio_ok H s \<and> log_geom s \<and> 0 \<le> lh_n s \<and> lh_n s < lsize s \<and> distinct (logged s) \<and>
     (\<forall>k\<in>set (logged s). k < lstart s) \<and> dirty_sectors s = set (logged s)"

lemma log_ok_inv: "log_ok s \<longleftrightarrow> log_inv {} s"
  by (auto simp: log_ok_def log_inv_def log_geom_def param_defs)

text \<open>What a step inside a transaction keeps; it logs at most \<open>c\<close> more sectors.\<close>

definition tx_frame :: "nat \<Rightarrow> 'a logsys_scheme \<Rightarrow> 'a logsys_scheme \<Rightarrow> bool" where
  "tx_frame c s t \<longleftrightarrow> disk t = disk s \<and> dwrites t = dwrites s \<and> disksize t = disksize s \<and> lstart t = lstart s \<and> lsize t = lsize s \<and>
     outstanding t = outstanding s \<and> committing t = committing s \<and> ldev t = ldev s \<and> lh_n t \<le> lh_n s + int c \<and>
     logsys.more t = logsys.more s"

lemma tx_frame_refl [simp]: "tx_frame 0 s s"
  by (simp add: tx_frame_def)

lemma tx_frame_trans: "tx_frame c s t \<Longrightarrow> tx_frame d t u \<Longrightarrow> tx_frame (c + d) s u"
  by (simp add: tx_frame_def)

lemma tx_frame_mono: "tx_frame c s t \<Longrightarrow> c \<le> d \<Longrightarrow> tx_frame d s t"
  by (auto simp: tx_frame_def)

lemma quiet_frame: "quiet s t \<Longrightarrow> tx_frame 0 s t"
  using quiet_log [of s t] by (auto simp: tx_frame_def same_log_def quiet_def)

lemma dirty_card: "log_inv H s \<Longrightarrow> card (dirty_sectors s) = nat (lh_n s)"
  using distinct_card [of "logged s"] by (simp add: log_inv_def)

text \<open>Room in the cache for one more buffer besides those of \<open>H\<close>.\<close>

definition tx_room :: "nat set \<Rightarrow> 'a logsys_scheme \<Rightarrow> bool" where
  "tx_room H s \<longleftrightarrow> lh_n s + int (card H) < int NBUF"

lemma tx_bread:
  assumes "log_inv H s" "k < disksize s" "tx_room H s" "\<forall>i\<in>H. bsector (bufs s i) \<noteq> k"
  shows "\<exists>b t. bread 1 k s = Ret b t \<and> log_inv (insert b H) t \<and> b < NBUF \<and> b \<notin> H \<and> bsector (bufs t b) = k \<and>
    bdata (bufs t b) = view s k \<and> view t = view s \<and> tx_frame 0 s t \<and> logged t = logged s \<and>
    (\<forall>i\<in>H. bufs t i = bufs s i) \<and> (bdirty (bufs t b) \<or> bdata (bufs t b) = disk t k)"
proof -
  have io: "bio_ok H s" and n: "0 \<le> lh_n s" using assms(1) by (auto simp: log_inv_def)
  have "fits H s k" using assms(3) n unfolding fits_def tx_room_def dirty_card [OF assms(1)] by (intro disjI2) linarith
  from bread_fits [OF io assms(2) this assms(4)] obtain b t where b: "bread 1 k s = Ret b t" "bread_post H k s b t"
    "dirty_sectors t = dirty_sectors s" by blast
  then have q: "quiet s t" by (simp add: bread_post_def)
  then have sl: "same_log s t" by (rule quiet_log)
  have lg: "logged t = logged s" using sl by (simp add: logged_def same_log_def)
  have "log_inv (insert b H) t" using assms(1) b(2,3) sl lg by (auto simp: log_inv_def bread_post_def log_geom_def same_log_def)
  moreover have "view t = view s" using b(2) by (auto simp: bread_post_def)
  ultimately show ?thesis using b quiet_frame [OF q] lg by (auto simp: bread_post_def holds_def)
qed

lemma tx_set_data:
  assumes "log_inv H s" "b \<in> H" and t: "t = s\<lparr>bufs := (bufs s)(b := (bufs s b)\<lparr>bdata := d\<rparr>)\<rparr>"
  shows "log_inv H t" "view t = (view s)(bsector (bufs s b) := d)" "tx_frame 0 s t" "logged t = logged s"
    "bdata (bufs t b) = d" "i \<noteq> b \<Longrightarrow> bufs t i = bufs s i" "bsector (bufs t i) = bsector (bufs s i)"
proof -
  have io: "bio_ok H s" using assms(1) by (auto simp: log_inv_def)
  note bw = buf_write [OF io assms(2) t]
  have sl: "same_log s t" using bw(3) by (rule quiet_log)
  show lg: "logged t = logged s" using sl by (simp add: logged_def same_log_def)
  have "dirty_sectors t = dirty_sectors s" using bw(5,6) by (simp add: dirty_sectors_def)
  then show "log_inv H t" using assms(1) bw(1) sl lg by (auto simp: log_inv_def log_geom_def same_log_def)
  show "view t = (view s)(bsector (bufs s b) := d)" using bw(2) by auto
  show "tx_frame 0 s t" by (rule quiet_frame [OF bw(3)])
qed (auto simp: t)

lemma tx_brelse:
  assumes "log_inv H s" "b \<in> H" "bdirty (bufs s b) \<or> bdata (bufs s b) = disk s (bsector (bufs s b))"
  shows "\<exists>t. brelse b s = Ret () t \<and> log_inv (H - {b}) t \<and> view t = view s \<and> tx_frame 0 s t \<and> logged t = logged s \<and>
    (\<forall>i. same_buf (bufs s i) (bufs t i))"
proof -
  have io: "bio_ok H s" using assms(1) by (auto simp: log_inv_def)
  obtain t where t: "brelse b s = Ret () t" "bio_ok (H - {b}) t" "quiet s t" "\<forall>j. view t j = view s j"
    "\<forall>i. same_buf (bufs s i) (bufs t i)" "dirty_sectors t = dirty_sectors s" using brelse_fits [OF io assms(2,3)] by blast
  have sl: "same_log s t" using t(3) by (rule quiet_log)
  have lg: "logged t = logged s" using sl by (simp add: logged_def same_log_def)
  have "log_inv (H - {b}) t" using assms(1) t(2,6) sl lg by (auto simp: log_inv_def log_geom_def same_log_def)
  with t lg quiet_frame [OF t(3)] show ?thesis by auto
qed

lemma first_index_logged:
  "first_index (nat (lh_n s)) (\<lambda>i. lh_sector s i = k) = None \<longleftrightarrow> k \<notin> set (logged s)"
  by (auto simp: first_index_None logged_def)

lemma tx_log_write:
  assumes "log_inv H s" "b \<in> H" "bsector (bufs s b) < lstart s" "1 \<le> outstanding s" "lh_n s < lsize s - 1"
  shows "\<exists>t. log_write b s = Ret () t \<and> log_inv H t \<and> view t = view s \<and> tx_frame 1 s t \<and>
    logged t = (if bsector (bufs s b) \<in> set (logged s) then logged s else logged s @ [bsector (bufs s b)]) \<and>
    bufs t = (bufs s)(b := (bufs s b)\<lparr>bdirty := True\<rparr>)"
proof -
  let ?k = "bsector (bufs s b)" and ?n = "nat (lh_n s)"
  have io: "bio_ok H s" and g: "log_geom s" and n: "0 \<le> lh_n s" "lh_n s < int LOGSIZE"
    using assms(1,5) by (auto simp: log_inv_def log_geom_def)
  define u where "u = s\<lparr>bufs := (bufs s)(b := (bufs s b)\<lparr>bdirty := True\<rparr>)\<rparr>"
  note bd = buf_dirty [OF io assms(2) u_def]
  have bN: "b < NBUF" using io assms(2) by (auto simp: bio_ok_def)
  have hb: "holds (bufs s) ?k b" using io assms(2) bN by (auto simp: bio_ok_def buf_ok_def holds_def split: if_splits)
  have ds: "dirty_sectors u = insert ?k (dirty_sectors s)"
  proof -
    have "holds (bufs s) k b \<longleftrightarrow> k = ?k" for k using hb by (auto simp: holds_def)
    then show ?thesis using bd(5,6) bN by (auto simp: dirty_sectors_def)
  qed
  show ?thesis
  proof (cases "?k \<in> set (logged s)")
    case True
    then obtain i where i: "first_index ?n (\<lambda>i. lh_sector s i = ?k) = Some i"
      using first_index_logged [of s ?k] by (cases "first_index ?n (\<lambda>i. lh_sector s i = ?k)") auto
    then have il: "i < ?n" "lh_sector s i = ?k" using first_index_Some by blast+
    have iL: "i < LOGSIZE" using il(1) n by simp
    have "(lh_sector s)(i := ?k) = lh_sector s" using il(2) by auto
    then have r: "log_write b s = Ret () u"
      using assms(4,5) n il iL i by (simp add: log_write_def kfun_simps set_sector_def upd_buf_def u_def)
    have lg: "logged u = logged s" by (simp add: u_def logged_def)
    have "log_inv H u" using assms(1) bd(1) ds True lg unfolding log_inv_def by (auto simp: u_def log_geom_def)
    moreover have "view u = view s" using bd(2) by auto
    moreover have "tx_frame 1 s u" using tx_frame_mono [OF quiet_frame [OF bd(3)]] by simp
    ultimately show ?thesis using r lg True by (auto simp: u_def)
  next
    case False
    then have nf: "first_index ?n (\<lambda>i. lh_sector s i = ?k) = None" using first_index_logged [of s ?k] by simp
    define v where "v = u\<lparr>lh_sector := (lh_sector s)(?n := ?k), lh_n := lh_n s + 1\<rparr>"
    have iL: "?n < LOGSIZE" using n by simp
    have r: "log_write b s = Ret () v"
      using assms(4,5) n nf iL by (simp add: log_write_def kfun_simps set_sector_def upd_buf_def u_def v_def)
    have sn: "nat (lh_n s + 1) = Suc ?n" using n(1) by simp
    have lg: "logged v = logged s @ [?k]" by (simp add: v_def logged_def sn)
    have "log_inv H v"
      using assms(1,3,5) bd(1) ds False lg unfolding log_inv_def by (auto simp: v_def u_def log_geom_def)
    moreover have "view v = view s" using bd(2) by (auto simp: v_def)
    moreover have "tx_frame 1 s v" by (simp add: tx_frame_def v_def u_def)
    ultimately show ?thesis using r lg False by (auto simp: v_def u_def)
  qed
qed

section \<open>Reading and updating one block\<close>

definition tx_same :: "nat set \<Rightarrow> 'a logsys_scheme \<Rightarrow> 'a logsys_scheme \<Rightarrow> bool" where
  "tx_same H s t \<longleftrightarrow> (\<forall>i\<in>H. same_buf (bufs s i) (bufs t i))"

lemma tx_same_refl [simp]: "tx_same H s s"
  by (simp add: tx_same_def)

lemma tx_same_trans: "tx_same H s t \<Longrightarrow> tx_same H t u \<Longrightarrow> tx_same H s u"
  using same_buf_trans by (auto simp: tx_same_def)

lemma tx_room_frame: "tx_room H s \<Longrightarrow> tx_frame 0 s t \<Longrightarrow> tx_room H t"
  by (simp add: tx_room_def tx_frame_def)

lemma lh_n_logged: "log_inv H s \<Longrightarrow> lh_n s = int (length (logged s))"
  by (simp add: log_inv_def)

lemma tx_get:
  assumes "log_inv H s" "k < disksize s" "tx_room H s" "\<forall>i\<in>H. bsector (bufs s i) \<noteq> k"
  shows "\<exists>t. bind (bread 1 k) (\<lambda>b. bind (gets (\<lambda>s. g (bdata (bufs s b)))) (\<lambda>x. seq (brelse b) (return x))) s = Ret (g (view s k)) t \<and>
    log_inv H t \<and> view t = view s \<and> tx_frame 0 s t \<and> logged t = logged s \<and> tx_same H s t"
proof -
  obtain b t where b: "bread 1 k s = Ret b t" "log_inv (insert b H) t" "b \<notin> H" "bsector (bufs t b) = k"
    "bdata (bufs t b) = view s k" "view t = view s" "tx_frame 0 s t" "logged t = logged s"
    "\<forall>i\<in>H. bufs t i = bufs s i" "bdirty (bufs t b) \<or> bdata (bufs t b) = disk t k" using tx_bread [OF assms] by blast
  obtain u where u: "brelse b t = Ret () u" "log_inv (insert b H - {b}) u" "view u = view t" "tx_frame 0 t u" "logged u = logged t"
    "\<forall>i. same_buf (bufs t i) (bufs u i)" using tx_brelse [OF b(2), of b] b(4,10) by auto
  have "insert b H - {b} = H" using b(3) by simp
  then have "log_inv H u" using u(2) by simp
  moreover have "tx_frame 0 s u" using tx_frame_trans [OF b(7) u(4)] by simp
  moreover have "tx_same H s u" using b(9) u(6) by (auto simp: tx_same_def) metis
  ultimately show ?thesis using b u by (auto simp: kfun_simps)
qed

lemma tx_put:
  assumes "log_inv (insert b H) s" "b \<notin> H" "bsector (bufs s b) = k" "k < lstart s" "1 \<le> outstanding s" "lh_n s < lsize s - 1"
  shows "\<exists>t. seq (upd_buf b (\<lambda>x. x\<lparr>bdata := f (bdata x)\<rparr>)) (seq (log_write b) (brelse b)) s = Ret () t \<and>
    log_inv H t \<and> view t = (view s)(k := f (bdata (bufs s b))) \<and> tx_frame 1 s t \<and>
    logged t = (if k \<in> set (logged s) then logged s else logged s @ [k]) \<and> tx_same H s t"
proof -
  define w where "w = s\<lparr>bufs := (bufs s)(b := (bufs s b)\<lparr>bdata := f (bdata (bufs s b))\<rparr>)\<rparr>"
  note sd = tx_set_data [OF assms(1) _ w_def]
  have w: "log_inv (insert b H) w" "bsector (bufs w b) = k" "tx_frame 0 s w" "logged w = logged s" using sd(1,3,4,7) assms(3) by auto
  have c: "bsector (bufs w b) < lstart w" "1 \<le> outstanding w" "lh_n w < lsize w - 1" using w assms(4-6) by (auto simp: w_def)
  obtain u where u: "log_write b w = Ret () u" "log_inv (insert b H) u" "view u = view w" "tx_frame 1 w u"
    "logged u = (if k \<in> set (logged w) then logged w else logged w @ [k])"
    "bufs u = (bufs w)(b := (bufs w b)\<lparr>bdirty := True\<rparr>)" using tx_log_write [OF w(1) _ c] w(2) by auto
  have "bdirty (bufs u b)" using u(6) by simp
  then obtain v where v: "brelse b u = Ret () v" "log_inv (insert b H - {b}) v" "view v = view u" "tx_frame 0 u v" "logged v = logged u"
    "\<forall>i. same_buf (bufs u i) (bufs v i)" using tx_brelse [OF u(2), of b] by auto
  have "insert b H - {b} = H" using assms(2) by simp
  then have "log_inv H v" using v(2) by simp
  moreover have "tx_frame 1 s v" using tx_frame_trans [OF tx_frame_trans [OF w(3) u(4)] v(4)] by simp
  moreover have "tx_same H s v"
    unfolding tx_same_def
  proof
    fix i assume "i \<in> H"
    then have "i \<noteq> b" using assms(2) by auto
    then have "bufs u i = bufs s i" using u(6) by (simp add: w_def)
    then show "same_buf (bufs s i) (bufs v i)" using v(6) by metis
  qed
  moreover have "view v = (view s)(k := f (bdata (bufs s b)))" using v(3) u(3) sd(2) assms(3) by simp
  ultimately show ?thesis using u v w(4) by (auto simp: kfun_simps upd_buf_def w_def [symmetric])
qed

lemma tx_update:
  assumes "log_inv H s" "k < lstart s" "tx_room H s" "\<forall>i\<in>H. bsector (bufs s i) \<noteq> k" "1 \<le> outstanding s" "lh_n s < lsize s - 1"
  shows "\<exists>t. bind (bread 1 k) (\<lambda>b. seq (upd_buf b (\<lambda>x. x\<lparr>bdata := f (bdata x)\<rparr>)) (seq (log_write b) (brelse b))) s = Ret () t \<and>
    log_inv H t \<and> view t = (view s)(k := f (view s k)) \<and> tx_frame 1 s t \<and>
    logged t = (if k \<in> set (logged s) then logged s else logged s @ [k]) \<and> tx_same H s t"
proof -
  have kd: "k < disksize s"
    using assms(1,2) unfolding log_inv_def log_geom_def word_less_nat_alt by linarith
  obtain b t where b: "bread 1 k s = Ret b t" "log_inv (insert b H) t" "b \<notin> H" "bsector (bufs t b) = k"
    "bdata (bufs t b) = view s k" "view t = view s" "tx_frame 0 s t" "logged t = logged s" "\<forall>i\<in>H. bufs t i = bufs s i"
    using tx_bread [OF assms(1) kd assms(3,4)] by blast
  have n: "lh_n t = lh_n s"
    unfolding lh_n_logged [OF b(2)] lh_n_logged [OF assms(1)] b(8) ..
  have c: "k < lstart t" "1 \<le> outstanding t" "lh_n t < lsize t - 1" using b(7) assms(2,5,6) n by (auto simp: tx_frame_def)
  obtain u where u: "seq (upd_buf b (\<lambda>x. x\<lparr>bdata := f (bdata x)\<rparr>)) (seq (log_write b) (brelse b)) t = Ret () u"
    "log_inv H u" "view u = (view t)(k := f (bdata (bufs t b)))" "tx_frame 1 t u"
    "logged u = (if k \<in> set (logged t) then logged t else logged t @ [k])" "tx_same H t u" using tx_put [OF b(2-4) c] by blast
  have "tx_same H s u" using u(6) b(9) by (auto simp: tx_same_def)
  moreover have "tx_frame 1 s u" using tx_frame_trans [OF b(7) u(4)] by simp
  ultimately show ?thesis using b u by (auto simp: bind_apply)
qed

end
