(* ===== verification/Crash.thy ===== *)
theory Crash
  imports Trans
begin

text \<open>
  Crash safety of the log: what recovery makes of the disk that a crash in the middle of a commit
  leaves behind, and the room the log reserves for the operations that are under way.
\<close>

lemma view_not_dirty:
  assumes "bio_ok {} s" "k \<notin> dirty_sectors s"
  shows "view s k = disk s k"
proof (cases "\<exists>i<NBUF. holds (bufs s) k i")
  case True
  then obtain i where i: "i < NBUF" "holds (bufs s) k i" by blast
  then have "\<not> bdirty (bufs s i)" using assms(2) by (auto simp: dirty_sectors_def)
  then have "bdata (bufs s i) = disk s k" using assms(1) i by (auto simp: bio_ok_def buf_ok_def holds_def)
  then show ?thesis using view_hit [OF assms(1) i] by simp
next
  case False
  then show ?thesis using view_miss by auto
qed

text \<open>The disk after the first \<open>k\<close> writes of a commit.\<close>

definition crash_disk :: "'a logsys_scheme \<Rightarrow> nat \<Rightarrow> uint \<Rightarrow> block" where
  "crash_disk s k = apply_writes (take k (commit_writes s)) (disk s)"

lemma crash_before_head:
  assumes "log_ok s" "k \<le> nat (lh_n s)" "j \<le> lstart s"
  shows "crash_disk s k j = disk s j"
proof -
  let ?n = "nat (lh_n s)"
  have ok: "log_geom s" "lh_n s < lsize s" "0 \<le> lh_n s" using assms(1) by (auto simp: log_ok_def)
  have "take k (commit_writes s) = log_writes s (view s) k"
    using assms(2) by (simp add: commit_writes_def Let_def log_writes_def take_map)
  then show ?thesis using log_writes_other [OF ok(1) _ assms(3), of k] ok assms(2) by (simp add: crash_disk_def)
qed

lemma crash_after_head:
  assumes "log_ok s" "m \<le> nat (lh_n s)"
  defines "h \<equiv> head_block (view s (lstart s)) (lh_n s) (lh_sector s)"
  shows "crash_disk s (Suc (nat (lh_n s)) + m) (lstart s) = h"
    and "i < nat (lh_n s) \<Longrightarrow> crash_disk s (Suc (nat (lh_n s)) + m) (log_block s i) = view s (lh_sector s i)"
    and "j < lstart s \<Longrightarrow> crash_disk s (Suc (nat (lh_n s)) + m) j = (if j \<in> lh_sector s ` {..<m} then view s j else disk s j)"
proof -
  let ?n = "nat (lh_n s)" and ?D = "crash_disk s (Suc (nat (lh_n s)) + m)"
  have ok: "log_geom s" "lh_n s < lsize s" "0 \<le> lh_n s" "distinct (logged s)" "\<forall>k\<in>set (logged s). k < lstart s"
    using assms(1) by (auto simp: log_ok_def)
  have n: "int ?n < lsize s" using ok by simp
  have dm: "distinct (map (lh_sector s) [0..<m])"
    using ok(4) assms(2) by (auto simp: logged_def distinct_map inj_on_def)
  have ln: "length (log_writes s (view s) ?n) = ?n" by (simp add: log_writes_def)
  have "take (Suc ?n + m) (commit_writes s) = log_writes s (view s) ?n @ [(lstart s, h)] @ home_writes s (view s) m"
    using assms(2) ln by (simp add: commit_writes_def Let_def h_def home_writes_def take_map)
  then have D: "?D j = (if j \<in> lh_sector s ` {..<m} then view s j else
      ((apply_writes (log_writes s (view s) ?n) (disk s))(lstart s := h)) j)" for j
    by (simp add: crash_disk_def apply_writes_append home_writes_lookup [OF dm])
  have lt: "lh_sector s i < lstart s" if "i < ?n" for i using ok(5) that by (auto simp: logged_def)
  have nl: "k \<notin> lh_sector s ` {..<m}" if "\<not> k < lstart s" for k using lt assms(2) that by auto
  then have "lstart s \<notin> lh_sector s ` {..<m}" by simp
  then show "?D (lstart s) = h" using D by simp
  show "?D (log_block s i) = view s (lh_sector s i)" if "i < ?n"
  proof -
    have g: "\<not> log_block s i \<le> lstart s" using log_block_unat(3) [OF ok(1), of i] n that by simp
    then have "log_block s i \<notin> lh_sector s ` {..<m}" using nl by (simp add: less_imp_le)
    then show ?thesis using D [of "log_block s i"] g log_writes_lookup [OF ok(1) n that] by auto
  qed
  show "?D j = (if j \<in> lh_sector s ` {..<m} then view s j else disk s j)" if "j < lstart s"
    using D [of j] log_writes_other [OF ok(1) n, of j] that by (auto simp: less_imp_le)
qed

lemma crash_after_all:
  assumes "log_ok s" "2 * nat (lh_n s) + 2 \<le> k"
  shows "word_at (crash_disk s k (lstart s)) 0 = 0"
    and "j < lstart s \<Longrightarrow> crash_disk s k j = (if j \<in> set (logged s) then view s j else disk s j)"
proof -
  let ?n = "nat (lh_n s)"
  let ?h = "head_block (view s (lstart s)) (lh_n s) (lh_sector s)"
  have len: "length (commit_writes s) = 2 * ?n + 2" by (simp add: commit_writes_def Let_def log_writes_def home_writes_def)
  have split: "commit_writes s = take (Suc ?n + ?n) (commit_writes s) @ [(lstart s, head_block ?h 0 (lh_sector s))]"
    by (simp add: commit_writes_def Let_def log_writes_def home_writes_def)
  have "take k (commit_writes s) = commit_writes s" using len assms(2) by simp
  then have "take k (commit_writes s) = take (Suc ?n + ?n) (commit_writes s) @ [(lstart s, head_block ?h 0 (lh_sector s))]"
    using split by simp
  then have D: "crash_disk s k = (crash_disk s (Suc ?n + ?n))(lstart s := head_block ?h 0 (lh_sector s))"
    unfolding crash_disk_def by (simp only: apply_writes_append apply_writes_single)
  show "word_at (crash_disk s k (lstart s)) 0 = 0" using D head_block_n [of ?h 0] by simp
  show "crash_disk s k j = (if j \<in> set (logged s) then view s j else disk s j)" if "j < lstart s"
    using D crash_after_head(3) [OF assms(1) order_refl that] that by (auto simp: logged_def atLeast0LessThan)
qed

lemma recover_crash:
  assumes "log_ok s" "word_at (disk s (lstart s)) 0 = 0"
    and b: "clean b" "log_geom b" "disk b = crash_disk s k" "lstart b = lstart s" "lsize b = lsize s"
  shows "\<exists>r. recover_from_log b = Ret () r \<and> clean r \<and> lh_n r = 0 \<and>
    (\<forall>j<lstart s. disk r j = (if k \<le> nat (lh_n s) then disk s j else view s j))"
proof -
  let ?n = "nat (lh_n s)"
  have ok: "bio_ok {} s" "lh_n s \<le> int LOGSIZE" "lh_n s < lsize s" "0 \<le> lh_n s" "distinct (logged s)"
    "\<forall>k\<in>set (logged s). k < lstart s" "dirty_sectors s = set (logged s)" "log_geom s"
    using assms(1) by (auto simp: log_ok_def)
  have vnd: "view s j = disk s j" if "j \<notin> set (logged s)" for j using view_not_dirty [OF ok(1)] ok(7) that by simp
  consider "k \<le> ?n" | m where "k = Suc ?n + m" "m \<le> ?n" | "2 * ?n + 2 \<le> k"
  proof -
    have "k \<le> ?n \<or> k = Suc ?n + (k - Suc ?n) \<and> k - Suc ?n \<le> ?n \<or> 2 * ?n + 2 \<le> k" by linarith
    then show ?thesis using that by blast
  qed
  then show ?thesis
  proof cases
    case 1
    have "disk_head b 0 f" for f
      using crash_before_head [OF assms(1) 1, of "lstart s"] b assms(2) ok(3,4) by (simp add: disk_head_def)
    from recover_ret [OF b(1,2) this] obtain r h where r: "recover_from_log b = Ret () r" "clean r" "lh_n r = 0"
      "disk r = (disk b)(lstart b := h)" by (auto simp: recover_writes_def)
    moreover have "\<forall>j<lstart s. disk r j = disk s j"
      using r(4) b(3,4) crash_before_head [OF assms(1) 1] by (auto simp: less_imp_le)
    ultimately show ?thesis using 1 by auto
  next
    case 2
    note c = crash_after_head [OF assms(1) 2(2), folded 2(1)]
    have "disk_head b ?n (lh_sector s)"
      using c(1) b ok head_block_n head_block_sector by (auto simp: disk_head_def logged_def)
    from recover_ret [OF b(1,2) this] obtain r h where r: "recover_from_log b = Ret () r" "clean r" "lh_n r = 0"
      "disk r = (apply_writes (recover_writes b ?n (lh_sector s)) (disk b))(lstart b := h)" by auto
    have "log_block b i = log_block s i" for i using b(4) by (simp add: log_block_def)
    then have rw: "recover_writes b ?n (lh_sector s) = home_writes s (view s) ?n"
      using c(2) b(3) by (simp add: recover_writes_def home_writes_def)
    have "disk r j = view s j" if "j < lstart s" for j
    proof (cases "j \<in> set (logged s)")
      case True
      then show ?thesis using r(4) rw home_writes_lookup [of s ?n] ok(5) b(4) that by (auto simp: logged_def)
    next
      case False
      then have "j \<notin> lh_sector s ` {..<?n}" "j \<notin> lh_sector s ` {..<m}" using 2(2) by (auto simp: logged_def)
      then show ?thesis using r(4) rw home_writes_lookup [of s ?n] ok(5) b(3,4) that c(3) vnd [OF False] by (auto simp: logged_def)
    qed
    then show ?thesis using r 2 by auto
  next
    case 3
    note c = crash_after_all [OF assms(1) 3]
    have "disk_head b 0 f" for f using c(1) b ok(3,4) by (simp add: disk_head_def)
    from recover_ret [OF b(1,2) this] obtain r h where r: "recover_from_log b = Ret () r" "clean r" "lh_n r = 0"
      "disk r = (disk b)(lstart b := h)" by (auto simp: recover_writes_def)
    moreover have "\<forall>j<lstart s. disk r j = view s j" using r(4) b(3,4) c(2) vnd by auto
    ultimately show ?thesis using 3 by auto
  qed
qed

section \<open>Properties\<close>

text \<open>
  C5. A transaction is atomic across a crash.  Take a state with a transaction ready to commit and
  no committed transaction in the log on disk.  \<^verbatim>\<open>commit\<close> runs to its end; and if the machine stops
  after any number \<open>k\<close> of its disk writes, \<^verbatim>\<open>initlog\<close> at the next boot, on an empty cache, recovers:
  every sector below the log area then holds its contents from before the transaction if the
  header was not yet written, and its contents from after the transaction otherwise.
\<close>

theorem commit_crash_atomic:
  assumes "log_ok (s :: logsys)" "0 < lh_n s" "word_at (disk s (lstart s)) 0 = 0" "1 < lstart s" "1 \<notin> set (logged s)"
    and "sb_size (superblock_of (disk s 1)) - sb_nlog (superblock_of (disk s 1)) = lstart s"
    and "sint (sb_nlog (superblock_of (disk s 1))) = lsize s"
  shows "\<exists>t. commit s = Ret () t \<and> (\<forall>j<lstart s. disk t j = view s j) \<and>
    (\<forall>k (b :: logsys). clean b \<and> disksize b = disksize s \<and>
        disk b = apply_writes (take k (drop (length (dwrites s)) (dwrites t))) (disk s) \<longrightarrow>
      (\<exists>r. initlog b = Ret () r \<and> clean r \<and> lh_n r = 0 \<and>
        (\<forall>j<lstart s. disk r j = (if k \<le> nat (lh_n s) then disk s j else view s j))))"
proof -
  obtain t where t: "commit s = Ret () t" "dwrites t = dwrites s @ commit_writes s"
    "disk t = apply_writes (commit_writes s) (disk s)" using commit_ret [OF assms(1,2)] by blast
  let ?n = "nat (lh_n s)"
  have ok: "log_geom s" "bio_ok {} s" "dirty_sectors s = set (logged s)" using assms(1) by (auto simp: log_ok_def)
  have vnd: "view s j = disk s j" if "j \<notin> set (logged s)" for j using view_not_dirty [OF ok(2)] ok(3) that by simp
  have "length (commit_writes s) = 2 * ?n + 2" by (simp add: commit_writes_def Let_def log_writes_def home_writes_def)
  then have "disk t = crash_disk s (2 * ?n + 2)" using t(3) by (simp add: crash_disk_def)
  then have dt: "\<forall>j<lstart s. disk t j = view s j" using crash_after_all(2) [OF assms(1) order_refl] vnd by auto
  have "\<exists>r. initlog b = Ret () r \<and> clean r \<and> lh_n r = 0 \<and> (\<forall>j<lstart s. disk r j = (if k \<le> ?n then disk s j else view s j))"
    if b: "clean b" "disksize b = disksize s" "disk b = crash_disk s k" for k and b :: logsys
  proof -
    have d1: "disk b 1 = disk s 1"
    proof (cases "k \<le> ?n")
      case True
      then show ?thesis using crash_before_head [OF assms(1) True, of 1] assms(4) b(3) by (simp add: less_imp_le)
    next
      case False
      have "k = Suc ?n + (k - Suc ?n)" using False by simp
      show ?thesis
      proof (cases "2 * ?n + 2 \<le> k")
        case True
        then show ?thesis using crash_after_all(2) [OF assms(1) True assms(4)] assms(5) b(3) by simp
      next
        case m: False
        have "k - Suc ?n \<le> ?n" using m by simp
        moreover have "1 \<notin> lh_sector s ` {..<k - Suc ?n}" using assms(5) calculation by (auto simp: logged_def)
        ultimately show ?thesis using crash_after_head(3) [OF assms(1), of "k - Suc ?n" 1] assms(4) b(3) False by simp
      qed
    qed
    have dg: "(1 :: uint) < disksize b"
      using ok(1) assms(4) unfolding log_geom_def word_less_nat_alt b(2) by linarith
    obtain b1 where b1: "readsb 1 b = Ret (superblock_of (disk b 1)) b1" "clean b1" "quiet b b1" using readsb_ret [OF b(1) dg] by blast
    define b2 where "b2 = b1\<lparr>lstart := lstart s, lsize := lsize s, ldev := 1\<rparr>"
    have b2: "clean b2" "log_geom b2" "disk b2 = crash_disk s k" "lstart b2 = lstart s" "lsize b2 = lsize s"
      using b1(2,3) b ok(1) by (auto simp: b2_def clean_def bio_ok_def buf_ok_def quiet_def log_geom_def)
    have "initlog b = recover_from_log b2"
      using b1(1) assms(6,7) d1 by (simp add: initlog_def kfun_simps b2_def param_defs BSIZE_def)
    with recover_crash [OF assms(1,3) b2] show ?thesis by simp
  qed
  with t dt show ?thesis by (intro exI [of _ t]) (auto simp: crash_disk_def)
qed

definition crash_demo :: logsys where
  "crash_demo = \<lparr>bufs = bufs bio_demo, disk = (\<lambda>_ _. 0)(1 := put_word (put_word (\<lambda>_. 0) 0 100) 12 30), disksize = 100,
     dwrites = [], wakeups = [], lstart = 70, lsize = 30, outstanding = 1, committing = False, ldev = 1, lh_n = 0,
     lh_sector = (\<lambda>_. 0)\<rparr>"

lemma crash_demo_tx:
  "\<exists>s. log_ok (s :: logsys) \<and> logged s = [50] \<and> lh_n s = 1 \<and> lstart s = 70 \<and> lsize s = 30 \<and> disk s = disk crash_demo \<and>
     view s 50 = (\<lambda>_. 7) \<and> disksize s = 100 \<and> dwrites s = []"
proof -
  have "\<forall>i<NBUF. \<not> bbusy (bufs crash_demo i) \<and> \<not> bdirty (bufs crash_demo i)" by (simp add: crash_demo_def bio_demo_def)
  then obtain s1 where s1: "clean s1" "quiet crash_demo s1" using binit_clean by blast
  have sl: "same_log crash_demo s1" using s1(2) by (rule quiet_log)
  then have f: "lstart s1 = 70" "lsize s1 = 30" "outstanding s1 = 1" "lh_n s1 = 0" "ldev s1 = 1" "disksize s1 = 100"
    by (simp_all add: same_log_def crash_demo_def)
  then have inv: "log_inv {} s1"
    using s1(1) by (simp add: log_inv_def log_geom_def logged_def clean_iff param_defs)
  have c: "(50 :: uint) < lstart s1" "tx_room {} s1" "1 \<le> outstanding s1" "lh_n s1 < lsize s1 - 1"
    using f by (simp_all add: tx_room_def param_defs)
  obtain t where t: "log_inv {} t" "view t = (view s1)(50 := (\<lambda>_. 7))" "tx_frame 1 s1 t" "logged t = [50]"
    using tx_update [OF inv c(1,2) _ c(3,4), of "\<lambda>_ _. 7"] f by (auto simp: logged_def)
  have "lh_n t = 1" unfolding lh_n_logged [OF t(1)] t(4) by simp
  moreover have "disk t = disk crash_demo" "dwrites t = []" using t(3) s1(2) by (auto simp: tx_frame_def quiet_def crash_demo_def)
  ultimately show ?thesis using t f log_ok_inv [of t] by (intro exI [of _ t]) (auto simp: tx_frame_def)
qed

theorem commit_crash_atomic_witness:
  "\<exists>s t :: logsys. disk s 50 = (\<lambda>_. 0) \<and> commit s = Ret () t \<and> disk t 50 = (\<lambda>_. 7) \<and>
    (\<forall>b :: logsys. clean b \<and> disksize b = 100 \<and> disk b = apply_writes (take 2 (dwrites t)) (disk s) \<longrightarrow>
      (\<exists>r. initlog b = Ret () r \<and> disk r 50 = (\<lambda>_. 7)))"
proof -
  obtain s :: logsys where s: "log_ok s" "logged s = [50]" "lh_n s = 1" "lstart s = 70" "lsize s = 30" "disk s = disk crash_demo"
    "view s 50 = (\<lambda>_. 7)" "disksize s = 100" "dwrites s = []" using crash_demo_tx by blast
  have sb: "superblock_of (disk s 1) = \<lparr>sb_size = 100, sb_nblocks = 0, sb_ninodes = 0, sb_nlog = 30\<rparr>"
    using s(6) by (simp add: superblock_of_def crash_demo_def word_put_other) (simp add: word_at_def of_bytes_def)
  have "word_at (disk s (lstart s)) 0 = 0" using s(4,6) by (simp add: crash_demo_def word_at_def of_bytes_def)
  then obtain t where t: "commit s = Ret () t" "\<forall>j<70. disk t j = view s j"
    "\<forall>k (b :: logsys). clean b \<and> disksize b = disksize s \<and> disk b = apply_writes (take k (dwrites t)) (disk s) \<longrightarrow>
      (\<exists>r. initlog b = Ret () r \<and> clean r \<and> lh_n r = 0 \<and> (\<forall>j<70. disk r j = (if k \<le> 1 then disk s j else view s j)))"
    using commit_crash_atomic [OF s(1)] s sb by auto
  have "disk s 50 = (\<lambda>_. 0)" using s(6) by (simp add: crash_demo_def)
  moreover have "disk t 50 = (\<lambda>_. 7)" using t(2) s(7) by simp
  moreover have "\<exists>r. initlog b = Ret () r \<and> disk r 50 = (\<lambda>_. 7)"
    if "clean b" "disksize b = 100" "disk b = apply_writes (take 2 (dwrites t)) (disk s)" for b :: logsys
    using t(3) [rule_format, of b 2] that s(7,8) by fastforce
  ultimately show ?thesis using t(1) by blast
qed



end
