(* ===== verification/Fs.thy ===== *)
theory Fs
  imports Trans
begin

text \<open>
  The file system of \<^verbatim>\<open>fs.c\<close>: block allocator, inodes, file contents, directories and path names.
  The state extends the log with the inode cache; a pointer to an inode is its index there.
  Sections under \<^verbatim>\<open>icache.lock\<close> are atomic.

  The two flag bits of an inode are booleans, its 16-bit fields \<open>ushort\<close> words read as signed where
  the code compares them.  Pointers to buffers of the caller become values: \<^verbatim>\<open>readi\<close> returns the bytes
  it copies to \<^verbatim>\<open>dst\<close>, \<^verbatim>\<open>writei\<close> takes the bytes at \<^verbatim>\<open>src\<close> as a function of the offset, a
  \<^verbatim>\<open>char name[DIRSIZ]\<close> is a function of the index, and a path is the list of its bytes before the
  terminating zero.  The table \<^verbatim>\<open>devsw\<close> of device functions is an argument.
\<close>

section \<open>State\<close>

definition T_DIR :: ushort where "T_DIR = 1"
definition T_FILE :: ushort where "T_FILE = 2"
definition T_DEV :: ushort where "T_DEV = 3"

record inode =
  idev :: uint
  inum :: uint
  iref :: int
  ibusy :: bool
  ivalid :: bool
  itype :: ushort
  imajor :: ushort
  iminor :: ushort
  inlink :: ushort
  isize :: uint
  iaddrs :: "nat \<Rightarrow> uint"

record fsys = logsys +
  inodes :: "nat \<Rightarrow> inode"

definition upd_ino :: "nat \<Rightarrow> (inode \<Rightarrow> inode) \<Rightarrow> (unit, 'a fsys_scheme) kfun" where
  "upd_ino ip f = modify (\<lambda>s. s\<lparr>inodes := (inodes s)(ip := f (inodes s ip))\<rparr>)"

definition ino :: "nat \<Rightarrow> (inode, 'a fsys_scheme) kfun" where
  "ino ip = gets (\<lambda>s. inodes s ip)"

type_synonym 's dev_read = "nat \<Rightarrow> (nat \<Rightarrow> uint \<Rightarrow> (int \<times> uchar list, 's) kfun) option"
type_synonym 's dev_write = "nat \<Rightarrow> (nat \<Rightarrow> (nat \<Rightarrow> uchar) \<Rightarrow> uint \<Rightarrow> (int, 's) kfun) option"

section \<open>Layout\<close>

definition IPB :: nat where "IPB = BSIZE div 64"
definition BPB :: nat where "BPB = BSIZE * 8"
definition DIRSIZ :: nat where "DIRSIZ = 14"

definition IBLOCK :: "uint \<Rightarrow> uint" where
  "IBLOCK i = i div of_nat IPB + 2"

definition BBLOCK :: "uint \<Rightarrow> uint \<Rightarrow> uint" where
  "BBLOCK b ninodes = b div of_nat BPB + ninodes div of_nat IPB + 3"

text \<open>A \<^verbatim>\<open>struct dinode\<close> at byte offset \<open>o\<close> of a block, without the cache fields.\<close>

definition dinode_off :: "uint \<Rightarrow> nat" where
  "dinode_off i = 64 * (unat i mod IPB)"

definition read_dinode :: "block \<Rightarrow> nat \<Rightarrow> inode \<Rightarrow> inode" where
  "read_dinode d o' x = x\<lparr>itype := half_at d o', imajor := half_at d (o' + 2), iminor := half_at d (o' + 4),
     inlink := half_at d (o' + 6), isize := word_at d (o' + 8),
     iaddrs := (\<lambda>j. if j \<le> NDIRECT then word_at d (o' + 12 + 4 * j) else iaddrs x j)\<rparr>"

definition put_addrs :: "block \<Rightarrow> nat \<Rightarrow> (nat \<Rightarrow> uint) \<Rightarrow> block" where
  "put_addrs d o' a = foldl (\<lambda>d j. put_word d (o' + 4 * j) (a j)) d [0..<Suc NDIRECT]"

definition write_dinode :: "block \<Rightarrow> nat \<Rightarrow> inode \<Rightarrow> block" where
  "write_dinode d o' x =
     put_addrs (put_word (put_half (put_half (put_half (put_half d o' (itype x)) (o' + 2) (imajor x)) (o' + 4) (iminor x))
       (o' + 6) (inlink x)) (o' + 8) (isize x)) (o' + 12) (iaddrs x)"

definition zero_dinode :: "block \<Rightarrow> nat \<Rightarrow> block" where
  "zero_dinode d o' = (\<lambda>i. if o' \<le> i \<and> i < o' + 64 then 0 else d i)"

section \<open>Blocks\<close>

definition set_data :: "nat \<Rightarrow> (block \<Rightarrow> block) \<Rightarrow> (unit, 'a bio_scheme) kfun" where
  "set_data bp f = upd_buf bp (\<lambda>x. x\<lparr>bdata := f (bdata x)\<rparr>)"

definition data :: "nat \<Rightarrow> (block, 'a bio_scheme) kfun" where
  "data bp = gets (\<lambda>s. bdata (bufs s bp))"

definition bzero :: "uint \<Rightarrow> uint \<Rightarrow> (unit, 'a logsys_scheme) kfun" where
  "bzero dev bno =
     bind (bread dev bno) (\<lambda>bp.
     seq (set_data bp (\<lambda>d i. if i < BSIZE then 0 else d i))
    (seq (log_write bp)
         (brelse bp)))"

definition bit_free :: "block \<Rightarrow> nat \<Rightarrow> bool" where
  "bit_free d bi \<longleftrightarrow> \<not> bit (d (bi div 8)) (bi mod 8)"

definition mark_bit :: "nat \<Rightarrow> block \<Rightarrow> block" where
  "mark_bit bi d = d(bi div 8 := set_bit (bi mod 8) (d (bi div 8)))"

definition clear_bit :: "nat \<Rightarrow> block \<Rightarrow> block" where
  "clear_bit bi d = d(bi div 8 := unset_bit (bi mod 8) (d (bi div 8)))"

text \<open>The inner loop of \<^verbatim>\<open>balloc\<close>: the first bit that ends the loop or is clear.\<close>

definition balloc_bit :: "block \<Rightarrow> uint \<Rightarrow> uint \<Rightarrow> nat option" where
  "balloc_bit d b sz =
     (case first_index BPB (\<lambda>bi. \<not> b + of_nat bi < sz \<or> bit_free d bi) of
        Some bi \<Rightarrow> if b + of_nat bi < sz then Some bi else None
      | None \<Rightarrow> None)"

fun balloc_loop :: "nat \<Rightarrow> uint \<Rightarrow> superblock \<Rightarrow> uint \<Rightarrow> (uint, 'a logsys_scheme) kfun" where
  "balloc_loop 0 dev sb b = (\<lambda>s. Spin)"
| "balloc_loop (Suc n) dev sb b =
     (if b < sb_size sb
      then
        bind (bread dev (BBLOCK b (sb_ninodes sb))) (\<lambda>bp.
        bind (data bp) (\<lambda>d.
        case balloc_bit d b (sb_size sb) of
          Some bi \<Rightarrow>
            seq (set_data bp (mark_bit bi))
           (seq (log_write bp)
           (seq (brelse bp)
           (seq (bzero dev (b + of_nat bi))
                (return (b + of_nat bi)))))
        | None \<Rightarrow> seq (brelse bp) (balloc_loop n dev sb (b + of_nat BPB))))
      else panic ''balloc: out of blocks'')"

definition balloc :: "uint \<Rightarrow> (uint, 'a logsys_scheme) kfun" where
  "balloc dev = bind (readsb dev) (\<lambda>sb. balloc_loop (2 ^ 20 + 1) dev sb 0)"

definition bfree :: "uint \<Rightarrow> uint \<Rightarrow> (unit, 'a logsys_scheme) kfun" where
  "bfree dev b =
     bind (readsb dev) (\<lambda>sb.
     bind (bread dev (BBLOCK b (sb_ninodes sb))) (\<lambda>bp.
     bind (data bp) (\<lambda>d.
     let bi = unat b mod BPB in
     seq (panic_if (\<lambda>_. bit_free d bi) ''freeing free block'')
    (seq (set_data bp (clear_bit bi))
    (seq (log_write bp)
         (brelse bp))))))"

section \<open>Inodes\<close>

definition iget :: "uint \<Rightarrow> uint \<Rightarrow> (nat, 'a fsys_scheme) kfun" where
  "iget dev i = (\<lambda>s.
     case first_index NINODE (\<lambda>ip. iref (inodes s ip) > 0 \<and> idev (inodes s ip) = dev \<and> inum (inodes s ip) = i) of
       Some ip \<Rightarrow> Ret ip (s\<lparr>inodes := (inodes s)(ip := (inodes s ip)\<lparr>iref := iref (inodes s ip) + 1\<rparr>)\<rparr>)
     | None \<Rightarrow>
         (case first_index NINODE (\<lambda>ip. iref (inodes s ip) = 0) of
            Some ip \<Rightarrow> Ret ip (s\<lparr>inodes := (inodes s)(ip := (inodes s ip)\<lparr>idev := dev, inum := i, iref := 1,
                ibusy := False, ivalid := False\<rparr>)\<rparr>)
          | None \<Rightarrow> Panic ''iget: no inodes''))"

fun ialloc_loop :: "nat \<Rightarrow> uint \<Rightarrow> ushort \<Rightarrow> superblock \<Rightarrow> uint \<Rightarrow> (nat, 'a fsys_scheme) kfun" where
  "ialloc_loop 0 dev ty sb i = (\<lambda>s. Spin)"
| "ialloc_loop (Suc n) dev ty sb i =
     (if i < sb_ninodes sb
      then
        bind (bread dev (IBLOCK i)) (\<lambda>bp.
        bind (data bp) (\<lambda>d.
        if half_at d (dinode_off i) = 0
        then
          seq (set_data bp (\<lambda>d. put_half (zero_dinode d (dinode_off i)) (dinode_off i) ty))
         (seq (log_write bp)
         (seq (brelse bp)
              (iget dev i)))
        else seq (brelse bp) (ialloc_loop n dev ty sb (i + 1))))
      else panic ''ialloc: no inodes'')"

definition ialloc :: "uint \<Rightarrow> ushort \<Rightarrow> (nat, 'a fsys_scheme) kfun" where
  "ialloc dev ty = bind (readsb dev) (\<lambda>sb. ialloc_loop (Suc (unat (sb_ninodes sb))) dev ty sb 1)"

definition iupdate :: "nat \<Rightarrow> (unit, 'a fsys_scheme) kfun" where
  "iupdate ip =
     bind (ino ip) (\<lambda>x.
     bind (bread (idev x) (IBLOCK (inum x))) (\<lambda>bp.
     seq (set_data bp (\<lambda>d. write_dinode d (dinode_off (inum x)) x))
    (seq (log_write bp)
         (brelse bp))))"

definition idup :: "nat \<Rightarrow> (nat, 'a fsys_scheme) kfun" where
  "idup ip = seq (upd_ino ip (\<lambda>x. x\<lparr>iref := iref x + 1\<rparr>)) (return ip)"

text \<open>A null pointer is not an index, so the test for it in \<^verbatim>\<open>ilock\<close> and \<^verbatim>\<open>iunlock\<close> has no counterpart.\<close>

definition ilock :: "nat \<Rightarrow> (unit, 'a fsys_scheme) kfun" where
  "ilock ip =
     seq (panic_if (\<lambda>s. iref (inodes s ip) < 1) ''ilock'')
    (branch (\<lambda>s. ibusy (inodes s ip)) (\<lambda>s. Sleep (ChInode ip) s)
    (seq (upd_ino ip (\<lambda>x. x\<lparr>ibusy := True\<rparr>))
    (branch (\<lambda>s. \<not> ivalid (inodes s ip))
       (bind (ino ip) (\<lambda>x.
        bind (bread (idev x) (IBLOCK (inum x))) (\<lambda>bp.
        bind (data bp) (\<lambda>d.
        seq (upd_ino ip (read_dinode d (dinode_off (inum x))))
       (seq (brelse bp)
       (seq (upd_ino ip (\<lambda>x. x\<lparr>ivalid := True\<rparr>))
            (panic_if (\<lambda>s. itype (inodes s ip) = 0) ''ilock: no type'')))))))
       (return ()))))"

definition iunlock :: "nat \<Rightarrow> (unit, 'a fsys_scheme) kfun" where
  "iunlock ip =
     seq (panic_if (\<lambda>s. \<not> ibusy (inodes s ip) \<or> iref (inodes s ip) < 1) ''iunlock'')
    (seq (upd_ino ip (\<lambda>x. x\<lparr>ibusy := False\<rparr>))
         (wake (ChInode ip)))"

section \<open>Contents\<close>

definition bmap :: "nat \<Rightarrow> uint \<Rightarrow> (uint, 'a fsys_scheme) kfun" where
  "bmap ip bn =
     (if bn < of_nat NDIRECT
      then
        bind (ino ip) (\<lambda>x.
        if iaddrs x (unat bn) = 0
        then bind (balloc (idev x)) (\<lambda>a. seq (upd_ino ip (\<lambda>x. x\<lparr>iaddrs := (iaddrs x)(unat bn := a)\<rparr>)) (return a))
        else return (iaddrs x (unat bn)))
      else
        let bn = bn - of_nat NDIRECT in
        if bn < of_nat NINDIRECT
        then
          bind (ino ip) (\<lambda>x.
          bind (if iaddrs x NDIRECT = 0
                then bind (balloc (idev x)) (\<lambda>a. seq (upd_ino ip (\<lambda>x. x\<lparr>iaddrs := (iaddrs x)(NDIRECT := a)\<rparr>)) (return a))
                else return (iaddrs x NDIRECT)) (\<lambda>ind.
          bind (bread (idev x) ind) (\<lambda>bp.
          bind (data bp) (\<lambda>d.
          if word_at d (4 * unat bn) = 0
          then
            bind (balloc (idev x)) (\<lambda>a.
            seq (set_data bp (\<lambda>d. put_word d (4 * unat bn) a))
           (seq (log_write bp)
           (seq (brelse bp)
                (return a))))
          else seq (brelse bp) (return (word_at d (4 * unat bn)))))))
        else panic ''bmap: out of range'')"

definition itrunc_direct :: "nat \<Rightarrow> nat \<Rightarrow> (unit, 'a fsys_scheme) kfun" where
  "itrunc_direct ip i =
     bind (ino ip) (\<lambda>x.
     if iaddrs x i \<noteq> 0
     then seq (bfree (idev x) (iaddrs x i)) (upd_ino ip (\<lambda>x. x\<lparr>iaddrs := (iaddrs x)(i := 0)\<rparr>))
     else return ())"

definition itrunc_indirect :: "nat \<Rightarrow> nat \<Rightarrow> nat \<Rightarrow> (unit, 'a fsys_scheme) kfun" where
  "itrunc_indirect ip bp j =
     bind (data bp) (\<lambda>d.
     bind (ino ip) (\<lambda>x.
     if word_at d (4 * j) \<noteq> 0 then bfree (idev x) (word_at d (4 * j)) else return ()))"

definition itrunc :: "nat \<Rightarrow> (unit, 'a fsys_scheme) kfun" where
  "itrunc ip =
     seq (for_each [0..<NDIRECT] (itrunc_direct ip))
    (seq (bind (ino ip) (\<lambda>x.
            if iaddrs x NDIRECT \<noteq> 0
            then
              bind (bread (idev x) (iaddrs x NDIRECT)) (\<lambda>bp.
              seq (for_each [0..<NINDIRECT] (itrunc_indirect ip bp))
             (seq (brelse bp)
             (seq (bfree (idev x) (iaddrs x NDIRECT))
                  (upd_ino ip (\<lambda>x. x\<lparr>iaddrs := (iaddrs x)(NDIRECT := 0)\<rparr>)))))
            else return ()))
    (seq (upd_ino ip (\<lambda>x. x\<lparr>isize := 0\<rparr>))
         (iupdate ip)))"

definition iput :: "nat \<Rightarrow> (unit, 'a fsys_scheme) kfun" where
  "iput ip =
     seq (branch (\<lambda>s. iref (inodes s ip) = 1 \<and> ivalid (inodes s ip) \<and> inlink (inodes s ip) = 0)
           (seq (panic_if (\<lambda>s. ibusy (inodes s ip)) ''iput busy'')
           (seq (upd_ino ip (\<lambda>x. x\<lparr>ibusy := True\<rparr>))
           (seq (itrunc ip)
           (seq (upd_ino ip (\<lambda>x. x\<lparr>itype := 0\<rparr>))
           (seq (iupdate ip)
           (seq (upd_ino ip (\<lambda>x. x\<lparr>ibusy := False, ivalid := False\<rparr>))
                (wake (ChInode ip))))))))
           (return ()))
         (upd_ino ip (\<lambda>x. x\<lparr>iref := iref x - 1\<rparr>))"

definition iunlockput :: "nat \<Rightarrow> (unit, 'a fsys_scheme) kfun" where
  "iunlockput ip = seq (iunlock ip) (iput ip)"

record stat =
  st_type :: ushort
  st_dev :: uint
  st_ino :: uint
  st_nlink :: ushort
  st_size :: uint

definition stati :: "nat \<Rightarrow> (stat, 'a fsys_scheme) kfun" where
  "stati ip = bind (ino ip) (\<lambda>x.
     return \<lparr>st_type = itype x, st_dev = idev x, st_ino = inum x, st_nlink = inlink x, st_size = isize x\<rparr>)"

text \<open>
  The number of bytes the next iteration of \<^verbatim>\<open>readi\<close> and \<^verbatim>\<open>writei\<close> moves.  It is never zero, so fuel
  equal to the bytes left, plus one for the last test, is enough.
\<close>

definition chunk :: "uint \<Rightarrow> uint \<Rightarrow> uint \<Rightarrow> uint" where
  "chunk n tot off = (let r = of_nat BSIZE - off mod of_nat BSIZE in if n - tot < r then n - tot else r)"

fun readi_loop :: "nat \<Rightarrow> nat \<Rightarrow> uint \<Rightarrow> uint \<Rightarrow> uint \<Rightarrow> (uchar list, 'a fsys_scheme) kfun" where
  "readi_loop 0 ip off tot n = (\<lambda>s. Spin)"
| "readi_loop (Suc k) ip off tot n =
     (if tot < n
      then
        bind (ino ip) (\<lambda>x.
        bind (bmap ip (off div of_nat BSIZE)) (\<lambda>a.
        bind (bread (idev x) a) (\<lambda>bp.
        bind (data bp) (\<lambda>d.
        seq (brelse bp)
       (bind (readi_loop k ip (off + chunk n tot off) (tot + chunk n tot off) n) (\<lambda>bs.
        return (map (\<lambda>i. d (unat (off mod of_nat BSIZE) + i)) [0..<unat (chunk n tot off)] @ bs)))))))
      else return [])"

definition readi :: "'a fsys_scheme dev_read \<Rightarrow> nat \<Rightarrow> uint \<Rightarrow> uint \<Rightarrow> (int \<times> uchar list, 'a fsys_scheme) kfun" where
  "readi devsw ip off n =
     bind (ino ip) (\<lambda>x.
     if itype x = T_DEV
     then
       (if sint (imajor x) < 0 \<or> sint (imajor x) \<ge> int NDEV then return (- 1, [])
        else case devsw (nat (sint (imajor x))) of None \<Rightarrow> return (- 1, []) | Some rd \<Rightarrow> rd ip n)
     else if off > isize x \<or> off + n < off then return (- 1, [])
     else
       let n = (if off + n > isize x then isize x - off else n) in
       bind (readi_loop (Suc (unat n)) ip off 0 n) (\<lambda>bs. return (sint n, bs)))"

fun writei_loop :: "nat \<Rightarrow> nat \<Rightarrow> (nat \<Rightarrow> uchar) \<Rightarrow> uint \<Rightarrow> uint \<Rightarrow> uint \<Rightarrow> (uint, 'a fsys_scheme) kfun" where
  "writei_loop 0 ip src off tot n = (\<lambda>s. Spin)"
| "writei_loop (Suc k) ip src off tot n =
     (if tot < n
      then
        bind (ino ip) (\<lambda>x.
        bind (bmap ip (off div of_nat BSIZE)) (\<lambda>a.
        bind (bread (idev x) a) (\<lambda>bp.
        seq (set_data bp (\<lambda>d i.
               if unat (off mod of_nat BSIZE) \<le> i \<and> i < unat (off mod of_nat BSIZE) + unat (chunk n tot off)
               then src (unat tot + (i - unat (off mod of_nat BSIZE))) else d i))
       (seq (log_write bp)
       (seq (brelse bp)
            (writei_loop k ip src (off + chunk n tot off) (tot + chunk n tot off) n))))))
      else return off)"

definition writei :: "'a fsys_scheme dev_write \<Rightarrow> nat \<Rightarrow> (nat \<Rightarrow> uchar) \<Rightarrow> uint \<Rightarrow> uint \<Rightarrow> (int, 'a fsys_scheme) kfun" where
  "writei devsw ip src off n =
     bind (ino ip) (\<lambda>x.
     if itype x = T_DEV
     then
       (if sint (imajor x) < 0 \<or> sint (imajor x) \<ge> int NDEV then return (- 1)
        else case devsw (nat (sint (imajor x))) of None \<Rightarrow> return (- 1) | Some wr \<Rightarrow> wr ip src n)
     else if off > isize x \<or> off + n < off then return (- 1)
     else if off + n > of_nat (MAXFILE * BSIZE) then return (- 1)
     else
       bind (writei_loop (Suc (unat n)) ip src off 0 n) (\<lambda>off.
       seq (branch (\<lambda>s. n > 0 \<and> off > isize (inodes s ip))
             (seq (upd_ino ip (\<lambda>x. x\<lparr>isize := off\<rparr>)) (iupdate ip))
             (return ()))
           (return (sint n))))"

section \<open>Directories\<close>

type_synonym name = "nat \<Rightarrow> uchar"

text \<open>\<^verbatim>\<open>strncmp\<close> of \<^verbatim>\<open>string.c\<close> on two character arrays, from index \<open>i\<close> on.\<close>

fun name_ncmp :: "name \<Rightarrow> name \<Rightarrow> nat \<Rightarrow> nat \<Rightarrow> int" where
  "name_ncmp p q i 0 = 0"
| "name_ncmp p q i (Suc n) =
     (if p i \<noteq> 0 \<and> p i = q i then name_ncmp p q (Suc i) n else int (unat (p i)) - int (unat (q i)))"

definition namecmp :: "name \<Rightarrow> name \<Rightarrow> int" where
  "namecmp s t = name_ncmp s t 0 DIRSIZ"

text \<open>\<^verbatim>\<open>strncpy\<close> into \<^verbatim>\<open>de.name\<close>.\<close>

fun name_ncpy :: "name \<Rightarrow> nat \<Rightarrow> nat \<Rightarrow> uchar list" where
  "name_ncpy t i 0 = []"
| "name_ncpy t i (Suc n) = (if t i = 0 then replicate (Suc n) 0 else t i # name_ncpy t (Suc i) n)"

definition de_inum :: "uchar list \<Rightarrow> ushort" where
  "de_inum bs = word_cat (bs ! 1) (bs ! 0)"

definition de_name :: "uchar list \<Rightarrow> name" where
  "de_name bs = (\<lambda>i. bs ! (2 + i))"

definition de_bytes :: "ushort \<Rightarrow> uchar list \<Rightarrow> uchar list" where
  "de_bytes i nm = ucast i # ucast (drop_bit 8 i) # nm"

fun dirlookup_loop :: "nat \<Rightarrow> nat \<Rightarrow> name \<Rightarrow> uint \<Rightarrow> ((nat \<times> uint) option, 'a fsys_scheme) kfun" where
  "dirlookup_loop 0 dp nm off = (\<lambda>s. Spin)"
| "dirlookup_loop (Suc k) dp nm off =
     bind (ino dp) (\<lambda>x.
     if off < isize x
     then
       bind (readi (\<lambda>_. None) dp off 16) (\<lambda>(r, de).
       if r \<noteq> 16 then panic ''dirlink read''
       else if de_inum de = 0 then dirlookup_loop k dp nm (off + 16)
       else if namecmp nm (de_name de) = 0
       then bind (iget (idev x) (ucast (de_inum de))) (\<lambda>ip. return (Some (ip, off)))
       else dirlookup_loop k dp nm (off + 16))
     else return None)"

text \<open>A directory is no device, so \<^verbatim>\<open>devsw\<close> plays no part in reading one.\<close>

definition dirlookup :: "nat \<Rightarrow> name \<Rightarrow> ((nat \<times> uint) option, 'a fsys_scheme) kfun" where
  "dirlookup dp nm =
     bind (ino dp) (\<lambda>x.
     if itype x \<noteq> T_DIR then panic ''dirlookup not DIR''
     else dirlookup_loop (Suc (unat (isize x))) dp nm 0)"

fun dirlink_find :: "nat \<Rightarrow> nat \<Rightarrow> uint \<Rightarrow> (uint, 'a fsys_scheme) kfun" where
  "dirlink_find 0 dp off = (\<lambda>s. Spin)"
| "dirlink_find (Suc k) dp off =
     bind (ino dp) (\<lambda>x.
     if off < isize x
     then
       bind (readi (\<lambda>_. None) dp off 16) (\<lambda>(r, de).
       if r \<noteq> 16 then panic ''dirlink read''
       else if de_inum de = 0 then return off
       else dirlink_find k dp (off + 16))
     else return off)"

definition dirlink :: "nat \<Rightarrow> name \<Rightarrow> uint \<Rightarrow> (int, 'a fsys_scheme) kfun" where
  "dirlink dp nm i =
     bind (dirlookup dp nm) (\<lambda>r.
     case r of
       Some (ip, _) \<Rightarrow> seq (iput ip) (return (- 1))
     | None \<Rightarrow>
         bind (ino dp) (\<lambda>x.
         bind (dirlink_find (Suc (unat (isize x))) dp 0) (\<lambda>off.
         bind (writei (\<lambda>_. None) dp (\<lambda>j. de_bytes (ucast i) (name_ncpy nm 0 DIRSIZ) ! j) off 16) (\<lambda>r.
         if r \<noteq> 16 then panic ''dirlink'' else return 0))))"

section \<open>Paths\<close>

definition SLASH :: uchar where "SLASH = 47"

definition skipelem :: "uchar list \<Rightarrow> name \<Rightarrow> (uchar list \<times> name) option" where
  "skipelem path nm =
     (let path = dropWhile (\<lambda>c. c = SLASH) path in
      if path = [] then None
      else
        let el = takeWhile (\<lambda>c. c \<noteq> SLASH) path; path = dropWhile (\<lambda>c. c \<noteq> SLASH) path in
        Some (dropWhile (\<lambda>c. c = SLASH) path,
          if length el \<ge> DIRSIZ then (\<lambda>i. if i < DIRSIZ then el ! i else nm i)
          else (\<lambda>i. if i < length el then el ! i else if i = length el then 0 else nm i)))"

fun namex_loop :: "nat \<Rightarrow> nat \<Rightarrow> uchar list \<Rightarrow> bool \<Rightarrow> name \<Rightarrow> ((nat \<times> name) option, 'a fsys_scheme) kfun" where
  "namex_loop 0 ip path parent nm = (\<lambda>s. Spin)"
| "namex_loop (Suc k) ip path parent nm =
     (case skipelem path nm of
        Some (path, nm) \<Rightarrow>
          seq (ilock ip)
         (bind (ino ip) (\<lambda>x.
          if itype x \<noteq> T_DIR then seq (iunlockput ip) (return None)
          else if parent \<and> path = [] then seq (iunlock ip) (return (Some (ip, nm)))
          else
            bind (dirlookup ip nm) (\<lambda>r.
            case r of
              None \<Rightarrow> seq (iunlockput ip) (return None)
            | Some (next_ip, _) \<Rightarrow> seq (iunlockput ip) (namex_loop k next_ip path parent nm))))
      | None \<Rightarrow> if parent then seq (iput ip) (return None) else return (Some (ip, nm)))"

definition namex :: "nat \<Rightarrow> uchar list \<Rightarrow> bool \<Rightarrow> name \<Rightarrow> ((nat \<times> name) option, 'a fsys_scheme) kfun" where
  "namex cwd path parent nm =
     bind (if path \<noteq> [] \<and> hd path = SLASH then iget (of_nat ROOTDEV) ROOTINO else idup cwd) (\<lambda>ip.
     namex_loop (Suc (length path)) ip path parent nm)"

definition namei :: "nat \<Rightarrow> uchar list \<Rightarrow> (nat option, 'a fsys_scheme) kfun" where
  "namei cwd path = bind (namex cwd path False (\<lambda>_. 0)) (\<lambda>r. return (map_option fst r))"

definition nameiparent :: "nat \<Rightarrow> uchar list \<Rightarrow> name \<Rightarrow> ((nat \<times> name) option, 'a fsys_scheme) kfun" where
  "nameiparent cwd path nm = namex cwd path True nm"

end
