(* ===== verification/Inode.thy ===== *)
theory Inode
  imports Fs
begin

text \<open>
  Inodes on the disk: the encoding of a \<^verbatim>\<open>struct dinode\<close>, and that \<^verbatim>\<open>ilock\<close> reads what \<^verbatim>\<open>iupdate\<close> wrote.
\<close>

section \<open>Encoding\<close>

lemma half_put_same [simp]: "half_at (put_half d i w) i = w"
proof (rule bit_word_eqI)
  fix n assume "n < LENGTH(16)"
  then show "bit (half_at (put_half d i w) i) n \<longleftrightarrow> bit w n"
    by (cases "n < 8") (auto simp: half_at_def put_half_def bit_word_cat_iff bit_ucast_iff bit_drop_bit_eq)
qed

lemma half_put_other: "i + 2 \<le> j \<or> j + 2 \<le> i \<Longrightarrow> half_at (put_half d i w) j = half_at d j"
  by (auto simp: half_at_def put_half_def)

lemma half_put_word: "i + 4 \<le> j \<or> j + 2 \<le> i \<Longrightarrow> half_at (put_word d i w) j = half_at d j"
  by (auto simp: half_at_def put_word_def)

lemma word_put_half: "i + 2 \<le> j \<or> j + 4 \<le> i \<Longrightarrow> word_at (put_half d i w) j = word_at d j"
  by (auto simp: word_at_def put_half_def)

lemmas put_other = half_put_other half_put_word word_put_half word_put_other

lemma put_words_other:
  "\<forall>j\<in>set js. i < o' + 4 * j \<or> o' + 4 * j + 4 \<le> i \<Longrightarrow> foldl (\<lambda>d j. put_word d (o' + 4 * j) (a j)) d js i = d i"
  by (induction js arbitrary: d) (auto simp: put_word_def)

lemma put_words_at:
  assumes "distinct js" "k \<in> set js"
  shows "word_at (foldl (\<lambda>d j. put_word d (o' + 4 * j) (a j)) d js) (o' + 4 * k) = a k"
  using assms
proof (induction js rule: rev_induct)
  case (snoc j js)
  show ?case
  proof (cases "k = j")
    case False
    then have "o' + 4 * j + 4 \<le> o' + 4 * k \<or> o' + 4 * k + 4 \<le> o' + 4 * j" by linarith
    then show ?thesis using snoc False by (simp add: word_put_other)
  qed simp
qed simp

lemma put_addrs_at [simp]: "j \<le> NDIRECT \<Longrightarrow> word_at (put_addrs d o' a) (o' + 4 * j) = a j"
  unfolding put_addrs_def by (rule put_words_at) auto

lemma put_addrs_outside: "i < o' \<or> o' + 52 \<le> i \<Longrightarrow> put_addrs d o' a i = d i"
  unfolding put_addrs_def by (rule put_words_other) (auto simp: NDIRECT_def)

lemma half_put_addrs: "i + 2 \<le> o' \<Longrightarrow> half_at (put_addrs d o' a) i = half_at d i"
  by (simp add: half_at_def put_addrs_outside)

lemma word_put_addrs: "i + 4 \<le> o' \<Longrightarrow> word_at (put_addrs d o' a) i = word_at d i"
  by (simp add: word_at_def put_addrs_outside)

text \<open>The fields of an inode that are kept on the disk.\<close>

definition same_dinode :: "inode \<Rightarrow> inode \<Rightarrow> bool" where
  "same_dinode x y \<longleftrightarrow> itype x = itype y \<and> imajor x = imajor y \<and> iminor x = iminor y \<and> inlink x = inlink y \<and>
     isize x = isize y \<and> (\<forall>j\<le>NDIRECT. iaddrs x j = iaddrs y j)"

lemma read_write_dinode: "same_dinode (read_dinode (write_dinode d o' x) o' y) x"
  by (simp add: same_dinode_def read_dinode_def write_dinode_def half_put_addrs word_put_addrs put_other)

lemma write_dinode_outside: "i < o' \<or> o' + 64 \<le> i \<Longrightarrow> write_dinode d o' x i = d i"
  unfolding write_dinode_def by (subst put_addrs_outside) (auto simp: put_word_def put_half_def)

lemma read_dinode_cong:
  assumes "\<forall>i. o' \<le> i \<and> i < o' + 64 \<longrightarrow> d i = e i"
  shows "read_dinode d o' y = read_dinode e o' y"
proof -
  have w: "\<And>i. o' \<le> i \<Longrightarrow> i + 4 \<le> o' + 64 \<Longrightarrow> word_at d i = word_at e i"
    and h: "\<And>i. o' \<le> i \<Longrightarrow> i + 2 \<le> o' + 64 \<Longrightarrow> half_at d i = half_at e i"
    using assms by (auto simp: word_at_def half_at_def)
  have "(\<lambda>j. if j \<le> NDIRECT then word_at d (o' + 12 + 4 * j) else iaddrs y j) =
    (\<lambda>j. if j \<le> NDIRECT then word_at e (o' + 12 + 4 * j) else iaddrs y j)"
    by (rule ext) (auto simp: NDIRECT_def intro!: w)
  then show ?thesis by (simp add: read_dinode_def w h)
qed

text \<open>Inodes of one block are at different offsets.\<close>

lemma same_block_apart:
  assumes "IBLOCK i = IBLOCK j" "i \<noteq> j"
  shows "dinode_off i + 64 \<le> dinode_off j \<or> dinode_off j + 64 \<le> dinode_off i"
proof -
  have "i div 8 = j div 8" using assms(1) by (simp add: IBLOCK_def IPB_def BSIZE_def)
  then have "unat i div 8 = unat j div 8" using unat_div [of i 8] unat_div [of j 8] by simp
  moreover have "unat i \<noteq> unat j" using assms(2) by (simp add: word_unat_eq_iff)
  ultimately have "unat i mod 8 \<noteq> unat j mod 8" by (metis div_mult_mod_eq)
  then show ?thesis by (auto simp: dinode_off_def IPB_def BSIZE_def)
qed

section \<open>The inode cache beside the log\<close>

lemma inodes_more: "logsys.more t = logsys.more s \<Longrightarrow> inodes t = inodes s \<and> fsys.more t = fsys.more (s :: 'a fsys_scheme)"
  by (cases s, cases t) simp

lemma inodes_frame: "tx_frame c s t \<Longrightarrow> inodes t = inodes (s :: 'a fsys_scheme)"
  using inodes_more [of t s] by (simp add: tx_frame_def)

lemma view_inodes [simp]: "view (s\<lparr>inodes := f\<rparr>) = view s"
  by (rule ext) (simp add: view_def split: option.split)

lemma log_inv_inodes [simp]: "log_inv H (s\<lparr>inodes := f\<rparr>) = log_inv H s"
  by (simp add: log_inv_def bio_ok_def buf_ok_def log_geom_def logged_def dirty_sectors_def)

lemma tx_room_inodes [simp]: "tx_room H (s\<lparr>inodes := f\<rparr>) = tx_room H s"
  by (simp add: tx_room_def)

lemma iupdate_ret:
  assumes "log_inv H s" "x = inodes s ip" "idev x = 1" "k = IBLOCK (inum x)" "k < lstart s" "tx_room H s"
    "\<forall>i\<in>H. bsector (bufs s i) \<noteq> k" "1 \<le> outstanding s" "lh_n s < lsize s - 1"
  shows "\<exists>t. iupdate ip s = Ret () t \<and> log_inv H t \<and> tx_frame 1 s t \<and> tx_same H s t \<and>
    view t = (view s)(k := write_dinode (view s k) (dinode_off (inum x)) x) \<and>
    logged t = (if k \<in> set (logged s) then logged s else logged s @ [k])"
  using tx_update [OF assms(1,5-9), of "\<lambda>d. write_dinode d (dinode_off (inum x)) x"] assms(2-4)
  by (auto simp: iupdate_def ino_def set_data_def kfun_simps)

text \<open>\<^verbatim>\<open>ilock\<close> of an inode that nobody holds.\<close>

lemma ilock_valid:
  assumes "\<not> ibusy (inodes s ip)" "1 \<le> iref (inodes s ip)" "ivalid (inodes s ip)"
  shows "ilock ip s = Ret () (s\<lparr>inodes := (inodes s)(ip := (inodes s ip)\<lparr>ibusy := True\<rparr>)\<rparr>)"
  using assms by (simp add: ilock_def upd_ino_def kfun_simps)

lemma ilock_loads:
  assumes "log_inv H s" "x = inodes s ip" "idev x = 1" "k = IBLOCK (inum x)" "k < disksize s" "tx_room H s"
    "\<forall>i\<in>H. bsector (bufs s i) \<noteq> k" "\<not> ibusy x" "1 \<le> iref x" "\<not> ivalid x"
    "y = read_dinode (view s k) (dinode_off (inum x)) (x\<lparr>ibusy := True\<rparr>)" "itype y \<noteq> 0"
  shows "\<exists>t. ilock ip s = Ret () t \<and> log_inv H t \<and> view t = view s \<and> logged t = logged s \<and> tx_same H s t \<and>
    inodes t = (inodes s)(ip := y\<lparr>ivalid := True\<rparr>)"
proof -
  define s1 where "s1 = s\<lparr>inodes := (inodes s)(ip := x\<lparr>ibusy := True\<rparr>)\<rparr>"
  have s1: "log_inv H s1" "k < disksize s1" "tx_room H s1" "\<forall>i\<in>H. bsector (bufs s1 i) \<noteq> k" "view s1 = view s"
    using assms(1,5-7) by (simp_all add: s1_def)
  obtain b t where b: "bread 1 k s1 = Ret b t" "log_inv (insert b H) t" "b \<notin> H" "bsector (bufs t b) = k"
    "bdata (bufs t b) = view s1 k" "view t = view s1" "tx_frame 0 s1 t" "logged t = logged s1" "\<forall>i\<in>H. bufs t i = bufs s1 i"
    "bdirty (bufs t b) \<or> bdata (bufs t b) = disk t k" using tx_bread [OF s1(1-4)] by blast
  define t1 where "t1 = t\<lparr>inodes := (inodes t)(ip := y)\<rparr>"
  have "log_inv (insert b H) t1" "b \<in> insert b H" "bdirty (bufs t1 b) \<or> bdata (bufs t1 b) = disk t1 (bsector (bufs t1 b))"
    using b(2,4,10) by (simp_all add: t1_def)
  from tx_brelse [OF this] obtain u where u: "brelse b t1 = Ret () u" "log_inv (insert b H - {b}) u" "view u = view t1" "tx_frame 0 t1 u"
    "logged u = logged t1" "\<forall>i. same_buf (bufs t1 i) (bufs u i)" by blast
  have H: "insert b H - {b} = H" using b(3) by simp
  have it: "inodes t ip = x\<lparr>ibusy := True\<rparr>" "inodes t = (inodes s)(ip := x\<lparr>ibusy := True\<rparr>)"
    using inodes_frame [OF b(7)] by (simp_all add: s1_def)
  have iu: "inodes u = (inodes s)(ip := y)" using inodes_frame [OF u(4)] it by (simp add: t1_def)
  have y: "read_dinode (view s1 k) (dinode_off (inum x)) (x\<lparr>ibusy := True\<rparr>) = y" using assms(11) s1(5) by simp
  have "ilock ip s = Ret () (u\<lparr>inodes := (inodes u)(ip := (inodes u ip)\<lparr>ivalid := True\<rparr>)\<rparr>)"
  proof -
    have b1: "bread 1 k (s\<lparr>inodes := (inodes s)(ip := x\<lparr>ibusy := True\<rparr>)\<rparr>) = Ret b t" using b(1) by (simp add: s1_def)
    have u1: "brelse b (t\<lparr>inodes := (inodes s)(ip := y)\<rparr>) = Ret () u" using u(1) it(2) by (simp add: t1_def)
    show ?thesis
      using assms(3,8-10,12) b1 b(5) u1 it y iu
      by (simp add: ilock_def upd_ino_def ino_def data_def kfun_simps assms(4) [symmetric] assms(2) [symmetric])
  qed
  moreover have "tx_same H s u" unfolding tx_same_def
  proof
    fix i assume "i \<in> H"
    then have "bufs t1 i = bufs s i" using b(9) by (simp add: t1_def s1_def)
    then show "same_buf (bufs s i) (bufs u i)" using u(6) by metis
  qed
  moreover have "logged u = logged s" using u(5) b(8) by (simp add: t1_def s1_def logged_def)
  ultimately show ?thesis using u b(6) s1(5) H iu
    by (intro exI [of _ "u\<lparr>inodes := (inodes u)(ip := (inodes u ip)\<lparr>ivalid := True\<rparr>)\<rparr>"]) (simp add: t1_def tx_same_def logged_def)
qed

lemma log_inv_room: "log_inv {} s \<Longrightarrow> tx_room {} s"
  by (simp add: log_inv_def log_geom_def tx_room_def param_defs)

lemma log_inv_disk: "log_inv H s \<Longrightarrow> k < lstart s \<Longrightarrow> k < disksize s"
  unfolding log_inv_def log_geom_def word_less_nat_alt by linarith

text \<open>
  C34. What \<^verbatim>\<open>iupdate\<close> writes, \<^verbatim>\<open>ilock\<close> reads.  Inside a transaction with room in the log \<^verbatim>\<open>iupdate\<close> returns,
  keeps the invariants and leaves every other inode of the disk alone.  In every later state with the same disk
  contents, an unlocked entry of the inode cache for the same inode that has not been read yet gets, by
  \<^verbatim>\<open>ilock\<close>, the type, device numbers, link count, size and block addresses that were written.
\<close>

theorem inode_roundtrip:
  assumes "log_inv {} s" "idev (inodes s ip) = 1" "inum (inodes s ip) = i" "IBLOCK i < lstart s"
    "1 \<le> outstanding s" "lh_n s < lsize s - 1" "itype (inodes s ip) \<noteq> 0"
  shows "\<exists>t. iupdate ip s = Ret () t \<and> log_inv {} t \<and> inodes t = inodes s \<and> disksize t = disksize s \<and>
    (\<forall>j y. j \<noteq> i \<longrightarrow> read_dinode (view t (IBLOCK j)) (dinode_off j) y = read_dinode (view s (IBLOCK j)) (dinode_off j) y) \<and>
    (\<forall>u jp. log_inv {} (u :: 'b fsys_scheme) \<and> view u = view t \<and> disksize u = disksize s \<and> idev (inodes u jp) = 1 \<and>
       inum (inodes u jp) = i \<and> 1 \<le> iref (inodes u jp) \<and> \<not> ibusy (inodes u jp) \<and> \<not> ivalid (inodes u jp) \<longrightarrow>
       (\<exists>v. ilock jp u = Ret () v \<and> log_inv {} v \<and> ibusy (inodes v jp) \<and> ivalid (inodes v jp) \<and>
         same_dinode (inodes v jp) (inodes s ip)))"
proof -
  let ?k = "IBLOCK i" and ?x = "inodes s ip"
  have il: "?k = IBLOCK (inum ?x)" using assms(3) by simp
  obtain t where t: "iupdate ip s = Ret () t" "log_inv {} t" "tx_frame 1 s t"
    "view t = (view s)(?k := write_dinode (view s ?k) (dinode_off i) ?x)"
    using iupdate_ret [OF assms(1) refl assms(2) il assms(4) log_inv_room [OF assms(1)] _ assms(5,6)] assms(3) by auto
  have other: "read_dinode (view t (IBLOCK j)) (dinode_off j) y = read_dinode (view s (IBLOCK j)) (dinode_off j) y"
    if "j \<noteq> i" for j y
  proof (cases "IBLOCK j = ?k")
    case True
    then have "dinode_off i + 64 \<le> dinode_off j \<or> dinode_off j + 64 \<le> dinode_off i" using same_block_apart [of i j] that by auto
    then show ?thesis unfolding t(4) using True by (intro read_dinode_cong) (auto simp: write_dinode_outside)
  qed (simp add: t(4))
  have reload: "\<exists>v. ilock jp u = Ret () v \<and> log_inv {} v \<and> ibusy (inodes v jp) \<and> ivalid (inodes v jp) \<and> same_dinode (inodes v jp) ?x"
    if u: "log_inv {} (u :: 'b fsys_scheme)" "view u = view t" "disksize u = disksize s" "idev (inodes u jp) = 1"
      "inum (inodes u jp) = i" "1 \<le> iref (inodes u jp)" "\<not> ibusy (inodes u jp)" "\<not> ivalid (inodes u jp)" for u jp
  proof -
    define y where "y = read_dinode (view u ?k) (dinode_off (inum (inodes u jp))) ((inodes u jp)\<lparr>ibusy := True\<rparr>)"
    have sd: "same_dinode y ?x" using read_write_dinode unfolding y_def u(2,5) t(4) by simp
    then have ty: "itype y \<noteq> 0" using assms(7) by (simp add: same_dinode_def)
    have k: "?k < disksize u" using log_inv_disk [OF assms(1,4)] u(3) by simp
    have il: "?k = IBLOCK (inum (inodes u jp))" using u(5) by simp
    obtain v where v: "ilock jp u = Ret () v" "log_inv {} v" "inodes v = (inodes u)(jp := y\<lparr>ivalid := True\<rparr>)"
      using ilock_loads [OF u(1) refl u(4) il k log_inv_room [OF u(1)] _ u(7,6,8) y_def ty] by auto
    then show ?thesis using sd by (auto simp: same_dinode_def y_def read_dinode_def)
  qed
  show ?thesis using t(1,2) inodes_frame [OF t(3)] other reload t(3) unfolding tx_frame_def by (intro exI [of _ t]) blast
qed

text \<open>A small disk: 100 blocks, 16 inodes, the log in the last 30 blocks and the bitmap in block 5.\<close>

definition fs_demo :: fsys where
  "fs_demo = \<lparr>bufs = bufs bio_demo,
     disk = (\<lambda>_ _. 0)(1 := put_word (put_word (put_word (\<lambda>_. 0) 0 100) 8 16) 12 30, 5 := (\<lambda>i. if i = 0 then 63 else if i < 8 then 0 else 255)),
     disksize = 100, dwrites = [], wakeups = [], lstart = 70, lsize = 30, outstanding = 1, committing = False, ldev = 1, lh_n = 0,
     lh_sector = (\<lambda>_. 0), inodes = (\<lambda>i. \<lparr>idev = 1, inum = 3, iref = 1, ibusy = False, ivalid = False, itype = T_FILE,
       imajor = 0, iminor = 0, inlink = 1, isize = 7, iaddrs = (\<lambda>j. of_nat j)\<rparr>)\<rparr>"

lemma fs_demo_ok:
  "\<exists>s :: fsys. log_inv {} s \<and> lstart s = 70 \<and> lsize s = 30 \<and> outstanding s = 1 \<and> lh_n s = 0 \<and> disksize s = 100 \<and>
     inodes s = inodes fs_demo \<and> view s = disk fs_demo"
proof -
  have "\<forall>i<NBUF. \<not> bbusy (bufs fs_demo i) \<and> \<not> bdirty (bufs fs_demo i)" by (simp add: fs_demo_def bio_demo_def)
  then obtain s where s: "clean s" "quiet fs_demo s" using binit_clean by blast
  then have sl: "same_log fs_demo s" "logsys.more s = logsys.more fs_demo" "disksize s = 100" "disk s = disk fs_demo"
    using quiet_log [of fs_demo s] by (auto simp: quiet_def fs_demo_def same_log_def)
  have "view s = disk fs_demo" using clean_view [OF s(1)] sl(4) by simp
  then show ?thesis using sl s(1) inodes_more [OF sl(2)]
    by (intro exI [of _ s]) (simp add: same_log_def fs_demo_def log_inv_def log_geom_def logged_def clean_iff param_defs)
qed

theorem inode_roundtrip_witness:
  "\<exists>(s :: fsys) t v. iupdate 0 s = Ret () t \<and> \<not> ivalid (inodes t 1) \<and> ilock 1 t = Ret () v \<and> isize (inodes v 1) = 7"
proof -
  obtain s :: fsys where s: "log_inv {} s" "lstart s = 70" "lsize s = 30" "outstanding s = 1" "lh_n s = 0" "disksize s = 100"
    "inodes s = inodes fs_demo" using fs_demo_ok by blast
  have c: "idev (inodes s 0) = 1" "inum (inodes s 0) = 3" "IBLOCK 3 < lstart s" "1 \<le> outstanding s" "lh_n s < lsize s - 1"
    "itype (inodes s 0) \<noteq> 0" using s by (simp_all add: fs_demo_def IBLOCK_def IPB_def BSIZE_def T_FILE_def)
  obtain t where t: "iupdate 0 s = Ret () t" "log_inv {} t" "inodes t = inodes s" "disksize t = disksize s"
    "\<forall>u jp. log_inv {} (u :: fsys) \<and> view u = view t \<and> disksize u = disksize s \<and> idev (inodes u jp) = 1 \<and>
       inum (inodes u jp) = 3 \<and> 1 \<le> iref (inodes u jp) \<and> \<not> ibusy (inodes u jp) \<and> \<not> ivalid (inodes u jp) \<longrightarrow>
       (\<exists>v. ilock jp u = Ret () v \<and> log_inv {} v \<and> ibusy (inodes v jp) \<and> ivalid (inodes v jp) \<and>
         same_dinode (inodes v jp) (inodes s 0))"
    using inode_roundtrip [OF s(1) c] by blast
  obtain v where "ilock 1 t = Ret () v" "same_dinode (inodes v 1) (inodes s 0)"
    using t(5) [rule_format, of t 1] t(2-4) s(7) by (auto simp: fs_demo_def)
  then show ?thesis using t(1,3) s(7) by (intro exI [of _ s] exI [of _ t] exI [of _ v]) (simp add: fs_demo_def same_dinode_def)
qed

end
