(* ===== verification/Alloc.thy ===== *)
theory Alloc
  imports Inode
begin

text \<open>
  The block allocator: \<^verbatim>\<open>balloc\<close> takes the first free block of the bitmap and clears it, \<^verbatim>\<open>bfree\<close> gives it back.
\<close>

section \<open>Bits of a block\<close>

lemma bit_free_mark: "bit_free (mark_bit i d) j \<longleftrightarrow> bit_free d j \<and> j \<noteq> i"
proof (cases "j div 8 = i div 8")
  case True
  then have "j = i \<longleftrightarrow> j mod 8 = i mod 8" by (metis div_mult_mod_eq)
  then show ?thesis using True by (auto simp: bit_free_def mark_bit_def bit_set_bit_iff)
qed (auto simp: bit_free_def mark_bit_def)

lemma bit_free_clear: "bit_free (clear_bit i d) j \<longleftrightarrow> bit_free d j \<or> j = i"
proof (cases "j div 8 = i div 8")
  case True
  then have "j = i \<longleftrightarrow> j mod 8 = i mod 8" by (metis div_mult_mod_eq)
  then show ?thesis using True by (auto simp: bit_free_def clear_bit_def bit_unset_bit_iff)
qed (auto simp: bit_free_def clear_bit_def)

lemma clear_mark: "bit_free d i \<Longrightarrow> clear_bit i (mark_bit i d) = d"
  by (rule ext) (auto simp: bit_free_def clear_bit_def mark_bit_def intro!: bit_word_eqI simp: bit_unset_bit_iff bit_set_bit_iff)

section \<open>The bitmap\<close>

definition bmap_block :: "superblock \<Rightarrow> nat \<Rightarrow> uint" where
  "bmap_block sb n = BBLOCK (of_nat n) (sb_ninodes sb)"

definition blk_free :: "superblock \<Rightarrow> (uint \<Rightarrow> block) \<Rightarrow> nat \<Rightarrow> bool" where
  "blk_free sb v n \<longleftrightarrow> bit_free (v (bmap_block sb n)) (n mod BPB)"

text \<open>
  The super block describes this disk: the bitmap lies below the log, and no bitmap block is a block that the
  bitmap shows as free.
\<close>

definition bmap_ok :: "superblock \<Rightarrow> 'a logsys_scheme \<Rightarrow> bool" where
  "bmap_ok sb s \<longleftrightarrow> superblock_of (view s 1) = sb \<and> unat (sb_size sb) \<le> unat (disksize s) \<and> 1 < lstart s \<and>
     (\<forall>n<unat (sb_size sb). 1 < bmap_block sb n \<and> bmap_block sb n < lstart s) \<and>
     (\<forall>n m. n < unat (sb_size sb) \<and> m < unat (sb_size sb) \<and> blk_free sb (view s) n \<longrightarrow>
        bmap_block sb m \<noteq> of_nat n \<and> 1 < n \<and> n < unat (lstart s))"

lemma BPB_val: "BPB = 4096"
  by (simp add: BPB_def BSIZE_def)

lemma bmap_block_div: "n < 2 ^ 32 \<Longrightarrow> bmap_block sb n = of_nat (n div BPB) + sb_ninodes sb div of_nat IPB + 3"
proof -
  assume "n < 2 ^ 32"
  then have "(of_nat n :: uint) div of_nat BPB = of_nat (n div BPB)"
    by (intro word_unat_eq_iff [THEN iffD2]) (simp add: unat_div unat_of_nat BPB_val)
  then show ?thesis by (simp add: bmap_block_def BBLOCK_def)
qed

lemma of_nat_less_uint: "x < 2 ^ 32 \<Longrightarrow> (of_nat x :: uint) < sz \<longleftrightarrow> x < unat sz"
  by (simp add: word_less_nat_alt unat_of_nat)

lemma balloc_bit_found:
  assumes "n < unat sz" "unat sz < 2 ^ 31" "m = n div BPB" "\<forall>k<n. m * BPB \<le> k \<longrightarrow> \<not> bit_free d (k mod BPB)" "bit_free d (n mod BPB)"
  shows "balloc_bit d (of_nat (m * BPB)) sz = Some (n mod BPB)"
proof -
  have n: "m * BPB + n mod BPB = n" using assms(3) by simp
  have lt: "(of_nat (m * BPB) + of_nat bi :: uint) < sz \<longleftrightarrow> m * BPB + bi < unat sz" if "bi \<le> n mod BPB" for bi
    using of_nat_less_uint [of "m * BPB + bi" sz] n assms(1,2) that by simp
  have used: "\<not> bit_free d bi" if "bi < n mod BPB" for bi
  proof -
    have "(m * BPB + bi) mod BPB = bi" using that by (simp add: BPB_val)
    then show ?thesis using assms(4) [rule_format, of "m * BPB + bi"] that n by simp
  qed
  have "first_index BPB (\<lambda>bi. \<not> of_nat (m * BPB) + of_nat bi < sz \<or> bit_free d bi) = Some (n mod BPB)"
    unfolding first_index_Some_iff using assms(1,5) lt used n by (auto simp: BPB_val)
  then show ?thesis using lt [of "n mod BPB"] n assms(1) by (simp add: balloc_bit_def)
qed

lemma balloc_bit_none:
  assumes "n < unat sz" "unat sz < 2 ^ 31" "m < n div BPB" "\<forall>bi<BPB. \<not> bit_free d bi"
  shows "balloc_bit d (of_nat (m * BPB)) sz = None"
proof -
  have "(m + 1) * BPB \<le> n" using assms(3) by (metis Suc_eq_plus1 Suc_leI div_times_less_eq_dividend mult_le_mono1 order_trans)
  then have "(of_nat (m * BPB) + of_nat bi :: uint) < sz" if "bi < BPB" for bi
    using of_nat_less_uint [of "m * BPB + bi" sz] assms(1,2) that by simp
  then have "first_index BPB (\<lambda>bi. \<not> of_nat (m * BPB) + of_nat bi < sz \<or> bit_free d bi) = None"
    using assms(4) by (simp add: first_index_None)
  then show ?thesis by (simp add: balloc_bit_def)
qed

section \<open>Scanning the bitmap\<close>

lemma seq_last: "seq f (seq g h) s = Ret x t \<Longrightarrow> seq f (seq g (seq h k)) s = k t"
  by (auto simp: kfun_simps split: outcome.splits)

definition zero_block :: "block \<Rightarrow> block" where
  "zero_block d = (\<lambda>i. if i < BSIZE then 0 else d i)"

lemma bzero_ret:
  assumes "log_inv H s" "k < lstart s" "tx_room H s" "\<forall>i\<in>H. bsector (bufs s i) \<noteq> k" "1 \<le> outstanding s" "lh_n s < lsize s - 1"
  shows "\<exists>t. bzero 1 k s = Ret () t \<and> log_inv H t \<and> view t = (view s)(k := zero_block (view s k)) \<and> tx_frame 1 s t \<and> tx_same H s t"
  using tx_update [OF assms, of zero_block] by (auto simp: bzero_def set_data_def zero_block_def)

lemma bmap_ok_cong: "bmap_ok sb s \<Longrightarrow> view t = view s \<Longrightarrow> tx_frame c s t \<Longrightarrow> bmap_ok sb t"
proof -
  assume v: "view t = view s" and f: "tx_frame c s t" and ok: "bmap_ok sb s"
  have g: "disksize t = disksize s" "lstart t = lstart s" using f by (auto simp: tx_frame_def)
  show ?thesis using ok unfolding bmap_ok_def v g .
qed

lemma bmap_ok_size: "bmap_ok sb s \<Longrightarrow> log_inv H s \<Longrightarrow> unat (sb_size sb) < 2 ^ 31"
  unfolding bmap_ok_def log_inv_def log_geom_def by linarith

text \<open>The first free block.\<close>

definition first_free :: "superblock \<Rightarrow> (uint \<Rightarrow> block) \<Rightarrow> nat \<Rightarrow> bool" where
  "first_free sb v n \<longleftrightarrow> n < unat (sb_size sb) \<and> blk_free sb v n \<and> (\<forall>k<n. \<not> blk_free sb v k)"

definition alloced :: "superblock \<Rightarrow> nat \<Rightarrow> (uint \<Rightarrow> block) \<Rightarrow> (uint \<Rightarrow> block)" where
  "alloced sb n v = v(bmap_block sb n := mark_bit (n mod BPB) (v (bmap_block sb n)), of_nat n := zero_block (v (of_nat n)))"

lemma balloc_take:
  assumes "log_inv {} s" "bmap_ok sb s" "first_free sb (view s) n" "1 \<le> outstanding s" "lh_n s < lsize s - 2"
    "bread 1 (bmap_block sb n) s = Ret b t" "log_inv {b} t" "bsector (bufs t b) = bmap_block sb n"
    "bdata (bufs t b) = view s (bmap_block sb n)" "view t = view s" "tx_frame 0 s t"
  shows "\<exists>u. seq (set_data b (mark_bit (n mod BPB))) (seq (log_write b) (seq (brelse b) (seq (bzero 1 (of_nat n)) (return (of_nat n))))) t =
      Ret (of_nat n) u \<and> log_inv {} u \<and> tx_frame 2 s u \<and> view u = alloced sb n (view s)"
proof -
  let ?k = "bmap_block sb n"
  have n: "n < unat (sb_size sb)" "blk_free sb (view s) n" using assms(3) by (auto simp: first_free_def)
  have g: "?k < lstart s" "?k \<noteq> of_nat n" "n < unat (lstart s)" using assms(2) n unfolding bmap_ok_def by auto
  have fr: "lstart t = lstart s" "outstanding t = outstanding s" "lh_n t \<le> lh_n s" "lsize t = lsize s"
    using assms(11) by (auto simp: tx_frame_def)
  have "log_inv (insert b {}) t" "b \<notin> {}" "bsector (bufs t b) = ?k" "?k < lstart t" "1 \<le> outstanding t" "lh_n t < lsize t - 1"
    using assms(4,5,7,8) g fr by auto
  from tx_put [OF this, of "mark_bit (n mod BPB)"] obtain v where
    v: "seq (set_data b (mark_bit (n mod BPB))) (seq (log_write b) (brelse b)) t = Ret () v" "log_inv {} v"
      "view v = (view t)(?k := mark_bit (n mod BPB) (bdata (bufs t b)))" "tx_frame 1 t v" unfolding set_data_def by blast
  have "unat (lstart s) < 2 ^ 32" using unsigned_less [of "lstart s"] by simp
  then have "unat (of_nat n :: uint) = n" using g(3) by (simp add: unat_of_nat)
  then have c: "(of_nat n :: uint) < lstart v" "1 \<le> outstanding v" "lh_n v < lsize v - 1"
    using v(4) fr g(3) assms(4,5) by (auto simp: tx_frame_def word_less_nat_alt)
  obtain u where u: "bzero 1 (of_nat n) v = Ret () u" "log_inv {} u" "view u = (view v)(of_nat n := zero_block (view v (of_nat n)))" "tx_frame 1 v u"
    using bzero_ret [OF v(2) c(1) log_inv_room [OF v(2)] _ c(2,3)] by auto
  have "seq (set_data b (mark_bit (n mod BPB))) (seq (log_write b) (seq (brelse b) (seq (bzero 1 (of_nat n)) (return (of_nat n))))) t = Ret (of_nat n) u"
    unfolding seq_last [OF v(1)] using u(1) by (simp add: kfun_simps)
  moreover have "tx_frame 2 s u" using tx_frame_trans [OF tx_frame_trans [OF assms(11) v(4)] u(4)] by (simp add: numeral_2_eq_2)
  moreover have "view u = alloced sb n (view s)" using u(3) v(3) assms(9,10) g(2) by (simp add: alloced_def)
  ultimately show ?thesis using u(2) by blast
qed

lemma balloc_loop_ret:
  assumes "log_inv {} s" "bmap_ok sb s" "first_free sb (view s) n" "1 \<le> outstanding s" "lh_n s < lsize s - 2"
    "m \<le> n div BPB" "n div BPB - m < k"
  shows "\<exists>u. balloc_loop k 1 sb (of_nat (m * BPB)) s = Ret (of_nat n) u \<and> log_inv {} u \<and> tx_frame 2 s u \<and> view u = alloced sb n (view s)"
  using assms
proof (induction k arbitrary: m s)
  case (Suc k)
  note sz = bmap_ok_size [OF Suc.prems(2,1)]
  have n: "n < unat (sb_size sb)" "blk_free sb (view s) n" "\<forall>i<n. \<not> blk_free sb (view s) i" using Suc.prems(3) by (auto simp: first_free_def)
  have mn: "m * BPB \<le> n" using Suc.prems(6) by (metis div_times_less_eq_dividend mult_le_mono1 order_trans)
  define q where "q = bmap_block sb (m * BPB)"
  have q: "q < lstart s" using Suc.prems(2) mn n(1) unfolding bmap_ok_def q_def by auto
  have lt: "(of_nat (m * BPB) :: uint) < sb_size sb" using of_nat_less_uint [of "m * BPB" "sb_size sb"] mn n(1) sz by simp
  have blk: "bmap_block sb i = q" if "i div BPB = m" "i < 2 ^ 32" for i
    using bmap_block_div [of i sb] bmap_block_div [of "m * BPB" sb] that mn n(1) sz by (simp add: q_def BPB_val)
  obtain b t where b: "bread 1 q s = Ret b t" "log_inv {b} t" "bsector (bufs t b) = q"
    "bdata (bufs t b) = view s q" "view t = view s" "tx_frame 0 s t" "bdirty (bufs t b) \<or> bdata (bufs t b) = disk t q"
    using tx_bread [OF Suc.prems(1) log_inv_disk [OF Suc.prems(1) q] log_inv_room [OF Suc.prems(1)]] by auto
  have step: "balloc_loop (Suc k) 1 sb (of_nat (m * BPB)) s = (case balloc_bit (view s q) (of_nat (m * BPB)) (sb_size sb) of
          Some bi \<Rightarrow> seq (set_data b (mark_bit bi)) (seq (log_write b) (seq (brelse b) (seq (bzero 1 (of_nat (m * BPB) + of_nat bi)) (return (of_nat (m * BPB) + of_nat bi)))))
        | None \<Rightarrow> seq (brelse b) (balloc_loop k 1 sb (of_nat (m * BPB) + of_nat BPB))) t"
    using lt b(1,4) by (simp add: q_def bmap_block_def data_def kfun_simps del: of_nat_mult split: option.split)
  show ?case
  proof (cases "m = n div BPB")
    case True
    have qn: "bmap_block sb n = q" using blk [of n] True n(1) sz by simp
    have "balloc_bit (view s q) (of_nat (m * BPB)) (sb_size sb) = Some (n mod BPB)"
    proof (rule balloc_bit_found [OF n(1) sz True])
      show "bit_free (view s q) (n mod BPB)" using n(2) qn by (simp add: blk_free_def)
      show "\<forall>i<n. m * BPB \<le> i \<longrightarrow> \<not> bit_free (view s q) (i mod BPB)"
      proof (intro allI impI)
        fix i assume i: "i < n" "m * BPB \<le> i"
        then have "i div BPB = m" using True by (metis div_le_mono div_mult_self_is_m le_antisym less_imp_le_nat BPB_val zero_less_numeral)
        then show "\<not> bit_free (view s q) (i mod BPB)" using n(3) i(1) blk [of i] n(1) sz by (auto simp: blk_free_def)
      qed
    qed
    moreover have "(of_nat (m * BPB) + of_nat (n mod BPB) :: uint) = of_nat n"
      unfolding of_nat_add [symmetric] True by simp
    ultimately show ?thesis
      using balloc_take [OF Suc.prems(1-5)] b qn unfolding step by simp
  next
    case False
    then have m: "m < n div BPB" using Suc.prems(6) by simp
    then have m1: "Suc m * BPB \<le> n" by (metis Suc_leI div_times_less_eq_dividend mult_le_mono1 order_trans)
    have all: "\<not> bit_free (view s q) bi" if "bi < BPB" for bi
    proof -
      have "m * BPB + bi < n" using m1 that by simp
      moreover have "(m * BPB + bi) div BPB = m" "(m * BPB + bi) mod BPB = bi" using that by (simp_all add: BPB_val)
      ultimately show ?thesis using n(1,3) sz blk [of "m * BPB + bi"] by (auto simp: blk_free_def)
    qed
    then have none: "balloc_bit (view s q) (of_nat (m * BPB)) (sb_size sb) = None" using balloc_bit_none [OF n(1) sz m] by blast
    obtain u where u: "brelse b t = Ret () u" "log_inv ({b} - {b}) u" "view u = view t" "tx_frame 0 t u"
      using tx_brelse [OF b(2)] b(3,7) by auto
    have fr: "tx_frame 0 s u" using tx_frame_trans [OF b(6) u(4)] by simp
    have vu: "view u = view s" using u(3) b(5) by simp
    have f: "1 \<le> outstanding u" "lh_n u < lsize u - 2" using fr Suc.prems(4,5) by (auto simp: tx_frame_def)
    have iu: "log_inv {} u" using u(2) by simp
    have nx: "(of_nat (m * BPB) + of_nat BPB :: uint) = of_nat (Suc m * BPB)" by simp
    have "\<exists>v. balloc_loop k 1 sb (of_nat (Suc m * BPB)) u = Ret (of_nat n) v \<and> log_inv {} v \<and> tx_frame 2 u v \<and> view v = alloced sb n (view u)"
    proof (rule Suc.IH)
      show "first_free sb (view u) n" using Suc.prems(3) vu by simp
    qed (use iu bmap_ok_cong [OF Suc.prems(2) vu fr] f m Suc.prems(7) in auto)
    then obtain v where v: "balloc_loop k 1 sb (of_nat (Suc m * BPB)) u = Ret (of_nat n) v" "log_inv {} v" "tx_frame 2 u v" "view v = alloced sb n (view u)"
      by blast
    have "tx_frame 2 s v" using tx_frame_trans [OF fr v(3)] by (simp only: add_0)
    moreover have "view v = alloced sb n (view s)" using v(4) vu by simp
    ultimately show ?thesis unfolding step none nx using u(1) v(1,2) by (auto simp: kfun_simps simp del: of_nat_mult)
  qed
qed simp

lemma tx_readsb:
  assumes "log_inv {} s" "1 < disksize s"
  shows "\<exists>t. readsb 1 s = Ret (superblock_of (view s 1)) t \<and> log_inv {} t \<and> view t = view s \<and> tx_frame 0 s t"
  using tx_get [OF assms log_inv_room [OF assms(1)], of superblock_of] by (auto simp: readsb_def)

lemma balloc_ret:
  assumes "log_inv {} s" "bmap_ok sb s" "first_free sb (view s) n" "1 \<le> outstanding s" "lh_n s < lsize s - 2"
  shows "\<exists>u. balloc 1 s = Ret (of_nat n) u \<and> log_inv {} u \<and> tx_frame 2 s u \<and> view u = alloced sb n (view s)"
proof -
  have sb: "superblock_of (view s 1) = sb" "1 < lstart s" using assms(2) by (auto simp: bmap_ok_def)
  obtain t where t: "readsb 1 s = Ret sb t" "log_inv {} t" "view t = view s" "tx_frame 0 s t"
    using tx_readsb [OF assms(1) log_inv_disk [OF assms(1) sb(2)]] sb(1) by auto
  have f: "1 \<le> outstanding t" "lh_n t < lsize t - 2" using t(4) assms(4,5) by (auto simp: tx_frame_def)
  have ff: "first_free sb (view t) n" using assms(3) t(3) by simp
  have "n div BPB < 2 ^ 20 + 1"
    using ff bmap_ok_size [OF assms(2,1)] by (auto simp: first_free_def BPB_val div_less_iff_less_mult)
  then obtain u where u: "balloc_loop (2 ^ 20 + 1) 1 sb (of_nat (0 * BPB)) t = Ret (of_nat n) u" "log_inv {} u" "tx_frame 2 t u"
    "view u = alloced sb n (view t)"
    using balloc_loop_ret [OF t(2) bmap_ok_cong [OF assms(2) t(3,4)] ff f, of 0 "2 ^ 20 + 1"] by auto
  have "balloc 1 s = Ret (of_nat n) u" using t(1) u(1) by (simp add: balloc_def kfun_simps del: balloc_loop.simps)
  moreover have "tx_frame 2 s u" using tx_frame_trans [OF t(4) u(3)] by (simp only: add_0)
  ultimately show ?thesis using u(2,4) t(3) by auto
qed

lemma alloced_free:
  assumes "bmap_ok sb s" "first_free sb (view s) n" "k < unat (sb_size sb)" "unat (sb_size sb) < 2 ^ 31"
  shows "blk_free sb (alloced sb n (view s)) k \<longleftrightarrow> blk_free sb (view s) k \<and> k \<noteq> n"
proof -
  have n: "n < unat (sb_size sb)" "blk_free sb (view s) n" using assms(2) by (auto simp: first_free_def)
  have nb: "bmap_block sb k \<noteq> of_nat n" using assms(1,3) n unfolding bmap_ok_def by blast
  show ?thesis
  proof (cases "bmap_block sb k = bmap_block sb n")
    case True
    have "(of_nat (k div BPB) :: uint) = of_nat (n div BPB)"
      using True bmap_block_div [of k sb] bmap_block_div [of n sb] assms(3,4) n(1) by simp
    then have "k div BPB = n div BPB" using assms(3,4) n(1) by (simp add: BPB_val word_unat_eq_iff unat_of_nat)
    then have "k mod BPB = n mod BPB \<longleftrightarrow> k = n" by (metis div_mult_mod_eq)
    then show ?thesis using True nb by (simp add: blk_free_def alloced_def bit_free_mark)
  next
    case False
    then show ?thesis using nb by (auto simp: blk_free_def alloced_def)
  qed
qed

lemma bfree_ret:
  assumes "log_inv {} s" "superblock_of (view s 1) = sb" "1 < lstart s" "k = bmap_block sb n" "n < 2 ^ 32" "k < lstart s"
    "\<not> blk_free sb (view s) n" "1 \<le> outstanding s" "lh_n s < lsize s - 1"
  shows "\<exists>u. bfree 1 (of_nat n) s = Ret () u \<and> log_inv {} u \<and> tx_frame 1 s u \<and> view u = (view s)(k := clear_bit (n mod BPB) (view s k))"
proof -
  obtain t where t: "readsb 1 s = Ret sb t" "log_inv {} t" "view t = view s" "tx_frame 0 s t"
    using tx_readsb [OF assms(1) log_inv_disk [OF assms(1,3)]] assms(2) by auto
  have kt: "k < lstart t" "1 \<le> outstanding t" "lh_n t < lsize t - 1" using t(4) assms(6,8,9) by (auto simp: tx_frame_def)
  obtain b v where b: "bread 1 k t = Ret b v" "log_inv {b} v" "bsector (bufs v b) = k"
    "bdata (bufs v b) = view t k" "view v = view t" "tx_frame 0 t v"
    using tx_bread [OF t(2) log_inv_disk [OF t(2) kt(1)] log_inv_room [OF t(2)]] by auto
  have "log_inv (insert b {}) v" "b \<notin> {}" "bsector (bufs v b) = k" "k < lstart v" "1 \<le> outstanding v" "lh_n v < lsize v - 1"
    using b kt by (auto simp: tx_frame_def)
  from tx_put [OF this, of "clear_bit (n mod BPB)"] obtain u where
    u: "seq (set_data b (clear_bit (n mod BPB))) (seq (log_write b) (brelse b)) v = Ret () u" "log_inv {} u"
      "view u = (view v)(k := clear_bit (n mod BPB) (bdata (bufs v b)))" "tx_frame 1 v u" unfolding set_data_def by blast
  have bi: "unat (of_nat n :: uint) mod BPB = n mod BPB" using assms(5) by (simp add: unat_of_nat)
  have "\<not> bit_free (view s k) (n mod BPB)" using assms(4,7) by (simp add: blk_free_def)
  then have "bfree 1 (of_nat n) s = seq (set_data b (clear_bit (n mod BPB))) (seq (log_write b) (brelse b)) v"
    using t(1,3) b(1,4) assms(4) by (simp add: bfree_def bi data_def bmap_block_def Let_def kfun_simps)
  moreover have "tx_frame 1 s u" using tx_frame_trans [OF tx_frame_trans [OF t(4) b(6)] u(4)] by simp
  ultimately show ?thesis using u t(3) b(4,5) by auto
qed


lemma fs_demo_bitmap:
  "n < 100 \<Longrightarrow> bit_free (\<lambda>i. if i = 0 then 63 else if i < 8 then 0 else 255) n \<longleftrightarrow> 6 \<le> n \<and> n < 64"
proof -
  assume "n < 100"
  consider "n < 8" | "8 \<le> n" "n < 64" | "64 \<le> n" by linarith
  then show ?thesis
  proof cases
    case 1
    then have "n \<in> {0, 1, 2, 3, 4, 5, 6, 7}" by auto
    then show ?thesis by (auto simp: bit_free_def)
  next
    case 2
    then show ?thesis by (auto simp: bit_free_def)
  next
    case 3
    have "(255 :: uchar) = - 1" by simp
    then have "bit (255 :: uchar) (n mod 8)" by (simp only: bit_minus_1_iff) simp
    then show ?thesis using 3 by (auto simp: bit_free_def)
  qed
qed


end
