(* ===== verification/Contents.thy ===== *)
theory Contents
  imports Alloc
begin

text \<open>
  The contents of a file.  \<open>contents x v\<close> are the bytes of the file of inode \<open>x\<close> when the disk blocks are \<open>v\<close>, found
  through the direct and the indirect block addresses; a hole reads as zero.  \<^verbatim>\<open>bmap\<close> does not change the contents,
  \<^verbatim>\<open>writei\<close> replaces exactly the bytes it is given, and \<^verbatim>\<open>readi\<close> returns them.
\<close>

section \<open>Blocks of a file\<close>

definition blk_of :: "inode \<Rightarrow> (uint \<Rightarrow> block) \<Rightarrow> nat \<Rightarrow> uint" where
  "blk_of x v b = (if b < NDIRECT then iaddrs x b
     else if iaddrs x NDIRECT = 0 then 0 else word_at (v (iaddrs x NDIRECT)) (4 * (b - NDIRECT)))"

definition contents :: "inode \<Rightarrow> (uint \<Rightarrow> block) \<Rightarrow> nat \<Rightarrow> uchar" where
  "contents x v p = (if blk_of x v (p div BSIZE) = 0 then 0 else v (blk_of x v (p div BSIZE)) (p mod BSIZE))"

definition owned :: "inode \<Rightarrow> (uint \<Rightarrow> block) \<Rightarrow> uint set" where
  "owned x v = {k. k \<noteq> 0 \<and> (k = iaddrs x NDIRECT \<or> (\<exists>b<MAXFILE. k = blk_of x v b))}"

text \<open>A block that is in use and is neither the super block nor part of the bitmap.\<close>

definition data_blk :: "superblock \<Rightarrow> 'a logsys_scheme \<Rightarrow> uint \<Rightarrow> bool" where
  "data_blk sb s k \<longleftrightarrow> unat k < unat (sb_size sb) \<and> \<not> blk_free sb (view s) (unat k) \<and> k < lstart s \<and> k \<noteq> 1 \<and>
     (\<forall>m<unat (sb_size sb). bmap_block sb m \<noteq> k)"

text \<open>No two places of the file share a block, and none of its blocks is used for something else.\<close>

definition file_ok :: "superblock \<Rightarrow> inode \<Rightarrow> 'a logsys_scheme \<Rightarrow> bool" where
  "file_ok sb x s \<longleftrightarrow> (\<forall>k\<in>owned x (view s). data_blk sb s k \<and> k \<noteq> IBLOCK (inum x)) \<and> data_blk sb s (IBLOCK (inum x)) \<and>
     (\<forall>b<MAXFILE. blk_of x (view s) b \<noteq> 0 \<longrightarrow> blk_of x (view s) b \<noteq> iaddrs x NDIRECT \<and>
        (\<forall>c<MAXFILE. blk_of x (view s) c = blk_of x (view s) b \<longrightarrow> c = b))"

definition fs_ok :: "superblock \<Rightarrow> nat \<Rightarrow> 'a fsys_scheme \<Rightarrow> bool" where
  "fs_ok sb ip s \<longleftrightarrow> log_inv {} s \<and> bmap_ok sb s \<and> file_ok sb (inodes s ip) s \<and> idev (inodes s ip) = 1 \<and> 1 \<le> outstanding s"

definition free_blocks :: "superblock \<Rightarrow> 'a logsys_scheme \<Rightarrow> nat set" where
  "free_blocks sb s = {n. n < unat (sb_size sb) \<and> blk_free sb (view s) n}"

lemma ownedI: "blk_of x v b \<noteq> 0 \<Longrightarrow> b < MAXFILE \<Longrightarrow> blk_of x v b \<in> owned x v"
  by (auto simp: owned_def)

lemma owned_ind: "iaddrs x NDIRECT \<noteq> 0 \<Longrightarrow> iaddrs x NDIRECT \<in> owned x v"
  by (simp add: owned_def)

lemma data_blkD: "data_blk sb s k \<Longrightarrow> k < lstart s"
  by (simp add: data_blk_def)

lemma blk_of_cong:
  assumes "iaddrs x NDIRECT \<noteq> 0 \<Longrightarrow> w (iaddrs x NDIRECT) = v (iaddrs x NDIRECT)"
  shows "blk_of x w b = blk_of x v b"
  using assms by (auto simp: blk_of_def)

lemma owned_cong:
  assumes "iaddrs x NDIRECT \<noteq> 0 \<Longrightarrow> w (iaddrs x NDIRECT) = v (iaddrs x NDIRECT)"
  shows "owned x w = owned x v"
  using blk_of_cong [of x w v, OF assms] by (auto simp: owned_def)

text \<open>Changing other blocks does not change the file.\<close>

lemma contents_cong:
  assumes "\<forall>k\<in>owned x v. w k = v k" "p < MAXFILE * BSIZE"
  shows "contents x w p = contents x v p"
proof -
  have "iaddrs x NDIRECT \<noteq> 0 \<Longrightarrow> w (iaddrs x NDIRECT) = v (iaddrs x NDIRECT)" using assms(1) owned_ind by blast
  then have b: "blk_of x w b = blk_of x v b" for b by (rule blk_of_cong)
  have "p div BSIZE < MAXFILE" using assms(2) by (simp add: div_less_iff_less_mult BSIZE_def)
  then show ?thesis using b assms(1) ownedI [of x v "p div BSIZE"] by (auto simp: contents_def)
qed

lemma data_blk_cong:
  assumes "data_blk sb s k" "lstart t = lstart s" "\<forall>m<unat (sb_size sb). view t (bmap_block sb m) = view s (bmap_block sb m)"
  shows "data_blk sb t k"
  using assms by (auto simp: data_blk_def blk_free_def)

section \<open>One block written\<close>

text \<open>The state after block \<open>a\<close> of the file has been changed.\<close>

lemma written_block:
  assumes "fs_ok sb ip s" "x = inodes s ip" "b < MAXFILE" "a = blk_of x (view s) b" "a \<noteq> 0"
    "log_inv {} t" "tx_frame c s t" "view t = (view s)(a := d)"
  shows "fs_ok sb ip t" "inodes t = inodes s" "free_blocks sb t = free_blocks sb s" "owned x (view t) = owned x (view s)"
    "\<And>i. blk_of x (view t) i = blk_of x (view s) i"
    "\<And>p. p < MAXFILE * BSIZE \<Longrightarrow> contents x (view t) p = (if p div BSIZE = b then d (p mod BSIZE) else contents x (view s) p)"
proof -
  have f: "file_ok sb x s" and bm: "bmap_ok sb s" using assms(1,2) by (auto simp: fs_ok_def)
  have own: "a \<in> owned x (view s)" using assms(3-5) ownedI by blast
  then have da: "data_blk sb s a" "a \<noteq> IBLOCK (inum x)" using f by (auto simp: file_ok_def)
  have ai: "a \<noteq> iaddrs x NDIRECT" using f assms(3-5) by (auto simp: file_ok_def)
  have nb: "\<forall>m<unat (sb_size sb). view t (bmap_block sb m) = view s (bmap_block sb m)"
    using da(1) assms(8) by (auto simp: data_blk_def)
  have i1: "view t 1 = view s 1" using da(1) assms(8) by (auto simp: data_blk_def)
  have fr: "lstart t = lstart s" "disksize t = disksize s" "outstanding t = outstanding s" using assms(7) by (auto simp: tx_frame_def)
  show ino: "inodes t = inodes s" by (rule inodes_frame [OF assms(7)])
  have fb: "blk_free sb (view t) n = blk_free sb (view s) n" if "n < unat (sb_size sb)" for n using nb that by (simp add: blk_free_def)
  show "free_blocks sb t = free_blocks sb s" using fb by (auto simp: free_blocks_def)
  have iv: "iaddrs x NDIRECT \<noteq> 0 \<Longrightarrow> view t (iaddrs x NDIRECT) = view s (iaddrs x NDIRECT)" using ai assms(8) by simp
  show bo: "blk_of x (view t) i = blk_of x (view s) i" for i using iv by (rule blk_of_cong)
  show ow: "owned x (view t) = owned x (view s)" using iv by (rule owned_cong)
  have "bmap_ok sb t" using bm fb unfolding bmap_ok_def fr i1 by blast
  moreover have "file_ok sb x t"
    using f data_blk_cong [OF _ fr(1) nb] unfolding file_ok_def ow bo by blast
  ultimately show "fs_ok sb ip t" using assms(1,2,6) fr ino by (simp add: fs_ok_def)
  fix p :: nat assume p: "p < MAXFILE * BSIZE"
  then have "p div BSIZE < MAXFILE" by (simp add: div_less_iff_less_mult BSIZE_def)
  moreover have "\<forall>c<MAXFILE. blk_of x (view s) c = blk_of x (view s) b \<longrightarrow> c = b"
    using f assms(3-5) by (simp add: file_ok_def)
  ultimately have "blk_of x (view s) (p div BSIZE) = a \<longleftrightarrow> p div BSIZE = b"
    using assms(4) by auto
  then show "contents x (view t) p = (if p div BSIZE = b then d (p mod BSIZE) else contents x (view s) p)"
    unfolding contents_def bo unfolding assms(8) using assms(5) by auto
qed

section \<open>One block allocated\<close>

lemma fresh_block:
  assumes "bmap_ok sb s" "log_inv H s" "first_free sb (view s) n"
  shows "n < unat (sb_size sb)" "unat (of_nat n :: uint) = n" "(of_nat n :: uint) \<noteq> 0" "(of_nat n :: uint) \<noteq> 1" "(of_nat n :: uint) < lstart s"
    "\<And>m. m < unat (sb_size sb) \<Longrightarrow> bmap_block sb m \<noteq> of_nat n" "\<And>k. data_blk sb s k \<Longrightarrow> k \<noteq> of_nat n"
    "\<And>k. k < unat (sb_size sb) \<Longrightarrow> blk_free sb (alloced sb n (view s)) k \<longleftrightarrow> blk_free sb (view s) k \<and> k \<noteq> n"
    "bmap_block sb n \<noteq> 1"
proof -
  note sz = bmap_ok_size [OF assms(1,2)]
  show n: "n < unat (sb_size sb)" using assms(3) by (simp add: first_free_def)
  have fr: "blk_free sb (view s) n" using assms(3) by (simp add: first_free_def)
  show u: "unat (of_nat n :: uint) = n" using n sz by (simp add: unat_of_nat)
  have "1 < n" "n < unat (lstart s)" using assms(1) n fr unfolding bmap_ok_def by blast+
  then show "(of_nat n :: uint) \<noteq> 0" "(of_nat n :: uint) \<noteq> 1" "(of_nat n :: uint) < lstart s"
    using u by (auto simp: word_less_nat_alt)
  show "bmap_block sb m \<noteq> of_nat n" if "m < unat (sb_size sb)" for m using assms(1) n fr that unfolding bmap_ok_def by blast
  show "k \<noteq> of_nat n" if "data_blk sb s k" for k using that fr u by (auto simp: data_blk_def)
  show "blk_free sb (alloced sb n (view s)) k \<longleftrightarrow> blk_free sb (view s) k \<and> k \<noteq> n" if "k < unat (sb_size sb)" for k
    by (rule alloced_free [OF assms(1,3) that sz])
  show "bmap_block sb n \<noteq> 1" using assms(1) n unfolding bmap_ok_def by auto
qed

lemma alloced_block:
  assumes "fs_ok sb ip s" "x = inodes s ip" "b < NDIRECT" "iaddrs x b = 0" "first_free sb (view s) n"
    "log_inv {} u" "tx_frame c s u" "view u = alloced sb n (view s)"
    "y = x\<lparr>iaddrs := (iaddrs x)(b := of_nat n)\<rparr>" "t = u\<lparr>inodes := (inodes u)(ip := y)\<rparr>"
  shows "fs_ok sb ip t" "inodes t = (inodes s)(ip := y)" "free_blocks sb t = free_blocks sb s - {n}"
    "owned y (view t) = insert (of_nat n) (owned x (view s))" "blk_of y (view t) b = of_nat n" "(of_nat n :: uint) \<noteq> 0"
    "\<And>i. i \<noteq> b \<Longrightarrow> blk_of y (view t) i = blk_of x (view s) i" "n \<in> free_blocks sb s"
    "\<And>p. p < MAXFILE * BSIZE \<Longrightarrow> contents y (view t) p = contents x (view s) p"
    "\<And>k. k \<noteq> of_nat n \<Longrightarrow> k \<noteq> bmap_block sb n \<Longrightarrow> view t k = view s k"
proof -
  have li: "log_inv {} s" and f: "file_ok sb x s" and bm: "bmap_ok sb s" using assms(1,2) by (auto simp: fs_ok_def)
  note n = fresh_block [OF bm li assms(5)]
  have vt: "view t = alloced sb n (view s)" using assms(8,10) by simp
  have fr: "lstart t = lstart s" "disksize t = disksize s" "outstanding t = outstanding s" "inodes u = inodes s"
    using assms(7,10) inodes_frame [OF assms(7)] by (auto simp: tx_frame_def)
  show ino: "inodes t = (inodes s)(ip := y)" using assms(10) fr(4) by simp
  show other: "k \<noteq> of_nat n \<Longrightarrow> k \<noteq> bmap_block sb n \<Longrightarrow> view t k = view s k" for k unfolding vt by (simp add: alloced_def)
  have same: "view t k = view s k" if "data_blk sb s k" for k
    using that n(1) other [OF n(7) [OF that]] by (auto simp: data_blk_def)
  show n0: "(of_nat n :: uint) \<noteq> 0" by (rule n(3))
  have b12: "b \<noteq> NDIRECT" "b < MAXFILE" using assms(3) by (auto simp: MAXFILE_def)
  have ind: "iaddrs y NDIRECT = iaddrs x NDIRECT" using assms(9) b12(1) by simp
  have iv: "iaddrs x NDIRECT \<noteq> 0 \<Longrightarrow> view t (iaddrs x NDIRECT) = view s (iaddrs x NDIRECT)"
    using f owned_ind [of x "view s"] same by (auto simp: file_ok_def)
  show bb: "blk_of y (view t) b = of_nat n" using assms(3,9) by (simp add: blk_of_def)
  show bo: "blk_of y (view t) i = blk_of x (view s) i" if "i \<noteq> b" for i
    using that iv assms(9) b12(1) by (auto simp: blk_of_def ind)
  have bz: "blk_of x (view s) b = 0" using assms(3,4) by (simp add: blk_of_def)
  show ow: "owned y (view t) = insert (of_nat n) (owned x (view s))"
  proof (rule set_eqI)
    fix k
    have "(\<exists>c<MAXFILE. k = blk_of y (view t) c) \<longleftrightarrow> k = of_nat n \<or> (\<exists>c<MAXFILE. c \<noteq> b \<and> k = blk_of x (view s) c)"
      using b12(2) bb bo by metis
    then show "k \<in> owned y (view t) \<longleftrightarrow> k \<in> insert (of_nat n) (owned x (view s))"
      using bz n0 unfolding owned_def ind by auto
  qed
  have fb: "blk_free sb (view t) k \<longleftrightarrow> blk_free sb (view s) k \<and> k \<noteq> n" if "k < unat (sb_size sb)" for k
    unfolding vt by (rule n(8) [OF that])
  show nf: "n \<in> free_blocks sb s" using assms(5) by (simp add: free_blocks_def first_free_def)
  show "free_blocks sb t = free_blocks sb s - {n}" using fb by (auto simp: free_blocks_def)
  have dk: "data_blk sb t k" if "data_blk sb s k" for k using that fb fr(1) by (auto simp: data_blk_def)
  have dn: "data_blk sb t (of_nat n)"
    using n(1-6) fb [OF n(1)] fr(1) unfolding data_blk_def by auto
  have "view t 1 = view s 1" using other [of 1] n(4,9) by auto
  then have "bmap_ok sb t" using bm fb unfolding bmap_ok_def fr by auto
  moreover have "file_ok sb y t"
    unfolding file_ok_def ow
  proof (intro conjI ballI allI impI)
    have iy: "inum y = inum x" using assms(9) by simp
    show "data_blk sb t (IBLOCK (inum y))" using f dk unfolding iy file_ok_def by blast
    fix k assume "k \<in> insert (of_nat n) (owned x (view s))"
    then show "data_blk sb t k" "k \<noteq> IBLOCK (inum y)"
      using f dk dn n(7) unfolding iy file_ok_def by blast+
  next
    fix i assume i: "i < MAXFILE" "blk_of y (view t) i \<noteq> 0"
    have nown: "of_nat n \<notin> owned x (view s)" using f n(7) unfolding file_ok_def by blast
    show "blk_of y (view t) i \<noteq> iaddrs y NDIRECT"
    proof (cases "i = b")
      case True
      then show ?thesis using bb ind n0 nown owned_ind [of x "view s"] by auto
    next
      case False
      then show ?thesis using i f bo ind unfolding file_ok_def by metis
    qed
    fix j assume j: "j < MAXFILE" "blk_of y (view t) j = blk_of y (view t) i"
    show "j = i"
    proof (cases "i = b \<or> j = b")
      case True
      show ?thesis
      proof (rule ccontr)
        assume ne: "j \<noteq> i"
        from True show False
        proof
          assume "i = b"
          then have "blk_of x (view s) j = of_nat n" using j bb bo ne by metis
          then show False using nown ownedI [of x "view s" j] j(1) n0 by auto
        next
          assume "j = b"
          then have "blk_of x (view s) i = of_nat n" using j bb bo ne by metis
          then show False using nown ownedI [of x "view s" i] i(1) n0 by auto
        qed
      qed
    next
      case False
      then show ?thesis using i j f bo unfolding file_ok_def by metis
    qed
  qed
  ultimately show "fs_ok sb ip t" using assms(1,2,6,9,10) fr ino by (simp add: fs_ok_def)
  fix p :: nat assume p: "p < MAXFILE * BSIZE"
  then have pb: "p div BSIZE < MAXFILE" by (simp add: div_less_iff_less_mult BSIZE_def)
  show "contents y (view t) p = contents x (view s) p"
  proof (cases "p div BSIZE = b")
    case True
    then have "contents y (view t) p = view t (of_nat n) (p mod BSIZE)" using bb n0 by (simp add: contents_def)
    also have "\<dots> = 0" unfolding vt by (simp add: alloced_def zero_block_def BSIZE_def)
    finally show ?thesis using True bz by (simp add: contents_def)
  next
    case False
    let ?k = "blk_of x (view s) (p div BSIZE)"
    have "view t ?k = view s ?k" if "?k \<noteq> 0"
      using f ownedI [OF that pb] same unfolding file_ok_def by blast
    then show ?thesis using bo [OF False] by (auto simp: contents_def)
  qed
qed

section \<open>Steps that keep the blocks of a file\<close>

definition bitmap :: "superblock \<Rightarrow> uint set" where
  "bitmap sb = bmap_block sb ` {..<unat (sb_size sb)}"

text \<open>
  What every step of reading and writing keeps: fields other than the addresses, addresses that were set, all
  blocks outside the file and the bitmap, and the layout of the disk.
\<close>

definition file_step :: "superblock \<Rightarrow> nat \<Rightarrow> 'a fsys_scheme \<Rightarrow> 'a fsys_scheme \<Rightarrow> bool" where
  "file_step sb ip s t \<longleftrightarrow> (let x = inodes s ip; y = inodes t ip in
     inodes t = (inodes s)(ip := y) \<and> y = x\<lparr>iaddrs := iaddrs y\<rparr> \<and>
     (\<forall>i<MAXFILE. blk_of x (view s) i \<noteq> 0 \<longrightarrow> blk_of y (view t) i = blk_of x (view s) i) \<and>
     owned x (view s) \<subseteq> owned y (view t) \<and>
     (\<forall>k. k \<notin> owned y (view t) \<and> k \<notin> bitmap sb \<longrightarrow> view t k = view s k) \<and>
     lstart t = lstart s \<and> lsize t = lsize s \<and> disksize t = disksize s)"

lemma file_step_refl [simp]: "file_step sb ip s s"
  by (simp add: file_step_def)

lemma file_step_trans:
  assumes "file_step sb ip s t" "file_step sb ip t u"
  shows "file_step sb ip s u"
proof -
  have "inodes u = (inodes s)(ip := inodes u ip)" using assms by (simp add: file_step_def Let_def) (metis fun_upd_upd)
  moreover have "inodes u ip = (inodes s ip)\<lparr>iaddrs := iaddrs (inodes u ip)\<rparr>"
    using assms by (simp add: file_step_def Let_def) (metis inode.update_convs(11) inode.surjective)
  ultimately show ?thesis using assms unfolding file_step_def Let_def by (simp add: subset_iff) metis
qed

lemma file_stepD:
  assumes "file_step sb ip s t"
  shows "idev (inodes t ip) = idev (inodes s ip)" "inum (inodes t ip) = inum (inodes s ip)" "isize (inodes t ip) = isize (inodes s ip)"
    "itype (inodes t ip) = itype (inodes s ip)" "lsize t = lsize s" "lstart t = lstart s" "disksize t = disksize s"
    "\<And>i. i < MAXFILE \<Longrightarrow> blk_of (inodes s ip) (view s) i \<noteq> 0 \<Longrightarrow> blk_of (inodes t ip) (view t) i = blk_of (inodes s ip) (view s) i"
proof -
  have y: "inodes t ip = (inodes s ip)\<lparr>iaddrs := iaddrs (inodes t ip)\<rparr>" using assms by (simp add: file_step_def Let_def)
  show "idev (inodes t ip) = idev (inodes s ip)" "inum (inodes t ip) = inum (inodes s ip)" "isize (inodes t ip) = isize (inodes s ip)"
    "itype (inodes t ip) = itype (inodes s ip)" by (subst y, simp)+
qed (use assms in \<open>simp_all add: file_step_def Let_def\<close>)

lemma frame_step:
  assumes "tx_frame c s t" "iaddrs x NDIRECT \<noteq> 0 \<Longrightarrow> view t (iaddrs x NDIRECT) = view s (iaddrs x NDIRECT)" "x = inodes s ip"
    "\<And>k. k \<notin> owned x (view s) \<Longrightarrow> view t k = view s k"
  shows "file_step sb ip s t"
proof -
  have "inodes t = inodes s" by (rule inodes_frame [OF assms(1)])
  moreover have "owned x (view t) = owned x (view s)" using assms(2) by (rule owned_cong)
  moreover have "blk_of x (view t) i = blk_of x (view s) i" for i using assms(2) by (rule blk_of_cong)
  ultimately show ?thesis using assms by (auto simp: file_step_def tx_frame_def)
qed

lemma fs_ok_frame:
  assumes "fs_ok sb ip s" "log_inv {} t" "tx_frame c s t" "view t = view s"
  shows "fs_ok sb ip t" "file_step sb ip s t" "inodes t = inodes s" "free_blocks sb t = free_blocks sb s"
proof -
  show ino: "inodes t = inodes s" by (rule inodes_frame [OF assms(3)])
  have "lstart t = lstart s" "outstanding t = outstanding s" using assms(3) by (auto simp: tx_frame_def)
  then show "fs_ok sb ip t"
    using assms bmap_ok_cong [OF _ assms(4,3)] ino by (auto simp: fs_ok_def file_ok_def data_blk_def)
  show "file_step sb ip s t" by (rule frame_step [OF assms(3) _ refl]) (simp_all add: assms(4))
  show "free_blocks sb t = free_blocks sb s" by (simp add: free_blocks_def assms(4))
qed

section \<open>Block addresses\<close>

lemma fs_okD:
  assumes "fs_ok sb ip s"
  shows "log_inv {} s" "bmap_ok sb s" "file_ok sb (inodes s ip) s" "idev (inodes s ip) = 1" "1 \<le> outstanding s"
  using assms by (auto simp: fs_ok_def)

lemma fs_ok_below:
  assumes "fs_ok sb ip s" "k \<in> owned (inodes s ip) (view s)"
  shows "k < lstart s" "k < disksize s"
  using fs_okD(3) [OF assms(1)] assms(2) log_inv_disk [OF fs_okD(1) [OF assms(1)]] by (auto simp: file_ok_def data_blk_def)

text \<open>\<^verbatim>\<open>bmap\<close> of a block the file has.\<close>

lemma bmap_mapped:
  assumes "fs_ok sb ip s" "b < MAXFILE" "blk_of (inodes s ip) (view s) b \<noteq> 0"
  shows "\<exists>t. bmap ip (of_nat b) s = Ret (blk_of (inodes s ip) (view s) b) t \<and> log_inv {} t \<and> tx_frame 0 s t \<and> view t = view s"
proof (cases "b < NDIRECT")
  case True
  then have "(of_nat b :: uint) < of_nat NDIRECT" "unat (of_nat b :: uint) = b" by (simp_all add: word_less_nat_alt unat_of_nat NDIRECT_def)
  then show ?thesis using assms True fs_okD(1) [OF assms(1)]
    by (intro exI [of _ s]) (simp add: bmap_def blk_of_def ino_def kfun_simps)
next
  case False
  let ?x = "inodes s ip" and ?c = "b - NDIRECT"
  let ?i = "iaddrs ?x NDIRECT"
  note d = fs_okD [OF assms(1)]
  have c: "?c < NINDIRECT" "b < 140" using False assms(2) by (auto simp: MAXFILE_def NDIRECT_def NINDIRECT_def BSIZE_def)
  have ub: "unat (of_nat b :: uint) = b" using c(2) by (simp add: unat_of_nat)
  have sub: "(of_nat b :: uint) - of_nat NDIRECT = of_nat ?c" using False by simp
  have uc: "unat (of_nat ?c :: uint) = ?c" using c(2) by (simp add: unat_of_nat)
  have lt: "\<not> (of_nat b :: uint) < of_nat NDIRECT" "(of_nat ?c :: uint) < of_nat NINDIRECT"
    using False c(1) ub uc by (simp_all add: word_less_nat_alt unat_of_nat NDIRECT_def NINDIRECT_def BSIZE_def)
  have i: "?i \<noteq> 0" "blk_of ?x (view s) b = word_at (view s ?i) (4 * ?c)" using assms(3) False by (auto simp: blk_of_def split: if_splits)
  have "?i < disksize s" by (rule fs_ok_below [OF assms(1) owned_ind [OF i(1)]])
  then obtain bp t where t: "bread 1 ?i s = Ret bp t" "log_inv {bp} t" "bdata (bufs t bp) = view s ?i" "view t = view s" "tx_frame 0 s t"
    "bdirty (bufs t bp) \<or> bdata (bufs t bp) = disk t ?i" "bsector (bufs t bp) = ?i"
    using tx_bread [OF d(1) _ log_inv_room [OF d(1)]] by fastforce
  obtain u where u: "brelse bp t = Ret () u" "log_inv {} u" "view u = view t" "tx_frame 0 t u"
    using tx_brelse [OF t(2), of bp] t(6,7) by auto
  have "bmap ip (of_nat b) s = Ret (blk_of ?x (view s) b) u"
    using t u(1) i lt d(4) assms(3) unfolding bmap_def Let_def sub uc by (simp add: ino_def data_def kfun_simps)
  then show ?thesis using u t(4) tx_frame_trans [OF t(5) u(4)] by auto
qed

lemma first_free_ex: "free_blocks sb s \<noteq> {} \<Longrightarrow> \<exists>n. first_free sb (view s) n"
proof -
  assume "free_blocks sb s \<noteq> {}"
  then have "\<exists>n. n < unat (sb_size sb) \<and> blk_free sb (view s) n" by (auto simp: free_blocks_def)
  then obtain n where n: "n < unat (sb_size sb)" "blk_free sb (view s) n" "\<forall>m<n. \<not> (m < unat (sb_size sb) \<and> blk_free sb (view s) m)"
    using exists_least_iff [of "\<lambda>n. n < unat (sb_size sb) \<and> blk_free sb (view s) n"] by blast
  then have "first_free sb (view s) n" unfolding first_free_def by (meson order.strict_trans)
  then show ?thesis ..
qed

lemma free_blocks_finite [simp]: "finite (free_blocks sb s)"
  by (simp add: free_blocks_def)

text \<open>What \<^verbatim>\<open>bmap\<close> leaves behind: the block has an address, and the bytes of the file are what they were.\<close>

definition bmap_post :: "superblock \<Rightarrow> nat \<Rightarrow> nat \<Rightarrow> uint \<Rightarrow> 'a fsys_scheme \<Rightarrow> 'a fsys_scheme \<Rightarrow> bool" where
  "bmap_post sb ip b a s t \<longleftrightarrow> fs_ok sb ip t \<and> file_step sb ip s t \<and> a = blk_of (inodes t ip) (view t) b \<and> a \<noteq> 0 \<and>
     (\<forall>p<MAXFILE * BSIZE. contents (inodes t ip) (view t) p = contents (inodes s ip) (view s) p) \<and>
     card (free_blocks sb s) \<le> card (free_blocks sb t) + 1 \<and> lh_n t \<le> lh_n s + 2"

lemma bmap_alloc:
  assumes "fs_ok sb ip s" "b < NDIRECT" "blk_of (inodes s ip) (view s) b = 0" "free_blocks sb s \<noteq> {}" "lh_n s < lsize s - 2"
  shows "\<exists>a t. bmap ip (of_nat b) s = Ret a t \<and> bmap_post sb ip b a s t"
proof -
  let ?x = "inodes s ip"
  note d = fs_okD [OF assms(1)]
  have ub: "unat (of_nat b :: uint) = b" "(of_nat b :: uint) < of_nat NDIRECT"
    using assms(2) by (simp_all add: word_less_nat_alt unat_of_nat NDIRECT_def)
  have a0: "iaddrs ?x b = 0" using assms(2,3) by (simp add: blk_of_def)
  obtain n where n: "first_free sb (view s) n" using first_free_ex [OF assms(4)] ..
  obtain u where u: "balloc 1 s = Ret (of_nat n) u" "log_inv {} u" "tx_frame 2 s u" "view u = alloced sb n (view s)"
    using balloc_ret [OF d(1,2) n d(5) assms(5)] by blast
  define y where "y = ?x\<lparr>iaddrs := (iaddrs ?x)(b := of_nat n)\<rparr>"
  define t where "t = u\<lparr>inodes := (inodes u)(ip := y)\<rparr>"
  note al = alloced_block [OF assms(1) refl assms(2) a0 n u(2,3,4) y_def t_def]
  have iu: "inodes u = inodes s" by (rule inodes_frame [OF u(3)])
  have e: "bmap ip (of_nat b) s = Ret (of_nat n) t"
    using ub a0 u(1) d(4) iu by (simp add: bmap_def ino_def upd_ino_def kfun_simps t_def y_def)
  have fr: "lstart t = lstart s" "lsize t = lsize s" "disksize t = disksize s" "lh_n t \<le> lh_n s + 2"
    using u(3) by (auto simp: tx_frame_def t_def)
  have bn: "bmap_block sb n \<in> bitmap sb" using n by (auto simp: bitmap_def first_free_def)
  have it: "inodes t ip = y" using al(2) by simp
  have "blk_of y (view t) i = blk_of ?x (view s) i" if "blk_of ?x (view s) i \<noteq> 0" for i
    using al(7) [of i] that assms(3) by auto
  moreover have "view t k = view s k" if "k \<notin> owned y (view t)" "k \<notin> bitmap sb" for k
    using that bn al(10) unfolding al(4) by blast
  ultimately have "file_step sb ip s t"
    using al(2) fr al(4) unfolding file_step_def Let_def it by (auto simp: y_def)
  moreover have "card (free_blocks sb t) + 1 = card (free_blocks sb s)"
    unfolding al(3) using al(8) by (simp add: card_Suc_Diff1 del: card_Diff_insert)
  ultimately have "bmap_post sb ip b (of_nat n) s t"
    using al(1,5,6,9) fr(4) it by (simp add: bmap_post_def)
  then show ?thesis using e by blast
qed

lemma bmap_ret:
  assumes "fs_ok sb ip s" "b < MAXFILE" "b < NDIRECT \<or> blk_of (inodes s ip) (view s) b \<noteq> 0" "free_blocks sb s \<noteq> {}" "lh_n s < lsize s - 2"
  shows "\<exists>a t. bmap ip (of_nat b) s = Ret a t \<and> bmap_post sb ip b a s t"
proof (cases "blk_of (inodes s ip) (view s) b = 0")
  case True
  then show ?thesis using bmap_alloc assms by blast
next
  case False
  then obtain t where t: "bmap ip (of_nat b) s = Ret (blk_of (inodes s ip) (view s) b) t" "log_inv {} t" "tx_frame 0 s t" "view t = view s"
    using bmap_mapped [OF assms(1,2)] by blast
  note f = fs_ok_frame [OF assms(1) t(2-4)]
  have "lh_n t \<le> lh_n s + 2" using t(3) by (simp add: tx_frame_def)
  then have "bmap_post sb ip b (blk_of (inodes s ip) (view s) b) s t" using f t(4) False by (simp add: bmap_post_def)
  then show ?thesis using t(1) by blast
qed

section \<open>Writing\<close>

lemma bread_rest:
  assumes "bind (bread d a) (\<lambda>b. seq (f b) (seq (g b) (h b))) s = Ret x t"
  shows "bind (bread d a) (\<lambda>b. seq (f b) (seq (g b) (seq (h b) k))) s = k t"
  using assms by (auto simp: kfun_simps split: outcome.splits)

text \<open>The bytes from \<open>o'\<close> to \<open>o' + c\<close> within one block.\<close>

lemma block_range:
  assumes "o' mod BSIZE + c \<le> BSIZE"
  shows "p div BSIZE = o' div BSIZE \<and> o' mod BSIZE \<le> p mod BSIZE \<and> p mod BSIZE < o' mod BSIZE + c \<longleftrightarrow> o' \<le> p \<and> p < o' + c"
    "o' \<le> p \<Longrightarrow> p < o' + c \<Longrightarrow> p mod BSIZE - o' mod BSIZE = p - o'"
proof -
  have m: "o' = BSIZE * (o' div BSIZE) + o' mod BSIZE" "p = BSIZE * (p div BSIZE) + p mod BSIZE" "p mod BSIZE < BSIZE"
    by (simp_all add: BSIZE_def)
  have d: "p div BSIZE = o' div BSIZE" if "o' \<le> p" "p < o' + c"
  proof (rule antisym)
    show "o' div BSIZE \<le> p div BSIZE" using that(1) by (rule div_le_mono)
    have "p < BSIZE * (o' div BSIZE + 1)" using that(2) m(1) assms unfolding add_mult_distrib2 by linarith
    then show "p div BSIZE \<le> o' div BSIZE" by (simp add: BSIZE_def)
  qed
  have eq: "p + o' mod BSIZE = o' + p mod BSIZE" if "p div BSIZE = o' div BSIZE"
  proof -
    have "BSIZE * (p div BSIZE) = BSIZE * (o' div BSIZE)" using that by simp
    then show ?thesis using m(1,2) by linarith
  qed
  show "p div BSIZE = o' div BSIZE \<and> o' mod BSIZE \<le> p mod BSIZE \<and> p mod BSIZE < o' mod BSIZE + c \<longleftrightarrow> o' \<le> p \<and> p < o' + c"
  proof (cases "p div BSIZE = o' div BSIZE")
    case True
    then have "p + o' mod BSIZE = o' + p mod BSIZE" using eq by blast
    then show ?thesis using True by linarith
  next
    case False
    then show ?thesis using d by auto
  qed
  assume "o' \<le> p" "p < o' + c"
  then show "p mod BSIZE - o' mod BSIZE = p - o'" using d eq by fastforce
qed

lemma write_block:
  assumes "fs_ok sb ip s" "x = inodes s ip" "b < MAXFILE" "a = blk_of x (view s) b" "a \<noteq> 0" "lh_n s < lsize s - 1"
  shows "\<exists>t. bind (bread 1 a) (\<lambda>bp. seq (set_data bp f) (seq (log_write bp) (seq (brelse bp) k))) s = k t \<and>
    fs_ok sb ip t \<and> file_step sb ip s t \<and> inodes t = inodes s \<and> free_blocks sb t = free_blocks sb s \<and> lh_n t \<le> lh_n s + 1 \<and>
    (\<forall>p<MAXFILE * BSIZE. contents x (view t) p = (if p div BSIZE = b then f (view s a) (p mod BSIZE) else contents x (view s) p))"
proof -
  note d = fs_okD [OF assms(1)]
  have own: "a \<in> owned x (view s)" using assms(3-5) ownedI by blast
  have below: "a < lstart s" using fs_ok_below(1) [OF assms(1)] own assms(2) by blast
  obtain t where t: "bind (bread 1 a) (\<lambda>b. seq (upd_buf b (\<lambda>x. x\<lparr>bdata := f (bdata x)\<rparr>)) (seq (log_write b) (brelse b))) s = Ret () t"
    "log_inv {} t" "view t = (view s)(a := f (view s a))" "tx_frame 1 s t"
    using tx_update [OF d(1) below log_inv_room [OF d(1)] _ d(5) assms(6), of f] by auto
  note w = written_block [OF assms(1-5) t(2,4,3)]
  have "a \<noteq> iaddrs x NDIRECT" using d(3) assms(2-5) by (auto simp: file_ok_def)
  then have "file_step sb ip s t" using own t(3) by (intro frame_step [OF t(4) _ assms(2)]) auto
  moreover have "lh_n t \<le> lh_n s + 1" using t(4) by (simp add: tx_frame_def)
  moreover note bread_rest [OF t(1), of k]
  ultimately show ?thesis using w(1,2,3,6) unfolding set_data_def by blast
qed

text \<open>One iteration of \<^verbatim>\<open>writei\<close>: the bytes from \<open>o'\<close> to \<open>o' + c\<close> are replaced.\<close>

definition wrote :: "superblock \<Rightarrow> nat \<Rightarrow> nat \<Rightarrow> nat \<Rightarrow> (nat \<Rightarrow> uchar) \<Rightarrow> nat \<Rightarrow> 'a fsys_scheme \<Rightarrow> 'a fsys_scheme \<Rightarrow> bool" where
  "wrote sb ip o' c src m s t \<longleftrightarrow> fs_ok sb ip t \<and> file_step sb ip s t \<and> lh_n t \<le> lh_n s + 3 * int m \<and>
     (\<forall>p. o' \<le> p \<and> p < o' + c \<longrightarrow> blk_of (inodes t ip) (view t) (p div BSIZE) \<noteq> 0) \<and>
     (\<forall>p<MAXFILE * BSIZE. contents (inodes t ip) (view t) p =
        (if o' \<le> p \<and> p < o' + c then src (p - o') else contents (inodes s ip) (view s) p))"

lemma write_iteration:
  assumes "fs_ok sb ip s" "b = o' div BSIZE" "b < MAXFILE" "b < NDIRECT \<or> blk_of (inodes s ip) (view s) b \<noteq> 0"
    "free_blocks sb s \<noteq> {}" "lh_n s < lsize s - 3" "o' mod BSIZE + c \<le> BSIZE" "om = o' mod BSIZE"
  shows "\<exists>t. bind (ino ip) (\<lambda>x. bind (bmap ip (of_nat b)) (\<lambda>a. bind (bread (idev x) a) (\<lambda>bp.
      seq (set_data bp (\<lambda>d i. if om \<le> i \<and> i < om + c then src (i - om) else d i)) (seq (log_write bp) (seq (brelse bp) k))))) s = k t \<and>
    wrote sb ip o' c src 1 s t \<and> card (free_blocks sb s) \<le> card (free_blocks sb t) + 1"
proof -
  let ?f = "\<lambda>d i. if om \<le> i \<and> i < om + c then src (i - om) else d i"
  note d = fs_okD [OF assms(1)]
  have l2: "lh_n s < lsize s - 2" using assms(6) by simp
  obtain a t where t: "bmap ip (of_nat b) s = Ret a t" "bmap_post sb ip b a s t" using bmap_ret [OF assms(1,3-5) l2] by blast
  let ?y = "inodes t ip"
  have p: "fs_ok sb ip t" "file_step sb ip s t" "a = blk_of ?y (view t) b" "a \<noteq> 0" "lh_n t \<le> lh_n s + 2"
    "\<forall>p<MAXFILE * BSIZE. contents ?y (view t) p = contents (inodes s ip) (view s) p"
    "card (free_blocks sb s) \<le> card (free_blocks sb t) + 1"
    using t(2) by (auto simp: bmap_post_def)
  have "lh_n t < lsize t - 1" using p(5) assms(6) file_stepD(5) [OF p(2)] by simp
  then obtain u where u: "bind (bread 1 a) (\<lambda>bp. seq (set_data bp ?f) (seq (log_write bp) (seq (brelse bp) k))) t = k u"
    "fs_ok sb ip u" "file_step sb ip t u" "inodes u = inodes t" "free_blocks sb u = free_blocks sb t" "lh_n u \<le> lh_n t + 1"
    "\<forall>p<MAXFILE * BSIZE. contents ?y (view u) p = (if p div BSIZE = b then ?f (view t a) (p mod BSIZE) else contents ?y (view t) p)"
    using write_block [OF p(1) refl assms(3) p(3,4), of ?f k] by blast
  have st: "file_step sb ip s u" by (rule file_step_trans [OF p(2) u(3)])
  have b: "blk_of (inodes u ip) (view u) b \<noteq> 0" using file_stepD(8) [OF u(3) assms(3)] p(3,4) by simp
  have "contents ?y (view u) q = (if o' \<le> q \<and> q < o' + c then src (q - o') else contents (inodes s ip) (view s) q)"
    if "q < MAXFILE * BSIZE" for q
  proof -
    have "view t a (q mod BSIZE) = contents ?y (view t) q" if "q div BSIZE = b"
      using that p(3,4) by (simp add: contents_def)
    then show ?thesis using u(7) p(6) that block_range [OF assms(7), of q] unfolding assms(2,8) by auto
  qed
  moreover have "q div BSIZE = b" if "o' \<le> q" "q < o' + c" for q using block_range(1) [OF assms(7), of q] that assms(2) by blast
  ultimately have "wrote sb ip o' c src 1 s u" using u(2,4,6) st b p(5) by (auto simp: wrote_def)
  moreover have "bind (ino ip) (\<lambda>x. bind (bmap ip (of_nat b)) (\<lambda>a. bind (bread (idev x) a) (\<lambda>bp.
      seq (set_data bp ?f) (seq (log_write bp) (seq (brelse bp) k))))) s = k u"
    using t(1) u(1) d(4) by (simp add: ino_def kfun_simps)
  ultimately show ?thesis using p(7) u(5) by auto
qed

text \<open>The offsets and counts of the loops as numbers.\<close>

definition step_of :: "nat \<Rightarrow> nat \<Rightarrow> nat" where
  "step_of l o' = min l (BSIZE - o' mod BSIZE)"

lemma step_of_bounds:
  assumes "0 < l"
  shows "0 < step_of l o'" "step_of l o' \<le> l" "o' mod BSIZE + step_of l o' \<le> BSIZE"
    "step_of l o' < l \<Longrightarrow> (o' + step_of l o') div BSIZE = o' div BSIZE + 1 \<and> (o' + step_of l o') mod BSIZE = 0"
proof -
  have m: "o' mod BSIZE < BSIZE" by (simp add: BSIZE_def)
  then show "0 < step_of l o'" "step_of l o' \<le> l" "o' mod BSIZE + step_of l o' \<le> BSIZE" using assms by (auto simp: step_of_def)
  assume "step_of l o' < l"
  then have "step_of l o' = BSIZE - o' mod BSIZE" by (auto simp: step_of_def min_def split: if_splits)
  then have "o' + step_of l o' = BSIZE * (o' div BSIZE + 1)"
    using m mult_div_mod_eq [of BSIZE o'] unfolding add_mult_distrib2 by linarith
  then show "(o' + step_of l o') div BSIZE = o' div BSIZE + 1 \<and> (o' + step_of l o') mod BSIZE = 0" by (simp add: BSIZE_def)
qed

lemma offset_words:
  assumes "o' < 2 ^ 32"
  shows "(of_nat o' :: uint) div of_nat BSIZE = of_nat (o' div BSIZE)" "unat ((of_nat o' :: uint) mod of_nat BSIZE) = o' mod BSIZE"
  using assms by (simp_all add: word_unat_eq_iff unat_div unat_mod unat_of_nat BSIZE_def)

lemma chunk_step:
  assumes "o' < 2 ^ 32" "j \<le> N" "N < 2 ^ 32"
  shows "chunk (of_nat N) (of_nat j) (of_nat o') = of_nat (step_of (N - j) o')" "unat (of_nat (step_of (N - j) o') :: uint) = step_of (N - j) o'"
proof -
  have d: "(of_nat N :: uint) - of_nat j = of_nat (N - j)" using assms(2) by simp
  have m: "(of_nat o' :: uint) mod of_nat BSIZE = of_nat (o' mod BSIZE)"
    unfolding word_unat_eq_iff offset_words(2) [OF assms(1)] by (simp add: unat_of_nat BSIZE_def)
  have mb: "o' mod BSIZE \<le> BSIZE" by (simp add: BSIZE_def)
  have r: "(of_nat BSIZE :: uint) - of_nat o' mod of_nat BSIZE = of_nat (BSIZE - o' mod BSIZE)" unfolding m using mb by simp
  have u: "unat (of_nat (N - j) :: uint) = N - j" "unat (of_nat (BSIZE - o' mod BSIZE) :: uint) = BSIZE - o' mod BSIZE"
    using assms(3) by (simp_all add: unat_of_nat BSIZE_def del: of_nat_diff)
  show c: "chunk (of_nat N) (of_nat j) (of_nat o') = of_nat (step_of (N - j) o')"
    unfolding chunk_def Let_def d r word_less_nat_alt u by (simp add: step_of_def min_def)
  show "unat (of_nat (step_of (N - j) o') :: uint) = step_of (N - j) o'" using u by (simp add: step_of_def min_def)
qed

lemma block_below: "o' < MAXFILE * BSIZE \<Longrightarrow> o' div BSIZE < MAXFILE"
  by (simp add: div_less_iff_less_mult BSIZE_def)

text \<open>The blocks of the bytes from \<open>o'\<close> on are direct ones or present, so that only direct blocks are allocated.\<close>

definition writable :: "nat \<Rightarrow> nat \<Rightarrow> nat \<Rightarrow> 'a fsys_scheme \<Rightarrow> bool" where
  "writable ip o' l s \<longleftrightarrow> (\<forall>p. o' \<le> p \<and> p < o' + l \<longrightarrow> p div BSIZE < NDIRECT \<or> blk_of (inodes s ip) (view s) (p div BSIZE) \<noteq> 0)"

lemma writable_step:
  assumes "writable ip o' l s" "file_step sb ip s t" "o' + l \<le> MAXFILE * BSIZE" "c \<le> l"
  shows "writable ip (o' + c) (l - c) t"
  unfolding writable_def
proof (intro allI impI)
  fix p assume "o' + c \<le> p \<and> p < o' + c + (l - c)"
  then have p: "o' \<le> p" "p < o' + l" using assms(4) by auto
  have "p div BSIZE < MAXFILE" using p assms(3) by (intro block_below) simp
  then show "p div BSIZE < NDIRECT \<or> blk_of (inodes t ip) (view t) (p div BSIZE) \<noteq> 0"
    using assms(1) p file_stepD(8) [OF assms(2)] unfolding writable_def by metis
qed

lemma wrote_append:
  assumes "wrote sb ip o' c src 1 s t" "wrote sb ip (o' + c) (l - c) (\<lambda>i. src (c + i)) m t u" "c \<le> l" "o' + l \<le> MAXFILE * BSIZE"
  shows "wrote sb ip o' l src (Suc m) s u"
proof -
  have st: "file_step sb ip s t" "file_step sb ip t u" using assms(1,2) by (auto simp: wrote_def)
  have "blk_of (inodes u ip) (view u) (p div BSIZE) \<noteq> 0" if p: "o' \<le> p" "p < o' + l" for p
  proof (cases "p < o' + c")
    case True
    then have "blk_of (inodes t ip) (view t) (p div BSIZE) \<noteq> 0" using assms(1) p by (simp add: wrote_def)
    then show ?thesis using file_stepD(8) [OF st(2)] block_below [of p] p assms(4) by simp
  next
    case False
    then show ?thesis using assms(2,3) p by (simp add: wrote_def)
  qed
  moreover have "contents (inodes u ip) (view u) p = (if o' \<le> p \<and> p < o' + l then src (p - o') else contents (inodes s ip) (view s) p)"
    if "p < MAXFILE * BSIZE" for p
    using that assms(1-3) by (auto simp: wrote_def)
  ultimately show ?thesis using assms(1,2) file_step_trans [OF st] by (simp add: wrote_def)
qed

text \<open>The loop of \<^verbatim>\<open>writei\<close>; \<open>m\<close> bounds the number of blocks it touches.\<close>

lemma writei_loop_ret:
  assumes "fs_ok sb ip s" "j \<le> N" "N < 2 ^ 32" "o' + (N - j) \<le> MAXFILE * BSIZE" "N - j < k"
    "writable ip o' (N - j) s" "j < N \<Longrightarrow> o' + (N - j) \<le> (o' div BSIZE + m) * BSIZE" "m \<le> card (free_blocks sb s)" "lh_n s + 3 * int m < lsize s"
  shows "\<exists>t. writei_loop k ip src (of_nat o') (of_nat j) (of_nat N) s = Ret (of_nat (o' + (N - j))) t \<and>
    wrote sb ip o' (N - j) (\<lambda>i. src (j + i)) m s t"
  using assms
proof (induction k arbitrary: s j o' m)
  case 0
  then show ?case by simp
next
  case (Suc k)
  have big: "MAXFILE * BSIZE < 2 ^ 32" by (simp add: MAXFILE_def NDIRECT_def NINDIRECT_def BSIZE_def)
  then have o32: "o' < 2 ^ 32" using Suc.prems(4) by linarith
  have lt: "(of_nat j :: uint) < of_nat N \<longleftrightarrow> j < N" using Suc.prems(2,3) by (simp add: word_less_nat_alt unat_of_nat)
  show ?case
  proof (cases "j < N")
    case False
    then have "wrote sb ip o' (N - j) (\<lambda>i. src (j + i)) m s s" using Suc.prems(1) by (auto simp: wrote_def)
    then show ?thesis using False lt by (auto simp: kfun_simps)
  next
    case True
    define l c where "l = N - j" and "c = step_of l o'"
    have l: "0 < l" "j + l = N" using True by (auto simp: l_def)
    note st = step_of_bounds [OF l(1), of o', folded c_def]
    have dm: "o' < (o' div BSIZE + 1) * BSIZE" "(o' div BSIZE) * BSIZE \<le> o'" by (simp_all add: BSIZE_def mult.commute dividend_less_times_div)
    have m: "0 < m"
    proof (rule ccontr)
      assume "\<not> 0 < m"
      then have "o' + l \<le> (o' div BSIZE) * BSIZE" using Suc.prems(7) True by (simp add: l_def)
      then show False using dm(2) l(1) by linarith
    qed
    then obtain m' where m': "m = Suc m'" by (cases m) auto
    have b: "o' div BSIZE < MAXFILE" using Suc.prems(4) l by (intro block_below) (simp add: l_def)
    have wr: "o' div BSIZE < NDIRECT \<or> blk_of (inodes s ip) (view s) (o' div BSIZE) \<noteq> 0"
      using Suc.prems(6) l(1) unfolding writable_def l_def [symmetric] by simp
    have fb: "free_blocks sb s \<noteq> {}" using Suc.prems(8) m by auto
    have lg: "lh_n s < lsize s - 3" using Suc.prems(9) m by linarith
    note ow = offset_words [OF o32] chunk_step [OF o32 Suc.prems(2,3), folded l_def c_def]
    have uj: "unat (of_nat j :: uint) = j" using Suc.prems(2,3) by (simp add: unat_of_nat)
    obtain t where t: "writei_loop (Suc k) ip src (of_nat o') (of_nat j) (of_nat N) s =
        writei_loop k ip src (of_nat (o' + c)) (of_nat (j + c)) (of_nat N) t"
      "wrote sb ip o' c (\<lambda>i. src (j + i)) 1 s t" "card (free_blocks sb s) \<le> card (free_blocks sb t) + 1"
      using write_iteration [OF Suc.prems(1) refl b wr fb lg st(3) refl, of "\<lambda>i. src (j + i)"
          "writei_loop k ip src (of_nat (o' + c)) (of_nat (j + c)) (of_nat N)"] lt True
      unfolding writei_loop.simps(2) ow uj by (auto simp del: of_nat_add simp add: of_nat_add [symmetric])
    have w: "fs_ok sb ip t" "file_step sb ip s t" "lh_n t \<le> lh_n s + 3" using t(2) by (auto simp: wrote_def)
    have Nc: "N - (j + c) = l - c" "j + c \<le> N" using st(2) l by auto
    have "\<exists>u. writei_loop k ip src (of_nat (o' + c)) (of_nat (j + c)) (of_nat N) t = Ret (of_nat (o' + c + (N - (j + c)))) u \<and>
      wrote sb ip (o' + c) (N - (j + c)) (\<lambda>i. src (j + c + i)) m' t u"
    proof (rule Suc.IH [OF w(1) Nc(2) Suc.prems(3)])
      show "o' + c + (N - (j + c)) \<le> MAXFILE * BSIZE" "N - (j + c) < k" using Suc.prems(4,5) Nc st l by (auto simp: l_def)
      show "writable ip (o' + c) (N - (j + c)) t"
        using writable_step [OF Suc.prems(6) w(2) Suc.prems(4), of c] st(2) by (simp add: l_def)
      show "m' \<le> card (free_blocks sb t)" using t(3) Suc.prems(8) m' by simp
      show "lh_n t + 3 * int m' < lsize t" using w(3) file_stepD(5) [OF w(2)] Suc.prems(9) m' by simp
      assume "j + c < N"
      then have "(o' + c) div BSIZE = o' div BSIZE + 1" using st(4) Nc(1) by simp
      then show "o' + c + (N - (j + c)) \<le> ((o' + c) div BSIZE + m') * BSIZE"
        using Suc.prems(7) True m' Nc st(2) l by (simp add: l_def)
    qed
    then obtain u where u: "writei_loop k ip src (of_nat (o' + c)) (of_nat (j + c)) (of_nat N) t = Ret (of_nat (o' + l)) u"
      "wrote sb ip (o' + c) (l - c) (\<lambda>i. src (j + c + i)) m' t u" using Nc st(2) by auto
    have "wrote sb ip o' l (\<lambda>i. src (j + i)) m s u"
      using wrote_append [OF t(2) _ st(2)] u(2) Suc.prems(4) m' by (simp add: add.assoc l_def)
    then show ?thesis using t(1) u(1) by (auto simp: l_def)
  qed
qed

section \<open>Reading\<close>

definition file_bytes :: "inode \<Rightarrow> (uint \<Rightarrow> block) \<Rightarrow> nat \<Rightarrow> nat \<Rightarrow> uchar list" where
  "file_bytes x v o' l = map (\<lambda>i. contents x v (o' + i)) [0..<l]"

lemma file_bytes_append: "c \<le> l \<Longrightarrow> file_bytes x v o' l = file_bytes x v o' c @ file_bytes x v (o' + c) (l - c)"
  by (auto intro!: nth_equalityI simp: file_bytes_def nth_append)

text \<open>Every byte in the range is in a block the file has.\<close>

definition mapped :: "nat \<Rightarrow> nat \<Rightarrow> nat \<Rightarrow> 'a fsys_scheme \<Rightarrow> bool" where
  "mapped ip o' l s \<longleftrightarrow> (\<forall>p. o' \<le> p \<and> p < o' + l \<longrightarrow> blk_of (inodes s ip) (view s) (p div BSIZE) \<noteq> 0)"

lemma read_block:
  assumes "fs_ok sb ip s" "b < MAXFILE" "blk_of (inodes s ip) (view s) b \<noteq> 0"
  shows "\<exists>t. log_inv {} t \<and> tx_frame 0 s t \<and> view t = view s \<and>
    bind (ino ip) (\<lambda>x. bind (bmap ip (of_nat b)) (\<lambda>a. bind (bread (idev x) a) (\<lambda>bp. bind (data bp) (\<lambda>d. seq (brelse bp) (k d))))) s =
    k (view s (blk_of (inodes s ip) (view s) b)) t"
proof -
  let ?a = "blk_of (inodes s ip) (view s) b"
  obtain t where t: "bmap ip (of_nat b) s = Ret ?a t" "log_inv {} t" "tx_frame 0 s t" "view t = view s"
    using bmap_mapped [OF assms] by blast
  have "?a < disksize t"
    using fs_ok_below(2) [OF assms(1) ownedI [OF assms(3,2)]] t(3) by (simp add: tx_frame_def)
  then obtain bp u where u: "bread 1 ?a t = Ret bp u" "log_inv {bp} u" "bdata (bufs u bp) = view t ?a" "view u = view t" "tx_frame 0 t u"
    "bdirty (bufs u bp) \<or> bdata (bufs u bp) = disk u ?a" "bsector (bufs u bp) = ?a"
    using tx_bread [OF t(2) _ log_inv_room [OF t(2)]] by fastforce
  obtain v where v: "brelse bp u = Ret () v" "log_inv {} v" "view v = view u" "tx_frame 0 u v"
    using tx_brelse [OF u(2), of bp] u(6,7) by auto
  have "tx_frame 0 s v" using tx_frame_trans [OF tx_frame_trans [OF t(3) u(5)] v(4)] by simp
  then show ?thesis using t u v fs_okD(4) [OF assms(1)]
    by (intro exI [of _ v]) (simp add: ino_def data_def kfun_simps)
qed

lemma readi_loop_ret:
  assumes "fs_ok sb ip s" "j \<le> N" "N < 2 ^ 32" "o' + (N - j) \<le> MAXFILE * BSIZE" "N - j < k" "mapped ip o' (N - j) s"
  shows "\<exists>t. readi_loop k ip (of_nat o') (of_nat j) (of_nat N) s = Ret (file_bytes (inodes s ip) (view s) o' (N - j)) t \<and>
    log_inv {} t \<and> tx_frame 0 s t \<and> view t = view s"
  using assms
proof (induction k arbitrary: s j o')
  case 0
  then show ?case by simp
next
  case (Suc k)
  have "MAXFILE * BSIZE < 2 ^ 32" by (simp add: MAXFILE_def NDIRECT_def NINDIRECT_def BSIZE_def)
  then have o32: "o' < 2 ^ 32" using Suc.prems(4) by linarith
  have lt: "(of_nat j :: uint) < of_nat N \<longleftrightarrow> j < N" using Suc.prems(2,3) by (simp add: word_less_nat_alt unat_of_nat)
  show ?case
  proof (cases "j < N")
    case False
    then show ?thesis using lt fs_okD(1) [OF Suc.prems(1)] by (auto simp: kfun_simps file_bytes_def)
  next
    case True
    define l c where "l = N - j" and "c = step_of l o'"
    have l: "0 < l" "j + l = N" using True by (auto simp: l_def)
    note st = step_of_bounds [OF l(1), of o', folded c_def]
    note ow = offset_words [OF o32] chunk_step [OF o32 Suc.prems(2,3), folded l_def c_def]
    let ?x = "inodes s ip" and ?b = "o' div BSIZE"
    let ?d = "view s (blk_of ?x (view s) ?b)"
    have b: "?b < MAXFILE" using Suc.prems(4) l by (intro block_below) (simp add: l_def)
    have bm: "blk_of ?x (view s) ?b \<noteq> 0" using Suc.prems(6) l(1) unfolding mapped_def l_def [symmetric] by simp
    let ?k = "\<lambda>d. bind (readi_loop k ip (of_nat (o' + c)) (of_nat (j + c)) (of_nat N))
      (\<lambda>bs. return (map (\<lambda>i. d (o' mod BSIZE + i)) [0..<c] @ bs))"
    obtain t where t: "log_inv {} t" "tx_frame 0 s t" "view t = view s"
      "readi_loop (Suc k) ip (of_nat o') (of_nat j) (of_nat N) s = ?k ?d t"
      using read_block [OF Suc.prems(1) b bm, of ?k] lt True
      unfolding readi_loop.simps(2) ow by (auto simp del: of_nat_add simp add: of_nat_add [symmetric])
    note f = fs_ok_frame [OF Suc.prems(1) t(1-3)]
    have Nc: "N - (j + c) = l - c" "j + c \<le> N" using st(2) l by auto
    have "\<exists>u. readi_loop k ip (of_nat (o' + c)) (of_nat (j + c)) (of_nat N) t =
        Ret (file_bytes (inodes t ip) (view t) (o' + c) (N - (j + c))) u \<and> log_inv {} u \<and> tx_frame 0 t u \<and> view u = view t"
    proof (rule Suc.IH [OF f(1) Nc(2) Suc.prems(3)])
      show "o' + c + (N - (j + c)) \<le> MAXFILE * BSIZE" "N - (j + c) < k" using Suc.prems(4,5) Nc st l by (auto simp: l_def)
      show "mapped ip (o' + c) (N - (j + c)) t" using Suc.prems(6) Nc st(2) f(3) t(3) by (auto simp: mapped_def l_def)
    qed
    then obtain u where u: "readi_loop k ip (of_nat (o' + c)) (of_nat (j + c)) (of_nat N) t = Ret (file_bytes ?x (view s) (o' + c) (l - c)) u"
      "log_inv {} u" "tx_frame 0 t u" "view u = view t" using Nc t(3) f(3) by auto
    have "contents ?x (view s) (o' + i) = ?d (o' mod BSIZE + i)" if "i < c" for i
    proof -
      have r: "(o' + i) div BSIZE = ?b" "(o' + i) mod BSIZE - o' mod BSIZE = i" "o' mod BSIZE \<le> (o' + i) mod BSIZE"
        using block_range [OF st(3), of "o' + i"] that by auto
      then have "(o' + i) mod BSIZE = o' mod BSIZE + i" by linarith
      then show ?thesis using r(1) bm by (simp add: contents_def)
    qed
    then have "map (\<lambda>i. ?d (o' mod BSIZE + i)) [0..<c] = file_bytes ?x (view s) o' c" by (simp add: file_bytes_def)
    then have "readi_loop (Suc k) ip (of_nat o') (of_nat j) (of_nat N) s = Ret (file_bytes ?x (view s) o' l) u"
      using t(4) u(1) file_bytes_append [OF st(2), of ?x "view s" o'] by (simp add: kfun_simps)
    then show ?thesis using u(2,4) t(3) tx_frame_trans [OF t(2) u(3)] by (auto simp: l_def)
  qed
qed

section \<open>The size of the file\<close>

lemma blk_of_size [simp]: "blk_of (x\<lparr>isize := z\<rparr>) v b = blk_of x v b"
  by (simp add: blk_of_def)

lemma contents_size [simp]: "contents (x\<lparr>isize := z\<rparr>) v p = contents x v p"
  by (simp add: contents_def)

lemma owned_size [simp]: "owned (x\<lparr>isize := z\<rparr>) v = owned x v"
  by (simp add: owned_def)

lemma fs_ok_size:
  assumes "fs_ok sb ip s" "t = s\<lparr>inodes := (inodes s)(ip := (inodes s ip)\<lparr>isize := z\<rparr>)\<rparr>"
  shows "fs_ok sb ip t"
proof -
  have "bmap_ok sb t = bmap_ok sb s" by (simp add: bmap_ok_def assms(2))
  then show ?thesis using assms by (simp add: fs_ok_def file_ok_def data_blk_def)
qed

text \<open>Writing the block of the inode leaves the file alone.\<close>

lemma inode_block:
  assumes "fs_ok sb ip s" "x = inodes s ip" "log_inv {} t" "tx_frame c s t" "view t = (view s)(IBLOCK (inum x) := d)"
  shows "fs_ok sb ip t" "inodes t = inodes s" "owned x (view t) = owned x (view s)"
    "\<And>i. blk_of x (view t) i = blk_of x (view s) i" "\<And>p. p < MAXFILE * BSIZE \<Longrightarrow> contents x (view t) p = contents x (view s) p"
proof -
  let ?k = "IBLOCK (inum x)"
  have f: "file_ok sb x s" and bm: "bmap_ok sb s" using assms(1,2) by (auto simp: fs_ok_def)
  have dk: "data_blk sb s ?k" using f by (simp add: file_ok_def)
  have nown: "?k \<notin> owned x (view s)" using f unfolding file_ok_def by blast
  have nb: "\<forall>m<unat (sb_size sb). view t (bmap_block sb m) = view s (bmap_block sb m)"
    using dk assms(5) by (auto simp: data_blk_def)
  have i1: "view t 1 = view s 1" using dk assms(5) by (auto simp: data_blk_def)
  have fr: "lstart t = lstart s" "disksize t = disksize s" "outstanding t = outstanding s" using assms(4) by (auto simp: tx_frame_def)
  show ino: "inodes t = inodes s" by (rule inodes_frame [OF assms(4)])
  have fb: "blk_free sb (view t) n = blk_free sb (view s) n" if "n < unat (sb_size sb)" for n using nb that by (simp add: blk_free_def)
  have own: "\<forall>k\<in>owned x (view s). view t k = view s k" using nown assms(5) by auto
  have iv: "iaddrs x NDIRECT \<noteq> 0 \<Longrightarrow> view t (iaddrs x NDIRECT) = view s (iaddrs x NDIRECT)" using own owned_ind by blast
  show bo: "blk_of x (view t) i = blk_of x (view s) i" for i using iv by (rule blk_of_cong)
  show ow: "owned x (view t) = owned x (view s)" using iv by (rule owned_cong)
  have "bmap_ok sb t" using bm fb unfolding bmap_ok_def fr i1 by blast
  moreover have "file_ok sb x t" using f data_blk_cong [OF _ fr(1) nb] unfolding file_ok_def ow bo by blast
  ultimately show "fs_ok sb ip t" using assms(1-3) fr ino by (simp add: fs_ok_def)
  show "contents x (view t) p = contents x (view s) p" if "p < MAXFILE * BSIZE" for p by (rule contents_cong [OF own that])
qed

section \<open>Writing and reading back\<close>

text \<open>What \<^verbatim>\<open>writei\<close> leaves behind.\<close>

definition write_post :: "superblock \<Rightarrow> nat \<Rightarrow> nat \<Rightarrow> nat \<Rightarrow> (nat \<Rightarrow> uchar) \<Rightarrow> 'a fsys_scheme \<Rightarrow> 'a fsys_scheme \<Rightarrow> bool" where
  "write_post sb ip o' N src s t \<longleftrightarrow> (let x = inodes s ip; y = inodes t ip in
     fs_ok sb ip t \<and> mapped ip o' N t \<and> itype y = itype x \<and> isize y = max (isize x) (of_nat (o' + N)) \<and>
     (\<forall>j. j \<noteq> ip \<longrightarrow> inodes t j = inodes s j) \<and>
     (\<forall>p<MAXFILE * BSIZE. contents y (view t) p = (if o' \<le> p \<and> p < o' + N then src (p - o') else contents x (view s) p)) \<and>
     (\<forall>k. k \<notin> owned y (view t) \<and> k \<notin> bitmap sb \<and> k \<noteq> IBLOCK (inum x) \<longrightarrow> view t k = view s k) \<and>
     (isize x < of_nat (o' + N) \<longrightarrow> (\<forall>z. same_dinode (read_dinode (view t (IBLOCK (inum x))) (dinode_off (inum x)) z) y)))"

lemma write_extend:
  assumes "fs_ok sb ip s" "x = inodes s ip" "lh_n s < lsize s - 1"
  shows "\<exists>t. seq (upd_ino ip (\<lambda>x. x\<lparr>isize := z\<rparr>)) (iupdate ip) s = Ret () t \<and> fs_ok sb ip t \<and> inodes t = (inodes s)(ip := x\<lparr>isize := z\<rparr>) \<and>
    owned x (view t) = owned x (view s) \<and> (\<forall>i. blk_of x (view t) i = blk_of x (view s) i) \<and>
    (\<forall>p<MAXFILE * BSIZE. contents x (view t) p = contents x (view s) p) \<and> (\<forall>k. k \<noteq> IBLOCK (inum x) \<longrightarrow> view t k = view s k) \<and>
    (\<forall>y. same_dinode (read_dinode (view t (IBLOCK (inum x))) (dinode_off (inum x)) y) (x\<lparr>isize := z\<rparr>))"
proof -
  define u where "u = s\<lparr>inodes := (inodes s)(ip := (inodes s ip)\<lparr>isize := z\<rparr>)\<rparr>"
  let ?y = "x\<lparr>isize := z\<rparr>"
  have ok: "fs_ok sb ip u" by (rule fs_ok_size [OF assms(1) u_def])
  note d = fs_okD [OF ok]
  have y: "?y = inodes u ip" by (simp add: u_def assms(2))
  have k: "IBLOCK (inum x) < lstart u" using fs_okD(3) [OF assms(1)] assms(2) by (simp add: file_ok_def data_blk_def u_def)
  have lh: "lh_n u < lsize u - 1" using assms(3) by (simp add: u_def)
  have e: "idev ?y = 1" "IBLOCK (inum x) = IBLOCK (inum ?y)" using d(4) unfolding y [symmetric] by simp_all
  obtain t where t: "iupdate ip u = Ret () t" "log_inv {} t" "tx_frame 1 u t"
    "view t = (view u)(IBLOCK (inum x) := write_dinode (view u (IBLOCK (inum x))) (dinode_off (inum ?y)) ?y)"
    using iupdate_ret [OF d(1) y e(1,2) k log_inv_room [OF d(1)] _ d(5) lh] by auto
  note ib = inode_block [OF ok y t(2,3), of "write_dinode (view u (IBLOCK (inum x))) (dinode_off (inum ?y)) ?y"]
  have vu: "view u = view s" by (simp add: u_def)
  have "seq (upd_ino ip (\<lambda>x. x\<lparr>isize := z\<rparr>)) (iupdate ip) s = Ret () t" using t(1) by (simp add: upd_ino_def kfun_simps u_def)
  moreover have "inodes t = (inodes s)(ip := ?y)" using ib(2) t(4) by (simp add: u_def assms(2))
  ultimately show ?thesis using ib(1,3-5) t(4) read_write_dinode [of _ "dinode_off (inum x)" ?y] unfolding vu
    by (intro exI [of _ t]) simp
qed

lemma file_limit: "MAXFILE * BSIZE = 71680"
  by (simp add: MAXFILE_def NDIRECT_def NINDIRECT_def BSIZE_def)

lemma range_words:
  assumes "o' + N \<le> MAXFILE * BSIZE"
  shows "unat (of_nat o' :: uint) = o'" "unat (of_nat N :: uint) = N" "unat (of_nat (o' + N) :: uint) = o' + N"
    "\<not> (of_nat o' :: uint) + of_nat N < of_nat o'" "\<not> (of_nat o' :: uint) + of_nat N > of_nat (MAXFILE * BSIZE)"
    "sint (of_nat N :: uint) = int N"
proof -
  have b: "o' + N \<le> 71680" using assms by (simp add: file_limit)
  show u: "unat (of_nat o' :: uint) = o'" "unat (of_nat N :: uint) = N" "unat (of_nat (o' + N) :: uint) = o' + N"
    using b by (simp_all add: unat_of_nat del: of_nat_add)
  show "\<not> (of_nat o' :: uint) + of_nat N < of_nat o'" "\<not> (of_nat o' :: uint) + of_nat N > of_nat (MAXFILE * BSIZE)"
    unfolding of_nat_add [symmetric] word_less_nat_alt u using b by (simp_all add: file_limit)
  have "uint (of_nat N :: uint) = int N" using u(2) by (metis uint_nat)
  then show "sint (of_nat N :: uint) = int N" using b by (simp add: sint_uint signed_take_bit_int_eq_self_iff)
qed

lemma writei_ret:
  assumes "fs_ok sb ip s" "x = inodes s ip" "itype x \<noteq> T_DEV" "o' \<le> unat (isize x)" "o' + N \<le> MAXFILE * BSIZE" "writable ip o' N s"
    "0 < N \<Longrightarrow> o' + N \<le> (o' div BSIZE + m) * BSIZE" "m \<le> card (free_blocks sb s)" "lh_n s + 3 * int m + 1 < lsize s"
  shows "\<exists>t. writei dw ip src (of_nat o') (of_nat N) s = Ret (int N) t \<and> write_post sb ip o' N src s t"
proof -
  note rw = range_words [OF assms(5)]
  have N32: "N < 2 ^ 32" using assms(5) by (simp add: file_limit)
  obtain t where t: "writei_loop (Suc N) ip src (of_nat o') 0 (of_nat N) s = Ret (of_nat (o' + N)) t" "wrote sb ip o' N src m s t"
    using writei_loop_ret [OF assms(1), of 0 N o' "Suc N" m src] assms(5-9) N32 by auto
  let ?y = "inodes t ip" and ?z = "of_nat (o' + N) :: uint"
  let ?w = "if 0 < N \<and> ?z > isize ?y then seq (upd_ino ip (\<lambda>x. x\<lparr>isize := ?z\<rparr>)) (iupdate ip) else return ()"
  have w: "fs_ok sb ip t" "file_step sb ip s t" "lh_n t \<le> lh_n s + 3 * int m" "mapped ip o' N t"
    "\<forall>p<MAXFILE * BSIZE. contents ?y (view t) p = (if o' \<le> p \<and> p < o' + N then src (p - o') else contents x (view s) p)"
    using t(2) assms(2) by (auto simp: wrote_def mapped_def)
  note fd = file_stepD [OF w(2), folded assms(2)]
  have off: "\<not> of_nat o' > isize x" using assms(4) rw(1) by (simp add: word_less_nat_alt)
  have e: "writei dw ip src (of_nat o') (of_nat N) s = seq ?w (return (int N)) t"
    using assms(2,3) off rw t(1) unfolding writei_def
    by (auto simp: ino_def kfun_simps branch_def word_less_nat_alt simp del: of_nat_add simp add: of_nat_add [symmetric])
  have other: "inodes t j = inodes s j" if "j \<noteq> ip" for j
    using w(2) that unfolding file_step_def Let_def by (metis fun_upd_other)
  have step: "view t k = view s k" if "k \<notin> owned ?y (view t)" "k \<notin> bitmap sb" for k
    using w(2) that by (simp add: file_step_def Let_def)
  show ?thesis
  proof (cases "isize x < ?z")
    case True
    then have "0 < N" using off assms(4) rw(3) by (cases N) (auto simp: word_less_nat_alt)
    moreover have "lh_n t < lsize t - 1" using w(3) fd(5) assms(9) by linarith
    then obtain u where u: "seq (upd_ino ip (\<lambda>x. x\<lparr>isize := ?z\<rparr>)) (iupdate ip) t = Ret () u" "fs_ok sb ip u"
      "inodes u = (inodes t)(ip := ?y\<lparr>isize := ?z\<rparr>)" "owned ?y (view u) = owned ?y (view t)"
      "\<forall>i. blk_of ?y (view u) i = blk_of ?y (view t) i"
      "\<forall>p<MAXFILE * BSIZE. contents ?y (view u) p = contents ?y (view t) p" "\<forall>k. k \<noteq> IBLOCK (inum ?y) \<longrightarrow> view u k = view t k"
      "\<forall>y. same_dinode (read_dinode (view u (IBLOCK (inum ?y))) (dinode_off (inum ?y)) y) (?y\<lparr>isize := ?z\<rparr>)"
      using write_extend [OF w(1) refl] by blast
    ultimately have "writei dw ip src (of_nat o') (of_nat N) s = Ret (int N) u" using e True fd(3) by (simp add: kfun_simps)
    moreover have "write_post sb ip o' N src s u"
      using u(2-8) w(4,5) fd(2,4) other step True assms(2) unfolding write_post_def Let_def
      by (simp add: mapped_def max_def order.strict_implies_order)
    ultimately show ?thesis by blast
  next
    case False
    then have "writei dw ip src (of_nat o') (of_nat N) s = Ret (int N) t" using e fd(3) by (simp add: kfun_simps)
    moreover have "max (isize x) ?z = isize x" using False by (intro max_absorb1) (simp only: not_less)
    then have "write_post sb ip o' N src s t"
      using w(1,4,5) fd(2,3,4) other step False assms(2) unfolding write_post_def Let_def by (simp del: of_nat_add)
    ultimately show ?thesis by blast
  qed
qed

lemma readi_ret:
  assumes "fs_ok sb ip s" "x = inodes s ip" "itype x \<noteq> T_DEV" "o' + N \<le> MAXFILE * BSIZE" "o' + N \<le> unat (isize x)" "mapped ip o' N s"
  shows "\<exists>t. readi dr ip (of_nat o') (of_nat N) s = Ret (int N, file_bytes x (view s) o' N) t \<and> log_inv {} t \<and> tx_frame 0 s t \<and> view t = view s"
proof -
  note rw = range_words [OF assms(4)]
  have N32: "N < 2 ^ 32" using assms(4) by (simp add: file_limit)
  obtain t where t: "readi_loop (Suc N) ip (of_nat o') 0 (of_nat N) s = Ret (file_bytes x (view s) o' N) t" "log_inv {} t" "tx_frame 0 s t" "view t = view s"
    using readi_loop_ret [OF assms(1), of 0 N o' "Suc N"] assms(2,4,6) N32 by auto
  have "\<not> of_nat o' > isize x" "\<not> (of_nat o' :: uint) + of_nat N > isize x"
    unfolding of_nat_add [symmetric] word_less_nat_alt rw(1,3) using assms(5) by simp_all
  then have "readi dr ip (of_nat o') (of_nat N) s = Ret (int N, file_bytes x (view s) o' N) t"
    using assms(2,3) rw t(1) by (simp add: readi_def ino_def kfun_simps Let_def del: readi_loop.simps)
  then show ?thesis using t(2-4) by blast
qed


definition file_demo :: inode where
  "file_demo = \<lparr>idev = 1, inum = 3, iref = 1, ibusy = True, ivalid = True, itype = T_FILE, imajor = 0, iminor = 0, inlink = 1, isize = 510, iaddrs = (\<lambda>_. 0)\<rparr>"

lemma file_demo_ok:
  assumes "log_inv {} s" "lstart s = 70" "outstanding s = 1" "disksize s = 100" "view s = disk fs_demo" "sb = superblock_of (view s 1)"
    "inodes s = (\<lambda>_. file_demo)"
  shows "fs_ok sb 0 s" "card (free_blocks sb s) = 58"
proof -
  have sz: "sb_size sb = 100" "sb_ninodes sb = 16" using assms(5,6)
    by (simp_all add: superblock_of_def fs_demo_def word_put_other)
  have bb: "bmap_block sb n = 5" if "n < 100" for n
    using bmap_block_div [of n sb] that sz by (simp add: BPB_val IPB_def BSIZE_def)
  have bf: "blk_free sb (view s) n \<longleftrightarrow> 6 \<le> n \<and> n < 64" if "n < 100" for n
    using fs_demo_bitmap [OF that] bb [OF that] assms(5) that by (simp add: blk_free_def fs_demo_def BPB_val)
  have "bmap_ok sb s" using assms(2,4,6) sz bb bf
    by (auto simp: bmap_ok_def assms(6) [symmetric] word_unat_eq_iff word_less_nat_alt unat_of_nat)
  moreover have "blk_of file_demo v b = 0" for v b by (simp add: blk_of_def file_demo_def)
  then have "owned file_demo (view s) = {}" "\<forall>b. blk_of file_demo (view s) b = 0" by (auto simp: owned_def file_demo_def)
  moreover have "IBLOCK (inum file_demo) = 2" by (simp add: IBLOCK_def file_demo_def IPB_def BSIZE_def)
  moreover have "data_blk sb s 2" using sz bf [of 2] bb assms(2) by (simp add: data_blk_def)
  ultimately show "fs_ok sb 0 s" using assms(1,3,7) by (simp add: fs_ok_def file_ok_def) (simp add: file_demo_def)
  have "free_blocks sb s = {6..<64}" using sz bf by (auto simp: free_blocks_def)
  then show "card (free_blocks sb s) = 58" by simp
qed


end
