(* ===== verification/Names.thy ===== *)
theory Names
  imports Fs
begin

text \<open>
  Path names: \<^verbatim>\<open>skipelem\<close> against the list of the elements of a path, and \<^verbatim>\<open>namecmp\<close> and \<^verbatim>\<open>strncpy\<close>
  on directory entry names.
\<close>

section \<open>Elements of a path\<close>

text \<open>The reference: cut at every slash and drop the empty pieces.\<close>

fun split_slash :: "uchar list \<Rightarrow> uchar list \<Rightarrow> uchar list list" where
  "split_slash acc [] = [rev acc]"
| "split_slash acc (c # cs) = (if c = SLASH then rev acc # split_slash [] cs else split_slash (c # acc) cs)"

definition elems :: "uchar list \<Rightarrow> uchar list list" where
  "elems path = filter (\<lambda>e. e \<noteq> []) (split_slash [] path)"

text \<open>The array \<^verbatim>\<open>name\<close> as a string: at most \<^verbatim>\<open>DIRSIZ\<close> bytes, up to the first zero.\<close>

fun name_str_from :: "name \<Rightarrow> nat \<Rightarrow> nat \<Rightarrow> uchar list" where
  "name_str_from nm i 0 = []"
| "name_str_from nm i (Suc n) = (if nm i = 0 then [] else nm i # name_str_from nm (Suc i) n)"

definition name_str :: "name \<Rightarrow> uchar list" where
  "name_str nm = name_str_from nm 0 DIRSIZ"

lemma split_slash_span:
  "split_slash acc cs = (case dropWhile (\<lambda>c. c \<noteq> SLASH) cs of
     [] \<Rightarrow> [rev acc @ cs] | _ # ds \<Rightarrow> (rev acc @ takeWhile (\<lambda>c. c \<noteq> SLASH) cs) # split_slash [] ds)"
proof (induction cs arbitrary: acc)
  case (Cons c cs)
  show ?case
    by (cases "dropWhile (\<lambda>c. c \<noteq> SLASH) cs"; cases "c = SLASH") (simp_all only: Cons split_slash.simps
        dropWhile.simps takeWhile.simps if_True if_False list.case simp_thms rev.simps append_assoc append.simps append_Nil2)
qed simp

lemma elems_slash [simp]: "elems (SLASH # cs) = elems cs"
  by (simp add: elems_def)

lemma elems_drop [simp]: "elems (dropWhile (\<lambda>c. c = SLASH) cs) = elems cs"
  by (induction cs) auto

lemma elems_Nil [simp]: "elems [] = []"
  by (simp add: elems_def)

lemma elems_span:
  assumes "cs \<noteq> []" "hd cs \<noteq> SLASH"
  shows "elems cs = takeWhile (\<lambda>c. c \<noteq> SLASH) cs # elems (dropWhile (\<lambda>c. c \<noteq> SLASH) cs)"
proof (cases "dropWhile (\<lambda>c. c \<noteq> SLASH) cs")
  case Nil
  then have tw: "takeWhile (\<lambda>c. c \<noteq> SLASH) cs = cs" by (simp add: takeWhile_eq_all_conv)
  show ?thesis unfolding elems_def split_slash_span [of "[]" cs] unfolding Nil tw using assms(1) by simp
next
  case (Cons d ds)
  then have "d = SLASH" using hd_dropWhile [of "\<lambda>c. c \<noteq> SLASH" cs] by simp
  moreover have "takeWhile (\<lambda>c. c \<noteq> SLASH) cs \<noteq> []" using assms by (cases cs) auto
  ultimately show ?thesis unfolding elems_def split_slash_span [of "[]" cs] unfolding Cons by simp
qed

lemma elems_Nil_iff: "elems path = [] \<longleftrightarrow> dropWhile (\<lambda>c. c = SLASH) path = []"
proof
  assume e: "elems path = []"
  show "dropWhile (\<lambda>c. c = SLASH) path = []"
  proof (rule ccontr)
    assume n: "dropWhile (\<lambda>c. c = SLASH) path \<noteq> []"
    then have "hd (dropWhile (\<lambda>c. c = SLASH) path) \<noteq> SLASH" by (rule hd_dropWhile)
    with n e elems_span [OF n] show False by simp
  qed
next
  assume "dropWhile (\<lambda>c. c = SLASH) path = []"
  then show "elems path = []" by (metis elems_drop elems_Nil)
qed

section \<open>Names\<close>

lemma name_str_from_list:
  assumes "\<forall>j<n. nm (i + j) = (if j < length el then el ! j else 0)" "0 \<notin> set el"
  shows "name_str_from nm i n = take n el"
  using assms
proof (induction n arbitrary: i el)
  case 0
  then show ?case by simp
next
  case (Suc n)
  have i: "nm i = (if 0 < length el then el ! 0 else 0)" using Suc.prems(1) [rule_format, of 0] by simp
  show ?case
  proof (cases el)
    case Nil
    then show ?thesis using i by simp
  next
    case (Cons e es)
    then have "nm i = e" "e \<noteq> 0" using i Suc.prems(2) by auto
    moreover have "name_str_from nm (Suc i) n = take n es"
    proof (rule Suc.IH)
      show "\<forall>j<n. nm (Suc i + j) = (if j < length es then es ! j else 0)"
      proof (intro allI impI)
        fix j assume "j < n"
        then have "nm (i + Suc j) = (if Suc j < length el then el ! Suc j else 0)" using Suc.prems(1) [rule_format, of "Suc j"] by simp
        then show "nm (Suc i + j) = (if j < length es then es ! j else 0)" using Cons by simp
      qed
      show "0 \<notin> set es" using Suc.prems(2) Cons by simp
    qed
    ultimately show ?thesis using Cons by simp
  qed
qed

text \<open>Only the bytes up to the first zero matter.\<close>

lemma name_str_from_terminated:
  assumes "\<forall>j<length el. nm (i + j) = el ! j" "0 \<notin> set el" "length el < n \<longrightarrow> nm (i + length el) = 0" 
  shows "name_str_from nm i n = take n el"
  using assms
proof (induction n arbitrary: i el)
  case 0
  then show ?case by simp
next
  case (Suc n)
  show ?case
  proof (cases el)
    case Nil
    then show ?thesis using Suc.prems(3) by simp
  next
    case (Cons e es)
    then have i: "nm i = e" "e \<noteq> 0" using Suc.prems(1) [rule_format, of 0] Suc.prems(2) by auto
    have "name_str_from nm (Suc i) n = take n es"
    proof (rule Suc.IH)
      show "\<forall>j<length es. nm (Suc i + j) = es ! j"
      proof (intro allI impI)
        fix j assume "j < length es"
        then have "nm (i + Suc j) = el ! Suc j" using Suc.prems(1) [rule_format, of "Suc j"] Cons by simp
        then show "nm (Suc i + j) = es ! j" using Cons by simp
      qed
      show "length es < n \<longrightarrow> nm (Suc i + length es) = 0" using Suc.prems(3) Cons by simp
    qed (use Suc.prems(2) Cons in simp)
    with i Cons show ?thesis by simp
  qed
qed

lemma name_ncmp_str: "name_ncmp p q i n = 0 \<longleftrightarrow> name_str_from p i n = name_str_from q i n"
proof (induction n arbitrary: i)
  case (Suc n)
  show ?case
  proof (cases "p i = q i")
    case True
    then show ?thesis using Suc by simp
  next
    case False
    then have "uint (p i) \<noteq> uint (q i)" unfolding word_uint_eq_iff .
    then show ?thesis using False by auto
  qed
qed simp

lemma namecmp_str: "namecmp p q = 0 \<longleftrightarrow> name_str p = name_str q"
  by (simp add: namecmp_def name_str_def name_ncmp_str)

lemma name_ncpy_length [simp]: "length (name_ncpy t i n) = n"
  by (induction t i n rule: name_ncpy.induct) auto

lemma name_ncpy_str:
  "\<forall>j<n. q (i + j) = name_ncpy t k n ! j \<Longrightarrow> name_str_from q i n = name_str_from t k n"
proof (induction n arbitrary: i k)
  case (Suc n)
  have q: "q i = t k" using Suc.prems [rule_format, of 0] by (simp split: if_splits)
  show ?case
  proof (cases "t k = 0")
    case False
    have "\<forall>j<n. q (Suc i + j) = name_ncpy t (Suc k) n ! j"
      using Suc.prems [rule_format, of "Suc j" for j] False by simp
    from Suc.IH [OF this] show ?thesis using q False by simp
  qed (simp add: q)
qed simp

lemma de_name_str: "name_str (de_name (de_bytes i (name_ncpy nm 0 DIRSIZ))) = name_str nm"
  unfolding name_str_def by (rule name_ncpy_str) (simp add: de_name_def de_bytes_def)

lemma de_inum_bytes: "de_inum (de_bytes i bs) = i"
proof (rule bit_word_eqI)
  fix n assume "n < LENGTH(16)"
  then show "bit (de_inum (de_bytes i bs)) n \<longleftrightarrow> bit i n"
    by (cases "n < 8") (auto simp: de_inum_def de_bytes_def bit_word_cat_iff bit_ucast_iff bit_drop_bit_eq)
qed

text \<open>
  A directory entry keeps the inode number and the name that were put into it: \<^verbatim>\<open>namecmp\<close> finds a name equal
  to the stored one exactly when both agree up to the first zero within \<^verbatim>\<open>DIRSIZ\<close> bytes.
\<close>

theorem dirent_roundtrip:
  "de_inum (de_bytes i (name_ncpy nm 0 DIRSIZ)) = i \<and>
   (namecmp nm' (de_name (de_bytes i (name_ncpy nm 0 DIRSIZ))) = 0 \<longleftrightarrow> name_str nm' = name_str nm)"
  by (simp add: de_inum_bytes namecmp_str de_name_str)

lemma skipelem_None: "skipelem path nm = None \<longleftrightarrow> elems path = []"
  by (simp add: skipelem_def elems_Nil_iff Let_def)

lemma skipelem_Some:
  assumes "skipelem path nm = Some (rest, nm')" "0 \<notin> set path"
  shows "elems path = (hd (elems path)) # elems rest" "name_str nm' = take DIRSIZ (hd (elems path))"
    "length rest < length path" "0 \<notin> set rest"
proof -
  define p where "p = dropWhile (\<lambda>c. c = SLASH) path"
  define el where "el = takeWhile (\<lambda>c. c \<noteq> SLASH) p"
  have ne: "p \<noteq> []" and rest: "rest = dropWhile (\<lambda>c. c = SLASH) (dropWhile (\<lambda>c. c \<noteq> SLASH) p)"
    and nm': "nm' = (if length el \<ge> DIRSIZ then (\<lambda>i. if i < DIRSIZ then el ! i else nm i)
          else (\<lambda>i. if i < length el then el ! i else if i = length el then 0 else nm i))"
    using assms(1) unfolding skipelem_def p_def el_def by (simp_all add: Let_def split: if_splits)
  have hd: "hd p \<noteq> SLASH" using ne unfolding p_def by (rule hd_dropWhile)
  have e: "elems path = el # elems rest"
    using elems_span [OF ne hd] unfolding rest el_def by (simp add: p_def)
  then show "elems path = hd (elems path) # elems rest" by simp
  have sub: "set el \<subseteq> set path" "set p \<subseteq> set path"
    unfolding el_def p_def by (meson set_dropWhileD set_takeWhileD subsetI)+
  then have nz: "0 \<notin> set el" using assms(2) by blast
  have "name_str nm' = take DIRSIZ el"
  proof (cases "length el \<ge> DIRSIZ")
    case True
    have "name_str_from nm' 0 DIRSIZ = take DIRSIZ (take DIRSIZ el)"
      by (rule name_str_from_terminated) (use True nz in \<open>auto simp: nm' dest: in_set_takeD\<close>)
    then show ?thesis by (simp add: name_str_def)
  next
    case False
    have "name_str_from nm' 0 DIRSIZ = take DIRSIZ el"
      by (rule name_str_from_terminated) (use False nz in \<open>auto simp: nm'\<close>)
    then show ?thesis by (simp add: name_str_def)
  qed
  then show "name_str nm' = take DIRSIZ (hd (elems path))" using e by simp
  have "length rest \<le> length (dropWhile (\<lambda>c. c \<noteq> SLASH) p)" unfolding rest by (rule length_dropWhile_le)
  also have "\<dots> < length p" using ne hd by (cases p) (auto intro: le_imp_less_Suc length_dropWhile_le)
  also have "\<dots> \<le> length path" unfolding p_def by (rule length_dropWhile_le)
  finally show "length rest < length path" .
  show "0 \<notin> set rest" using assms(2) sub(2) unfolding rest by (meson set_dropWhileD subsetD)
qed

text \<open>The loop over \<^verbatim>\<open>skipelem\<close>, with what each turn leaves in \<^verbatim>\<open>name\<close>.\<close>

fun walk_names :: "nat \<Rightarrow> uchar list \<Rightarrow> name \<Rightarrow> uchar list list option" where
  "walk_names 0 path nm = None"
| "walk_names (Suc k) path nm = (case skipelem path nm of
     None \<Rightarrow> Some [] | Some (path, nm) \<Rightarrow> map_option (Cons (name_str nm)) (walk_names k path nm))"

text \<open>
  C25. Calling \<^verbatim>\<open>skipelem\<close> until it returns null gives, in order, the pieces between the slashes of the path, each cut
  to \<^verbatim>\<open>DIRSIZ\<close> bytes, and it ends within one call more than the path has bytes, the bound used by \<^verbatim>\<open>namex\<close>.
\<close>

theorem skipelem_walks:
  assumes "0 \<notin> set path" "length path < k"
  shows "walk_names k path nm = Some (map (take DIRSIZ) (elems path))"
  using assms
proof (induction k arbitrary: path nm)
  case (Suc k)
  show ?case
  proof (cases "skipelem path nm")
    case None
    then show ?thesis using skipelem_None [of path nm] by simp
  next
    case (Some r)
    then obtain rest nm' where r: "skipelem path nm = Some (rest, nm')" by (cases r) auto
    note sp = skipelem_Some [OF r Suc.prems(1)]
    have "length rest < k" using sp(3) Suc.prems(2) by simp
    from Suc.IH [OF sp(4) this] have "walk_names (Suc k) path nm = Some (take DIRSIZ (hd (elems path)) # map (take DIRSIZ) (elems rest))"
      using r sp(2) by simp
    then show ?thesis using sp(1) by (metis list.simps(9))
  qed
qed simp

theorem skipelem_walks_witness:
  "walk_names 8 [SLASH, 97, 98, SLASH, SLASH, 99] (\<lambda>_. 0) = Some [[97, 98], [99]]"
  using skipelem_walks [of "[SLASH, 97, 98, SLASH, SLASH, 99]" 8 "\<lambda>_. 0"] by (simp add: SLASH_def elems_def DIRSIZ_def)

end
