(* ===== verification/Mkfs.thy ===== *)
theory Mkfs
  imports Contents Names
begin

text \<open>
  The program \<^verbatim>\<open>mkfs.c\<close>, which builds the disk image with the first files.  The image is a function from sector numbers to
  blocks, with the number of sectors the image file has; reading beyond them fails and ends the program, as does a failed
  \<^verbatim>\<open>assert\<close>.  A \<^verbatim>\<open>struct dinode\<close> is an inode record whose fields for the cache of the kernel are unused.  What is
  printed is left out.
\<close>

section \<open>The program\<close>

definition nlog :: uint where "nlog = of_nat LOGSIZE"
definition nblocks :: uint where "nblocks = 995 - of_nat LOGSIZE"
definition ninodes :: uint where "ninodes = 200"
definition fssize :: uint where "fssize = 1024"

record mkfs =
  img :: "uint \<Rightarrow> block"
  sectors :: nat
  freeblock :: uint
  usedblocks :: uint
  freeinode :: uint

definition zeroes :: block where "zeroes = (\<lambda>_. 0)"

text \<open>Conversion to the byte order of the disk: the result has the bytes of the argument in memory, lowest first.\<close>

definition xint :: "uint \<Rightarrow> uint" where
  "xint x = of_bytes (byte_of x 0) (byte_of x 1) (byte_of x 2) (byte_of x 3)"

definition xshort :: "ushort \<Rightarrow> ushort" where
  "xshort x = word_cat (ucast (drop_bit 8 x) :: uchar) (ucast x :: uchar)"

definition wsect :: "uint \<Rightarrow> block \<Rightarrow> (unit, 'a mkfs_scheme) kfun" where
  "wsect sec buf = modify (\<lambda>s. s\<lparr>img := (img s)(sec := buf), sectors := max (sectors s) (Suc (unat sec))\<rparr>)"

definition rsect :: "uint \<Rightarrow> (block, 'a mkfs_scheme) kfun" where
  "rsect sec = seq (panic_if (\<lambda>s. sectors s \<le> unat sec) ''read'') (gets (\<lambda>s. img s sec))"

definition i2b :: "uint \<Rightarrow> uint" where
  "i2b i = i div of_nat IPB + 2"

definition din0 :: inode where
  "din0 = \<lparr>idev = 0, inum = 0, iref = 0, ibusy = False, ivalid = False, itype = 0, imajor = 0, iminor = 0, inlink = 0, isize = 0, iaddrs = (\<lambda>_. 0)\<rparr>"

definition winode :: "uint \<Rightarrow> inode \<Rightarrow> (unit, 'a mkfs_scheme) kfun" where
  "winode i din = bind (rsect (i2b i)) (\<lambda>buf. wsect (i2b i) (write_dinode buf (dinode_off i) din))"

definition rinode :: "uint \<Rightarrow> (inode, 'a mkfs_scheme) kfun" where
  "rinode i = bind (rsect (i2b i)) (\<lambda>buf. return (read_dinode buf (dinode_off i) din0))"

definition ialloc_mkfs :: "ushort \<Rightarrow> (uint, 'a mkfs_scheme) kfun" where
  "ialloc_mkfs type =
     bind (gets freeinode) (\<lambda>i.
     seq (modify (\<lambda>s. s\<lparr>freeinode := freeinode s + 1\<rparr>))
    (seq (winode i (din0\<lparr>itype := xshort type, inlink := xshort 1, isize := xint 0\<rparr>))
         (return i)))"

definition balloc_mkfs :: "uint \<Rightarrow> (unit, 'a mkfs_scheme) kfun" where
  "balloc_mkfs used =
     seq (panic_if (\<lambda>_. \<not> used < 512 * 8) ''assert'')
         (wsect (ninodes div of_nat IPB + 3) (foldl (\<lambda>buf i. mark_bit i buf) zeroes [0..<unat used]))"

definition new_block :: "(uint, 'a mkfs_scheme) kfun" where
  "new_block =
     bind (gets freeblock) (\<lambda>b.
     seq (modify (\<lambda>s. s\<lparr>freeblock := freeblock s + 1\<rparr>))
    (seq (modify (\<lambda>s. s\<lparr>usedblocks := usedblocks s + 1\<rparr>))
         (return b)))"

text \<open>The block of the file that holds block number \<open>fbn\<close>, allocated if need be.\<close>

definition file_block :: "inode \<Rightarrow> nat \<Rightarrow> (inode \<times> uint, 'a mkfs_scheme) kfun" where
  "file_block din fbn =
     (if fbn < NDIRECT
      then
        bind (if xint (iaddrs din fbn) = 0
              then bind new_block (\<lambda>b. return (din\<lparr>iaddrs := (iaddrs din)(fbn := xint b)\<rparr>))
              else return din) (\<lambda>din.
        return (din, xint (iaddrs din fbn)))
      else
        bind (if xint (iaddrs din NDIRECT) = 0
              then bind new_block (\<lambda>b. return (din\<lparr>iaddrs := (iaddrs din)(NDIRECT := xint b)\<rparr>))
              else return din) (\<lambda>din.
        bind (rsect (xint (iaddrs din NDIRECT))) (\<lambda>indirect.
        bind (if word_at indirect (4 * (fbn - NDIRECT)) = 0
              then bind new_block (\<lambda>b.
                   let indirect = put_word indirect (4 * (fbn - NDIRECT)) (xint b) in
                   seq (wsect (xint (iaddrs din NDIRECT)) indirect) (return indirect))
              else return indirect) (\<lambda>indirect.
        return (din, xint (word_at indirect (4 * (fbn - NDIRECT))))))))"

fun iappend_loop :: "nat \<Rightarrow> inode \<Rightarrow> uint \<Rightarrow> (nat \<Rightarrow> uchar) \<Rightarrow> uint \<Rightarrow> (inode \<times> uint, 'a mkfs_scheme) kfun" where
  "iappend_loop 0 din off p n = (\<lambda>s. Spin)"
| "iappend_loop (Suc k) din off p n =
     (if n > 0
      then
        let fbn = off div 512 in
        seq (panic_if (\<lambda>_. \<not> unat fbn < MAXFILE) ''assert'')
       (bind (file_block din (unat fbn)) (\<lambda>(din, x).
        let n1 = min n ((fbn + 1) * 512 - off) in
        bind (rsect x) (\<lambda>buf.
        seq (wsect x (\<lambda>i. if unat (off - fbn * 512) \<le> i \<and> i < unat (off - fbn * 512) + unat n1
                          then p (i - unat (off - fbn * 512)) else buf i))
            (iappend_loop k din (off + n1) (\<lambda>i. p (unat n1 + i)) (n - n1)))))
      else return (din, off))"

text \<open>Every iteration takes a byte, so the number of bytes plus one is enough fuel.\<close>

definition iappend :: "uint \<Rightarrow> (nat \<Rightarrow> uchar) \<Rightarrow> uint \<Rightarrow> (unit, 'a mkfs_scheme) kfun" where
  "iappend i p n =
     bind (rinode i) (\<lambda>din.
     bind (iappend_loop (Suc (unat n)) din (xint (isize din)) p n) (\<lambda>(din, off).
     winode i (din\<lparr>isize := xint off\<rparr>)))"

definition as_name :: "uchar list \<Rightarrow> name" where
  "as_name l = (\<lambda>i. if i < length l then l ! i else 0)"

text \<open>A directory entry, zeroed before its fields are set.\<close>

definition dirent_mkfs :: "uint \<Rightarrow> uchar list \<Rightarrow> uchar list" where
  "dirent_mkfs i nm = de_bytes (xshort (ucast i)) (name_ncpy (as_name nm) 0 DIRSIZ)"

definition append_entry :: "uint \<Rightarrow> uint \<Rightarrow> uchar list \<Rightarrow> (unit, 'a mkfs_scheme) kfun" where
  "append_entry dir i nm = iappend dir (\<lambda>j. dirent_mkfs i nm ! j) 16"

text \<open>A file is given by its name and by what the calls of \<^verbatim>\<open>read\<close> deliver, each at most 512 bytes.\<close>

type_synonym host_file = "uchar list \<times> uchar list list"

definition add_chunk :: "uint \<Rightarrow> uchar list \<Rightarrow> (unit, 'a mkfs_scheme) kfun" where
  "add_chunk i c = iappend i (\<lambda>j. c ! j) (of_nat (length c))"

definition add_file :: "uint \<Rightarrow> host_file \<Rightarrow> (unit, 'a mkfs_scheme) kfun" where
  "add_file root f =
     (let nm = fst f in
      seq (panic_if (\<lambda>_. 47 \<in> set nm) ''assert'')
     (let nm = (if nm \<noteq> [] \<and> hd nm = 95 then tl nm else nm) in
      bind (ialloc_mkfs T_FILE) (\<lambda>i.
      seq (append_entry root i nm)
          (for_each (snd f) (add_chunk i)))))"

definition sb_block :: block where
  "sb_block = put_word (put_word (put_word (put_word zeroes 0 (xint fssize)) 4 (xint nblocks)) 8 (xint ninodes)) 12 (xint nlog)"

definition main_mkfs :: "host_file list \<Rightarrow> (unit, 'a mkfs_scheme) kfun" where
  "main_mkfs files =
     (let bitblocks = fssize div (512 * 8) + 1; used = ninodes div of_nat IPB + 3 + bitblocks in
      seq (modify (\<lambda>s. s\<lparr>usedblocks := used, freeblock := used\<rparr>))
     (seq (panic_if (\<lambda>_. nblocks + used + nlog \<noteq> fssize) ''assert'')
     (seq (for_each [0..<unat (nblocks + used + nlog)] (\<lambda>i. wsect (of_nat i) zeroes))
     (seq (wsect 1 sb_block)
     (bind (ialloc_mkfs T_DIR) (\<lambda>rootino.
      seq (panic_if (\<lambda>_. rootino \<noteq> ROOTINO) ''assert'')
     (seq (append_entry rootino rootino [46])
     (seq (append_entry rootino rootino [46, 46])
     (seq (for_each files (add_file rootino))
     (bind (rinode rootino) (\<lambda>din.
      let off = (xint (isize din) div of_nat BSIZE + 1) * of_nat BSIZE in
      seq (winode rootino (din\<lparr>isize := xint off\<rparr>))
          (bind (gets usedblocks) balloc_mkfs))))))))))))"

section \<open>Blocks of a file\<close>

text \<open>
  A file of the image: its blocks are data blocks below the first free one, and no two places of the file share a block.
\<close>

definition DATA0 :: nat where "DATA0 = 29"

definition mk_file :: "nat \<Rightarrow> inode \<Rightarrow> (uint \<Rightarrow> block) \<Rightarrow> bool" where
  "mk_file fb x v \<longleftrightarrow> (\<forall>k\<in>owned x v. DATA0 \<le> unat k \<and> unat k < fb) \<and>
     (\<forall>b<MAXFILE. blk_of x v b \<noteq> 0 \<longrightarrow> blk_of x v b \<noteq> iaddrs x NDIRECT \<and>
        (\<forall>c<MAXFILE. blk_of x v c = blk_of x v b \<longrightarrow> c = b))"

text \<open>From \<open>x\<close> and \<open>v\<close> to \<open>y\<close> and \<open>w\<close> the file gets some of the blocks from \<open>fb\<close> on, and its bytes stay the same.\<close>

definition grown :: "nat \<Rightarrow> nat \<Rightarrow> inode \<Rightarrow> (uint \<Rightarrow> block) \<Rightarrow> inode \<Rightarrow> (uint \<Rightarrow> block) \<Rightarrow> bool" where
  "grown fb fb' x v y w \<longleftrightarrow> fb \<le> fb' \<and> mk_file fb' y w \<and> y = x\<lparr>iaddrs := iaddrs y\<rparr> \<and>
     (\<forall>b<MAXFILE. blk_of x v b \<noteq> 0 \<longrightarrow> blk_of y w b = blk_of x v b) \<and>
     owned x v \<subseteq> owned y w \<and> owned y w \<subseteq> owned x v \<union> {k. fb \<le> unat k \<and> unat k < fb'} \<and>
     (\<forall>k. k \<notin> owned y w \<longrightarrow> w k = v k) \<and>
     (\<forall>p<MAXFILE * BSIZE. contents y w p = contents x v p)"

lemma xint_id [simp]: "xint x = x"
  unfolding xint_def by (rule of_bytes_byte_of)

lemma xshort_id [simp]: "xshort x = x"
proof (rule bit_word_eqI)
  fix n assume "n < LENGTH(16)"
  then show "bit (xshort x) n \<longleftrightarrow> bit x n"
    by (cases "n < 8") (auto simp: xshort_def bit_word_cat_iff bit_ucast_iff bit_drop_bit_eq)
qed

lemma mk_fileD:
  assumes "mk_file fb x v"
  shows "\<And>k. k \<in> owned x v \<Longrightarrow> DATA0 \<le> unat k \<and> unat k < fb"
    "\<And>b. b < MAXFILE \<Longrightarrow> blk_of x v b \<noteq> 0 \<Longrightarrow> blk_of x v b \<noteq> iaddrs x NDIRECT"
    "\<And>b c. b < MAXFILE \<Longrightarrow> c < MAXFILE \<Longrightarrow> blk_of x v b \<noteq> 0 \<Longrightarrow> blk_of x v c = blk_of x v b \<Longrightarrow> c = b"
  using assms unfolding mk_file_def by blast+

lemma grown_refl: "mk_file fb x v \<Longrightarrow> grown fb fb x v x v"
  by (simp add: grown_def)

lemma grownD:
  assumes "grown fb fb' x v y w"
  shows "fb \<le> fb'" "mk_file fb' y w" "y = x\<lparr>iaddrs := iaddrs y\<rparr>"
    "\<And>b. b < MAXFILE \<Longrightarrow> blk_of x v b \<noteq> 0 \<Longrightarrow> blk_of y w b = blk_of x v b"
    "owned x v \<subseteq> owned y w" "owned y w \<subseteq> owned x v \<union> {k. fb \<le> unat k \<and> unat k < fb'}" "\<And>k. k \<notin> owned y w \<Longrightarrow> w k = v k"
    "\<And>p. p < MAXFILE * BSIZE \<Longrightarrow> contents y w p = contents x v p"
  using assms unfolding grown_def by blast+

lemma grown_trans:
  assumes "grown fb fb1 x v y w" "grown fb1 fb2 y w z u"
  shows "grown fb fb2 x v z u"
proof -
  note a = grownD [OF assms(1)] and b = grownD [OF assms(2)]
  have "z = x\<lparr>iaddrs := iaddrs z\<rparr>" by (subst b(3), subst a(3)) simp
  moreover have "owned z u \<subseteq> owned x v \<union> {k. fb \<le> unat k \<and> unat k < fb2}"
  proof
    fix k assume "k \<in> owned z u"
    then have "k \<in> owned x v \<or> fb \<le> unat k \<and> unat k < fb1 \<or> fb1 \<le> unat k \<and> unat k < fb2" using a(6) b(6) by blast
    then show "k \<in> owned x v \<union> {k. fb \<le> unat k \<and> unat k < fb2}" using a(1) b(1) by auto
  qed
  moreover have "u k = v k" if "k \<notin> owned z u" for k using a(7) b(5,7) that by (metis subset_iff)
  moreover have "blk_of z u i = blk_of x v i" if "i < MAXFILE" "blk_of x v i \<noteq> 0" for i using a(4) [OF that] b(4) [of i] that by simp
  moreover have "contents z u p = contents x v p" if "p < MAXFILE * BSIZE" for p using a(8) [OF that] b(8) [OF that] by simp
  moreover have "owned x v \<subseteq> owned z u" "fb \<le> fb2" using a(1,5) b(1,5) by auto
  ultimately show ?thesis using b(2) unfolding grown_def by blast
qed

text \<open>A block of the file is overwritten.\<close>

lemma data_written:
  assumes "mk_file fb x v" "b < MAXFILE" "a = blk_of x v b" "a \<noteq> 0" "w = v(a := d)"
  shows "mk_file fb x w" "owned x w = owned x v" "\<And>i. blk_of x w i = blk_of x v i"
    "\<And>p. p < MAXFILE * BSIZE \<Longrightarrow> contents x w p = (if p div BSIZE = b then d (p mod BSIZE) else contents x v p)"
proof -
  have "a \<noteq> iaddrs x NDIRECT" using mk_fileD(2) [OF assms(1,2)] assms(3,4) by simp
  then have iv: "iaddrs x NDIRECT \<noteq> 0 \<Longrightarrow> w (iaddrs x NDIRECT) = v (iaddrs x NDIRECT)" using assms(5) by simp
  show bo: "blk_of x w i = blk_of x v i" for i using iv by (rule blk_of_cong)
  show ow: "owned x w = owned x v" using iv by (rule owned_cong)
  show "mk_file fb x w" using assms(1) unfolding mk_file_def bo ow .
  fix p :: nat assume "p < MAXFILE * BSIZE"
  then have "p div BSIZE < MAXFILE" by (rule block_below)
  then have "blk_of x v (p div BSIZE) = a \<longleftrightarrow> p div BSIZE = b" using mk_fileD(3) [OF assms(1,2)] assms(3,4) by auto
  then show "contents x w p = (if p div BSIZE = b then d (p mod BSIZE) else contents x v p)"
    unfolding contents_def bo unfolding assms(5) using assms(4) by auto
qed

text \<open>A block number that the file does not have.\<close>

lemma fresh_number:
  assumes "mk_file fb x v" "DATA0 \<le> fb" "fb < 2 ^ 32" "n = (of_nat fb :: uint)"
  shows "unat n = fb" "n \<noteq> 0" "n \<notin> owned x v" "iaddrs x NDIRECT \<noteq> n" "\<And>b. b < MAXFILE \<Longrightarrow> blk_of x v b \<noteq> n"
proof -
  show u: "unat n = fb" using assms(3,4) by (simp add: unat_of_nat)
  show n0: "n \<noteq> 0" using u assms(2) by (auto simp: DATA0_def)
  show no: "n \<notin> owned x v" using mk_fileD(1) [OF assms(1)] u by auto
  show "iaddrs x NDIRECT \<noteq> n" using no n0 owned_ind [of x v] by auto
  show "blk_of x v b \<noteq> n" if "b < MAXFILE" for b using no n0 ownedI [of x v b] that by auto
qed

text \<open>
  One place of the file that had no block gets a fresh one, which holds zeroes.
\<close>

lemma place_grown:
  assumes "mk_file fb x v" "DATA0 \<le> fb" "fb < 2 ^ 32" "n = (of_nat fb :: uint)" "b < MAXFILE" "blk_of x v b = 0"
    "iaddrs y NDIRECT = iaddrs x NDIRECT" "y = x\<lparr>iaddrs := iaddrs y\<rparr>" "blk_of y w b = n" "\<And>i. i \<noteq> b \<Longrightarrow> blk_of y w i = blk_of x v i"
    "\<And>k. k \<noteq> iaddrs x NDIRECT \<or> k = 0 \<Longrightarrow> w k = v k" "v n = zeroes"
  shows "grown fb (Suc fb) x v y w" "blk_of y w b \<noteq> 0"
proof -
  note n = fresh_number [OF assms(1-4)]
  show "blk_of y w b \<noteq> 0" using assms(9) n(2) by simp
  have ow: "owned y w = insert n (owned x v)"
  proof (rule set_eqI)
    fix k
    have "(\<exists>c<MAXFILE. k = blk_of y w c) \<longleftrightarrow> k = n \<or> (\<exists>c<MAXFILE. c \<noteq> b \<and> k = blk_of x v c)"
      using assms(5,9,10) by metis
    then show "k \<in> owned y w \<longleftrightarrow> k \<in> insert n (owned x v)" using assms(6) n(2) unfolding owned_def assms(7) by auto
  qed
  have same: "blk_of y w i = blk_of x v i" if "blk_of x v i \<noteq> 0" for i using assms(6,10) that by metis
  have "mk_file (Suc fb) y w"
    unfolding mk_file_def
  proof (intro conjI ballI allI impI)
    fix k assume "k \<in> owned y w"
    then show "DATA0 \<le> unat k" "unat k < Suc fb" using ow n(1) assms(2) mk_fileD(1) [OF assms(1), of k] by auto
  next
    fix i assume i: "i < MAXFILE" "blk_of y w i \<noteq> 0"
    show "blk_of y w i \<noteq> iaddrs y NDIRECT"
      using mk_fileD(2) [OF assms(1) i(1)] n(4) i(2) assms(7,9,10) by (cases "i = b") auto
    fix j assume j: "j < MAXFILE" "blk_of y w j = blk_of y w i"
    show "j = i"
      using n(5) [OF i(1)] n(5) [OF j(1)] mk_fileD(3) [OF assms(1) i(1) j(1)] i(2) j(2) assms(9,10)
      by (cases "i = b"; cases "j = b") auto
  qed
  moreover have "w k = v k" if "k \<notin> owned y w" for k
    using assms(11) [of k] owned_ind [of x v] that ow by auto
  moreover have "contents y w p = contents x v p" if p: "p < MAXFILE * BSIZE" for p
  proof (cases "p div BSIZE = b")
    case True
    have "w n = zeroes" using assms(11,12) n(4) by metis
    then show ?thesis using True assms(6,9) n(2) by (simp add: contents_def zeroes_def)
  next
    case False
    have pb: "p div BSIZE < MAXFILE" by (rule block_below [OF p])
    have "w (blk_of x v (p div BSIZE)) = v (blk_of x v (p div BSIZE))" if "blk_of x v (p div BSIZE) \<noteq> 0"
      using assms(11) mk_fileD(2) [OF assms(1) pb that] by blast
    then show ?thesis using assms(10) [OF False] by (auto simp: contents_def)
  qed
  ultimately show "grown fb (Suc fb) x v y w" using ow n(1) assms(8) same unfolding grown_def by auto
qed

lemma direct_grown:
  assumes "mk_file fb x v" "DATA0 \<le> fb" "fb < 2 ^ 32" "n = (of_nat fb :: uint)" "b < NDIRECT" "iaddrs x b = 0" "v n = zeroes"
    "y = x\<lparr>iaddrs := (iaddrs x)(b := n)\<rparr>"
  shows "grown fb (Suc fb) x v y v" "blk_of y v b = n" "\<And>i. i \<noteq> b \<Longrightarrow> blk_of y v i = blk_of x v i"
proof -
  have b: "b < MAXFILE" "blk_of x v b = 0" "iaddrs y NDIRECT = iaddrs x NDIRECT" using assms(5,6,8) by (auto simp: blk_of_def MAXFILE_def)
  show y: "blk_of y v b = n" using assms(5,8) by (simp add: blk_of_def)
  show o: "blk_of y v i = blk_of x v i" if "i \<noteq> b" for i using that assms(8) b(3) by (simp add: blk_of_def)
  show "grown fb (Suc fb) x v y v"
    by (rule place_grown(1) [OF assms(1-4) b _ y o _ assms(7)]) (simp_all add: assms(8))
qed

lemma word_zeroes [simp]: "word_at zeroes i = 0"
  by (simp add: word_at_def zeroes_def of_bytes_def)

lemma indirect_grown:
  assumes "mk_file fb x v" "DATA0 \<le> fb" "fb < 2 ^ 32" "n = (of_nat fb :: uint)" "iaddrs x NDIRECT = 0" "v n = zeroes"
    "y = x\<lparr>iaddrs := (iaddrs x)(NDIRECT := n)\<rparr>"
  shows "grown fb (Suc fb) x v y v" "\<And>b. blk_of y v b = blk_of x v b"
proof -
  note n = fresh_number [OF assms(1-4)]
  have yN: "iaddrs y NDIRECT = n" using assms(7) by simp
  show bo: "blk_of y v b = blk_of x v b" for b using assms(5,6,7) n(2) by (auto simp: blk_of_def)
  have ow: "owned y v = insert n (owned x v)" using assms(5) n(2) unfolding owned_def bo yN by auto
  have "mk_file (Suc fb) y v"
    using mk_fileD [OF assms(1)] n(1,5) assms(2) unfolding mk_file_def ow bo yN by (metis insert_iff less_Suc_eq)
  then show "grown fb (Suc fb) x v y v" using ow n(1) assms(7) bo unfolding grown_def contents_def bo by auto
qed

lemma entry_grown:
  assumes "mk_file fb x v" "DATA0 \<le> fb" "fb < 2 ^ 32" "n = (of_nat fb :: uint)" "NDIRECT \<le> b" "b < MAXFILE" "iaddrs x NDIRECT = a" "a \<noteq> 0"
    "word_at (v a) (4 * (b - NDIRECT)) = 0" "v n = zeroes" "w = v(a := put_word (v a) (4 * (b - NDIRECT)) n)"
  shows "grown fb (Suc fb) x v x w" "blk_of x w b = n" "\<And>i. i \<noteq> b \<Longrightarrow> blk_of x w i = blk_of x v i"
proof -
  have b: "blk_of x v b = 0" using assms(5,7-9) by (simp add: blk_of_def)
  show bn: "blk_of x w b = n" using assms(5,7,8,11) by (simp add: blk_of_def)
  show o: "blk_of x w i = blk_of x v i" if "i \<noteq> b" for i
  proof (cases "i < NDIRECT")
    case False
    then have "4 * (b - NDIRECT) + 4 \<le> 4 * (i - NDIRECT) \<or> 4 * (i - NDIRECT) + 4 \<le> 4 * (b - NDIRECT)" using that assms(5) by linarith
    then show ?thesis using assms(7,8,11) False by (simp add: blk_of_def word_put_other)
  qed (simp add: blk_of_def)
  have k: "w k = v k" if "k \<noteq> iaddrs x NDIRECT \<or> k = 0" for k using that assms(7,8,11) by auto
  show "grown fb (Suc fb) x v x w"
    by (rule place_grown(1) [OF assms(1-4,6) b _ _ bn o k assms(10)]) simp_all
qed

section \<open>Allocation\<close>

definition mk_state :: "'a mkfs_scheme \<Rightarrow> bool" where
  "mk_state s \<longleftrightarrow> DATA0 \<le> unat (freeblock s) \<and> sectors s < 2 ^ 31 \<and> usedblocks s = freeblock s \<and>
     (\<forall>k. unat (freeblock s) \<le> unat k \<and> unat k < sectors s \<longrightarrow> img s k = zeroes)"

text \<open>Steps that leave the image alone outside of one file and the free blocks.\<close>

definition mk_step :: "inode \<Rightarrow> 'a mkfs_scheme \<Rightarrow> inode \<Rightarrow> 'a mkfs_scheme \<Rightarrow> bool" where
  "mk_step x s y t \<longleftrightarrow> grown (unat (freeblock s)) (unat (freeblock t)) x (img s) y (img t) \<and> mk_state t \<and>
     sectors t = sectors s \<and> freeinode t = freeinode s"

lemma mk_step_trans: "mk_step x s y t \<Longrightarrow> mk_step y t z u \<Longrightarrow> mk_step x s z u"
  using grown_trans unfolding mk_step_def by metis

lemma mk_step_file: "mk_step x s y t \<Longrightarrow> mk_file (unat (freeblock t)) y (img t) \<and> mk_state t"
  using grownD(2) unfolding mk_step_def by blast

lemma wsect_ret: "unat k < sectors s \<Longrightarrow> wsect k d s = Ret () (s\<lparr>img := (img s)(k := d)\<rparr>)"
  by (simp add: wsect_def kfun_simps max_def)

lemma rsect_ret: "unat k < sectors s \<Longrightarrow> rsect k s = Ret (img s k) s"
  by (simp add: rsect_def kfun_simps)

lemma new_block_ret:
  "new_block s = Ret (freeblock s) (s\<lparr>freeblock := freeblock s + 1, usedblocks := usedblocks s + 1\<rparr>)"
  by (simp add: new_block_def kfun_simps)

lemma next_free:
  assumes "mk_state s" "unat (freeblock s) < sectors s"
  shows "unat (freeblock s + 1) = Suc (unat (freeblock s))" "unat (freeblock s) < 2 ^ 32" "freeblock s = of_nat (unat (freeblock s))"
    "img s (freeblock s) = zeroes" "DATA0 \<le> unat (freeblock s)"
proof -
  have b: "unat (freeblock s) < 2 ^ 31" using assms by (simp add: mk_state_def)
  then show "unat (freeblock s + 1) = Suc (unat (freeblock s))" by (simp add: unat_word_ariths)
  show "unat (freeblock s) < 2 ^ 32" "freeblock s = of_nat (unat (freeblock s))" using b by simp_all
  show "img s (freeblock s) = zeroes" "DATA0 \<le> unat (freeblock s)" using assms by (auto simp: mk_state_def)
qed

lemma mk_step_alloc:
  assumes "mk_state s" "unat (freeblock s) < sectors s" "grown (unat (freeblock s)) (Suc (unat (freeblock s))) x (img s) y w"
    "t = s\<lparr>freeblock := freeblock s + 1, usedblocks := usedblocks s + 1, img := w\<rparr>"
  shows "mk_step x s y t"
proof -
  note n = next_free [OF assms(1,2)]
  have "w k = zeroes" if "Suc (unat (freeblock s)) \<le> unat k" "unat k < sectors s" for k
  proof -
    have "k \<notin> owned y w" using mk_fileD(1) [OF grownD(2) [OF assms(3)], of k] that by auto
    then have "w k = img s k" by (rule grownD(7) [OF assms(3)])
    then show ?thesis using assms(1) that by (simp add: mk_state_def)
  qed
  then show ?thesis using assms n unfolding mk_step_def mk_state_def by auto
qed

lemma mk_step_refl: "mk_file (unat (freeblock s)) x (img s) \<Longrightarrow> mk_state s \<Longrightarrow> mk_step x s x s"
  by (simp add: mk_step_def grown_refl)

text \<open>Allocations fill the places of a file in order: \<open>n\<close> blocks with data, and the indirect block once it is needed.\<close>

definition has_blocks :: "nat \<Rightarrow> inode \<Rightarrow> (uint \<Rightarrow> block) \<Rightarrow> bool" where
  "has_blocks n x v \<longleftrightarrow> (\<forall>b<MAXFILE. blk_of x v b \<noteq> 0 \<longleftrightarrow> b < n) \<and> (iaddrs x NDIRECT \<noteq> 0 \<longleftrightarrow> NDIRECT < n)"

definition with_indirect :: "nat \<Rightarrow> nat" where
  "with_indirect n = (if NDIRECT < n then Suc n else n)"

lemma direct_block:
  assumes "mk_state s" "iaddrs x b = 0 \<Longrightarrow> unat (freeblock s) < sectors s" "mk_file (unat (freeblock s)) x (img s)" "b < NDIRECT"
  shows "\<exists>y t. file_block x b s = Ret (y, blk_of y (img t) b) t \<and> mk_step x s y t \<and> blk_of y (img t) b \<noteq> 0 \<and>
    (\<forall>i. i \<noteq> b \<longrightarrow> blk_of y (img t) i = blk_of x (img s) i) \<and> iaddrs y NDIRECT = iaddrs x NDIRECT \<and>
    unat (freeblock t) = unat (freeblock s) + (if blk_of x (img s) b = 0 then 1 else 0)"
proof (cases "iaddrs x b = 0")
  case True
  note n = next_free [OF assms(1) assms(2) [OF True]]
  define y where "y = x\<lparr>iaddrs := (iaddrs x)(b := freeblock s)\<rparr>"
  define t where "t = s\<lparr>freeblock := freeblock s + 1, usedblocks := usedblocks s + 1, img := img s\<rparr>"
  note g = direct_grown [OF assms(3) n(5,2,3) assms(4) True n(4) y_def]
  have "mk_step x s y t" by (rule mk_step_alloc [OF assms(1) assms(2) [OF True] g(1) t_def])
  moreover have "file_block x b s = Ret (y, blk_of y (img t) b) t"
    using assms(4) True g(2) by (simp add: file_block_def new_block_ret kfun_simps y_def t_def)
  moreover have "freeblock s \<noteq> 0" using n(5) by (auto simp: DATA0_def)
  moreover have "iaddrs y NDIRECT = iaddrs x NDIRECT" "blk_of x (img s) b = 0" using assms(4) True by (simp_all add: y_def blk_of_def)
  ultimately show ?thesis using g(2,3) n(1) by (intro exI [of _ y] exI [of _ t]) (simp add: t_def)
next
  case False
  then have "file_block x b s = Ret (x, blk_of x (img s) b) s" "blk_of x (img s) b \<noteq> 0"
    using assms(4) by (simp_all add: file_block_def kfun_simps blk_of_def)
  then show ?thesis using mk_step_refl [OF assms(3,1)] by (intro exI [of _ x] exI [of _ s]) simp
qed

lemma owned_below:
  assumes "mk_file fb x v" "k \<in> owned x v" "fb \<le> n"
  shows "unat k < n"
  using mk_fileD(1) [OF assms(1,2)] assms(3) by simp

lemma indirect_present:
  assumes "mk_state s" "iaddrs x NDIRECT = 0 \<Longrightarrow> unat (freeblock s) < sectors s" "mk_file (unat (freeblock s)) x (img s)"
  shows "\<exists>y t. (if xint (iaddrs x NDIRECT) = 0 then bind new_block (\<lambda>b. return (x\<lparr>iaddrs := (iaddrs x)(NDIRECT := xint b)\<rparr>)) else return x) s = Ret y t \<and>
    mk_step x s y t \<and> iaddrs y NDIRECT \<noteq> 0 \<and> (\<forall>i. blk_of y (img t) i = blk_of x (img s) i) \<and>
    unat (freeblock t) = unat (freeblock s) + (if iaddrs x NDIRECT = 0 then 1 else 0)"
proof (cases "iaddrs x NDIRECT = 0")
  case True
  note n = next_free [OF assms(1) assms(2) [OF True]]
  define y where "y = x\<lparr>iaddrs := (iaddrs x)(NDIRECT := freeblock s)\<rparr>"
  define t where "t = s\<lparr>freeblock := freeblock s + 1, usedblocks := usedblocks s + 1, img := img s\<rparr>"
  note g = indirect_grown [OF assms(3) n(5,2,3) True n(4) y_def]
  have "mk_step x s y t" by (rule mk_step_alloc [OF assms(1) assms(2) [OF True] g(1) t_def])
  moreover have "freeblock s \<noteq> 0" using n(5) by (auto simp: DATA0_def)
  ultimately show ?thesis using True n(1) g(2)
    by (intro exI [of _ y] exI [of _ t]) (simp add: new_block_ret kfun_simps y_def t_def)
next
  case False
  then show ?thesis using mk_step_refl [OF assms(3,1)] by (intro exI [of _ x] exI [of _ s]) (simp add: kfun_simps)
qed

lemma indirect_entry:
  assumes "mk_state s" "unat (freeblock s) \<le> sectors s" "blk_of x (img s) b = 0 \<Longrightarrow> unat (freeblock s) < sectors s"
    "mk_file (unat (freeblock s)) x (img s)" "NDIRECT \<le> b" "b < MAXFILE" "iaddrs x NDIRECT \<noteq> 0"
  shows "\<exists>t. bind (rsect (iaddrs x NDIRECT)) (\<lambda>ind.
      bind (if word_at ind (4 * (b - NDIRECT)) = 0
            then bind new_block (\<lambda>n. let ind = put_word ind (4 * (b - NDIRECT)) n in seq (wsect (iaddrs x NDIRECT) ind) (return ind))
            else return ind) (\<lambda>ind. return (x, word_at ind (4 * (b - NDIRECT))))) s = Ret (x, blk_of x (img t) b) t \<and>
    mk_step x s x t \<and> blk_of x (img t) b \<noteq> 0 \<and> (\<forall>i. i \<noteq> b \<longrightarrow> blk_of x (img t) i = blk_of x (img s) i) \<and>
    unat (freeblock t) = unat (freeblock s) + (if blk_of x (img s) b = 0 then 1 else 0)"
proof -
  let ?a = "iaddrs x NDIRECT" and ?o = "4 * (b - NDIRECT)"
  have a: "unat ?a < sectors s" by (rule owned_below [OF assms(4) owned_ind [OF assms(7)] assms(2)])
  have bo: "blk_of x v b = word_at (v ?a) ?o" for v using assms(5,7) by (simp add: blk_of_def)
  show ?thesis
  proof (cases "word_at (img s ?a) ?o = 0")
    case True
    have lt: "unat (freeblock s) < sectors s" using assms(3) True bo by simp
    note n = next_free [OF assms(1) lt]
    define w where "w = (img s)(?a := put_word (img s ?a) ?o (freeblock s))"
    define t where "t = s\<lparr>freeblock := freeblock s + 1, usedblocks := usedblocks s + 1, img := w\<rparr>"
    note g = entry_grown [OF assms(4) n(5,2,3) assms(5,6) refl assms(7) True n(4) w_def]
    have st: "mk_step x s x t" by (rule mk_step_alloc [OF assms(1) lt g(1) t_def])
    have ws: "wsect ?a d (s\<lparr>freeblock := freeblock s + 1, usedblocks := usedblocks s + 1\<rparr>) =
        Ret () (s\<lparr>freeblock := freeblock s + 1, usedblocks := usedblocks s + 1, img := (img s)(?a := d)\<rparr>)" for d
      using a by (subst wsect_ret) simp_all
    have tw: "img t = w" "freeblock t = freeblock s + 1" by (simp_all add: t_def)
    have "freeblock s \<noteq> 0" using n(5) by (auto simp: DATA0_def)
    then have "blk_of x (img t) b \<noteq> 0 \<and> (\<forall>i. i \<noteq> b \<longrightarrow> blk_of x (img t) i = blk_of x (img s) i) \<and>
      unat (freeblock t) = unat (freeblock s) + (if blk_of x (img s) b = 0 then 1 else 0)"
      using g(2,3) n(1) True bo [of "img s"] unfolding tw by simp
    then show ?thesis using True st a g(2) ws
      by (intro exI [of _ t]) (simp add: rsect_ret new_block_ret kfun_simps Let_def t_def w_def)
  next
    case False
    then show ?thesis using mk_step_refl [OF assms(4,1)] a bo by (intro exI [of _ s]) (simp add: rsect_ret kfun_simps)
  qed
qed

lemma indirect_block:
  assumes "mk_state s" "unat (freeblock s) \<le> sectors s" "mk_file (unat (freeblock s)) x (img s)" "b < MAXFILE" "NDIRECT \<le> b"
    "e = (if iaddrs x NDIRECT = 0 then 1 else 0) + (if blk_of x (img s) b = 0 then 1 else 0)" "unat (freeblock s) + e \<le> sectors s"
  shows "\<exists>y t. file_block x b s = Ret (y, blk_of y (img t) b) t \<and> mk_step x s y t \<and> blk_of y (img t) b \<noteq> 0 \<and>
    (\<forall>i. i \<noteq> b \<longrightarrow> blk_of y (img t) i = blk_of x (img s) i) \<and> iaddrs y NDIRECT \<noteq> 0 \<and> unat (freeblock t) = unat (freeblock s) + e"
proof -
  have i0: "iaddrs x NDIRECT = 0 \<Longrightarrow> unat (freeblock s) < sectors s" using assms(6,7) by simp
  obtain y u where u: "(if xint (iaddrs x NDIRECT) = 0 then bind new_block (\<lambda>b. return (x\<lparr>iaddrs := (iaddrs x)(NDIRECT := xint b)\<rparr>)) else return x) s = Ret y u"
    "mk_step x s y u" "iaddrs y NDIRECT \<noteq> 0" "\<And>i. blk_of y (img u) i = blk_of x (img s) i"
    "unat (freeblock u) = unat (freeblock s) + (if iaddrs x NDIRECT = 0 then 1 else 0)"
    using indirect_present [OF assms(1) i0 assms(3)] by blast
  have mu: "mk_state u" "mk_file (unat (freeblock u)) y (img u)" "unat (freeblock u) \<le> sectors u"
    "blk_of y (img u) b = 0 \<Longrightarrow> unat (freeblock u) < sectors u"
    using mk_step_file [OF u(2)] u(2,4,5) assms(6,7) by (auto simp: mk_step_def)
  obtain t where t: "bind (rsect (iaddrs y NDIRECT)) (\<lambda>ind.
      bind (if word_at ind (4 * (b - NDIRECT)) = 0
            then bind new_block (\<lambda>n. let ind = put_word ind (4 * (b - NDIRECT)) n in seq (wsect (iaddrs y NDIRECT) ind) (return ind))
            else return ind) (\<lambda>ind. return (y, word_at ind (4 * (b - NDIRECT))))) u = Ret (y, blk_of y (img t) b) t"
    "mk_step y u y t" "blk_of y (img t) b \<noteq> 0" "\<forall>i. i \<noteq> b \<longrightarrow> blk_of y (img t) i = blk_of y (img u) i"
    "unat (freeblock t) = unat (freeblock u) + (if blk_of y (img u) b = 0 then 1 else 0)"
    using indirect_entry [OF mu(1,3,4,2) assms(5,4) u(3)] by blast
  have nb: "\<not> b < NDIRECT" using assms(5) by simp
  have "file_block x b s = Ret (y, blk_of y (img t) b) t"
    using u(1) t(1) unfolding file_block_def xint_id if_not_P [OF nb] bind_apply [of "if _ then _ else _"] by simp
  then show ?thesis using mk_step_trans [OF u(2) t(2)] t(3-5) u(3-5) assms(6) by (intro exI [of _ y] exI [of _ t]) auto
qed

text \<open>The block where the file ends, or the one after it.\<close>

lemma file_block_ret:
  assumes "mk_state s" "unat (freeblock s) \<le> sectors s" "mk_file (unat (freeblock s)) x (img s)" "b < MAXFILE" "has_blocks n x (img s)" "b \<le> n"
    "unat (freeblock s) + with_indirect (max n (Suc b)) \<le> sectors s + with_indirect n"
  shows "\<exists>y t. file_block x b s = Ret (y, blk_of y (img t) b) t \<and> mk_step x s y t \<and> blk_of y (img t) b \<noteq> 0 \<and>
    has_blocks (max n (Suc b)) y (img t) \<and> unat (freeblock t) + with_indirect n = unat (freeblock s) + with_indirect (max n (Suc b))"
proof -
  have h: "blk_of x (img s) i \<noteq> 0 \<longleftrightarrow> i < n" if "i < MAXFILE" for i using assms(5) that by (simp add: has_blocks_def)
  have hN: "iaddrs x NDIRECT \<noteq> 0 \<longleftrightarrow> NDIRECT < n" using assms(5) by (simp add: has_blocks_def)
  have mx: "max n (Suc b) = (if blk_of x (img s) b = 0 then Suc n else n)" using h [OF assms(4)] assms(6) by auto
  have hb: "has_blocks (max n (Suc b)) y (img t)" if "blk_of y (img t) b \<noteq> 0" "\<forall>i. i \<noteq> b \<longrightarrow> blk_of y (img t) i = blk_of x (img s) i"
    "iaddrs y NDIRECT \<noteq> 0 \<longleftrightarrow> NDIRECT < max n (Suc b)" for y and t :: "'a mkfs_scheme"
    unfolding has_blocks_def
  proof (intro conjI allI impI that(3))
    fix i assume "i < MAXFILE"
    then show "blk_of y (img t) i \<noteq> 0 \<longleftrightarrow> i < max n (Suc b)" using h [of i] that(1,2) assms(6) by (cases "i = b") auto
  qed
  show ?thesis
  proof (cases "b < NDIRECT")
    case True
    have e: "with_indirect (max n (Suc b)) = with_indirect n + (if blk_of x (img s) b = 0 then 1 else 0)"
      "NDIRECT < max n (Suc b) \<longleftrightarrow> NDIRECT < n"
      using mx h [OF assms(4)] assms(6) True by (auto simp: with_indirect_def)
    have "iaddrs x b = 0 \<Longrightarrow> unat (freeblock s) < sectors s" using assms(7) e(1) True by (simp add: blk_of_def)
    then show ?thesis using direct_block [OF assms(1) _ assms(3) True] hb hN e by fastforce
  next
    case False
    have e: "with_indirect (max n (Suc b)) = with_indirect n + ((if iaddrs x NDIRECT = 0 then 1 else 0) + (if blk_of x (img s) b = 0 then 1 else 0))"
      "NDIRECT < max n (Suc b)"
      using mx h [OF assms(4)] hN assms(6) False by (auto simp: with_indirect_def)
    have lt: "unat (freeblock s) + ((if iaddrs x NDIRECT = 0 then 1 else 0) + (if blk_of x (img s) b = 0 then 1 else 0)) \<le> sectors s"
      using assms(7) unfolding e(1) by linarith
    then show ?thesis using indirect_block [OF assms(1-4) _ refl lt] hb e False by fastforce
  qed
qed

section \<open>Appending to a file\<close>

text \<open>The bytes from \<open>o'\<close> to \<open>o' + N\<close> are replaced; nothing outside the file and the free blocks changes.\<close>

definition written :: "nat \<Rightarrow> nat \<Rightarrow> (nat \<Rightarrow> uchar) \<Rightarrow> inode \<Rightarrow> 'a mkfs_scheme \<Rightarrow> inode \<Rightarrow> 'a mkfs_scheme \<Rightarrow> bool" where
  "written o' N p x s y t \<longleftrightarrow> mk_state t \<and> mk_file (unat (freeblock t)) y (img t) \<and> sectors t = sectors s \<and> freeinode t = freeinode s \<and>
     unat (freeblock s) \<le> unat (freeblock t) \<and> y = x\<lparr>iaddrs := iaddrs y\<rparr> \<and> owned x (img s) \<subseteq> owned y (img t) \<and>
     owned y (img t) \<subseteq> owned x (img s) \<union> {k. unat (freeblock s) \<le> unat k \<and> unat k < unat (freeblock t)} \<and>
     (\<forall>k. k \<notin> owned y (img t) \<longrightarrow> img t k = img s k) \<and>
     (\<forall>q<MAXFILE * BSIZE. contents y (img t) q = (if o' \<le> q \<and> q < o' + N then p (q - o') else contents x (img s) q))"

lemma writtenD:
  assumes "written o' N p x s y t"
  shows "mk_state t" "mk_file (unat (freeblock t)) y (img t)" "sectors t = sectors s" "freeinode t = freeinode s"
    "unat (freeblock s) \<le> unat (freeblock t)" "y = x\<lparr>iaddrs := iaddrs y\<rparr>" "owned x (img s) \<subseteq> owned y (img t)"
    "owned y (img t) \<subseteq> owned x (img s) \<union> {k. unat (freeblock s) \<le> unat k \<and> unat k < unat (freeblock t)}"
    "\<And>k. k \<notin> owned y (img t) \<Longrightarrow> img t k = img s k"
    "\<And>q. q < MAXFILE * BSIZE \<Longrightarrow> contents y (img t) q = (if o' \<le> q \<and> q < o' + N then p (q - o') else contents x (img s) q)"
  using assms unfolding written_def by blast+

lemma written_append:
  assumes "written o' c p x s y t" "written (o' + c) (N - c) (\<lambda>i. p (c + i)) y t z u" "c \<le> N"
  shows "written o' N p x s z u"
proof -
  note a = writtenD [OF assms(1)] and b = writtenD [OF assms(2)]
  have "z = x\<lparr>iaddrs := iaddrs z\<rparr>" by (subst b(6), subst a(6)) simp
  moreover have "owned z (img u) \<subseteq> owned x (img s) \<union> {k. unat (freeblock s) \<le> unat k \<and> unat k < unat (freeblock u)}"
    using a(5,8) b(5,8) by fastforce
  moreover have "img u k = img s k" if "k \<notin> owned z (img u)" for k using a(9) b(7,9) that by (metis subset_iff)
  moreover have "contents z (img u) q = (if o' \<le> q \<and> q < o' + N then p (q - o') else contents x (img s) q)" if "q < MAXFILE * BSIZE" for q
    using a(10) [OF that] b(10) [OF that] assms(3) by auto
  moreover have "owned x (img s) \<subseteq> owned z (img u)" using a(7) b(7) by blast
  ultimately show ?thesis using a(3-5) b(1-5) unfolding written_def by auto
qed

lemma block_written:
  assumes "mk_step x s y u" "b < MAXFILE" "a = blk_of y (img u) b" "a \<noteq> 0" "unat (freeblock u) \<le> sectors u"
    "o' mod BSIZE + c \<le> BSIZE" "b = o' div BSIZE" "om = o' mod BSIZE"
  shows "\<exists>t. bind (rsect a) (\<lambda>buf. seq (wsect a (\<lambda>i. if om \<le> i \<and> i < om + c then p (i - om) else buf i)) k) u = k t \<and>
    written o' c p x s y t \<and> freeblock t = freeblock u \<and> (\<forall>n. has_blocks n y (img u) \<longrightarrow> has_blocks n y (img t))"
proof -
  let ?d = "\<lambda>i. if om \<le> i \<and> i < om + c then p (i - om) else img u a i"
  define t where "t = u\<lparr>img := (img u)(a := ?d)\<rparr>"
  have g: "grown (unat (freeblock s)) (unat (freeblock u)) x (img s) y (img u)" "mk_state u" "sectors u = sectors s" "freeinode u = freeinode s"
    using assms(1) by (auto simp: mk_step_def)
  note gd = grownD [OF g(1)]
  have own: "a \<in> owned y (img u)" using ownedI assms(2-4) by blast
  have al: "unat a < sectors u" by (rule owned_below [OF gd(2) own assms(5)])
  have it: "img t = (img u)(a := ?d)" by (simp add: t_def)
  note dw = data_written [OF gd(2) assms(2-4) it]
  have af: "unat a < unat (freeblock u)" using mk_fileD(1) [OF gd(2) own] by simp
  then have st: "mk_state t" using g(2) by (auto simp: mk_state_def t_def)
  have "contents y (img t) q = (if o' \<le> q \<and> q < o' + c then p (q - o') else contents x (img s) q)" if q: "q < MAXFILE * BSIZE" for q
  proof -
    have "img u a (q mod BSIZE) = contents y (img u) q" if "q div BSIZE = b" using that assms(3,4) by (simp add: contents_def)
    then show ?thesis using dw(4) [OF q] gd(8) [OF q] block_range [OF assms(6), of q] unfolding assms(7,8) by auto
  qed
  moreover have "img t k = img s k" if "k \<notin> owned y (img t)" for k
    using gd(7) [of k] own that unfolding dw(2) unfolding it by auto
  moreover have "freeblock t = freeblock u" "sectors t = sectors u" "freeinode t = freeinode u" by (simp_all add: t_def)
  ultimately have "written o' c p x s y t" using dw(1,2) gd(1,3,5,6) g(3,4) st unfolding written_def by simp
  moreover have "bind (rsect a) (\<lambda>buf. seq (wsect a (\<lambda>i. if om \<le> i \<and> i < om + c then p (i - om) else buf i)) k) u = k t"
    using al by (simp add: rsect_ret wsect_ret kfun_simps t_def)
  moreover have "has_blocks n y (img t) = has_blocks n y (img u)" for n unfolding has_blocks_def dw(3) ..
  ultimately show ?thesis by (auto simp: t_def)
qed

lemma append_words:
  assumes "o' + N \<le> MAXFILE * BSIZE" "0 < N"
  shows "(of_nat o' :: uint) div 512 = of_nat (o' div BSIZE)" "unat ((of_nat o' :: uint) div 512) = o' div BSIZE"
    "unat ((of_nat o' :: uint) - of_nat o' div 512 * 512) = o' mod BSIZE"
    "min (of_nat N) ((of_nat o' div 512 + 1) * 512 - of_nat o') = (of_nat (step_of N o') :: uint)"
    "unat (of_nat (step_of N o') :: uint) = step_of N o'"
proof -
  have b: "o' + N \<le> 71680" using assms(1) by (simp add: file_limit)
  then have o32: "o' < 2 ^ 32" by simp
  have B: "(of_nat BSIZE :: uint) = 512" by (simp add: BSIZE_def)
  show q: "(of_nat o' :: uint) div 512 = of_nat (o' div BSIZE)" using offset_words(1) [OF o32] unfolding B .
  have "o' div BSIZE < 2 ^ 32" using div_le_dividend [of o' BSIZE] o32 by linarith
  then show "unat ((of_nat o' :: uint) div 512) = o' div BSIZE" unfolding q by (simp add: unat_of_nat)
  have "(of_nat o' :: uint) = of_nat (o' div BSIZE) * 512 + of_nat (o' mod BSIZE)"
    unfolding B [symmetric] of_nat_mult [symmetric] of_nat_add [symmetric] by simp
  then have m: "(of_nat o' :: uint) - of_nat o' div 512 * 512 = of_nat (o' mod BSIZE)" unfolding q by simp
  have mb: "o' mod BSIZE < BSIZE" by (simp add: BSIZE_def)
  then have um: "unat (of_nat (o' mod BSIZE) :: uint) = o' mod BSIZE" by (simp add: unat_of_nat BSIZE_def)
  show "unat ((of_nat o' :: uint) - of_nat o' div 512 * 512) = o' mod BSIZE" unfolding m by (rule um)
  have "((of_nat o' :: uint) div 512 + 1) * 512 - of_nat o' = 512 - (of_nat o' - of_nat o' div 512 * 512)" by (simp add: algebra_simps)
  also have "\<dots> = of_nat (BSIZE - o' mod BSIZE)" unfolding m unfolding B [symmetric] using mb by simp
  finally have r: "((of_nat o' :: uint) div 512 + 1) * 512 - of_nat o' = of_nat (BSIZE - o' mod BSIZE)" .
  have u: "unat (of_nat (BSIZE - o' mod BSIZE) :: uint) = BSIZE - o' mod BSIZE" "unat (of_nat N :: uint) = N"
    using b by (simp_all add: unat_of_nat BSIZE_def del: of_nat_diff)
  show "min (of_nat N) ((of_nat o' div 512 + 1) * 512 - of_nat o') = (of_nat (step_of N o') :: uint)"
    unfolding r min_def word_le_nat_alt u step_of_def by (simp add: min_def)
  show "unat (of_nat (step_of N o') :: uint) = step_of N o'" using u unfolding step_of_def min_def by auto
qed

text \<open>The number of blocks that a file of some size takes.\<close>

definition blocks_for :: "nat \<Rightarrow> nat" where
  "blocks_for n = (n + (BSIZE - 1)) div BSIZE"

definition file_cost :: "nat \<Rightarrow> nat" where
  "file_cost n = with_indirect (blocks_for n)"

lemma blocks_for_step:
  assumes "0 < c" "o' mod BSIZE + c \<le> BSIZE"
  shows "blocks_for (o' + c) = max (blocks_for o') (Suc (o' div BSIZE))" "o' div BSIZE \<le> blocks_for o'"
proof -
  define q r where "q = o' div BSIZE" and "r = o' mod BSIZE"
  have o: "o' = q * BSIZE + r" "r < BSIZE" "BSIZE = 512" by (simp_all add: q_def r_def BSIZE_def)
  have rc: "r + c \<le> 512" using assms(2) by (simp add: r_def BSIZE_def)
  have "blocks_for o' = q + (r + 511) div 512" "blocks_for (o' + c) = q + (r + c + 511) div 512"
    unfolding blocks_for_def o(1,3) by simp_all
  moreover have "(r + c + 511) div 512 = 1" using assms(1) rc by (intro div_nat_eqI) auto
  moreover have "(r + 511) div 512 \<le> 1" using o(2) unfolding o(3) by simp
  ultimately show "blocks_for (o' + c) = max (blocks_for o') (Suc (o' div BSIZE))" "o' div BSIZE \<le> blocks_for o'"
    unfolding q_def [symmetric] by simp_all
qed

lemma file_cost_mono: "m \<le> n \<Longrightarrow> file_cost m \<le> file_cost n"
  using div_le_mono [of "m + (BSIZE - 1)" "n + (BSIZE - 1)" BSIZE] unfolding file_cost_def blocks_for_def with_indirect_def by auto

lemma iappend_loop_ret:
  assumes "mk_state s" "mk_file (unat (freeblock s)) x (img s)" "o' + N \<le> MAXFILE * BSIZE" "N < k"
    "has_blocks (blocks_for o') x (img s)" "unat (freeblock s) \<le> sectors s" "unat (freeblock s) + file_cost (o' + N) \<le> sectors s + file_cost o'"
  shows "\<exists>y t. iappend_loop k x (of_nat o') p (of_nat N) s = Ret (y, of_nat (o' + N)) t \<and> written o' N p x s y t \<and>
    has_blocks (blocks_for (o' + N)) y (img t) \<and> unat (freeblock t) + file_cost o' = unat (freeblock s) + file_cost (o' + N)"
  using assms
proof (induction k arbitrary: s x o' N p)
  case 0
  then show ?case by simp
next
  case (Suc k)
  have b: "o' + N \<le> 71680" using Suc.prems(3) by (simp add: file_limit)
  show ?case
  proof (cases "0 < N")
    case False
    have "written o' N p x s x s" using Suc.prems(1,2) False by (auto simp: written_def)
    then show ?thesis using False Suc.prems(5) by (auto simp: kfun_simps)
  next
    case True
    define c where "c = step_of N o'"
    note st = step_of_bounds [OF True, of o', folded c_def]
    note aw = append_words [OF Suc.prems(3) True, folded c_def]
    note bf = blocks_for_step [OF st(1,3)]
    have bb: "o' div BSIZE < MAXFILE" using Suc.prems(3) True by (intro block_below) simp
    have fc: "file_cost (o' + c) = with_indirect (max (blocks_for o') (Suc (o' div BSIZE)))" "file_cost o' = with_indirect (blocks_for o')"
      unfolding file_cost_def bf(1) by simp_all
    have room: "unat (freeblock s) + with_indirect (max (blocks_for o') (Suc (o' div BSIZE))) \<le> sectors s + with_indirect (blocks_for o')"
      using Suc.prems(7) file_cost_mono [of "o' + c" "o' + N"] st(2) fc by simp
    obtain y u where u: "file_block x (o' div BSIZE) s = Ret (y, blk_of y (img u) (o' div BSIZE)) u" "mk_step x s y u"
      "blk_of y (img u) (o' div BSIZE) \<noteq> 0" "has_blocks (blocks_for (o' + c)) y (img u)"
      "unat (freeblock u) + file_cost o' = unat (freeblock s) + file_cost (o' + c)"
      using file_block_ret [OF Suc.prems(1,6,2) bb Suc.prems(5) bf(2) room] unfolding fc bf(1) by blast
    have fu: "unat (freeblock u) \<le> sectors u" using u(2,5) room unfolding fc mk_step_def by linarith
    let ?k = "iappend_loop k y (of_nat (o' + c)) (\<lambda>i. p (c + i)) (of_nat (N - c))"
    obtain t where t: "bind (rsect (blk_of y (img u) (o' div BSIZE))) (\<lambda>buf. seq (wsect (blk_of y (img u) (o' div BSIZE))
        (\<lambda>i. if o' mod BSIZE \<le> i \<and> i < o' mod BSIZE + c then p (i - o' mod BSIZE) else buf i)) ?k) u = ?k t"
      "written o' c p x s y t" "freeblock t = freeblock u" "has_blocks (blocks_for (o' + c)) y (img t)"
      using block_written [OF u(2) bb refl u(3) fu st(3) refl refl, of p ?k] u(4) by blast
    note wd = writtenD [OF t(2)]
    have oN: "o' + c + (N - c) = o' + N" using st(2) by simp
    have "\<exists>z v. ?k t = Ret (z, of_nat (o' + c + (N - c))) v \<and> written (o' + c) (N - c) (\<lambda>i. p (c + i)) y t z v \<and>
      has_blocks (blocks_for (o' + c + (N - c))) z (img v) \<and> unat (freeblock v) + file_cost (o' + c) = unat (freeblock t) + file_cost (o' + c + (N - c))"
    proof (rule Suc.IH [OF wd(1,2) _ _ t(4)])
      show "o' + c + (N - c) \<le> MAXFILE * BSIZE" "N - c < k" using Suc.prems(3,4) st(1,2) by auto
      have "sectors u = sectors s" using u(2) by (simp add: mk_step_def)
      then show "unat (freeblock t) \<le> sectors t" "unat (freeblock t) + file_cost (o' + c + (N - c)) \<le> sectors t + file_cost (o' + c)"
        using fu t(3) wd(3) u(5) Suc.prems(7) unfolding oN by simp_all
    qed
    then obtain z v where v: "?k t = Ret (z, of_nat (o' + N)) v" "written (o' + c) (N - c) (\<lambda>i. p (c + i)) y t z v"
      "has_blocks (blocks_for (o' + N)) z (img v)" "unat (freeblock v) + file_cost (o' + c) = unat (freeblock t) + file_cost (o' + N)"
      unfolding oN by blast
    have sub: "(of_nat N :: uint) - of_nat c = of_nat (N - c)" "(of_nat o' :: uint) + of_nat c = of_nat (o' + c)" using st(2) by simp_all
    have pos: "(of_nat N :: uint) > 0" using True b by (simp add: word_less_nat_alt unat_of_nat)
    have "iappend_loop (Suc k) x (of_nat o') p (of_nat N) s = ?k t"
      unfolding iappend_loop.simps Let_def aw(2,3,4,5) sub
      using pos bb u(1) t(1) by (simp add: seq_apply panic_if_apply bind_apply [of "file_block _ _"])
    then show ?thesis using v(1,3,4) written_append [OF t(2) v(2) st(2)] t(3) u(5) by auto
  qed
qed

section \<open>Inodes of the image\<close>

definition inode_at :: "(uint \<Rightarrow> block) \<Rightarrow> uint \<Rightarrow> inode" where
  "inode_at v i = read_dinode (v (i2b i)) (dinode_off i) din0"

lemma i2b_IBLOCK: "i2b i = IBLOCK i"
  by (simp add: i2b_def IBLOCK_def)

text \<open>The inodes that the program can use lie below the bitmap.\<close>

definition inode_num :: "uint \<Rightarrow> bool" where
  "inode_num i \<longleftrightarrow> unat i < 208"

lemma inode_block_below: "inode_num i \<Longrightarrow> 2 \<le> unat (i2b i) \<and> unat (i2b i) < DATA0 - 1"
  by (simp add: inode_num_def i2b_def DATA0_def IPB_def BSIZE_def unat_word_ariths unat_div)

lemma same_addrs:
  assumes "\<forall>j\<le>NDIRECT. iaddrs x j = iaddrs y j"
  shows "blk_of x v b = blk_of y v b" "owned x v = owned y v" "contents x v q = contents y v q" "mk_file fb x v = mk_file fb y v"
proof -
  have a: "iaddrs x j = iaddrs y j" if "j \<le> NDIRECT" for j using assms that by simp
  have b: "blk_of x v b = blk_of y v b" for b using a by (simp add: blk_of_def)
  have o: "owned x v = owned y v" using a [of NDIRECT] b by (simp add: owned_def)
  show "blk_of x v b = blk_of y v b" "owned x v = owned y v" "contents x v q = contents y v q" using b o by (simp_all add: contents_def)
  show "mk_file fb x v = mk_file fb y v" using a [of NDIRECT] unfolding mk_file_def b o by simp
qed

lemma mk_file_cong:
  assumes "mk_file fb x v" "fb \<le> fb'" "\<forall>k\<in>owned x v. w k = v k"
  shows "mk_file fb' x w" "owned x w = owned x v" "\<And>i. blk_of x w i = blk_of x v i"
proof -
  have iv: "iaddrs x NDIRECT \<noteq> 0 \<Longrightarrow> w (iaddrs x NDIRECT) = v (iaddrs x NDIRECT)" using assms(3) owned_ind by blast
  show bo: "blk_of x w i = blk_of x v i" for i using iv by (rule blk_of_cong)
  show ow: "owned x w = owned x v" using iv by (rule owned_cong)
  show "mk_file fb' x w" using assms(1,2) unfolding mk_file_def bo ow by (meson order.strict_trans2)
qed

text \<open>The image: every inode is a file, and no two files share a block.\<close>

definition image_ok :: "'a mkfs_scheme \<Rightarrow> bool" where
  "image_ok s \<longleftrightarrow> mk_state s \<and> DATA0 \<le> sectors s \<and>
     (\<forall>i. inode_num i \<longrightarrow> mk_file (unat (freeblock s)) (inode_at (img s) i) (img s)) \<and>
     (\<forall>i j. inode_num i \<and> inode_num j \<and> i \<noteq> j \<longrightarrow> owned (inode_at (img s) i) (img s) \<inter> owned (inode_at (img s) j) (img s) = {})"

lemma image_okD:
  assumes "image_ok s"
  shows "mk_state s" "DATA0 \<le> sectors s" "\<And>i. inode_num i \<Longrightarrow> mk_file (unat (freeblock s)) (inode_at (img s) i) (img s)"
    "\<And>i j. inode_num i \<Longrightarrow> inode_num j \<Longrightarrow> i \<noteq> j \<Longrightarrow> owned (inode_at (img s) i) (img s) \<inter> owned (inode_at (img s) j) (img s) = {}"
  using assms unfolding image_ok_def by blast+

lemma inode_sector: "image_ok s \<Longrightarrow> inode_num i \<Longrightarrow> unat (i2b i) < sectors s"
  using inode_block_below [of i] by (auto simp: image_ok_def DATA0_def)

text \<open>Writing one inode leaves the others alone.\<close>

lemma inode_at_write:
  assumes "w = v(i2b i := write_dinode (v (i2b i)) (dinode_off i) z)"
  shows "same_dinode (inode_at w i) z" "j \<noteq> i \<Longrightarrow> inode_at w j = inode_at v j"
proof -
  show "same_dinode (inode_at w i) z" using read_write_dinode by (simp add: inode_at_def assms)
  assume j: "j \<noteq> i"
  show "inode_at w j = inode_at v j"
  proof (cases "i2b j = i2b i")
    case True
    then have apart: "dinode_off i + 64 \<le> dinode_off j \<or> dinode_off j + 64 \<le> dinode_off i"
      using same_block_apart [of i j] j by (auto simp: i2b_IBLOCK)
    have "read_dinode (write_dinode (v (i2b i)) (dinode_off i) z) (dinode_off j) din0 = read_dinode (v (i2b i)) (dinode_off j) din0"
      by (rule read_dinode_cong) (use apart write_dinode_outside in \<open>auto\<close>)
    then show ?thesis using True by (simp add: inode_at_def assms)
  qed (simp add: inode_at_def assms)
qed

lemma blocks_apart:
  assumes "mk_file fb x v" "k \<in> owned x v" "inode_num i"
  shows "k \<noteq> i2b i" "k \<noteq> 1"
  using mk_fileD(1) [OF assms(1,2)] inode_block_below [OF assms(3)] by (auto simp: DATA0_def)

text \<open>Of the other files, neither the inodes nor the blocks change.\<close>

definition same_file :: "uint \<Rightarrow> (uint \<Rightarrow> block) \<Rightarrow> (uint \<Rightarrow> block) \<Rightarrow> bool" where
  "same_file j v w \<longleftrightarrow> inode_at w j = inode_at v j \<and> (\<forall>b. blk_of (inode_at w j) w b = blk_of (inode_at v j) v b) \<and>
     (\<forall>q<MAXFILE * BSIZE. contents (inode_at w j) w q = contents (inode_at v j) v q)"

lemma same_file_refl [simp]: "same_file j v v"
  by (simp add: same_file_def)

lemma same_file_trans: "same_file j u v \<Longrightarrow> same_file j v w \<Longrightarrow> same_file j u w"
  unfolding same_file_def by metis

text \<open>What \<^verbatim>\<open>iappend\<close> leaves behind: the bytes are at the end of file \<open>i\<close>.\<close>

definition appended :: "uint \<Rightarrow> uchar list \<Rightarrow> 'a mkfs_scheme \<Rightarrow> 'a mkfs_scheme \<Rightarrow> bool" where
  "appended i bs s t \<longleftrightarrow> (let x = inode_at (img s) i; y = inode_at (img t) i; o' = unat (isize x) in
     image_ok t \<and> sectors t = sectors s \<and> freeinode t = freeinode s \<and> img t 1 = img s 1 \<and>
     unat (isize y) = o' + length bs \<and> itype y = itype x \<and> has_blocks (blocks_for (o' + length bs)) y (img t) \<and>
     (\<forall>q<MAXFILE * BSIZE. contents y (img t) q = (if o' \<le> q \<and> q < o' + length bs then bs ! (q - o') else contents x (img s) q)) \<and>
     (\<forall>j. inode_num j \<and> j \<noteq> i \<longrightarrow> same_file j (img s) (img t)))"

lemma iappend_image:
  assumes "image_ok s" "inode_num i" "written o' N p (inode_at (img s) i) s y u"
    "t = u\<lparr>img := (img u)(i2b i := write_dinode (img u (i2b i)) (dinode_off i) (y\<lparr>isize := z\<rparr>))\<rparr>"
  shows "image_ok t" "same_dinode (inode_at (img t) i) (y\<lparr>isize := z\<rparr>)"
    "\<And>q. q < MAXFILE * BSIZE \<Longrightarrow> contents (inode_at (img t) i) (img t) q = contents y (img u) q"
    "has_blocks n (inode_at (img t) i) (img t) = has_blocks n y (img u)"
    "\<And>j. inode_num j \<Longrightarrow> j \<noteq> i \<Longrightarrow> same_file j (img s) (img t)" "img t 1 = img s 1"
proof -
  let ?x = "inode_at (img s) i" and ?y = "y\<lparr>isize := z\<rparr>" and ?fb = "unat (freeblock t)"
  note w = writtenD [OF assms(3)] and d = image_okD [OF assms(1)]
  have ft: "freeblock t = freeblock u" "sectors t = sectors s" using w(3) by (simp_all add: assms(4))
  have it: "img t = (img u)(i2b i := write_dinode (img u (i2b i)) (dinode_off i) ?y)" by (simp add: assms(4))
  have iw: "same_dinode (inode_at (img t) i) ?y" "\<And>j. j \<noteq> i \<Longrightarrow> inode_at (img t) j = inode_at (img u) j"
    using inode_at_write [OF it] by auto
  have low: "img u k = img s k" if "unat k < DATA0" for k using w(9) [of k] mk_fileD(1) [OF w(2), of k] that by fastforce
  have iu: "inode_at (img u) j = inode_at (img s) j" if "inode_num j" for j
  proof -
    have "unat (i2b j) < DATA0" using inode_block_below [OF that] by linarith
    then show ?thesis using low [of "i2b j"] by (simp add: inode_at_def)
  qed
  have sd: "\<forall>j\<le>NDIRECT. iaddrs (inode_at (img t) i) j = iaddrs y j" using iw(1) by (simp add: same_dinode_def)
  show "same_dinode (inode_at (img t) i) ?y" by (rule iw(1))
  have yk: "\<forall>k\<in>owned y (img u). img t k = img u k" using blocks_apart(1) [OF w(2) _ assms(2)] it by auto
  note yf = mk_file_cong [OF w(2) order.refl yk]
  have jo: "img t k = img s k" if "inode_num j" "j \<noteq> i" "k \<in> owned (inode_at (img s) j) (img s)" for j k
  proof -
    have "k \<notin> owned ?x (img s)" using d(4) [OF that(1) assms(2) that(2)] that(3) by blast
    moreover have "unat k < unat (freeblock s)" using mk_fileD(1) [OF d(3) [OF that(1)] that(3)] by simp
    ultimately have "k \<notin> owned y (img u)" using w(8) by auto
    then show ?thesis using w(9) [of k] blocks_apart(1) [OF d(3) [OF that(1)] that(3) assms(2)] it by simp
  qed
  have ij: "inode_at (img t) j = inode_at (img s) j" if "inode_num j" "j \<noteq> i" for j using iw(2) iu that by simp
  have jf: "mk_file ?fb (inode_at (img t) j) (img t)" "owned (inode_at (img t) j) (img t) = owned (inode_at (img s) j) (img s)"
    if "inode_num j" "j \<noteq> i" for j
    using mk_file_cong [OF d(3) [OF that(1)], of ?fb "img t"] jo [OF that] w(5) ft(1) unfolding ij [OF that] by auto
  have yo: "owned (inode_at (img t) i) (img t) = owned y (img u)" "mk_file ?fb (inode_at (img t) i) (img t)"
    using yf same_addrs [OF sd] ft(1) by auto
  have yj: "owned y (img u) \<inter> owned (inode_at (img t) j) (img t) = {}" if "inode_num j" "j \<noteq> i" for j
    using w(8) d(4) [OF assms(2) that(1)] that(2) mk_fileD(1) [OF d(3) [OF that(1)]] unfolding jf(2) [OF that] by fastforce
  have disj: "owned (inode_at (img t) j) (img t) \<inter> owned (inode_at (img t) l) (img t) = {}" if "inode_num j" "inode_num l" "j \<noteq> l" for j l
    using yj [OF that(1)] yj [OF that(2)] yo(1) d(4) [OF that] jf(2) that by (cases "j = i"; cases "l = i") auto
  have st: "mk_state t"
    using w(1) inode_block_below [OF assms(2)] unfolding mk_state_def ft(1) it by (auto simp: assms(4))
  show "image_ok t" using st d(2) ft(2) yo(2) jf(1) disj unfolding image_ok_def by metis
  show "contents (inode_at (img t) i) (img t) q = contents y (img u) q" if "q < MAXFILE * BSIZE" for q
    using contents_cong [OF yk that] same_addrs(3) [OF sd] by simp
  show "has_blocks n (inode_at (img t) i) (img t) = has_blocks n y (img u)"
    unfolding has_blocks_def same_addrs(1) [OF sd] yf(3) using sd by simp
  show "same_file j (img s) (img t)" if "inode_num j" "j \<noteq> i" for j
    using ij [OF that] contents_cong [of "inode_at (img s) j" "img s" "img t"] jo [OF that] mk_file_cong(3) [OF d(3) [OF that(1)] order.refl, of "img t"]
    by (simp add: same_file_def)
  show "img t 1 = img s 1" using low [of 1] inode_block_below [OF assms(2)] it by (auto simp: DATA0_def)
qed

lemma iappend_ret:
  assumes "image_ok s" "inode_num i" "unat (isize (inode_at (img s) i)) = n" "n + length bs \<le> MAXFILE * BSIZE"
    "has_blocks (blocks_for n) (inode_at (img s) i) (img s)" "unat (freeblock s) \<le> sectors s"
    "unat (freeblock s) + file_cost (n + length bs) \<le> sectors s + file_cost n"
  shows "\<exists>t. iappend i (\<lambda>j. bs ! j) (of_nat (length bs)) s = Ret () t \<and> appended i bs s t \<and>
    unat (freeblock t) + file_cost n = unat (freeblock s) + file_cost (n + length bs)"
proof -
  let ?x = "inode_at (img s) i"
  let ?o = "unat (isize ?x)"
  note d = image_okD [OF assms(1)]
  have N: "unat (of_nat (length bs) :: uint) = length bs" "unat (of_nat (?o + length bs) :: uint) = ?o + length bs"
    using assms(3,4) by (simp_all add: file_limit unat_of_nat del: of_nat_add)
  obtain y u where u: "iappend_loop (Suc (length bs)) ?x (of_nat ?o) (\<lambda>j. bs ! j) (of_nat (length bs)) s = Ret (y, of_nat (?o + length bs)) u"
    "written ?o (length bs) (\<lambda>j. bs ! j) ?x s y u" "has_blocks (blocks_for (?o + length bs)) y (img u)"
    "unat (freeblock u) + file_cost ?o = unat (freeblock s) + file_cost (?o + length bs)"
    using iappend_loop_ret [OF d(1) d(3) [OF assms(2)] _ lessI, of ?o "length bs" "\<lambda>j. bs ! j"] assms(3-7) by auto
  note w = writtenD [OF u(2)]
  define t where "t = u\<lparr>img := (img u)(i2b i := write_dinode (img u (i2b i)) (dinode_off i) (y\<lparr>isize := of_nat (?o + length bs)\<rparr>))\<rparr>"
  note im = iappend_image [OF assms(1,2) u(2) t_def]
  have sec: "unat (i2b i) < sectors s" "unat (i2b i) < sectors u" using inode_sector [OF assms(1,2)] w(3) by simp_all
  have "iappend i (\<lambda>j. bs ! j) (of_nat (length bs)) s = Ret () t"
    using sec u(1) N(1) by (simp add: iappend_def rinode_def winode_def rsect_ret wsect_ret kfun_simps inode_at_def [symmetric] t_def del: iappend_loop.simps)
  moreover have "itype y = itype ?x" by (subst w(6)) simp
  then have "unat (isize (inode_at (img t) i)) = ?o + length bs" "itype (inode_at (img t) i) = itype ?x"
    using im(2) N(2) by (auto simp: same_dinode_def)
  then have "appended i bs s t" using im u(3) w(3,4,10) unfolding appended_def Let_def by (simp add: t_def)
  ultimately show ?thesis using u(4) assms(3) by (auto simp: t_def)
qed

section \<open>The parts of main\<close>

lemma zero_sectors:
  assumes "n \<le> 2 ^ 32"
  shows "\<exists>t. for_each [0..<n] (\<lambda>i. wsect (of_nat i) zeroes) s = Ret () t \<and> sectors t = max (sectors s) n \<and>
    (\<forall>k. img t k = (if unat k < n then zeroes else img s k)) \<and> freeblock t = freeblock s \<and> usedblocks t = usedblocks s \<and> freeinode t = freeinode s"
  using assms
proof (induction n)
  case 0
  then show ?case by (simp add: kfun_simps)
next
  case (Suc n)
  have app: "for_each (xs @ [x]) b = seq (for_each xs b) (b x)" for xs x and b :: "nat \<Rightarrow> (unit, 'a mkfs_scheme) kfun"
    by (induction xs) (auto simp: fun_eq_iff kfun_simps split: outcome.splits)
  obtain t where t: "for_each [0..<n] (\<lambda>i. wsect (of_nat i) zeroes) s = Ret () t" "sectors t = max (sectors s) n"
    "\<forall>k. img t k = (if unat k < n then zeroes else img s k)" "freeblock t = freeblock s" "usedblocks t = usedblocks s" "freeinode t = freeinode s"
    using Suc by auto
  have n: "unat (of_nat n :: uint) = n" using Suc.prems by (simp add: unat_of_nat)
  define u where "u = t\<lparr>img := (img t)(of_nat n := zeroes), sectors := max (sectors t) (Suc n)\<rparr>"
  have "for_each [0..<Suc n] (\<lambda>i. wsect (of_nat i) zeroes) s = Ret () u"
    using t(1) n by (simp add: app seq_apply wsect_def modify_apply u_def)
  moreover have "img u k = (if unat k < Suc n then zeroes else img s k)" for k
    using t(3) n by (auto simp: u_def less_Suc_eq word_unat_eq_iff)
  ultimately show ?case using t(2,4-6) by (intro exI [of _ u]) (simp add: u_def)
qed

lemma half_zeroes [simp]: "half_at zeroes i = 0"
  by (simp add: half_at_def zeroes_def)

text \<open>An inode without blocks.\<close>

lemma no_blocks:
  assumes "\<forall>j\<le>NDIRECT. iaddrs x j = 0"
  shows "blk_of x v b = 0" "owned x v = {}" "mk_file fb x v" "contents x v q = 0"
proof -
  show b: "blk_of x v b = 0" for b using assms by (simp add: blk_of_def)
  show "owned x v = {}" using assms b by (auto simp: owned_def)
  then show "mk_file fb x v" using b by (simp add: mk_file_def)
  show "contents x v q = 0" using b by (simp add: contents_def)
qed

lemma ialloc_ret:
  assumes "image_ok s" "inode_num (freeinode s)"
  shows "\<exists>t. ialloc_mkfs ty s = Ret (freeinode s) t \<and> image_ok t \<and> freeinode t = freeinode s + 1 \<and> freeblock t = freeblock s \<and>
    sectors t = sectors s \<and> img t 1 = img s 1 \<and> isize (inode_at (img t) (freeinode s)) = 0 \<and> itype (inode_at (img t) (freeinode s)) = ty \<and>
    has_blocks 0 (inode_at (img t) (freeinode s)) (img t) \<and> (\<forall>q. contents (inode_at (img t) (freeinode s)) (img t) q = 0) \<and>
    (\<forall>j. inode_num j \<and> j \<noteq> freeinode s \<longrightarrow> same_file j (img s) (img t))"
proof -
  let ?i = "freeinode s"
  define z where "z = din0\<lparr>itype := xshort ty, inlink := xshort 1, isize := xint 0\<rparr>"
  define t where "t = s\<lparr>freeinode := freeinode s + 1, img := (img s)(i2b ?i := write_dinode (img s (i2b ?i)) (dinode_off ?i) z)\<rparr>"
  note d = image_okD [OF assms(1)] and ib = inode_block_below [OF assms(2)]
  have it: "img t = (img s)(i2b ?i := write_dinode (img s (i2b ?i)) (dinode_off ?i) z)" by (simp add: t_def)
  note iw = inode_at_write [OF it]
  have e: "ialloc_mkfs ty s = Ret ?i t"
    using inode_sector [OF assms] by (simp add: ialloc_mkfs_def winode_def rsect_ret wsect_ret kfun_simps t_def z_def)
  have sz: "isize (inode_at (img t) ?i) = 0" "itype (inode_at (img t) ?i) = xshort ty" "\<forall>j\<le>NDIRECT. iaddrs (inode_at (img t) ?i) j = 0"
    using iw(1) by (simp_all add: same_dinode_def z_def din0_def)
  note nb = no_blocks [OF sz(3)]
  have ow: "\<forall>k\<in>owned (inode_at (img s) j) (img s). img t k = img s k" if "inode_num j" for j
    using blocks_apart(1) [OF d(3) [OF that] _ assms(2)] it by auto
  have jf: "mk_file (unat (freeblock s)) (inode_at (img t) j) (img t) \<and> owned (inode_at (img t) j) (img t) = owned (inode_at (img s) j) (img s)"
    if "inode_num j" "j \<noteq> ?i" for j using mk_file_cong [OF d(3) [OF that(1)] order.refl ow [OF that(1)]] iw(2) [OF that(2)] by simp
  have "mk_state t" using d(1) ib unfolding mk_state_def it by (auto simp: t_def)
  moreover have "mk_file (unat (freeblock t)) (inode_at (img t) j) (img t)" if "inode_num j" for j
    using nb(3) jf that by (cases "j = ?i") (auto simp: t_def)
  moreover have "owned (inode_at (img t) j) (img t) \<inter> owned (inode_at (img t) l) (img t) = {}" if "inode_num j" "inode_num l" "j \<noteq> l" for j l
    using nb(2) jf d(4) that by (cases "j = ?i"; cases "l = ?i") auto
  ultimately have "image_ok t" using d(2) unfolding image_ok_def by (simp add: t_def)
  moreover have "same_file j (img s) (img t)" if "inode_num j" "j \<noteq> ?i" for j
    using iw(2) [OF that(2)] contents_cong [OF ow [OF that(1)]] mk_file_cong(3) [OF d(3) [OF that(1)] order.refl ow [OF that(1)]] by (simp add: same_file_def)
  moreover have "has_blocks 0 (inode_at (img t) ?i) (img t)" using sz(3) nb(1) by (simp add: has_blocks_def)
  moreover have "xshort ty = ty" by simp
  moreover have "img t 1 = img s 1" using ib it by auto
  ultimately show ?thesis using e sz nb(4) by (intro exI [of _ t]) (simp add: t_def)
qed

section \<open>Files of the image\<close>

text \<open>The file with inode number \<open>i\<close> has the given type and consists of exactly the given bytes.\<close>

definition file_is :: "'a mkfs_scheme \<Rightarrow> uint \<Rightarrow> ushort \<Rightarrow> uchar list \<Rightarrow> bool" where
  "file_is s i ty bs \<longleftrightarrow> itype (inode_at (img s) i) = ty \<and> unat (isize (inode_at (img s) i)) = length bs \<and>
     length bs \<le> MAXFILE * BSIZE \<and> has_blocks (blocks_for (length bs)) (inode_at (img s) i) (img s) \<and>
     (\<forall>q<MAXFILE * BSIZE. contents (inode_at (img s) i) (img s) q = (if q < length bs then bs ! q else 0))"

text \<open>Only one file changes.\<close>

definition only_file :: "uint \<Rightarrow> 'a mkfs_scheme \<Rightarrow> 'a mkfs_scheme \<Rightarrow> bool" where
  "only_file i s t \<longleftrightarrow> image_ok t \<and> sectors t = sectors s \<and> freeinode t = freeinode s \<and> img t 1 = img s 1 \<and>
     (\<forall>j. inode_num j \<and> j \<noteq> i \<longrightarrow> same_file j (img s) (img t))"

lemma only_file_refl: "image_ok s \<Longrightarrow> only_file i s s"
  by (simp add: only_file_def)

lemma only_file_trans: "only_file i s t \<Longrightarrow> only_file i t u \<Longrightarrow> only_file i s u"
  using same_file_trans by (fastforce simp: only_file_def)

lemma file_is_same: "same_file i (img s) (img t) \<Longrightarrow> file_is s i ty bs \<Longrightarrow> file_is t i ty bs"
  unfolding file_is_def same_file_def has_blocks_def by metis

lemma file_is_other: "only_file i s t \<Longrightarrow> inode_num j \<Longrightarrow> j \<noteq> i \<Longrightarrow> file_is s j ty bs \<Longrightarrow> file_is t j ty bs"
  using file_is_same [of j s t] by (simp add: only_file_def)

lemma file_is_appended:
  assumes "appended i bs s t" "file_is s i ty cs" "length cs + length bs \<le> MAXFILE * BSIZE"
  shows "file_is t i ty (cs @ bs)" "only_file i s t"
  using assms by (auto simp: file_is_def appended_def only_file_def Let_def nth_append)

lemma append_bytes:
  assumes "image_ok s" "inode_num i" "file_is s i ty cs" "length cs + length bs \<le> MAXFILE * BSIZE" "unat (freeblock s) \<le> sectors s"
    "unat (freeblock s) + file_cost (length cs + length bs) \<le> sectors s + file_cost (length cs)"
  shows "\<exists>t. iappend i (\<lambda>j. bs ! j) (of_nat (length bs)) s = Ret () t \<and> only_file i s t \<and> file_is t i ty (cs @ bs) \<and>
    unat (freeblock t) + file_cost (length cs) = unat (freeblock s) + file_cost (length cs + length bs)"
proof -
  have "unat (isize (inode_at (img s) i)) = length cs" "has_blocks (blocks_for (length cs)) (inode_at (img s) i) (img s)"
    using assms(3) by (simp_all add: file_is_def)
  then obtain t where "iappend i (\<lambda>j. bs ! j) (of_nat (length bs)) s = Ret () t" "appended i bs s t"
    "unat (freeblock t) + file_cost (length cs) = unat (freeblock s) + file_cost (length cs + length bs)"
    using iappend_ret [OF assms(1,2) _ assms(4) _ assms(5,6)] by auto
  then show ?thesis using file_is_appended [OF _ assms(3,4)] by auto
qed

lemma add_chunks:
  assumes "image_ok s" "inode_num i" "file_is s i ty cs" "length cs + length (concat chunks) \<le> MAXFILE * BSIZE"
    "unat (freeblock s) \<le> sectors s" "unat (freeblock s) + file_cost (length cs + length (concat chunks)) \<le> sectors s + file_cost (length cs)"
  shows "\<exists>t. for_each chunks (add_chunk i) s = Ret () t \<and> only_file i s t \<and> file_is t i ty (cs @ concat chunks) \<and>
    unat (freeblock t) + file_cost (length cs) = unat (freeblock s) + file_cost (length cs + length (concat chunks))"
  using assms
proof (induction chunks arbitrary: s cs)
  case Nil
  then show ?case by (simp add: kfun_simps only_file_refl)
next
  case (Cons c chunks)
  have lt: "file_cost (length cs + length c) \<le> file_cost (length cs + length (concat (c # chunks)))" by (rule file_cost_mono) simp
  obtain u where u: "add_chunk i c s = Ret () u" "only_file i s u" "file_is u i ty (cs @ c)"
    "unat (freeblock u) + file_cost (length cs) = unat (freeblock s) + file_cost (length cs + length c)"
    using append_bytes [OF Cons.prems(1-3), of c] Cons.prems(4-6) lt unfolding add_chunk_def by auto
  have uo: "image_ok u" "sectors u = sectors s" using u(2) by (simp_all add: only_file_def)
  have "\<exists>t. for_each chunks (add_chunk i) u = Ret () t \<and> only_file i u t \<and> file_is t i ty ((cs @ c) @ concat chunks) \<and>
    unat (freeblock t) + file_cost (length (cs @ c)) = unat (freeblock u) + file_cost (length (cs @ c) + length (concat chunks))"
  proof (rule Cons.IH [OF uo(1) Cons.prems(2) u(3)])
    show "length (cs @ c) + length (concat chunks) \<le> MAXFILE * BSIZE" using Cons.prems(4) by simp
    show "unat (freeblock u) \<le> sectors u" "unat (freeblock u) + file_cost (length (cs @ c) + length (concat chunks)) \<le> sectors u + file_cost (length (cs @ c))"
      using u(4) uo(2) Cons.prems(6) lt by (simp_all add: add.assoc)
  qed
  then obtain t where t: "for_each chunks (add_chunk i) u = Ret () t" "only_file i u t" "file_is t i ty ((cs @ c) @ concat chunks)"
    "unat (freeblock t) + file_cost (length (cs @ c)) = unat (freeblock u) + file_cost (length (cs @ c) + length (concat chunks))" by blast
  then show ?case using u only_file_trans [OF u(2) t(2)] by (auto simp: seq_apply add.assoc)
qed

lemma dirent_length [simp]: "length (dirent_mkfs i nm) = 16"
  by (simp add: dirent_mkfs_def de_bytes_def DIRSIZ_def)

lemma append_entry_ret:
  assumes "image_ok s" "inode_num d" "file_is s d ty cs" "length cs + 16 \<le> MAXFILE * BSIZE" "unat (freeblock s) \<le> sectors s"
    "unat (freeblock s) + file_cost (length cs + 16) \<le> sectors s + file_cost (length cs)"
  shows "\<exists>t. append_entry d i nm s = Ret () t \<and> only_file d s t \<and> file_is t d ty (cs @ dirent_mkfs i nm) \<and>
    unat (freeblock t) + file_cost (length cs) = unat (freeblock s) + file_cost (length cs + 16)"
  using append_bytes [OF assms(1-3), of "dirent_mkfs i nm"] assms(4-6) by (simp add: append_entry_def)

section \<open>All files\<close>

definition disk_name :: "uchar list \<Rightarrow> uchar list" where
  "disk_name nm = (if nm \<noteq> [] \<and> hd nm = 95 then tl nm else nm)"

text \<open>The inode number of a file.\<close>

definition file_inum :: "nat \<Rightarrow> uint" where
  "file_inum n = of_nat (n + 2)"

text \<open>What the root directory holds: itself twice, then the files in the order of the command line, with inode numbers from 2 on.\<close>

definition root_bytes :: "host_file list \<Rightarrow> uchar list" where
  "root_bytes fs = dirent_mkfs 1 [46] @ dirent_mkfs 1 [46, 46] @
     concat (map (\<lambda>n. dirent_mkfs (file_inum n) (disk_name (fst (fs ! n)))) [0..<length fs])"

lemma root_bytes_snoc: "root_bytes (fs @ [f]) = root_bytes fs @ dirent_mkfs (file_inum (length fs)) (disk_name (fst f))"
proof -
  have "map (\<lambda>n. dirent_mkfs (file_inum n) (disk_name (fst ((fs @ [f]) ! n)))) [0..<length fs] =
    map (\<lambda>n. dirent_mkfs (file_inum n) (disk_name (fst (fs ! n)))) [0..<length fs]"
    by (rule map_cong) (auto simp: nth_append)
  then show ?thesis unfolding root_bytes_def by (simp del: map_eq_conv)
qed

lemma root_bytes_length: "length (root_bytes fs) = 16 * (length fs + 2)"
  by (induction fs rule: rev_induct) (simp_all add: root_bytes_snoc, simp add: root_bytes_def)

text \<open>The image after the files \<open>fs\<close>.\<close>

definition image_cost :: "host_file list \<Rightarrow> nat" where
  "image_cost fs = file_cost (16 * (length fs + 2)) + (\<Sum>f\<leftarrow>fs. file_cost (length (concat (snd f))))"

definition progress :: "host_file list \<Rightarrow> 'a mkfs_scheme \<Rightarrow> bool" where
  "progress fs s \<longleftrightarrow> image_ok s \<and> sectors s = 1024 \<and> img s 1 = sb_block \<and> freeinode s = file_inum (length fs) \<and>
     unat (freeblock s) = DATA0 + image_cost fs \<and>
     file_is s 1 T_DIR (root_bytes fs) \<and> (\<forall>n<length fs. file_is s (file_inum n) T_FILE (concat (snd (fs ! n))))"

definition host_ok :: "host_file \<Rightarrow> bool" where
  "host_ok f \<longleftrightarrow> 47 \<notin> set (fst f) \<and> length (concat (snd f)) \<le> MAXFILE * BSIZE"

lemma image_cost_snoc:
  "image_cost (fs @ [f]) + file_cost (16 * (length fs + 2)) =
   image_cost fs + file_cost (16 * (length fs + 2) + 16) + file_cost (length (concat (snd f)))"
proof -
  have "16 * (length (fs @ [f]) + 2) = 16 * (length fs + 2) + 16" by simp
  then show ?thesis unfolding image_cost_def by simp
qed

lemma image_cost_mono: "image_cost fs \<le> image_cost (fs @ gs)"
  using file_cost_mono [of "16 * (length fs + 2)" "16 * (length (fs @ gs) + 2)"] by (simp add: image_cost_def)

lemma file_cost_0 [simp]: "file_cost 0 = 0"
  by (simp add: file_cost_def blocks_for_def with_indirect_def BSIZE_def)

lemma inode_num_less:
  assumes "n + 2 < 208"
  shows "inode_num (file_inum n) \<and> unat (file_inum n) = n + 2"
proof -
  have "unat (file_inum n) = n + 2" using assms unfolding file_inum_def by (subst unat_of_nat) simp
  then show ?thesis using assms by (simp add: inode_num_def)
qed

lemma file_inum_Suc: "file_inum n + 1 = file_inum (Suc n)"
  by (simp add: file_inum_def)

text \<open>An inode number handed out: the other files stay.\<close>

lemma file_ialloc:
  assumes "image_ok s" "inode_num (freeinode s)"
  shows "\<exists>t. ialloc_mkfs ty s = Ret (freeinode s) t \<and> image_ok t \<and> freeinode t = freeinode s + 1 \<and> freeblock t = freeblock s \<and>
    sectors t = sectors s \<and> img t 1 = img s 1 \<and> file_is t (freeinode s) ty [] \<and>
    (\<forall>j ty bs. inode_num j \<and> j \<noteq> freeinode s \<and> file_is s j ty bs \<longrightarrow> file_is t j ty bs)"
proof -
  obtain t where t: "ialloc_mkfs ty s = Ret (freeinode s) t" "image_ok t" "freeinode t = freeinode s + 1" "freeblock t = freeblock s"
    "sectors t = sectors s" "img t 1 = img s 1" "isize (inode_at (img t) (freeinode s)) = 0" "itype (inode_at (img t) (freeinode s)) = ty"
    "has_blocks 0 (inode_at (img t) (freeinode s)) (img t)" "\<forall>q. contents (inode_at (img t) (freeinode s)) (img t) q = 0"
    "\<And>j. inode_num j \<Longrightarrow> j \<noteq> freeinode s \<Longrightarrow> same_file j (img s) (img t)"
    using ialloc_ret [OF assms, of ty] by blast
  have "file_is t (freeinode s) ty []" using t(7-10) by (simp add: file_is_def blocks_for_def BSIZE_def)
  then show ?thesis using t(1-6) file_is_same [OF t(11)] by blast
qed

lemma add_file_ret:
  assumes "progress fs s" "host_ok f" "length fs \<le> 198" "DATA0 + image_cost (fs @ [f]) \<le> 1024"
  shows "\<exists>t. add_file 1 f s = Ret () t \<and> progress (fs @ [f]) t"
proof -
  let ?i = "file_inum (length fs)"
  have p: "image_ok s" "sectors s = 1024" "img s 1 = sb_block" "freeinode s = ?i" "file_is s 1 T_DIR (root_bytes fs)"
    "unat (freeblock s) = DATA0 + image_cost fs" "\<And>n. n < length fs \<Longrightarrow> file_is s (file_inum n) T_FILE (concat (snd (fs ! n)))"
    using assms(1) by (auto simp: progress_def)
  have num: "inode_num (file_inum n) \<and> unat (file_inum n) = n + 2" if "n \<le> length fs" for n
    using that assms(3) by (intro inode_num_less) simp
  have ne: "(1::uint) \<noteq> file_inum n" if "n \<le> length fs" for n using num [OF that] unat_1 by (metis add_2_eq_Suc' nat.distinct(1) old.nat.inject One_nat_def)
  have ni: "file_inum n \<noteq> ?i" if "n < length fs" for n using num [of n] num [of "length fs"] that
    by (metis add_right_cancel less_imp_le_nat nat_neq_iff order.refl)
  have one: "inode_num 1" by (simp add: inode_num_def)
  obtain a where a: "ialloc_mkfs T_FILE s = Ret ?i a" "image_ok a" "freeinode a = ?i + 1" "freeblock a = freeblock s"
    "sectors a = 1024" "img a 1 = sb_block" "file_is a ?i T_FILE []" "\<And>j ty bs. inode_num j \<Longrightarrow> j \<noteq> ?i \<Longrightarrow> file_is s j ty bs \<Longrightarrow> file_is a j ty bs"
    using file_ialloc [OF p(1), of T_FILE] num [of "length fs"] p(2,3,4) by auto
  let ?n = "length (root_bytes fs)"
  have rn: "?n + 16 \<le> MAXFILE * BSIZE"
    using assms(3) by (simp add: root_bytes_length MAXFILE_def NDIRECT_def NINDIRECT_def BSIZE_def)
  have ic: "image_cost (fs @ [f]) + file_cost ?n = image_cost fs + file_cost (?n + 16) + file_cost (length (concat (snd f)))"
    unfolding root_bytes_length by (rule image_cost_snoc)
  have room: "unat (freeblock a) \<le> sectors a" "unat (freeblock a) + file_cost (?n + 16) \<le> sectors a + file_cost ?n"
    using assms(4) ic image_cost_mono [of fs "[f]"] p(6) unfolding a(4,5) by linarith+
  obtain b where b: "append_entry 1 ?i (disk_name (fst f)) a = Ret () b" "only_file 1 a b"
    "file_is b 1 T_DIR (root_bytes (fs @ [f]))" "unat (freeblock b) + file_cost ?n = unat (freeblock a) + file_cost (?n + 16)"
    using append_entry_ret [OF a(2) one a(8) [OF one ne [OF order.refl] p(5)] rn room] unfolding root_bytes_snoc by blast
  have bi: "file_is b ?i T_FILE []" using file_is_other [OF b(2) _ _ a(7)] num [of "length fs"] ne [of "length fs"] by auto
  have bo: "image_ok b" "sectors b = 1024" using b(2) a(5) by (simp_all add: only_file_def)
  have bf: "unat (freeblock b) + file_cost (length (concat (snd f))) = DATA0 + image_cost (fs @ [f])" using b(4) a(4) p(6) ic by simp
  have broom: "unat (freeblock b) \<le> sectors b" "unat (freeblock b) + file_cost (length (concat (snd f))) \<le> sectors b"
    using assms(4) bf bo(2) by linarith+
  obtain t where t: "for_each (snd f) (add_chunk ?i) b = Ret () t" "only_file ?i b t" "file_is t ?i T_FILE ([] @ concat (snd f))"
    "unat (freeblock t) = unat (freeblock b) + file_cost (length (concat (snd f)))"
    using add_chunks [OF bo(1) _ bi _ _ _, of "snd f"] num [of "length fs"] assms(2) broom unfolding host_ok_def by fastforce
  have "file_is t (file_inum n) T_FILE (concat (snd ((fs @ [f]) ! n)))" if "n < length (fs @ [f])" for n
  proof (cases "n < length fs")
    case True
    have "file_is b (file_inum n) T_FILE (concat (snd (fs ! n)))"
      using file_is_other [OF b(2)] a(8) p(7) [OF True] num [of n] ni [OF True] ne [of n] True by auto
    then show ?thesis using file_is_other [OF t(2)] num [of n] ni [OF True] True by (auto simp: nth_append)
  next
    case False
    then show ?thesis using t(3) that by (auto simp: nth_append less_Suc_eq)
  qed
  moreover have "file_is t 1 T_DIR (root_bytes (fs @ [f]))" using file_is_other [OF t(2) one ne b(3)] by simp
  ultimately have "progress (fs @ [f]) t" using t(2,4) bf b(2) a(3,5,6) by (auto simp: progress_def only_file_def file_inum_Suc)
  moreover have "add_file 1 f s = Ret () t"
    using assms(2) a(1) b(1) t(1) by (simp add: add_file_def Let_def seq_apply panic_if_apply bind_apply host_ok_def disk_name_def [symmetric])
  ultimately show ?thesis by blast
qed

lemma add_files:
  assumes "progress gs s" "\<forall>f\<in>set fs. host_ok f" "length gs + length fs \<le> 199" "DATA0 + image_cost (gs @ fs) \<le> 1024"
  shows "\<exists>t. for_each fs (add_file 1) s = Ret () t \<and> progress (gs @ fs) t"
  using assms
proof (induction fs arbitrary: gs s)
  case Nil
  then show ?case by (simp add: kfun_simps)
next
  case (Cons f fs)
  have "DATA0 + image_cost (gs @ [f]) \<le> 1024" using image_cost_mono [of "gs @ [f]" fs] Cons.prems(4) by simp
  then obtain u where u: "add_file 1 f s = Ret () u" "progress (gs @ [f]) u"
    using add_file_ret [OF Cons.prems(1), of f] Cons.prems(2,3) by auto
  have "\<exists>t. for_each fs (add_file 1) u = Ret () t \<and> progress ((gs @ [f]) @ fs) t"
    using u(2) Cons.prems(2-4) by (intro Cons.IH) auto
  then show ?case using u by (auto simp: seq_apply)
qed

section \<open>The whole image\<close>

lemma layout_values:
  "fssize div (512 * 8) + 1 = 1" "ninodes div of_nat IPB + 3 + 1 = 29" "nblocks + 29 + nlog = 1024" "fssize = 1024"
  "unat (29 :: uint) = DATA0" "ninodes div of_nat IPB + 3 = 28"
  by (simp_all add: fssize_def ninodes_def IPB_def BSIZE_def nblocks_def nlog_def LOGSIZE_def DATA0_def)

text \<open>A zeroed image with its super block holds no file.\<close>

lemma fresh_image:
  assumes "freeblock s = 29" "usedblocks s = 29" "sectors s = 1024" "\<forall>k. unat k < 1024 \<and> k \<noteq> 1 \<longrightarrow> img s k = zeroes"
  shows "image_ok s"
proof -
  have "\<forall>j\<le>NDIRECT. iaddrs (inode_at (img s) i) j = 0" if "inode_num i" for i
  proof -
    have "2 \<le> unat (i2b i)" "unat (i2b i) < 1024" using inode_block_below [OF that] by (simp_all add: DATA0_def)
    then have "img s (i2b i) = zeroes" using assms(4) by (metis One_nat_def Suc_1 not_less_eq_eq order.refl unat_1)
    then show ?thesis by (simp add: inode_at_def read_dinode_def din0_def)
  qed
  note nb = no_blocks [OF this]
  have "mk_state s" using assms by (auto simp: mk_state_def DATA0_def)
  then show ?thesis using nb(2,3) assms(3) by (simp add: image_ok_def DATA0_def)
qed

text \<open>The directory before the first file.\<close>

lemma root_made:
  assumes "image_ok s" "sectors s = 1024" "img s 1 = sb_block" "freeinode s = 1" "freeblock s = 29"
  shows "\<exists>t. bind (ialloc_mkfs T_DIR) (\<lambda>r. seq (panic_if (\<lambda>_. r \<noteq> ROOTINO) ''assert'')
      (seq (append_entry r r [46]) (seq (append_entry r r [46, 46]) (k r)))) s = k 1 t \<and> progress [] t"
proof -
  have one: "inode_num 1" by (simp add: inode_num_def)
  have c: "file_cost 16 = 1" "file_cost 32 = 1" by (simp_all add: file_cost_def with_indirect_def blocks_for_def BSIZE_def NDIRECT_def)
  have mx: "MAXFILE * BSIZE = 71680" by (rule file_limit)
  obtain a where a: "ialloc_mkfs T_DIR s = Ret 1 a" "image_ok a" "freeinode a = 2" "freeblock a = 29" "sectors a = 1024" "img a 1 = sb_block" "file_is a 1 T_DIR []"
    using file_ialloc [OF assms(1), of T_DIR] one assms(2-5) by auto
  obtain b where b: "append_entry 1 1 [46] a = Ret () b" "only_file 1 a b" "file_is b 1 T_DIR ([] @ dirent_mkfs 1 [46])" "unat (freeblock b) = 30"
    using append_entry_ret [OF a(2) one a(7), of 1 "[46]"] a(4,5) c mx by auto
  have bo: "image_ok b" "sectors b = 1024" using b(2) a(5) by (simp_all add: only_file_def)
  obtain t where t: "append_entry 1 1 [46, 46] b = Ret () t" "only_file 1 b t" "file_is t 1 T_DIR (dirent_mkfs 1 [46] @ dirent_mkfs 1 [46, 46])"
    "unat (freeblock t) = 30"
    using append_entry_ret [OF bo(1) one b(3), of 1 "[46, 46]"] bo(2) b(4) c mx by auto
  have "progress [] t"
    using t(2-4) b(2) a(3,5,6) c by (simp add: progress_def only_file_def file_inum_def root_bytes_def image_cost_def DATA0_def)
  moreover have "ROOTINO = 1" by (simp add: ROOTINO_def)
  ultimately show ?thesis using a(1) b(1) t(1) by (auto simp: bind_apply seq_apply panic_if_apply)
qed

text \<open>The bitmap marks the first blocks.\<close>

lemma bitmap_marks: "bit_free (foldl (\<lambda>buf i. mark_bit i buf) zeroes [0..<n]) k \<longleftrightarrow> n \<le> k"
proof (induction n)
  case 0
  then show ?case by (simp add: bit_free_def zeroes_def)
next
  case (Suc n)
  then show ?case by (auto simp: bit_free_mark)
qed

lemma bitmap_written:
  assumes "image_ok s" "t = s\<lparr>img := (img s)(28 := d)\<rparr>"
  shows "image_ok t" "inode_num i \<Longrightarrow> same_file i (img s) (img t)"
proof -
  note d = image_okD [OF assms(1)]
  have it: "img t = (img s)(28 := d)" "freeblock t = freeblock s" by (simp_all add: assms(2))
  have ia: "inode_at (img t) j = inode_at (img s) j" if "inode_num j" for j
    using inode_block_below [OF that] by (auto simp: inode_at_def it DATA0_def)
  have ow: "\<forall>k\<in>owned (inode_at (img s) j) (img s). img t k = img s k" if "inode_num j" for j
    using mk_fileD(1) [OF d(3) [OF that]] by (fastforce simp: it DATA0_def)
  have mc: "mk_file (unat (freeblock s)) (inode_at (img s) j) (img t)" "owned (inode_at (img s) j) (img t) = owned (inode_at (img s) j) (img s)"
    "blk_of (inode_at (img s) j) (img t) i = blk_of (inode_at (img s) j) (img s) i" if "inode_num j" for i j
    using mk_file_cong [OF d(3) [OF that] order.refl ow [OF that]] by auto
  have st: "mk_state t" using d(1) by (auto simp: mk_state_def assms(2) DATA0_def)
  show "image_ok t" unfolding image_ok_def using st d(2,4) ia mc(1,2) it(2) by (simp add: assms(2))
  show "same_file i (img s) (img t)" if "inode_num i"
    using ia [OF that] mc(3) [OF that] contents_cong [OF ow [OF that]] by (simp add: same_file_def)
qed

text \<open>The last steps: the size of the root directory is rounded up, and the bitmap is written.\<close>

lemma image_finished:
  assumes "progress fs s" "length fs \<le> 199" "DATA0 + image_cost fs \<le> 1024"
  shows "\<exists>t. bind (rinode 1) (\<lambda>din. let off = (xint (isize din) div of_nat BSIZE + 1) * of_nat BSIZE in
      seq (winode 1 (din\<lparr>isize := xint off\<rparr>)) (bind (gets usedblocks) balloc_mkfs)) s = Ret () t \<and> image_ok t \<and> img t 1 = sb_block \<and>
    itype (inode_at (img t) 1) = T_DIR \<and> unat (isize (inode_at (img t) 1)) = (length (root_bytes fs) div BSIZE + 1) * BSIZE \<and>
    (\<forall>q<MAXFILE * BSIZE. contents (inode_at (img t) 1) (img t) q = (if q < length (root_bytes fs) then root_bytes fs ! q else 0)) \<and>
    (\<forall>n<length fs. file_is t (file_inum n) T_FILE (concat (snd (fs ! n)))) \<and>
    (\<forall>k. bit_free (img t 28) k \<longleftrightarrow> DATA0 + image_cost fs \<le> k)"
proof -
  let ?x = "inode_at (img s) 1" and ?n = "length (root_bytes fs)"
  have p: "image_ok s" "sectors s = 1024" "img s 1 = sb_block" "file_is s 1 T_DIR (root_bytes fs)" "unat (freeblock s) = DATA0 + image_cost fs"
    "\<And>n. n < length fs \<Longrightarrow> file_is s (file_inum n) T_FILE (concat (snd (fs ! n)))"
    using assms(1) by (auto simp: progress_def)
  have one: "inode_num 1" by (simp add: inode_num_def)
  have root: "itype ?x = T_DIR" "unat (isize ?x) = ?n" "\<forall>q<MAXFILE * BSIZE. contents ?x (img s) q = (if q < ?n then root_bytes fs ! q else 0)"
    using p(4) by (auto simp: file_is_def)
  define z where "z = (isize ?x div of_nat BSIZE + 1) * of_nat BSIZE"
  have "?n \<le> 3216" using assms(2) by (simp add: root_bytes_length)
  moreover have "?n div 512 \<le> ?n" by simp
  ultimately have z: "unat z = (?n div BSIZE + 1) * BSIZE" using root(2) by (simp add: z_def unat_word_ariths unat_div BSIZE_def)
  define u where "u = s\<lparr>img := (img s)(i2b 1 := write_dinode (img s (i2b 1)) (dinode_off 1) (?x\<lparr>isize := z\<rparr>))\<rparr>"
  note d = image_okD [OF p(1)]
  have "written 0 0 (\<lambda>_. 0) ?x s ?x s" using d(1) d(3) [OF one] by (auto simp: written_def)
  note im = iappend_image [OF p(1) one this u_def]
  define t where "t = u\<lparr>img := (img u)(28 := foldl (\<lambda>buf i. mark_bit i buf) zeroes [0..<unat (usedblocks s)])\<rparr>"
  note bw = bitmap_written [OF im(1) t_def]
  have us: "usedblocks s = freeblock s" using d(1) by (simp add: mk_state_def)
  have sec: "unat (i2b 1) < sectors s" "unat (28 :: uint) < sectors s" using inode_sector [OF p(1) one] p(2) by simp_all
  have lt: "usedblocks s < 512 * 8" using p(5) assms(3) us by (simp add: word_less_nat_alt)
  have "bind (rinode 1) (\<lambda>din. let off = (xint (isize din) div of_nat BSIZE + 1) * of_nat BSIZE in
      seq (winode 1 (din\<lparr>isize := xint off\<rparr>)) (bind (gets usedblocks) balloc_mkfs)) s = Ret () t"
    using sec lt by (simp add: rinode_def winode_def balloc_mkfs_def layout_values(6) rsect_ret wsect_ret kfun_simps Let_def
        inode_at_def [symmetric] z_def [symmetric] u_def t_def)
  moreover have "itype (inode_at (img u) 1) = T_DIR" "isize (inode_at (img u) 1) = z" using im(2) root(1) by (auto simp: same_dinode_def)
  moreover have "same_file 1 (img u) (img t)" by (rule bw(2) [OF one])
  moreover have "img t 1 = sb_block" using im(6) p(3) by (simp add: t_def)
  moreover have "file_is t (file_inum n) T_FILE (concat (snd (fs ! n)))" if "n < length fs" for n
  proof -
    have m: "inode_num (file_inum n)" "unat (file_inum n) = n + 2" using inode_num_less [of n] that assms(2) by auto
    have "file_inum n \<noteq> 1" using m(2) unat_1 by (metis add_2_eq_Suc' nat.distinct(1) old.nat.inject One_nat_def)
    then have "file_is u (file_inum n) T_FILE (concat (snd (fs ! n)))" using file_is_same [OF im(5) [OF m(1)] p(6) [OF that]] by simp
    then show ?thesis by (rule file_is_same [OF bw(2) [OF m(1)]])
  qed
  moreover have "bit_free (img t 28) k \<longleftrightarrow> DATA0 + image_cost fs \<le> k" for k using bitmap_marks p(5) us by (simp add: t_def)
  moreover have "contents (inode_at (img t) 1) (img t) q = (if q < ?n then root_bytes fs ! q else 0)" if "q < MAXFILE * BSIZE" for q
  proof -
    have "contents (inode_at (img t) 1) (img t) q = contents (inode_at (img u) 1) (img u) q"
      using bw(2) [OF one] that unfolding same_file_def by blast
    then show ?thesis using im(3) [OF that] root(3) that by (simp only:)
  qed
  ultimately show ?thesis using bw(1) z unfolding same_file_def by (intro exI [of _ t] conjI allI impI) (simp_all only: simp_thms)
qed

lemma main_made:
  assumes "freeinode s = 1" "sectors s \<le> 1024"
  shows "\<exists>t. main_mkfs fs s = (seq (for_each fs (add_file 1)) (bind (rinode 1) (\<lambda>din.
      let off = (xint (isize din) div of_nat BSIZE + 1) * of_nat BSIZE in
      seq (winode 1 (din\<lparr>isize := xint off\<rparr>)) (bind (gets usedblocks) balloc_mkfs)))) t \<and> progress [] t"
proof -
  define a where "a = s\<lparr>usedblocks := 29, freeblock := 29\<rparr>"
  obtain b where b: "for_each [0..<1024] (\<lambda>i. wsect (of_nat i) zeroes) a = Ret () b" "sectors b = max (sectors a) 1024"
    "\<forall>k. img b k = (if unat k < 1024 then zeroes else img a k)" "freeblock b = freeblock a" "usedblocks b = usedblocks a" "freeinode b = freeinode a"
    using zero_sectors [of 1024 a] by auto
  define c where "c = b\<lparr>img := (img b)(1 := sb_block)\<rparr>"
  have sb: "sectors b = 1024" using b(2) assms(2) by (simp add: a_def)
  have c: "image_ok c" using b(3-5) sb by (intro fresh_image) (auto simp: c_def a_def)
  have ws: "wsect 1 sb_block b = Ret () c" using sb by (simp add: wsect_ret c_def)
  note r = root_made [OF c, of "\<lambda>r. seq (for_each fs (add_file r)) (bind (rinode r) (\<lambda>din.
      let off = (xint (isize din) div of_nat BSIZE + 1) * of_nat BSIZE in
      seq (winode r (din\<lparr>isize := xint off\<rparr>)) (bind (gets usedblocks) balloc_mkfs)))"]
  obtain t where "bind (ialloc_mkfs T_DIR) (\<lambda>r. seq (panic_if (\<lambda>_. r \<noteq> ROOTINO) ''assert'')
      (seq (append_entry r r [46]) (seq (append_entry r r [46, 46]) (seq (for_each fs (add_file r)) (bind (rinode r) (\<lambda>din.
      let off = (xint (isize din) div of_nat BSIZE + 1) * of_nat BSIZE in
      seq (winode r (din\<lparr>isize := xint off\<rparr>)) (bind (gets usedblocks) balloc_mkfs))))))) c =
      (seq (for_each fs (add_file 1)) (bind (rinode 1) (\<lambda>din.
      let off = (xint (isize din) div of_nat BSIZE + 1) * of_nat BSIZE in
      seq (winode 1 (din\<lparr>isize := xint off\<rparr>)) (bind (gets usedblocks) balloc_mkfs)))) t" "progress [] t"
    using r sb b(4,6) assms(1) by (auto simp: c_def a_def)
  moreover have u: "unat (1024 :: uint) = 1024" by simp
  ultimately show ?thesis
    unfolding main_mkfs_def Let_def unfolding layout_values(1) unfolding layout_values(2) unfolding layout_values(3) unfolding layout_values(4) u
    by (intro exI [of _ t]) (simp only: seq_apply modify_apply panic_if_apply a_def [symmetric] b(1) ws outcome.simps simp_thms if_False)
qed

definition sb_mkfs :: superblock where
  "sb_mkfs = \<lparr>sb_size = 1024, sb_nblocks = 965, sb_ninodes = 200, sb_nlog = 30\<rparr>"

lemma sb_block_read: "superblock_of sb_block = sb_mkfs"
  by (simp add: superblock_of_def sb_block_def sb_mkfs_def word_put_other fssize_def nblocks_def ninodes_def nlog_def LOGSIZE_def MAXOPBLOCKS_def)

lemma bitmap_block: "k < 1024 \<Longrightarrow> bmap_block sb_mkfs k = 28 \<and> k mod BPB = k"
  by (simp add: bmap_block_def BBLOCK_def sb_mkfs_def IPB_def BPB_def BSIZE_def word_unat_eq_iff unat_word_ariths unat_div unat_of_nat)

section \<open>Correctness of the image\<close>

lemma main_ret:
  assumes "freeinode s = 1" "sectors s \<le> 1024" "\<forall>f\<in>set fs. host_ok f" "length fs \<le> 199" "DATA0 + image_cost fs \<le> 1024"
  shows "\<exists>t. main_mkfs fs s = Ret () t \<and> image_ok t \<and> img t 1 = sb_block \<and>
    itype (inode_at (img t) 1) = T_DIR \<and> unat (isize (inode_at (img t) 1)) = (length (root_bytes fs) div BSIZE + 1) * BSIZE \<and>
    (\<forall>q<MAXFILE * BSIZE. contents (inode_at (img t) 1) (img t) q = (if q < length (root_bytes fs) then root_bytes fs ! q else 0)) \<and>
    (\<forall>n<length fs. file_is t (file_inum n) T_FILE (concat (snd (fs ! n)))) \<and>
    (\<forall>k. bit_free (img t 28) k \<longleftrightarrow> DATA0 + image_cost fs \<le> k)"
proof -
  obtain a where a: "main_mkfs fs s = (seq (for_each fs (add_file 1)) (bind (rinode 1) (\<lambda>din.
      let off = (xint (isize din) div of_nat BSIZE + 1) * of_nat BSIZE in
      seq (winode 1 (din\<lparr>isize := xint off\<rparr>)) (bind (gets usedblocks) balloc_mkfs)))) a" "progress [] a"
    using main_made [OF assms(1,2)] by blast
  obtain b where b: "for_each fs (add_file 1) a = Ret () b" "progress fs b"
    using add_files [OF a(2) assms(3)] assms(4,5) by auto
  show ?thesis using image_finished [OF b(2) assms(4,5)] unfolding a(1) seq_apply b(1) by (simp only: outcome.simps)
qed

text \<open>
  C29.  For files that fit on the disk \<^verbatim>\<open>mkfs\<close> runs to its end, and the image is the file system it announces: the super block
  has the sizes of the program; the root directory consists of its two own entries, one entry per file of the command line, without a
  leading underscore, and empty entries; the inode of every entry is a file with exactly the bytes that were read;
  all blocks of all files are distinct; and a block is marked used exactly when it lies below the number of blocks that the layout and the
  files need, counting for every file its data and its indirect block.
\<close>

theorem mkfs_builds:
  assumes "freeinode s = 1" "sectors s \<le> 1024" "\<forall>f\<in>set fs. host_ok f" "length fs \<le> 199" "DATA0 + image_cost fs \<le> 1024"
  shows "\<exists>t. main_mkfs fs s = Ret () t \<and> image_ok t \<and> superblock_of (img t 1) = sb_mkfs \<and>
    itype (inode_at (img t) 1) = T_DIR \<and> unat (isize (inode_at (img t) 1)) = (length (root_bytes fs) div BSIZE + 1) * BSIZE \<and>
    (\<forall>q<MAXFILE * BSIZE. contents (inode_at (img t) 1) (img t) q = (if q < length (root_bytes fs) then root_bytes fs ! q else 0)) \<and>
    (\<forall>n<length fs. file_is t (file_inum n) T_FILE (concat (snd (fs ! n)))) \<and>
    (\<forall>k<1024. blk_free sb_mkfs (img t) k \<longleftrightarrow> DATA0 + image_cost fs \<le> k)"
proof -
  obtain t where t: "main_mkfs fs s = Ret () t" "image_ok t" "img t 1 = sb_block" "itype (inode_at (img t) 1) = T_DIR"
    "unat (isize (inode_at (img t) 1)) = (length (root_bytes fs) div BSIZE + 1) * BSIZE"
    "\<forall>q<MAXFILE * BSIZE. contents (inode_at (img t) 1) (img t) q = (if q < length (root_bytes fs) then root_bytes fs ! q else 0)"
    "\<forall>n<length fs. file_is t (file_inum n) T_FILE (concat (snd (fs ! n)))" "\<forall>k. bit_free (img t 28) k = (DATA0 + image_cost fs \<le> k)"
    using main_ret [OF assms] by (elim exE conjE) (rule that)
  have "\<forall>k<1024. blk_free sb_mkfs (img t) k \<longleftrightarrow> DATA0 + image_cost fs \<le> k" using t(8) by (simp add: blk_free_def bitmap_block)
  then show ?thesis using t(1-7) sb_block_read by (intro exI [of _ t]) (simp only: simp_thms)
qed

theorem mkfs_builds_witness:
  "\<exists>t. main_mkfs [([95, 97], [[1, 2, 3], [4]])] \<lparr>img = (\<lambda>_. zeroes), sectors = 0, freeblock = 0, usedblocks = 0, freeinode = 1\<rparr> = Ret () t \<and>
    file_is t 2 T_FILE [1, 2, 3, 4] \<and> \<not> blk_free sb_mkfs (img t) 30 \<and> blk_free sb_mkfs (img t) 31"
proof -
  let ?s = "\<lparr>img = (\<lambda>_. zeroes), sectors = 0, freeblock = 0, usedblocks = 0, freeinode = 1\<rparr>" and ?fs = "[([95, 97], [[1, 2, 3], [4]])] :: host_file list"
  have c: "image_cost ?fs = 2" by (simp add: image_cost_def file_cost_def with_indirect_def blocks_for_def BSIZE_def NDIRECT_def)
  have h: "\<forall>f\<in>set ?fs. host_ok f" by (simp add: host_ok_def file_limit)
  obtain t where t: "main_mkfs ?fs ?s = Ret () t" "\<forall>n<length ?fs. file_is t (file_inum n) T_FILE (concat (snd (?fs ! n)))"
    "\<forall>k<1024. blk_free sb_mkfs (img t) k \<longleftrightarrow> DATA0 + image_cost ?fs \<le> k"
    using mkfs_builds [of ?s ?fs] h c by (auto simp: DATA0_def)
  have "file_is t 2 T_FILE [1, 2, 3, 4]" using t(2) by (simp add: file_inum_def)
  then show ?thesis using t(1,3) c by (intro exI [of _ t]) (simp add: DATA0_def)
qed

text \<open>The search of the kernel in a bitmap of which the blocks before the log are in use.\<close>

lemma log_block_selected:
  assumes "\<And>k. bit_free d k \<longleftrightarrow> DATA0 + c \<le> k" "DATA0 + c \<le> 994"
  shows "balloc_bit (foldl (\<lambda>buf i. mark_bit i buf) d [DATA0 + c..<994]) 0 (sb_size sb_mkfs) = Some 994"
proof -
  define e where "e = foldl (\<lambda>buf i. mark_bit i buf) d [DATA0 + c..<994]"
  have fm: "bit_free (foldl (\<lambda>buf i. mark_bit i buf) d xs) k \<longleftrightarrow> bit_free d k \<and> k \<notin> set xs" for xs k and d :: block
    by (induction xs arbitrary: d) (auto simp: bit_free_mark)
  have e: "bit_free e k \<longleftrightarrow> 994 \<le> k" for k unfolding e_def fm assms(1) set_upt atLeastLessThan_iff using assms(2) by linarith
  have w: "0 + (of_nat k :: uint) < 1024" if "k \<le> 994" for k using that by (simp add: word_less_nat_alt unat_of_nat)
  have "first_index BPB (\<lambda>bi. \<not> 0 + (of_nat bi :: uint) < 1024 \<or> bit_free e bi) = Some 994"
    unfolding first_index_Some_iff
  proof (intro conjI allI impI)
    show "994 < BPB" by (simp add: BPB_def BSIZE_def)
    show "\<not> 0 + (of_nat 994 :: uint) < 1024 \<or> bit_free e 994" using e [of 994] by simp
    show "\<not> (\<not> 0 + (of_nat j :: uint) < 1024 \<or> bit_free e j)" if "j < 994" for j using e [of j] w [of j] that by simp
  qed
  then show ?thesis using w [of 994] unfolding e_def [symmetric] balloc_bit_def by (simp add: sb_mkfs_def)
qed

text \<open>
  C39.  The image does not protect the log.  The kernel keeps the log in the last blocks of the disk, from \<open>sb_size - sb_nlog\<close> on, and
  \<^verbatim>\<open>mkfs\<close> marks all of them free in the bitmap.  So when the kernel has handed out every block before the log, the next block that the search of
  its \<^verbatim>\<open>balloc\<close> selects is the first block of the log.
\<close>

theorem mkfs_leaves_log_free:
  assumes "freeinode s = 1" "sectors s \<le> 1024" "\<forall>f\<in>set fs. host_ok f" "length fs \<le> 199" "DATA0 + image_cost fs \<le> 994"
  shows "\<exists>t. main_mkfs fs s = Ret () t \<and>
    (\<forall>k. unat (sb_size sb_mkfs - sb_nlog sb_mkfs) \<le> k \<and> k < unat (sb_size sb_mkfs) \<longrightarrow> blk_free sb_mkfs (img t) k) \<and>
    balloc_bit (foldl (\<lambda>buf i. mark_bit i buf) (img t 28) [DATA0 + image_cost fs..<994]) 0 (sb_size sb_mkfs) =
      Some (unat (sb_size sb_mkfs - sb_nlog sb_mkfs))"
proof -
  have v: "unat (sb_size sb_mkfs - sb_nlog sb_mkfs) = 994" "unat (sb_size sb_mkfs) = 1024" by (simp_all add: sb_mkfs_def)
  have le: "DATA0 + image_cost fs \<le> 1024" using assms(5) by simp
  obtain t where t: "main_mkfs fs s = Ret () t" "\<forall>k. bit_free (img t 28) k = (DATA0 + image_cost fs \<le> k)"
    using main_ret [OF assms(1-4) le] by (elim exE conjE) (rule that)
  have "blk_free sb_mkfs (img t) k" if "994 \<le> k" "k < 1024" for k using that t(2) assms(5) by (simp add: blk_free_def bitmap_block)
  then show ?thesis unfolding v using t(1) log_block_selected [OF spec [OF t(2)] assms(5)] by (intro exI [of _ t] conjI) auto
qed

theorem mkfs_leaves_log_free_witness:
  "\<exists>t. main_mkfs [] \<lparr>img = (\<lambda>_. zeroes), sectors = 0, freeblock = 0, usedblocks = 0, freeinode = 1\<rparr> = Ret () t \<and>
    blk_free sb_mkfs (img t) 1000 \<and> balloc_bit (foldl (\<lambda>buf i. mark_bit i buf) (img t 28) [30..<994]) 0 1024 = Some 994"
proof -
  let ?s = "\<lparr>img = (\<lambda>_. zeroes), sectors = 0, freeblock = 0, usedblocks = 0, freeinode = 1\<rparr>"
  have c: "DATA0 + image_cost [] = 30"
    by (simp add: image_cost_def file_cost_def with_indirect_def blocks_for_def BSIZE_def NDIRECT_def DATA0_def)
  have v: "unat (sb_size sb_mkfs - sb_nlog sb_mkfs) = 994" "unat (sb_size sb_mkfs) = 1024" "sb_size sb_mkfs = 1024" by (simp_all add: sb_mkfs_def)
  have "\<exists>t. main_mkfs [] ?s = Ret () t \<and> (\<forall>k. 994 \<le> k \<and> k < 1024 \<longrightarrow> blk_free sb_mkfs (img t) k) \<and>
    balloc_bit (foldl (\<lambda>buf i. mark_bit i buf) (img t 28) [30..<994]) 0 1024 = Some 994"
  proof -
    have h: "freeinode ?s = 1" "sectors ?s \<le> 1024" "\<forall>f\<in>set []. host_ok f" "length ([] :: host_file list) \<le> 199" "(30 :: nat) \<le> 994" by simp_all
    show ?thesis by (rule mkfs_leaves_log_free [of ?s "[]", unfolded c, unfolded v(1), unfolded v(2), unfolded v(3), OF h])
  qed
  then obtain t where t: "main_mkfs [] ?s = Ret () t" "\<forall>k. 994 \<le> k \<and> k < 1024 \<longrightarrow> blk_free sb_mkfs (img t) k"
    "balloc_bit (foldl (\<lambda>buf i. mark_bit i buf) (img t 28) [30..<994]) 0 1024 = Some 994" by blast
  have "blk_free sb_mkfs (img t) 1000" using t(2) by simp
  with t(1,3) show ?thesis by blast
qed

end
