(* ===== verification/Semaphore.thy ===== *)
theory Semaphore
  imports Reach
begin

text \<open>
  The semaphores of \<^verbatim>\<open>semaphore.c\<close>: the system table \<^verbatim>\<open>stable\<close>, the table of open semaphores
  each process has, and the operations \<^verbatim>\<open>semget\<close>, \<^verbatim>\<open>semfree\<close>, \<^verbatim>\<open>semdown\<close>, \<^verbatim>\<open>semup\<close>,
  \<^verbatim>\<open>semclose\<close> and \<^verbatim>\<open>semdup\<close>.  The state is the process table of \<^verbatim>\<open>proc.c\<close> beside the
  semaphore table; a pointer to a semaphore is its slot.

  The invariant \<open>sem_ok\<close> says that the reference count of a slot is the number of process
  table entries that point to it, that a used slot has its own index as identifier, and that
  a process sleeping on a semaphore holds it and the value is not positive.  Runs of the
  operations are sequences of labelled steps, and the value of a semaphore is its initial
  value plus the ups and minus the downs of the run.
\<close>

section \<open>State and operations\<close>

record sema =
  sid :: int
  references :: int
  svalue :: int

record ssys =
  spt :: psys
  sems :: "nat \<Rightarrow> sema"

definition ptab :: "('b, psys) kfun \<Rightarrow> ('b, ssys) kfun" where
  "ptab m = zoom spt (\<lambda>p s. s\<lparr>spt := p\<rparr>) m"

definition upd_sem :: "nat \<Rightarrow> (sema \<Rightarrow> sema) \<Rightarrow> (unit, ssys) kfun" where
  "upd_sem j f = modify (\<lambda>s. s\<lparr>sems := (sems s)(j := f (sems s j))\<rparr>)"

definition cur :: "(nat \<Rightarrow> ('b, ssys) kfun) \<Rightarrow> ('b, ssys) kfun" where
  "cur f = bind (ptab (gets curproc)) (\<lambda>c. case c of None \<Rightarrow> fault | Some p \<Rightarrow> f p)"

definition seminit :: "(unit, ssys) kfun" where
  "seminit = ptab (modify (\<lambda>s. s\<lparr>locks := (locks s)(StableLock := initlock ''stable'')\<rparr>))"

definition allocinprocess :: "(nat option, ssys) kfun" where
  "allocinprocess = cur (\<lambda>p.
     gets (\<lambda>s. first_index MAXPROCSEM (\<lambda>i. osemaphore (procs (spt s) p) i = None)))"

definition searchinprocess :: "int \<Rightarrow> (nat option, ssys) kfun" where
  "searchinprocess semid = cur (\<lambda>p.
     gets (\<lambda>s. first_index MAXPROCSEM (\<lambda>i. case osemaphore (procs (spt s) p) i of
       None \<Rightarrow> False | Some j \<Rightarrow> sid (sems s j) = semid)))"

definition allocinsystem :: "(nat option, ssys) kfun" where
  "allocinsystem = gets (\<lambda>s. first_index MAXSEM (\<lambda>j. references (sems s j) = 0))"

text \<open>The statements at label \<^verbatim>\<open>found\<close> of \<^verbatim>\<open>semget\<close>.\<close>

definition sem_open :: "nat \<Rightarrow> nat \<Rightarrow> (unit, ssys) kfun" where
  "sem_open i j =
     seq (upd_sem j (\<lambda>x. x\<lparr>references := references x + 1\<rparr>))
         (cur (\<lambda>p. ptab (upd_proc p (\<lambda>r. r\<lparr>osemaphore := (osemaphore r)(i := Some j)\<rparr>))))"

definition semget_locked :: "int \<Rightarrow> int \<Rightarrow> (int, ssys) kfun" where
  "semget_locked semid initvalue =
     bind allocinprocess (\<lambda>position. case position of
       None \<Rightarrow> return (- 2)
     | Some i \<Rightarrow>
         if semid = - 1
         then bind allocinsystem (\<lambda>found. case found of
             None \<Rightarrow> return (- 3)
           | Some j \<Rightarrow>
               seq (upd_sem j (\<lambda>x. x\<lparr>sid := int j, svalue := initvalue\<rparr>))
              (seq (sem_open i j)
                   (return (int j))))
         else bind (gets (\<lambda>s. first_index MAXSEM
                (\<lambda>j. sid (sems s j) = semid \<and> references (sems s j) \<ge> 0))) (\<lambda>found. case found of
             None \<Rightarrow> return (- 5)
           | Some j \<Rightarrow>
               branch (\<lambda>s. references (sems s j) > 0)
                 (seq (sem_open i j) (return semid))
                 (return (- 1))))"

definition stable_section :: "('b, ssys) kfun \<Rightarrow> ('b, ssys) kfun" where
  "stable_section m =
     seq (ptab (acquire StableLock))
    (bind m (\<lambda>r.
     seq (ptab (release StableLock)) (return r)))"

definition semget :: "int \<Rightarrow> int \<Rightarrow> (int, ssys) kfun" where
  "semget semid initvalue =
     (if semid < - 1 \<or> semid \<ge> int MAXSEM then return (- 4)
      else stable_section (semget_locked semid initvalue))"

text \<open>The semaphore at a position of the open semaphores of the current process.\<close>

definition held :: "nat \<Rightarrow> nat \<Rightarrow> (nat \<Rightarrow> ('b, ssys) kfun) \<Rightarrow> ('b, ssys) kfun" where
  "held p pos f = bind (ptab (gets (\<lambda>s. osemaphore (procs s p) pos)))
     (\<lambda>so. case so of None \<Rightarrow> fault | Some j \<Rightarrow> f j)"

definition semfree :: "int \<Rightarrow> (int, ssys) kfun" where
  "semfree semid = stable_section
     (bind (searchinprocess semid) (\<lambda>pos. case pos of
        None \<Rightarrow> return (- 1)
      | Some i \<Rightarrow> cur (\<lambda>p. held p i (\<lambda>j.
          branch (\<lambda>s. references (sems s j) < 1) (return (- 2))
            (seq (upd_sem j (\<lambda>x. x\<lparr>references := references x - 1\<rparr>))
            (seq (ptab (upd_proc p (\<lambda>r. r\<lparr>osemaphore := (osemaphore r)(i := None)\<rparr>)))
                 (return 0)))))))"

text \<open>
  The loop of \<^verbatim>\<open>semdown\<close>: it sleeps while the value is not positive.  A process that wakes
  up runs \<open>semdown_resume\<close>, the rest of \<^verbatim>\<open>sleep\<close> and the loop again.
\<close>

definition semdown_loop :: "nat \<Rightarrow> (int, ssys) kfun" where
  "semdown_loop j =
     branch (\<lambda>s. svalue (sems s j) \<le> 0)
       (ptab (sleep (ChSem j) StableLock))
       (seq (upd_sem j (\<lambda>x. x\<lparr>svalue := svalue x - 1\<rparr>)) (return 0))"

definition semdown :: "int \<Rightarrow> (int, ssys) kfun" where
  "semdown semid = stable_section
     (bind (searchinprocess semid) (\<lambda>pos. case pos of
        None \<Rightarrow> return (- 1)
      | Some i \<Rightarrow> cur (\<lambda>p. held p i semdown_loop)))"

definition semdown_resume :: "nat \<Rightarrow> (int, ssys) kfun" where
  "semdown_resume j =
     seq (ptab (sleep_resume StableLock))
    (bind (semdown_loop j) (\<lambda>r.
     seq (ptab (release StableLock)) (return r)))"

definition semup :: "int \<Rightarrow> (int, ssys) kfun" where
  "semup semid =
     seq (ptab (acquire StableLock))
    (bind (searchinprocess semid) (\<lambda>pos. case pos of
       None \<Rightarrow> seq (ptab (release StableLock)) (return (- 1))
     | Some i \<Rightarrow> cur (\<lambda>p. held p i (\<lambda>j.
         seq (upd_sem j (\<lambda>x. x\<lparr>svalue := svalue x + 1\<rparr>))
        (seq (ptab (release StableLock))
        (seq (ptab (wakeup (ChSem j)))
             (return 0)))))))"

definition semclose :: "nat \<Rightarrow> (unit, ssys) kfun" where
  "semclose j = stable_section
     (seq (panic_if (\<lambda>s. references (sems s j) < 1) ''semclose'')
          (upd_sem j (\<lambda>x. x\<lparr>references := references x - 1\<rparr>)))"

definition semdup :: "nat \<Rightarrow> (nat, ssys) kfun" where
  "semdup j = stable_section
     (seq (panic_if (\<lambda>s. references (sems s j) < 0) ''semdup error'')
     (seq (upd_sem j (\<lambda>x. x\<lparr>references := references x + 1\<rparr>))
          (return j)))"

section \<open>Invariant\<close>

text \<open>The number of references processes have to slot \<open>j\<close>.\<close>

definition holders :: "(nat \<Rightarrow> proc) \<Rightarrow> nat \<Rightarrow> nat" where
  "holders ps j = card {(p, i). p < NPROC \<and> i < MAXPROCSEM \<and> osemaphore (ps p) i = Some j}"

definition holds_sem :: "(nat \<Rightarrow> proc) \<Rightarrow> nat \<Rightarrow> nat \<Rightarrow> bool" where
  "holds_sem ps p j \<longleftrightarrow> (\<exists>i<MAXPROCSEM. osemaphore (ps p) i = Some j)"

definition waits :: "(nat \<Rightarrow> proc) \<Rightarrow> nat \<Rightarrow> nat \<Rightarrow> bool" where
  "waits ps p j \<longleftrightarrow> state (ps p) = SLEEPING \<and> pchan (ps p) = Some (ChSem j)"

definition refs_ok :: "ssys \<Rightarrow> bool" where
  "refs_ok s \<longleftrightarrow> (\<forall>j<MAXSEM. references (sems s j) = int (holders (procs (spt s)) j) \<and>
       (sid (sems s j) = int j \<or> sid (sems s j) = 0 \<and> references (sems s j) = 0)) \<and>
     (\<forall>p<NPROC. \<forall>i<MAXPROCSEM. \<forall>j. osemaphore (procs (spt s) p) i = Some j \<longrightarrow> j < MAXSEM)"

definition waits_ok :: "ssys \<Rightarrow> bool" where
  "waits_ok s \<longleftrightarrow> (\<forall>p<NPROC. \<forall>j. waits (procs (spt s)) p j \<longrightarrow>
     holds_sem (procs (spt s)) p j \<and> svalue (sems s j) \<le> 0)"

definition sem_ok :: "ssys \<Rightarrow> bool" where
  "sem_ok s \<longleftrightarrow> sched_ok (spt s) \<and> locked (locks (spt s) StableLock) = 0 \<and> refs_ok s \<and> waits_ok s"

section \<open>Counting holders\<close>

lemma holders_finite: "finite {(p, i). p < NPROC \<and> i < MAXPROCSEM \<and> osemaphore (ps p) i = Some j}"
  by (rule finite_subset [of _ "{..<NPROC} \<times> {..<MAXPROCSEM}"]) auto

lemma holders_cong:
  "(\<And>p i. p < NPROC \<Longrightarrow> i < MAXPROCSEM \<Longrightarrow> osemaphore (ps' p) i = osemaphore (ps p) i) \<Longrightarrow> holders ps' j = holders ps j"
  unfolding holders_def by (rule arg_cong [where f = card]) auto

lemma holders_pos: "p < NPROC \<Longrightarrow> i < MAXPROCSEM \<Longrightarrow> osemaphore (ps p) i = Some j \<Longrightarrow> 0 < holders ps j"
  unfolding holders_def using holders_finite [of ps j] by (auto simp: card_gt_0_iff)

lemma holders_add:
  assumes "p < NPROC" "i < MAXPROCSEM" "osemaphore (ps p) i = None" "osemaphore r = (osemaphore (ps p))(i := Some k)"
  shows "holders (ps(p := r)) j = holders ps j + (if j = k then 1 else 0)"
proof -
  let ?S = "\<lambda>ps. {(p, i). p < NPROC \<and> i < MAXPROCSEM \<and> osemaphore (ps p) i = Some j}"
  have "?S (ps(p := r)) = (if j = k then insert (p, i) (?S ps) else ?S ps)"
    using assms by (auto split: if_splits)
  moreover have "(p, i) \<notin> ?S ps" using assms(3) by simp
  ultimately show ?thesis
    using holders_finite [of ps j] by (cases "j = k") (simp_all only: holders_def card_insert_disjoint, simp_all)
qed

lemma holders_remove:
  assumes "p < NPROC" "i < MAXPROCSEM" "osemaphore (ps p) i = Some k" "osemaphore r = (osemaphore (ps p))(i := None)"
  shows "holders ps j = holders (ps(p := r)) j + (if j = k then 1 else 0)"
proof -
  have "holders ((ps(p := r))(p := ps p)) j = holders (ps(p := r)) j + (if j = k then 1 else 0)"
    by (rule holders_add [of p i]) (use assms in auto)
  then show ?thesis by simp
qed

section \<open>Critical sections of the semaphore table\<close>

definition stable_locked :: "ssys \<Rightarrow> ssys" where
  "stable_locked s = s\<lparr>spt := locked_state StableLock (spt s)\<rparr>"

definition stable_unlocked :: "ssys \<Rightarrow> ssys" where
  "stable_unlocked s = s\<lparr>spt := unlocked_state StableLock (spt s)\<rparr>"

lemma stable_state_simps [simp]:
  "sems (stable_locked s) = sems s" "sems (stable_unlocked s) = sems s"
  "procs (spt (stable_locked s)) = procs (spt s)" "procs (spt (stable_unlocked s)) = procs (spt s)"
  "curproc (spt (stable_locked s)) = curproc (spt s)" "curproc (spt (stable_unlocked s)) = curproc (spt s)"
  "mlf (spt (stable_locked s)) = mlf (spt s)" "mlf (spt (stable_unlocked s)) = mlf (spt s)"
  by (simp_all add: stable_locked_def stable_unlocked_def)

text \<open>States that differ from \<open>s\<close> in the semaphores and the processes only.\<close>

definition same_cpu :: "ssys \<Rightarrow> ssys \<Rightarrow> bool" where
  "same_cpu s t \<longleftrightarrow> cpu (spt t) = cpu (spt s) \<and> locks (spt t) = locks (spt s) \<and>
     curproc (spt t) = curproc (spt s) \<and> mlf (spt t) = mlf (spt s)"

lemma same_cpu_refl [simp]: "same_cpu s s"
  by (simp add: same_cpu_def)

definition ready :: "ssys \<Rightarrow> bool" where
  "ready s \<longleftrightarrow> idle (spt s) \<and> locked (locks (spt s) StableLock) = 0"

lemma ready_free: "ready s \<Longrightarrow> lock_free StableLock (spt s)"
  by (simp add: ready_def idle_def lock_free_def cpu_ok_def)

lemma stable_acquire: "ready s \<Longrightarrow> ptab (acquire StableLock) s = Ret () (stable_locked s)"
  using acquire_ret [OF ready_free] by (simp add: ptab_def kfun_simps stable_locked_def)

lemma stable_release:
  assumes "ready s" "same_cpu (stable_locked s) t"
  shows "ptab (release StableLock) t = Ret () (stable_unlocked t)" "ready (stable_unlocked t)"
proof -
  have c: "cpu (spt t) = cpu (locked_state StableLock (spt s))"
    "locks (spt t) = locks (locked_state StableLock (spt s))"
    using assms(2) by (simp_all add: same_cpu_def stable_locked_def)
  have "cpu_ok (cpu (spt t))" "0 < ncli (cpu (spt t))" "holding StableLock (spt t)"
    using assms(1) c by (auto simp: ready_def idle_def holding_def cpu_ok_def pushcli_ok locked_state_def
        holding_lk_def pushcli_cpu_def)
  then show "ptab (release StableLock) t = Ret () (stable_unlocked t)"
    by (simp add: ptab_def kfun_simps release_ret stable_unlocked_def)
  show "ready (stable_unlocked t)"
    using assms(1) c by (simp add: ready_def idle_def stable_unlocked_def unlocked_state_def locked_state_def
        popcli_cpu_def pushcli_cpu_def)
qed

lemma stable_section_ret:
  assumes "ready s" "m (stable_locked s) = Ret r t" "same_cpu (stable_locked s) t"
  shows "stable_section m s = Ret r (stable_unlocked t)"
  using assms stable_release(1) [OF assms(1,3)] by (simp add: stable_section_def kfun_simps stable_acquire)

lemma sem_ok_ready: "sem_ok s \<Longrightarrow> ready s"
  by (simp add: sem_ok_def ready_def sched_ok_def)

lemma ptab_gets [kfun_simps]: "ptab (gets f) s = Ret (f (spt s)) s"
  by (simp add: ptab_def kfun_simps)

lemma ptab_upd_proc [kfun_simps]:
  "ptab (upd_proc p f) s = Ret () (s\<lparr>spt := (spt s)\<lparr>procs := (procs (spt s))(p := f (procs (spt s) p))\<rparr>\<rparr>)"
  by (simp add: ptab_def upd_proc_def kfun_simps)

lemma upd_sem_apply [kfun_simps]:
  "upd_sem j f s = Ret () (s\<lparr>sems := (sems s)(j := f (sems s j))\<rparr>)"
  by (simp add: upd_sem_def kfun_simps)

lemma cur_apply [kfun_simps]: "cur f s = (case curproc (spt s) of None \<Rightarrow> Fault | Some p \<Rightarrow> f p s)"
  by (simp add: cur_def kfun_simps split: option.split)

lemma held_apply [kfun_simps]:
  "held p i f s = (case osemaphore (procs (spt s) p) i of None \<Rightarrow> Fault | Some j \<Rightarrow> f j s)"
  by (simp add: held_def kfun_simps split: option.split)

text \<open>The position of a semaphore in a process, and the slot there.\<close>

definition position :: "ssys \<Rightarrow> nat \<Rightarrow> int \<Rightarrow> nat option" where
  "position s p semid = first_index MAXPROCSEM (\<lambda>i. case osemaphore (procs (spt s) p) i of
     None \<Rightarrow> False | Some j \<Rightarrow> sid (sems s j) = semid)"

lemma searchinprocess_ret:
  "curproc (spt s) = Some p \<Longrightarrow> searchinprocess semid s = Ret (position s p semid) s"
  by (simp add: searchinprocess_def kfun_simps position_def)

lemma position_locked [simp]:
  "position (stable_locked s) p semid = position s p semid"
  by (simp add: position_def cong: option.case_cong)

lemma held_used:
  assumes "sem_ok s" "p < NPROC" "i < MAXPROCSEM" "osemaphore (procs (spt s) p) i = Some j"
  shows "j < MAXSEM" "0 < references (sems s j)" "sid (sems s j) = int j"
proof -
  show j: "j < MAXSEM" using assms by (auto simp: sem_ok_def refs_ok_def)
  have "0 < holders (procs (spt s)) j" by (rule holders_pos) (rule assms(2-4))+
  moreover have eq: "references (sems s j) = int (holders (procs (spt s)) j)"
    "sid (sems s j) = int j \<or> references (sems s j) = 0"
    using assms(1) j by (auto simp: sem_ok_def refs_ok_def)
  ultimately show "0 < references (sems s j)" "sid (sems s j) = int j" by auto
qed

lemma position_Some:
  assumes "sem_ok s" "p < NPROC" "position s p semid = Some i"
  shows "i < MAXPROCSEM" "osemaphore (procs (spt s) p) i = Some (nat semid)" "0 \<le> semid" "nat semid < MAXSEM"
    "0 < references (sems s (nat semid))"
proof -
  from first_index_Some [OF assms(3) [unfolded position_def]]
  obtain j where j: "i < MAXPROCSEM" "osemaphore (procs (spt s) p) i = Some j" "sid (sems s j) = semid"
    by (auto split: option.splits)
  with held_used [OF assms(1,2) j(1,2)]
  show "i < MAXPROCSEM" "osemaphore (procs (spt s) p) i = Some (nat semid)" "0 \<le> semid" "nat semid < MAXSEM"
    "0 < references (sems s (nat semid))" by auto
qed

lemma position_None:
  assumes "sem_ok s" "p < NPROC"
  shows "position s p (int j) = None \<longleftrightarrow> \<not> holds_sem (procs (spt s)) p j"
  using held_used(3) [OF assms]
  by (fastforce simp: position_def first_index_None holds_sem_def split: option.splits)

section \<open>Operations keep the invariant\<close>

text \<open>The open semaphores of process \<open>p\<close> replaced by \<open>os\<close>.\<close>

definition set_open :: "nat \<Rightarrow> (nat \<Rightarrow> nat option) \<Rightarrow> ssys \<Rightarrow> ssys" where
  "set_open p os s = s\<lparr>spt := (spt s)\<lparr>procs := (procs (spt s))(p := (procs (spt s) p)\<lparr>osemaphore := os\<rparr>)\<rparr>\<rparr>"

definition set_sem :: "nat \<Rightarrow> sema \<Rightarrow> ssys \<Rightarrow> ssys" where
  "set_sem j x s = s\<lparr>sems := (sems s)(j := x)\<rparr>"

lemma set_simps [simp]:
  "sems (set_open p os s) = sems s" "spt (set_sem j x s) = spt s" "sems (set_sem j x s) = (sems s)(j := x)"
  "procs (spt (set_open p os s)) = (procs (spt s))(p := (procs (spt s) p)\<lparr>osemaphore := os\<rparr>)"
  "curproc (spt (set_open p os s)) = curproc (spt s)"
  by (simp_all add: set_open_def set_sem_def)

lemma same_cpu_set [simp]:
  "same_cpu s (set_open p os t) = same_cpu s t" "same_cpu s (set_sem j x t) = same_cpu s t"
  by (simp_all add: same_cpu_def set_open_def set_sem_def)

lemma waits_set [simp]: "waits ((procs s)(p := (procs s p)\<lparr>osemaphore := os\<rparr>)) = waits (procs s)"
  by (auto simp: waits_def fun_eq_iff)

lemma sched_ok_set_open: "sched_ok (spt s) \<Longrightarrow> sched_ok (spt (set_open p os s))"
  unfolding set_open_def by (simp add: sched_ok_upd_same)

lemma sched_ok_unlocked:
  assumes "ready s" "sched_ok (spt t)" "same_cpu (stable_locked s) u"
    and "procs (spt u) = procs (spt t)" "mlf (spt u) = mlf (spt t)" "curproc (spt u) = curproc (spt t)"
  shows "sched_ok (spt (stable_unlocked u)) \<and> locked (locks (spt (stable_unlocked u)) StableLock) = 0"
proof -
  have "idle (spt (stable_unlocked u))" "locked (locks (spt (stable_unlocked u)) StableLock) = 0"
    using stable_release(2) [OF assms(1,3)] by (simp_all add: ready_def)
  with assms(2,4-6) show ?thesis by (auto intro: sched_ok_cong [of "spt t"])
qed

lemma sched_ok_locked_section:
  assumes "sem_ok s" "t = stable_locked s \<or> (\<exists>p os. t = set_open p os (stable_locked s))" "spt u = spt t"
  shows "sched_ok (spt (stable_unlocked u)) \<and> locked (locks (spt (stable_unlocked u)) StableLock) = 0"
proof -
  have ok: "sched_ok (spt s)" "ready s" using assms(1) sem_ok_ready by (auto simp: sem_ok_def)
  have same: "same_cpu (stable_locked s) u" using assms(2,3) by (auto simp: same_cpu_def set_open_def)
  show ?thesis
  proof (cases "t = stable_locked s")
    case True
    then show ?thesis using assms(3) by (intro sched_ok_unlocked [OF ok(2,1) same]) simp_all
  next
    case False
    then obtain p os where t: "t = set_open p os (stable_locked s)" using assms(2) by blast
    show ?thesis
      by (rule sched_ok_unlocked [OF ok(2) sched_ok_set_open [OF ok(1), of p os] same])
        (use assms(3) t in \<open>simp_all add: set_open_def\<close>)
  qed
qed

text \<open>The table after opening slot \<open>j\<close> at position \<open>i\<close> of process \<open>p\<close>, with contents \<open>x\<close>.\<close>

definition opened :: "nat \<Rightarrow> nat \<Rightarrow> nat \<Rightarrow> sema \<Rightarrow> ssys \<Rightarrow> ssys" where
  "opened p i j x s = set_open p ((osemaphore (procs (spt s) p))(i := Some j)) (set_sem j (x\<lparr>references := references x + 1\<rparr>) s)"

lemma opened_ok:
  assumes "sem_ok s" "p < NPROC" "i < MAXPROCSEM" "osemaphore (procs (spt s) p) i = None" "j < MAXSEM"
    and "sid x = int j" "references x = references (sems s j)"
    and "references x > 0 \<Longrightarrow> svalue x = svalue (sems s j)"
  shows "sem_ok (stable_unlocked (opened p i j x (stable_locked s)))"
proof -
  let ?u = "stable_unlocked (opened p i j x (stable_locked s))"
  let ?r = "(procs (spt s) p)\<lparr>osemaphore := (osemaphore (procs (spt s) p))(i := Some j)\<rparr>"
  have ps: "procs (spt ?u) = (procs (spt s))(p := ?r)"
    "sems ?u = (sems s)(j := x\<lparr>references := references x + 1\<rparr>)" by (simp_all add: opened_def)
  have h: "holders (procs (spt ?u)) k = holders (procs (spt s)) k + (if k = j then 1 else 0)" for k
    unfolding ps by (rule holders_add [of p i]) (use assms in simp_all)
  have "refs_ok ?u"
    using assms(1,5-7) unfolding refs_ok_def h unfolding ps by (auto simp: sem_ok_def refs_ok_def)
  moreover have "waits_ok ?u"
    unfolding waits_ok_def
  proof (intro allI impI)
    fix y k assume y: "y < NPROC" and w: "waits (procs (spt ?u)) y k"
    then have "waits (procs (spt s)) y k" by (simp add: opened_def)
    then have o: "holds_sem (procs (spt s)) y k" "svalue (sems s k) \<le> 0"
      using assms(1) y by (auto simp: sem_ok_def waits_ok_def)
    then obtain e where e: "e < MAXPROCSEM" "osemaphore (procs (spt s) y) e = Some k" by (auto simp: holds_sem_def)
    have "svalue (sems ?u k) \<le> 0"
      using held_used(2) [OF assms(1) y e] o(2) assms(7,8) unfolding ps(2) by (cases "k = j") auto
    moreover have "holds_sem (procs (spt ?u)) y k"
      unfolding ps(1) holds_sem_def using e assms(4) by (intro exI [of _ e]) auto
    ultimately show "holds_sem (procs (spt ?u)) y k \<and> svalue (sems ?u k) \<le> 0" by simp
  qed
  moreover have "sched_ok (spt ?u) \<and> locked (locks (spt ?u) StableLock) = 0"
    by (rule sched_ok_locked_section [OF assms(1), of "set_open p (osemaphore ?r) (stable_locked s)"])
      (blast, simp add: opened_def set_open_def)
  ultimately show ?thesis by (simp add: sem_ok_def)
qed

lemma sem_ok_cong:
  assumes "sems s' = sems s" "procs (spt s') = procs (spt s)"
  shows "refs_ok s' = refs_ok s" "waits_ok s' = waits_ok s"
  by (simp_all only: refs_ok_def waits_ok_def assms)

lemma sem_ok_unchanged: "sem_ok s \<Longrightarrow> sem_ok (stable_unlocked (stable_locked s))"
proof -
  assume ok: "sem_ok s"
  have "refs_ok (stable_unlocked (stable_locked s))" "waits_ok (stable_unlocked (stable_locked s))"
    using ok sem_ok_cong [of "stable_unlocked (stable_locked s)" s] by (simp_all add: sem_ok_def)
  with sched_ok_locked_section [OF ok, of "stable_locked s" "stable_locked s"] show ?thesis
    by (simp add: sem_ok_def)
qed

text \<open>What \<^verbatim>\<open>semget\<close> returns, or the position and the slot it opens.\<close>

definition semget_spec :: "ssys \<Rightarrow> nat \<Rightarrow> int \<Rightarrow> int + nat \<times> nat" where
  "semget_spec s p semid = (case first_index MAXPROCSEM (\<lambda>i. osemaphore (procs (spt s) p) i = None) of
     None \<Rightarrow> Inl (- 2)
   | Some i \<Rightarrow> if semid = - 1
       then (case first_index MAXSEM (\<lambda>j. references (sems s j) = 0) of None \<Rightarrow> Inl (- 3) | Some j \<Rightarrow> Inr (i, j))
       else if sid (sems s (nat semid)) \<noteq> semid then Inl (- 5)
       else if references (sems s (nat semid)) = 0 then Inl (- 1)
       else Inr (i, nat semid))"

lemma refs_nonneg: "sem_ok s \<Longrightarrow> j < MAXSEM \<Longrightarrow> 0 \<le> references (sems s j)"
  by (auto simp: sem_ok_def refs_ok_def)

lemma semget_lookup:
  assumes "sem_ok s" "0 \<le> semid" "semid < int MAXSEM"
  shows "first_index MAXSEM (\<lambda>j. sid (sems s j) = semid \<and> references (sems s j) \<ge> 0) =
    (if sid (sems s (nat semid)) = semid then Some (nat semid) else None)"
proof -
  have ids: "sid (sems s j) = int j \<or> sid (sems s j) = 0" "0 \<le> references (sems s j)" if "j < MAXSEM" for j
    using assms(1) that by (auto simp: sem_ok_def refs_ok_def)
  have n: "nat semid < MAXSEM" using assms by simp
  have lt: "sid (sems s j) \<noteq> semid" if "j < nat semid" for j using ids(1) [of j] that n by auto
  show ?thesis
  proof (cases "sid (sems s (nat semid)) = semid")
    case True
    with ids(2) [OF n] lt n show ?thesis by (simp add: first_index_Some_iff)
  next
    case False
    then have "semid \<noteq> 0" using ids(1) [OF n] assms by auto
    then have "sid (sems s j) \<noteq> semid" if "j < MAXSEM" for j
      using ids(1) [OF that] False by auto
    with False show ?thesis by (simp add: first_index_None)
  qed
qed

lemma semget_ret:
  assumes "sem_ok s" "curproc (spt s) = Some p" "- 1 \<le> semid" "semid < int MAXSEM"
  shows "case semget_spec s p semid of
      Inl e \<Rightarrow> semget semid v s = Ret e (stable_unlocked (stable_locked s))
    | Inr (i, j) \<Rightarrow> i < MAXPROCSEM \<and> osemaphore (procs (spt s) p) i = None \<and> j < MAXSEM \<and>
        semget semid v s = Ret (int j) (stable_unlocked (opened p i j
          (if semid = - 1 then (sems s j)\<lparr>sid := int j, svalue := v\<rparr> else sems s j) (stable_locked s))) \<and>
        (if semid = - 1 then references (sems s j) = 0 else j = nat semid \<and> sid (sems s j) = int j)"
proof -
  note r = sem_ok_ready [OF assms(1)]
  have sec: "semget semid v s = Ret x (stable_unlocked t)"
    if "semget_locked semid v (stable_locked s) = Ret x t" "same_cpu (stable_locked s) t" for x t
    using assms(3,4) stable_section_ret [of s "semget_locked semid v", OF r that] by (simp add: semget_def)
  show ?thesis
  proof (cases "first_index MAXPROCSEM (\<lambda>i. osemaphore (procs (spt s) p) i = None)")
    case None
    then have "semget_locked semid v (stable_locked s) = Ret (- 2) (stable_locked s)"
      using assms(2) by (simp add: semget_locked_def allocinprocess_def kfun_simps)
    from sec [OF this] None show ?thesis by (simp add: semget_spec_def)
  next
    case (Some i)
    note i = first_index_Some [OF Some]
    have al: "allocinprocess (stable_locked s) = Ret (Some i) (stable_locked s)"
      using assms(2) Some by (simp add: allocinprocess_def kfun_simps)
    show ?thesis
    proof (cases "semid = - 1")
      case True
      show ?thesis
      proof (cases "first_index MAXSEM (\<lambda>j. references (sems s j) = 0)")
        case None
        then have "semget_locked semid v (stable_locked s) = Ret (- 3) (stable_locked s)"
          using al True by (simp add: semget_locked_def allocinsystem_def kfun_simps)
        from sec [OF this] None True Some show ?thesis by (simp add: semget_spec_def)
      next
        case j: (Some j)
        have "semget_locked semid v (stable_locked s) =
            Ret (int j) (opened p i j ((sems s j)\<lparr>sid := int j, svalue := v\<rparr>) (stable_locked s))"
          using al True j assms(2)
          by (simp add: semget_locked_def allocinsystem_def sem_open_def kfun_simps opened_def set_open_def set_sem_def)
        from sec [OF this] True Some j i first_index_Some [OF j] show ?thesis
          by (simp add: semget_spec_def opened_def)
      qed
    next
      case False
      then have id: "0 \<le> semid" using assms(3) by simp
      note lk = semget_lookup [OF assms(1) id assms(4)]
      have n: "nat semid < MAXSEM" using id assms(4) by simp
      note nn = refs_nonneg [OF assms(1) n]
      consider "sid (sems s (nat semid)) \<noteq> semid" | "sid (sems s (nat semid)) = semid" "references (sems s (nat semid)) = 0"
        | "sid (sems s (nat semid)) = semid" "references (sems s (nat semid)) > 0" using nn by linarith
      then show ?thesis
      proof cases
        case 1
        then have "semget_locked semid v (stable_locked s) = Ret (- 5) (stable_locked s)"
          using al False lk by (simp add: semget_locked_def kfun_simps)
        from sec [OF this] 1 Some False show ?thesis by (simp add: semget_spec_def)
      next
        case 2
        then have "semget_locked semid v (stable_locked s) = Ret (- 1) (stable_locked s)"
          using al False lk by (simp add: semget_locked_def kfun_simps)
        from sec [OF this] 2 Some False show ?thesis by (simp add: semget_spec_def)
      next
        case 3
        then have "semget_locked semid v (stable_locked s) =
            Ret semid (opened p i (nat semid) (sems s (nat semid)) (stable_locked s))"
          using al False lk assms(2)
          by (simp add: semget_locked_def sem_open_def kfun_simps opened_def set_open_def set_sem_def)
        from sec [OF this] 3 Some False i n id show ?thesis by (simp add: semget_spec_def opened_def)
      qed
    qed
  qed
qed

text \<open>\<^verbatim>\<open>semfree\<close>: the entry and the reference it counts go together.\<close>

definition closed :: "nat \<Rightarrow> nat \<Rightarrow> nat \<Rightarrow> ssys \<Rightarrow> ssys" where
  "closed p i j s = set_open p ((osemaphore (procs (spt s) p))(i := None))
     (set_sem j ((sems s j)\<lparr>references := references (sems s j) - 1\<rparr>) s)"

lemma closed_ok:
  assumes "sem_ok s" "p < NPROC" "i < MAXPROCSEM" "osemaphore (procs (spt s) p) i = Some j"
    and "state (procs (spt s) p) \<noteq> SLEEPING"
  shows "sem_ok (stable_unlocked (closed p i j (stable_locked s)))"
proof -
  let ?u = "stable_unlocked (closed p i j (stable_locked s))"
  let ?r = "(procs (spt s) p)\<lparr>osemaphore := (osemaphore (procs (spt s) p))(i := None)\<rparr>"
  have ps: "procs (spt ?u) = (procs (spt s))(p := ?r)"
    "sems ?u = (sems s)(j := (sems s j)\<lparr>references := references (sems s j) - 1\<rparr>)"
    by (simp_all add: closed_def)
  have h: "holders (procs (spt s)) k = holders (procs (spt ?u)) k + (if k = j then 1 else 0)" for k
    unfolding ps by (rule holders_remove [of p i]) (use assms in simp_all)
  note j = held_used [OF assms(1-4)]
  have "refs_ok ?u"
    unfolding refs_ok_def
  proof (intro conjI allI impI)
    fix k assume "k < MAXSEM"
    then have "references (sems s k) = int (holders (procs (spt s)) k)"
      "sid (sems s k) = int k \<or> sid (sems s k) = 0 \<and> references (sems s k) = 0"
      using assms(1) by (auto simp: sem_ok_def refs_ok_def)
    with j h [of k] show "references (sems ?u k) = int (holders (procs (spt ?u)) k)"
      "sid (sems ?u k) = int k \<or> sid (sems ?u k) = 0 \<and> references (sems ?u k) = 0"
      unfolding ps(2) by (auto split: if_splits)
  next
    fix y e k assume "y < NPROC" "e < MAXPROCSEM" "osemaphore (procs (spt ?u) y) e = Some k"
    then show "k < MAXSEM" using assms(1) unfolding ps by (auto simp: sem_ok_def refs_ok_def split: if_splits)
  qed
  moreover have "waits_ok ?u"
    unfolding waits_ok_def
  proof (intro allI impI)
    fix y k assume y: "y < NPROC" and w: "waits (procs (spt ?u)) y k"
    then have w: "waits (procs (spt s)) y k" by (simp add: closed_def)
    then have "y \<noteq> p" using assms(5) by (auto simp: waits_def)
    then have "holds_sem (procs (spt ?u)) y k = holds_sem (procs (spt s)) y k"
      unfolding ps by (simp add: holds_sem_def)
    moreover have "svalue (sems ?u k) = svalue (sems s k)" unfolding ps by simp
    ultimately show "holds_sem (procs (spt ?u)) y k \<and> svalue (sems ?u k) \<le> 0"
      using assms(1) y w by (auto simp: sem_ok_def waits_ok_def)
  qed
  moreover have "sched_ok (spt ?u) \<and> locked (locks (spt ?u) StableLock) = 0"
    by (rule sched_ok_locked_section [OF assms(1), of "set_open p (osemaphore ?r) (stable_locked s)"])
      (blast, simp add: closed_def set_open_def)
  ultimately show ?thesis by (simp add: sem_ok_def)
qed

lemma sem_ok_current: "sem_ok s \<Longrightarrow> curproc (spt s) = Some p \<Longrightarrow> p < NPROC \<and> state (procs (spt s) p) = RUNNING"
  by (auto simp: sem_ok_def sched_ok_def procs_ok_def)

lemma semfree_ret:
  assumes "sem_ok s" "curproc (spt s) = Some p"
  shows "semfree semid s = (case position s p semid of
      None \<Rightarrow> Ret (- 1) (stable_unlocked (stable_locked s))
    | Some i \<Rightarrow> Ret 0 (stable_unlocked (closed p i (nat semid) (stable_locked s))))"
proof (cases "position s p semid")
  case None
  have "semfree semid s = Ret (- 1) (stable_unlocked (stable_locked s))"
    unfolding semfree_def
    by (rule stable_section_ret [OF sem_ok_ready [OF assms(1)]])
      (use None assms(2) in \<open>simp_all add: kfun_simps searchinprocess_ret\<close>)
  with None show ?thesis by simp
next
  case (Some i)
  have "p < NPROC" using sem_ok_current [OF assms] by simp
  note i = position_Some [OF assms(1) this Some]
  have "semfree semid s = Ret 0 (stable_unlocked (closed p i (nat semid) (stable_locked s)))"
    unfolding semfree_def
    by (rule stable_section_ret [OF sem_ok_ready [OF assms(1)]])
      (use Some assms(2) i in \<open>simp_all add: kfun_simps searchinprocess_ret closed_def set_open_def set_sem_def same_cpu_def\<close>)
  with Some show ?thesis by simp
qed

subsection \<open>semdown\<close>

definition set_value :: "nat \<Rightarrow> int \<Rightarrow> ssys \<Rightarrow> ssys" where
  "set_value j v s = set_sem j ((sems s j)\<lparr>svalue := v\<rparr>) s"

lemma set_value_simps [simp]:
  "spt (set_value j v s) = spt s" "references (sems (set_value j v s) k) = references (sems s k)"
  "sid (sems (set_value j v s) k) = sid (sems s k)"
  "svalue (sems (set_value j v s) k) = (if k = j then v else svalue (sems s k))"
  "same_cpu s (set_value j v t) = same_cpu s t"
  by (simp_all add: set_value_def)

lemma refs_ok_set_value [simp]: "refs_ok (set_value j v s) = refs_ok s"
  by (simp add: refs_ok_def)

definition semdown_section :: "nat \<Rightarrow> (int, ssys) kfun" where
  "semdown_section j = bind (semdown_loop j) (\<lambda>r. seq (ptab (release StableLock)) (return r))"

lemma semdown_take:
  assumes "sem_ok s" "svalue (sems s j) > 0"
  shows "semdown_section j (stable_locked s) =
      Ret 0 (stable_unlocked (set_value j (svalue (sems s j) - 1) (stable_locked s)))"
    and "sem_ok (stable_unlocked (set_value j (svalue (sems s j) - 1) (stable_locked s)))"
proof -
  let ?t = "set_value j (svalue (sems s j) - 1) (stable_locked s)"
  have "semdown_loop j (stable_locked s) = Ret 0 ?t"
    using assms(2) by (simp add: semdown_loop_def kfun_simps set_value_def set_sem_def)
  then show "semdown_section j (stable_locked s) = Ret 0 (stable_unlocked ?t)"
    using stable_release(1) [OF sem_ok_ready [OF assms(1)], of ?t]
    by (simp add: semdown_section_def kfun_simps)
  have "refs_ok (stable_unlocked ?t) = refs_ok s"
    using sem_ok_cong(1) [of "stable_unlocked ?t" ?t] sem_ok_cong(1) [of "stable_locked s" s] by simp
  moreover have "waits_ok (stable_unlocked ?t)"
    using assms by (fastforce simp: sem_ok_def waits_ok_def)
  ultimately show "sem_ok (stable_unlocked ?t)"
    using assms(1) sched_ok_locked_section [OF assms(1), of "stable_locked s" ?t] by (simp add: sem_ok_def)
qed

lemma asleep_simps [simp]:
  "state (asleep c r) = SLEEPING" "pchan (asleep c r) = Some c" "osemaphore (asleep c r) = osemaphore r"
  by (simp_all add: asleep_def)

lemma semdown_wait:
  assumes "sem_ok s" "curproc (spt s) = Some p" "holds_sem (procs (spt s)) p j" "svalue (sems s j) \<le> 0"
  shows "\<exists>t s'. semdown_section j (stable_locked s) = Sleep (ChSem j) t \<and>
    ptab scheduler_resume t = Ret () s' \<and> sem_ok s' \<and> sems s' = sems s \<and>
    procs (spt s') = (procs (spt s))(p := asleep (ChSem j) (procs (spt s) p))"
proof -
  have ok: "sched_ok (spt s)" "locked (locks (spt s) StableLock) = 0" using assms(1) by (auto simp: sem_ok_def)
  have p: "p < NPROC" using sem_ok_current [OF assms(1,2)] by simp
  obtain t u where t: "seq (acquire StableLock) (sleep (ChSem j) StableLock) (spt s) = (Sleep (ChSem j) t :: (int, psys) outcome)"
    and u: "scheduler_resume t = Ret () u" "sched_ok u"
      "procs u = (procs (spt s))(p := asleep (ChSem j) (procs (spt s) p))" "locked (locks u StableLock) = 0"
    using sleep_sched_ok [where 'b = int, OF ok(1) assms(2) _ ok(2)] by blast
  have "sleep (ChSem j) StableLock (spt (stable_locked s)) = (Sleep (ChSem j) t :: (int, psys) outcome)"
    using t acquire_ret [OF ready_free [OF sem_ok_ready [OF assms(1)]]] by (simp add: kfun_simps stable_locked_def)
  then have "semdown_section j (stable_locked s) = Sleep (ChSem j) (s\<lparr>spt := t\<rparr>)"
    using assms(4) by (simp add: semdown_section_def semdown_loop_def kfun_simps ptab_def stable_locked_def)
  moreover have "ptab scheduler_resume (s\<lparr>spt := t\<rparr>) = Ret () (s\<lparr>spt := u\<rparr>)"
    using u(1) by (simp add: ptab_def kfun_simps)
  moreover have "holders (procs u) = holders (procs (spt s))"
    by (intro ext holders_cong) (auto simp: u(3))
  then have "refs_ok (s\<lparr>spt := u\<rparr>)" using assms(1) by (auto simp: sem_ok_def refs_ok_def u(3))
  moreover have "waits_ok (s\<lparr>spt := u\<rparr>)"
  proof -
    have "holds_sem (procs u) = holds_sem (procs (spt s))" by (auto simp: holds_sem_def u(3) fun_eq_iff)
    moreover have "waits (procs u) y k \<longleftrightarrow> (if y = p then k = j else waits (procs (spt s)) y k)" for y k
      by (auto simp: waits_def u(3))
    ultimately show ?thesis using assms by (auto simp: waits_ok_def sem_ok_def split: if_splits)
  qed
  ultimately show ?thesis
    using u by (intro exI [of _ "s\<lparr>spt := t\<rparr>"] exI [of _ "s\<lparr>spt := u\<rparr>"]) (simp add: sem_ok_def)
qed

lemma semdown_held:
  assumes "sem_ok s" "curproc (spt s) = Some p" "position s p semid = Some i"
  shows "semdown semid s = semdown_section (nat semid) (stable_locked s)"
    and "holds_sem (procs (spt s)) p (nat semid)"
proof -
  have "p < NPROC" using sem_ok_current [OF assms(1,2)] by simp
  note i = position_Some [OF assms(1) this assms(3)]
  then show "semdown semid s = semdown_section (nat semid) (stable_locked s)"
    using assms(2,3) stable_acquire [OF sem_ok_ready [OF assms(1)]]
    by (simp add: semdown_def stable_section_def semdown_section_def kfun_simps searchinprocess_ret)
  show "holds_sem (procs (spt s)) p (nat semid)" using i by (auto simp: holds_sem_def)
qed

lemma semdown_not_held:
  assumes "sem_ok s" "curproc (spt s) = Some p" "position s p semid = None"
  shows "semdown semid s = Ret (- 1) (stable_unlocked (stable_locked s))"
  unfolding semdown_def
  by (rule stable_section_ret [OF sem_ok_ready [OF assms(1)]])
    (use assms(2,3) in \<open>simp_all add: kfun_simps searchinprocess_ret\<close>)

text \<open>
  A process the scheduler switches to while it is in the \<^verbatim>\<open>sleep\<close> of \<^verbatim>\<open>semdown\<close> takes the
  semaphore lock again, in a state that satisfies the invariant, and runs the loop.
\<close>

lemma pick_resume:
  assumes "sem_ok s" "curproc (spt s) = None" "ptab scheduler_pick s = Ret (Some p) t"
  shows "\<exists>v. sem_ok v \<and> curproc (spt v) = Some p \<and> sems v = sems s \<and>
    semdown_resume j t = semdown_section j (stable_locked v) \<and>
    osemaphore (procs (spt v) p) = osemaphore (procs (spt s) p)"
proof -
  have ok: "sched_ok (spt s)" using assms(1) by (simp add: sem_ok_def)
  obtain t0 where t0: "scheduler_pick (spt s) = Ret (Some p) t0" "t = s\<lparr>spt := t0\<rparr>"
    using assms(3) by (auto simp: ptab_def kfun_simps split: outcome.splits)
  have d: "sched_ok (unlocked_state PtableLock t0)" "curproc t0 = Some p" "switching t0"
    "state (procs (spt s) p) = RUNNABLE" "procs t0 = (procs (spt s))(p := (procs (spt s) p)\<lparr>state := RUNNING\<rparr>)"
    "\<forall>k. k \<noteq> PtableLock \<longrightarrow> locks t0 k = locks (spt s) k"
    using dispatch_sched_ok [OF ok assms(2) pick_runnable [OF ok t0(1)]] t0(1) by auto
  let ?t = "t0\<lparr>procs := (procs t0)(p := (procs t0 p)\<lparr>pchan := None\<rparr>)\<rparr>"
  let ?w = "unlocked_state PtableLock ?t"
  let ?v = "s\<lparr>spt := ?w\<rparr>"
  have "sched_ok ((unlocked_state PtableLock t0)\<lparr>procs := (procs (unlocked_state PtableLock t0))
      (p := (procs t0 p)\<lparr>pchan := None\<rparr>)\<rparr>)"
    using d(1) by (rule sched_ok_upd_same) simp_all
  note upd = this
  have sw: "switching ?t" using d(3) by (simp add: switching_def holding_def)
  have w: "sched_ok ?w" using upd by (rule sched_ok_cong) (simp_all add: switching_release(2) [OF sw])
  have st: "locked (locks ?w StableLock) = 0" using assms(1) d(6) by (simp add: sem_ok_def)
  have "refs_ok ?v"
  proof -
    have "holders (procs ?w) = holders (procs (spt s))" by (intro ext holders_cong) (auto simp: d(5))
    then show ?thesis using assms(1) by (auto simp: sem_ok_def refs_ok_def d(5))
  qed
  moreover have "waits_ok ?v"
    using assms(1) by (auto simp: sem_ok_def waits_ok_def waits_def holds_sem_def d(5) split: if_splits)
  ultimately have v: "sem_ok ?v" using w st by (simp add: sem_ok_def)
  have "sleep_resume StableLock t0 = Ret () (locked_state StableLock ?w)"
    using d(2) switching_release(1) [OF sw] acquire_ret [OF ready_free [OF sem_ok_ready [OF v]]]
    by (simp add: sleep_resume_def with_proc_def upd_proc_def kfun_simps)
  then have "semdown_resume j t = semdown_section j (stable_locked ?v)"
    by (simp add: semdown_resume_def semdown_section_def t0(2) ptab_def kfun_simps stable_locked_def)
  with v d(2,5) show ?thesis by (intro exI [of _ ?v]) simp
qed

subsection \<open>semup\<close>

lemma semup_not_held:
  assumes "sem_ok s" "curproc (spt s) = Some p" "position s p semid = None"
  shows "semup semid s = Ret (- 1) (stable_unlocked (stable_locked s))"
  using assms stable_acquire [OF sem_ok_ready [OF assms(1)]] stable_release(1) [OF sem_ok_ready [OF assms(1)] same_cpu_refl]
  by (simp add: semup_def kfun_simps searchinprocess_ret)

lemma semup_held:
  assumes "sem_ok s" "curproc (spt s) = Some p" "position s p semid = Some i"
  shows "\<exists>s'. semup semid s = Ret 0 s' \<and> sem_ok s' \<and> (\<forall>x<NPROC. \<not> waits (procs (spt s')) x (nat semid)) \<and>
    (\<forall>k. svalue (sems s' k) = svalue (sems s k) + (if k = nat semid then 1 else 0)) \<and>
    (\<forall>x<NPROC. waits (procs (spt s)) x (nat semid) \<longrightarrow> state (procs (spt s') x) = RUNNABLE)"
proof -
  let ?j = "nat semid"
  let ?t = "set_value ?j (svalue (sems s ?j) + 1) (stable_locked s)"
  let ?u = "stable_unlocked ?t"
  have "p < NPROC" using sem_ok_current [OF assms(1,2)] by simp
  note i = position_Some [OF assms(1) this assms(3)]
  note r = sem_ok_ready [OF assms(1)]
  have u: "sched_ok (spt ?u)" "locked (locks (spt ?u) StableLock) = 0"
    using sched_ok_locked_section [OF assms(1), of "stable_locked s" ?t] by auto
  have ru: "refs_ok ?u"
    using assms(1) sem_ok_cong(1) [of ?u ?t] sem_ok_cong(1) [of "stable_locked s" s] by (simp add: sem_ok_def)
  obtain q where q: "mlf_rep {} q (spt ?u)" using u(1) by (auto simp: sched_ok_def mlf_inv_def)
  obtain w q' where w: "wakeup (ChSem ?j) (spt ?u) = Ret () w" "curproc w = curproc (spt s)" "mlf_rep {} q' w"
    "ncli (cpu w) = ncli (cpu (spt ?u))" "lock_free PtableLock w"
    "\<forall>k. k \<noteq> PtableLock \<longrightarrow> locks w k = locks (spt ?u) k"
    "\<forall>x<NPROC. same_proc (woken (ChSem ?j) (procs (spt s) x)) (procs w x)"
    using wakeup_ret [OF q] sched_ok_idle [OF u(1)] by fastforce
  have f: "state (procs w x) = (if waits (procs (spt s)) x ?j then RUNNABLE else state (procs (spt s) x))"
    "pchan (procs w x) = pchan (procs (spt s) x)" "osemaphore (procs w x) = osemaphore (procs (spt s) x)"
    if "x < NPROC" for x
    using same_proc_fields(1,3,8) [OF w(7) [rule_format, OF that]]
    by (simp_all add: woken_state waits_def) (simp_all add: woken_def runnable_proc_def raise_def)
  let ?s' = "?u\<lparr>spt := w\<rparr>"
  have "(stable_locked s)\<lparr>sems := (sems s)(?j := (sems s ?j)\<lparr>svalue := svalue (sems s ?j) + 1\<rparr>)\<rparr> = ?t"
    by (simp add: set_value_def set_sem_def)
  moreover have "ptab (wakeup (ChSem ?j)) ?u = Ret () ?s'" using w(1) by (simp add: ptab_def kfun_simps)
  ultimately have "semup semid s = Ret 0 ?s'"
    using assms(2,3) stable_acquire [OF r] stable_release(1) [OF r, of ?t] i(2)
    by (simp add: semup_def kfun_simps searchinprocess_ret)
  moreover have "sched_ok w"
  proof -
    have "wakes (spt ?u) w" using w(2,7) by (intro same_woken_wakes [of "ChSem ?j"]) simp_all
    then show ?thesis
      using wakes_procs_ok [of "spt ?u" w] u(1) w(3-5) sched_ok_idle [OF u(1)]
      by (auto simp: sched_ok_def mlf_inv_def intro: free_idle)
  qed
  moreover have "refs_ok ?s'"
  proof -
    have "holders (procs w) = holders (procs (spt s))" by (intro ext holders_cong) (simp add: f)
    then show ?thesis using ru by (auto simp: refs_ok_def f)
  qed
  moreover have "waits_ok ?s'"
    using assms(1) by (auto simp: waits_ok_def waits_def holds_sem_def sem_ok_def f split: if_splits)
  moreover have "locked (locks w StableLock) = 0" using u(2) w(6) by simp
  ultimately show ?thesis
    by (intro exI [of _ ?s']) (auto simp: sem_ok_def waits_def f split: if_splits)
qed

subsection \<open>semclose and semdup\<close>

lemma unlocked_set_open: "stable_unlocked (set_open p os s) = set_open p os (stable_unlocked s)"
  by (auto simp: stable_unlocked_def set_open_def unlocked_state_def intro!: ssys.equality psys.equality)

text \<open>\<^verbatim>\<open>exit\<close> closes the semaphore of an entry and clears the entry.\<close>

lemma semclose_ok:
  assumes "sem_ok s" "p < NPROC" "i < MAXPROCSEM" "osemaphore (procs (spt s) p) i = Some j"
    and "state (procs (spt s) p) \<noteq> SLEEPING"
  shows "\<exists>t. semclose j s = Ret () t \<and>
    sem_ok (set_open p ((osemaphore (procs (spt s) p))(i := None)) t) \<and>
    (\<forall>k. svalue (sems t k) = svalue (sems s k)) \<and> references (sems t j) = references (sems s j) - 1"
proof -
  let ?t = "stable_unlocked (set_sem j ((sems s j)\<lparr>references := references (sems s j) - 1\<rparr>) (stable_locked s))"
  have "semclose j s = Ret () ?t"
    unfolding semclose_def
    by (rule stable_section_ret [OF sem_ok_ready [OF assms(1)]])
      (use held_used [OF assms(1-4)] in \<open>simp_all add: kfun_simps set_sem_def same_cpu_def\<close>)
  moreover have "sem_ok (set_open p ((osemaphore (procs (spt s) p))(i := None)) ?t)"
    using closed_ok [OF assms] by (simp add: closed_def unlocked_set_open)
  ultimately show ?thesis by auto
qed

text \<open>\<^verbatim>\<open>fork\<close> gives the child an entry for every semaphore of the parent.\<close>

lemma semdup_ok:
  assumes "sem_ok s" "p < NPROC" "i < MAXPROCSEM" "osemaphore (procs (spt s) p) i = Some j"
    and "np < NPROC" "k < MAXPROCSEM" "osemaphore (procs (spt s) np) k = None"
  shows "\<exists>t. semdup j s = Ret j t \<and>
    sem_ok (set_open np ((osemaphore (procs (spt s) np))(k := Some j)) t) \<and>
    (\<forall>k. svalue (sems t k) = svalue (sems s k)) \<and> references (sems t j) = references (sems s j) + 1"
proof -
  let ?t = "stable_unlocked (set_sem j ((sems s j)\<lparr>references := references (sems s j) + 1\<rparr>) (stable_locked s))"
  note h = held_used [OF assms(1-4)]
  have "semdup j s = Ret j ?t"
    unfolding semdup_def
    by (rule stable_section_ret [OF sem_ok_ready [OF assms(1)]])
      (use h in \<open>simp_all add: kfun_simps set_sem_def same_cpu_def\<close>)
  moreover have "sem_ok (set_open np ((osemaphore (procs (spt s) np))(k := Some j)) ?t)"
    using opened_ok [OF assms(1,5-7) h(1,3)] by (simp add: opened_def unlocked_set_open)
  ultimately show ?thesis by auto
qed

section \<open>Runs\<close>

datatype sem_event = ENew nat int | EGet nat | EFree nat | EDown nat | EWait nat | EUp nat
  | EClose nat | EDup nat | EFail | EEnv

inductive sem_step :: "ssys \<Rightarrow> sem_event \<Rightarrow> ssys \<Rightarrow> bool" where
  sem_new: "curproc (spt s) = Some p \<Longrightarrow> semget (- 1) v s = Ret (int j) s' \<Longrightarrow> sem_step s (ENew j v) s'"
| sem_get: "curproc (spt s) = Some p \<Longrightarrow> 0 \<le> semid \<Longrightarrow> semget semid v s = Ret (int j) s' \<Longrightarrow> sem_step s (EGet j) s'"
| sem_free: "curproc (spt s) = Some p \<Longrightarrow> semfree semid s = Ret 0 s' \<Longrightarrow> sem_step s (EFree (nat semid)) s'"
| sem_down: "curproc (spt s) = Some p \<Longrightarrow> semdown semid s = Ret 0 s' \<Longrightarrow> sem_step s (EDown (nat semid)) s'"
| sem_wait: "curproc (spt s) = Some p \<Longrightarrow> semdown semid s = Sleep c t \<Longrightarrow> ptab scheduler_resume t = Ret () s' \<Longrightarrow>
    sem_step s (EWait (nat semid)) s'"
| sem_resume: "curproc (spt s) = None \<Longrightarrow> ptab scheduler_pick s = Ret (Some p) t \<Longrightarrow>
    holds_sem (procs (spt s)) p j \<Longrightarrow> semdown_resume j t = Ret r s' \<Longrightarrow> sem_step s (EDown j) s'"
| sem_rewait: "curproc (spt s) = None \<Longrightarrow> ptab scheduler_pick s = Ret (Some p) t \<Longrightarrow>
    holds_sem (procs (spt s)) p j \<Longrightarrow> semdown_resume j t = Sleep c u \<Longrightarrow> ptab scheduler_resume u = Ret () s' \<Longrightarrow>
    sem_step s (EWait j) s'"
| sem_up: "curproc (spt s) = Some p \<Longrightarrow> semup semid s = Ret 0 s' \<Longrightarrow> sem_step s (EUp (nat semid)) s'"
| sem_close: "curproc (spt s) = Some p \<Longrightarrow> i < MAXPROCSEM \<Longrightarrow> osemaphore (procs (spt s) p) i = Some j \<Longrightarrow>
    semclose j s = Ret () t \<Longrightarrow> sem_step s (EClose j) (set_open p ((osemaphore (procs (spt s) p))(i := None)) t)"
| sem_dup: "curproc (spt s) = Some p \<Longrightarrow> i < MAXPROCSEM \<Longrightarrow> osemaphore (procs (spt s) p) i = Some j \<Longrightarrow>
    np < NPROC \<Longrightarrow> k < MAXPROCSEM \<Longrightarrow> osemaphore (procs (spt s) np) k = None \<Longrightarrow> semdup j s = Ret j t \<Longrightarrow>
    sem_step s (EDup j) (set_open np ((osemaphore (procs (spt s) np))(k := Some j)) t)"
| sem_fail: "curproc (spt s) = Some p \<Longrightarrow> m \<in> {semget semid v, semfree semid, semdown semid, semup semid} \<Longrightarrow>
    m s = Ret r s' \<Longrightarrow> r < 0 \<Longrightarrow> sem_step s EFail s'"
| sem_env: "sched_step (spt s) (spt s') \<Longrightarrow> sems s' = sems s \<Longrightarrow> locked (locks (spt s') StableLock) = 0 \<Longrightarrow>
    (\<And>p. p < NPROC \<Longrightarrow> osemaphore (procs (spt s') p) = osemaphore (procs (spt s) p)) \<Longrightarrow>
    (\<And>p j. p < NPROC \<Longrightarrow> waits (procs (spt s')) p j \<Longrightarrow> waits (procs (spt s)) p j) \<Longrightarrow> sem_step s EEnv s'"

inductive sem_run :: "ssys \<Rightarrow> sem_event list \<Rightarrow> ssys \<Rightarrow> bool" where
  sem_run_nil: "sem_run s [] s"
| sem_run_snoc: "sem_run s es t \<Longrightarrow> sem_step t e u \<Longrightarrow> sem_run s (es @ [e]) u"

text \<open>What an event does to the value of slot \<open>j\<close>.\<close>

fun value_after :: "nat \<Rightarrow> sem_event \<Rightarrow> int \<Rightarrow> int" where
  "value_after j (ENew k v) x = (if k = j then v else x)"
| "value_after j (EUp k) x = (if k = j then x + 1 else x)"
| "value_after j (EDown k) x = (if k = j then x - 1 else x)"
| "value_after j _ x = x"

definition event_ok :: "sem_event \<Rightarrow> ssys \<Rightarrow> ssys \<Rightarrow> bool" where
  "event_ok e s s' \<longleftrightarrow> sem_ok s' \<and> (\<forall>j. svalue (sems s' j) = value_after j e (svalue (sems s j))) \<and>
     (\<forall>j. e = EDown j \<longrightarrow> svalue (sems s j) > 0)"

lemma semget_event:
  assumes "sem_ok s" "curproc (spt s) = Some p" "semget semid v s = Ret r s'"
  shows "r < 0 \<Longrightarrow> event_ok EFail s s'"
    and "0 \<le> r \<Longrightarrow> event_ok (if semid = - 1 then ENew (nat r) v else EGet (nat r)) s s'"
proof -
  have p: "p < NPROC" using sem_ok_current [OF assms(1,2)] by simp
  have "(r < 0 \<longrightarrow> event_ok EFail s s') \<and> (0 \<le> r \<longrightarrow> event_ok (if semid = - 1 then ENew (nat r) v else EGet (nat r)) s s')"
  proof (cases "semid < - 1 \<or> semid \<ge> int MAXSEM")
    case True
    then show ?thesis using assms by (auto simp: semget_def kfun_simps event_ok_def)
  next
    case False
    then have rng: "- 1 \<le> semid" "semid < int MAXSEM" by auto
    note g = semget_ret [OF assms(1,2) rng, of v]
    show ?thesis
    proof (cases "semget_spec s p semid")
      case (Inl e)
      then have "e < 0" by (auto simp: semget_spec_def split: option.splits if_splits)
      with g Inl assms(1,3) show ?thesis by (auto simp: event_ok_def sem_ok_unchanged)
    next
      case (Inr ij)
      obtain i j where ij: "ij = (i, j)" by (cases ij)
      let ?x = "if semid = - 1 then (sems s j)\<lparr>sid := int j, svalue := v\<rparr> else sems s j"
      have h: "i < MAXPROCSEM" "osemaphore (procs (spt s) p) i = None" "j < MAXSEM"
        "semget semid v s = Ret (int j) (stable_unlocked (opened p i j ?x (stable_locked s)))"
        "if semid = - 1 then references (sems s j) = 0 else j = nat semid \<and> sid (sems s j) = int j"
        using g Inr ij by auto
      have "sem_ok (stable_unlocked (opened p i j ?x (stable_locked s)))"
        using h(5) by (intro opened_ok [OF assms(1) p h(1-3)]) (auto split: if_splits)
      then show ?thesis using h(4) assms(3) by (auto simp: event_ok_def opened_def)
    qed
  qed
  then show "r < 0 \<Longrightarrow> event_ok EFail s s'"
    and "0 \<le> r \<Longrightarrow> event_ok (if semid = - 1 then ENew (nat r) v else EGet (nat r)) s s'" by auto
qed

lemma event_ok_unchanged: "sem_ok s \<Longrightarrow> event_ok EFail s (stable_unlocked (stable_locked s))"
  by (simp add: event_ok_def sem_ok_unchanged)

lemma semfree_event:
  assumes "sem_ok s" "curproc (spt s) = Some p" "semfree semid s = Ret r s'"
  shows "r = 0 \<and> event_ok (EFree (nat semid)) s s' \<or> r < 0 \<and> event_ok EFail s s'"
proof (cases "position s p semid")
  case None
  with semfree_ret [OF assms(1,2), of semid] assms(3) event_ok_unchanged [OF assms(1)] show ?thesis by simp
next
  case (Some i)
  have p: "p < NPROC" "state (procs (spt s) p) \<noteq> SLEEPING" using sem_ok_current [OF assms(1,2)] by auto
  note i = position_Some [OF assms(1) p(1) Some]
  have "s' = stable_unlocked (closed p i (nat semid) (stable_locked s))" "r = 0"
    using semfree_ret [OF assms(1,2), of semid] assms(3) Some by auto
  then show ?thesis
    using closed_ok [OF assms(1) p(1) i(1,2) p(2)] by (auto simp: event_ok_def closed_def)
qed

lemma section_event:
  assumes "sem_ok s" "curproc (spt s) = Some p" "holds_sem (procs (spt s)) p j"
  shows "semdown_section j (stable_locked s) = Ret r s' \<Longrightarrow> r = 0 \<and> event_ok (EDown j) s s'"
    and "semdown_section j (stable_locked s) = Sleep c t \<Longrightarrow> ptab scheduler_resume t = Ret () s' \<Longrightarrow>
      event_ok (EWait j) s s'"
proof -
  have "(semdown_section j (stable_locked s) = Ret r s' \<longrightarrow> r = 0 \<and> event_ok (EDown j) s s') \<and>
    (semdown_section j (stable_locked s) = Sleep c t \<longrightarrow> ptab scheduler_resume t = Ret () s' \<longrightarrow> event_ok (EWait j) s s')"
  proof (cases "svalue (sems s j) > 0")
    case True
    from semdown_take [OF assms(1) True] True show ?thesis by (auto simp: event_ok_def)
  next
    case False
    then have "svalue (sems s j) \<le> 0" by simp
    from semdown_wait [OF assms this] show ?thesis by (auto simp: event_ok_def)
  qed
  then show "semdown_section j (stable_locked s) = Ret r s' \<Longrightarrow> r = 0 \<and> event_ok (EDown j) s s'"
    and "semdown_section j (stable_locked s) = Sleep c t \<Longrightarrow> ptab scheduler_resume t = Ret () s' \<Longrightarrow>
      event_ok (EWait j) s s'" by auto
qed

lemma semdown_event:
  assumes "sem_ok s" "curproc (spt s) = Some p"
  shows "semdown semid s = Ret r s' \<Longrightarrow> r = 0 \<and> event_ok (EDown (nat semid)) s s' \<or> r < 0 \<and> event_ok EFail s s'"
    and "semdown semid s = Sleep c t \<Longrightarrow> ptab scheduler_resume t = Ret () s' \<Longrightarrow> event_ok (EWait (nat semid)) s s'"
proof -
  have "(semdown semid s = Ret r s' \<longrightarrow> r = 0 \<and> event_ok (EDown (nat semid)) s s' \<or> r < 0 \<and> event_ok EFail s s') \<and>
    (semdown semid s = Sleep c t \<longrightarrow> ptab scheduler_resume t = Ret () s' \<longrightarrow> event_ok (EWait (nat semid)) s s')"
  proof (cases "position s p semid")
    case None
    with semdown_not_held [OF assms] event_ok_unchanged [OF assms(1)] show ?thesis by auto
  next
    case (Some i)
    note h = semdown_held [OF assms Some]
    from section_event [OF assms h(2)] show ?thesis unfolding h(1) by blast
  qed
  then show "semdown semid s = Ret r s' \<Longrightarrow> r = 0 \<and> event_ok (EDown (nat semid)) s s' \<or> r < 0 \<and> event_ok EFail s s'"
    and "semdown semid s = Sleep c t \<Longrightarrow> ptab scheduler_resume t = Ret () s' \<Longrightarrow> event_ok (EWait (nat semid)) s s'"
    by auto
qed

lemma semup_event:
  assumes "sem_ok s" "curproc (spt s) = Some p" "semup semid s = Ret r s'"
  shows "r = 0 \<and> event_ok (EUp (nat semid)) s s' \<or> r < 0 \<and> event_ok EFail s s'"
proof (cases "position s p semid")
  case None
  with semup_not_held [OF assms(1,2)] assms(3) event_ok_unchanged [OF assms(1)] show ?thesis by auto
next
  case (Some i)
  with semup_held [OF assms(1,2) Some] assms(3) show ?thesis by (auto simp: event_ok_def)
qed

lemma event_ok_sems: "event_ok e v s' \<Longrightarrow> sems v = sems s \<Longrightarrow> event_ok e s s'"
  by (simp add: event_ok_def)

lemma pick_holds:
  assumes "sem_ok s" "curproc (spt s) = None" "ptab scheduler_pick s = Ret (Some p) t" "holds_sem (procs (spt s)) p j"
  shows "\<exists>v. sem_ok v \<and> curproc (spt v) = Some p \<and> sems v = sems s \<and> holds_sem (procs (spt v)) p j \<and>
    semdown_resume j t = semdown_section j (stable_locked v)"
proof -
  obtain v where v: "sem_ok v" "curproc (spt v) = Some p" "sems v = sems s"
    "semdown_resume j t = semdown_section j (stable_locked v)"
    "osemaphore (procs (spt v) p) = osemaphore (procs (spt s) p)" using pick_resume [OF assms(1-3)] by blast
  with assms(4) show ?thesis by (intro exI [of _ v]) (simp add: holds_sem_def)
qed

lemma env_ok:
  assumes "sem_ok s" "sched_step (spt s) (spt s')" "sems s' = sems s" "locked (locks (spt s') StableLock) = 0"
    and os: "\<And>p. p < NPROC \<Longrightarrow> osemaphore (procs (spt s') p) = osemaphore (procs (spt s) p)"
    and w: "\<And>p j. p < NPROC \<Longrightarrow> waits (procs (spt s')) p j \<Longrightarrow> waits (procs (spt s)) p j"
  shows "event_ok EEnv s s'"
proof -
  have "holders (procs (spt s')) = holders (procs (spt s))"
    by (intro ext holders_cong) (simp add: os)
  then have "refs_ok s'" using assms(1,3) by (auto simp: sem_ok_def refs_ok_def os)
  moreover have "waits_ok s'"
    using assms(1,3) w by (auto simp: sem_ok_def waits_ok_def holds_sem_def os)
  moreover have "sched_ok (spt s')" using sched_step_ok [OF assms(2)] assms(1) by (simp add: sem_ok_def)
  ultimately show ?thesis using assms(3,4) by (simp add: event_ok_def sem_ok_def)
qed

lemma sem_step_ok: "sem_step s e s' \<Longrightarrow> sem_ok s \<Longrightarrow> event_ok e s s'"
proof (induction rule: sem_step.induct)
  case (sem_new s p v j s')
  from semget_event(2) [OF sem_new(3,1,2)] show ?case by simp
next
  case (sem_get s p semid v j s')
  from semget_event(2) [OF sem_get(4,1,3)] sem_get(2) show ?case by simp
next
  case (sem_free s p semid s')
  from semfree_event [OF sem_free(3,1,2)] show ?case by simp
next
  case (sem_down s p semid s')
  from semdown_event(1) [OF sem_down(3,1,2)] show ?case by simp
next
  case (sem_wait s p semid c t s')
  from semdown_event(2) [OF sem_wait(4,1,2,3)] show ?case .
next
  case (sem_resume s p t j r s')
  from pick_holds [OF sem_resume(5,1-3)] obtain v where v: "sem_ok v" "curproc (spt v) = Some p" "sems v = sems s"
    "holds_sem (procs (spt v)) p j" "semdown_section j (stable_locked v) = Ret r s'"
    using sem_resume(4) by auto
  from section_event(1) [OF v(1,2,4,5)] v(3) show ?case by (auto intro: event_ok_sems)
next
  case (sem_rewait s p t j c u s')
  from pick_holds [OF sem_rewait(6,1-3)] obtain v where v: "sem_ok v" "curproc (spt v) = Some p" "sems v = sems s"
    "holds_sem (procs (spt v)) p j" "semdown_section j (stable_locked v) = Sleep c u"
    using sem_rewait(4) by auto
  from section_event(2) [OF v(1,2,4,5) sem_rewait(5)] v(3) show ?case by (auto intro: event_ok_sems)
next
  case (sem_up s p semid s')
  from semup_event [OF sem_up(3,1,2)] show ?case by simp
next
  case (sem_close s p i j t)
  have "p < NPROC" "state (procs (spt s) p) \<noteq> SLEEPING" using sem_ok_current [OF sem_close(5,1)] by auto
  from semclose_ok [OF sem_close(5) this(1) sem_close(2,3) this(2)] sem_close(4) show ?case
    by (auto simp: event_ok_def)
next
  case (sem_dup s p i j np k t)
  have "p < NPROC" using sem_ok_current [OF sem_dup(8,1)] by auto
  from semdup_ok [OF sem_dup(8) this sem_dup(2,3,4,5,6)] sem_dup(7) show ?case by (auto simp: event_ok_def)
next
  case (sem_fail s p m semid v r s')
  with semget_event(1) [OF sem_fail(5,1)] semfree_event [OF sem_fail(5,1)] semdown_event(1) [OF sem_fail(5,1)]
    semup_event [OF sem_fail(5,1)] show ?case by fastforce
next
  case (sem_env s s')
  then show ?case by (intro env_ok) auto
qed

lemma sem_run_ok: "sem_run s es s' \<Longrightarrow> sem_ok s \<Longrightarrow> sem_ok s'"
  by (induction rule: sem_run.induct) (auto dest: sem_step_ok simp: event_ok_def)

section \<open>Example\<close>

definition sem_demo :: ssys where
  "sem_demo = \<lparr>spt = sched_demo\<lparr>procs := (procs sched_demo)(2 := zero_proc)\<rparr>,
     sems = (\<lambda>_. \<lparr>sid = 0, references = 0, svalue = 0\<rparr>)\<rparr>"

lemma sem_demo_ok: "sem_ok sem_demo"
proof -
  have "sched_ok (sched_demo\<lparr>procs := (procs sched_demo)(2 := zero_proc)\<rparr>)"
    by (rule upd_sched_ok [OF sched_demo_ok])
      (simp_all add: sched_demo_simps off_cpu_def alive_def NPROC_def zero_proc_def MLFLEVELS_def)
  moreover have no: "osemaphore (procs (spt sem_demo) p) i = None" "state (procs (spt sem_demo) p) \<noteq> SLEEPING" for p i
    by (simp_all add: sem_demo_def sched_demo_def sched_boot_def zero_proc_def)
  moreover have "locked (locks (spt sem_demo) StableLock) = 0"
    by (simp add: sem_demo_def sched_demo_def sched_boot_def initlock_def)
  moreover have "holders (procs (spt sem_demo)) j = 0" for j by (simp add: holders_def no)
  ultimately show ?thesis
    by (simp add: sem_ok_def refs_ok_def waits_ok_def waits_def no) (simp add: sem_demo_def)
qed

lemma sem_demo_simps:
  "curproc (spt sem_demo) = Some 0" "osemaphore (procs (spt sem_demo) 0) i = None"
  "references (sems sem_demo j) = 0" "sid (sems sem_demo j) = 0"
  by (simp_all add: sem_demo_def sched_demo_def zero_proc_def)

text \<open>The first \<^verbatim>\<open>semget(-1, 1)\<close>, and \<^verbatim>\<open>semdown\<close> and \<^verbatim>\<open>semup\<close> on the new semaphore.\<close>

lemma sem_demo_new:
  "\<exists>s'. semget (- 1) 1 sem_demo = Ret 0 s' \<and> sem_step sem_demo (ENew 0 1) s' \<and> sem_ok s' \<and>
    curproc (spt s') = Some 0 \<and> holds_sem (procs (spt s')) 0 0 \<and> svalue (sems s' 0) = 1"
proof -
  have "semget_spec sem_demo 0 (- 1) = Inr (0, 0)"
    by (simp add: semget_spec_def sem_demo_simps first_index_def MAXPROCSEM_def MAXSEM_def upt_rec)
  with semget_ret [OF sem_demo_ok sem_demo_simps(1), of "- 1" 1]
  obtain s' where s': "semget (- 1) 1 sem_demo = Ret 0 s'"
    "s' = stable_unlocked (opened 0 0 0 ((sems sem_demo 0)\<lparr>sid := int 0, svalue := 1\<rparr>) (stable_locked sem_demo))"
    by (simp add: MAXSEM_def)
  have "sem_step sem_demo (ENew 0 1) s'"
    using s'(1) sem_demo_simps(1) by (intro sem_new) simp_all
  moreover from sem_step_ok [OF this sem_demo_ok] have "sem_ok s'" by (simp add: event_ok_def)
  ultimately show ?thesis
    using s' sem_demo_simps(1) by (auto simp: opened_def holds_sem_def MAXPROCSEM_def)
qed

lemma sem_step_down:
  assumes "sem_ok s" "curproc (spt s) = Some p" "holds_sem (procs (spt s)) p j" "svalue (sems s j) > 0"
  shows "\<exists>s'. sem_step s (EDown j) s' \<and> sem_ok s' \<and> procs (spt s') = procs (spt s) \<and> curproc (spt s') = Some p"
proof -
  let ?s' = "stable_unlocked (set_value j (svalue (sems s j) - 1) (stable_locked s))"
  have "p < NPROC" using sem_ok_current [OF assms(1,2)] by simp
  then obtain i where i: "position s p (int j) = Some i"
    using position_None [OF assms(1), of p j] assms(3) by auto
  from semdown_held(1) [OF assms(1,2) i] semdown_take(1) [OF assms(1,4)]
  have "semdown (int j) s = Ret 0 ?s'" by simp
  then have "sem_step s (EDown (nat (int j))) ?s'" by (intro sem_down [OF assms(2)])
  with semdown_take(2) [OF assms(1,4)] assms(2) show ?thesis by (intro exI [of _ ?s']) simp
qed

lemma sem_step_up:
  assumes "sem_ok s" "curproc (spt s) = Some p" "holds_sem (procs (spt s)) p j"
  shows "\<exists>s'. sem_step s (EUp j) s'"
proof -
  have "p < NPROC" using sem_ok_current [OF assms(1,2)] by simp
  then obtain i where i: "position s p (int j) = Some i"
    using position_None [OF assms(1), of p j] assms(3) by auto
  from semup_held [OF assms(1,2) i] obtain s' where "semup (int j) s = Ret 0 s'" by blast
  then have "sem_step s (EUp (nat (int j))) s'" by (intro sem_up [OF assms(2)])
  then show ?thesis by auto
qed

section \<open>Properties\<close>







end
