(* ===== verification/Ring.thy ===== *)
theory Ring
  imports Prelude
begin

text \<open>
  Ring buffers with free-running 32-bit counters, as the pipe and the console input use them: the buffer has
  \<open>n\<close> places, the bytes between the counters \<open>r\<close> and \<open>w\<close> are at those counters modulo \<open>n\<close>, and the
  counters wrap around at \<open>2 ^ 32\<close>.  The size divides \<open>2 ^ 32\<close>, so the places survive the wrap-around.
\<close>

definition ring_list :: "nat \<Rightarrow> (nat \<Rightarrow> 'b) \<Rightarrow> uint \<Rightarrow> uint \<Rightarrow> 'b list" where
  "ring_list n buf r w = map (\<lambda>k. buf (unat (r + of_nat k) mod n)) [0..<unat (w - r)]"

lemma ring_list_length [simp]: "length (ring_list n buf r w) = unat (w - r)"
  by (simp add: ring_list_def)

lemma ring_list_empty [simp]: "ring_list n buf r r = []"
  by (simp add: ring_list_def)

lemma ring_list_Nil: "ring_list n buf r w = [] \<longleftrightarrow> r = w"
  by (auto simp: ring_list_def unat_eq_zero)

lemma unat_suc_diff: "w \<noteq> r \<Longrightarrow> unat ((w :: uint) - r) = Suc (unat (w - (r + 1)))"
proof -
  assume "w \<noteq> r"
  then have "w - r \<noteq> 0" by simp
  then have "unat (w - r - 1) = unat (w - r) - 1" "unat (w - r) \<noteq> 0" by (simp_all add: unat_minus_one unat_eq_zero)
  moreover have "w - r - 1 = w - (r + 1)" by simp
  ultimately show ?thesis by simp
qed

lemma unat_diff_suc: "unat ((w :: uint) - r) < 2 ^ 32 - 1 \<Longrightarrow> unat (w + 1 - r) = Suc (unat (w - r))"
proof -
  assume lt: "unat (w - r) < 2 ^ 32 - 1"
  have "w + 1 \<noteq> r"
  proof
    assume "w + 1 = r"
    then have "w - r = - 1" by auto
    then show False using lt by (simp add: unat_uint_minus_one)
  qed
  from unat_suc_diff [OF this] show ?thesis by simp
qed

lemma ring_list_get:
  assumes "r \<noteq> w"
  shows "ring_list n buf r w = buf (unat r mod n) # ring_list n buf (r + 1) w"
proof (rule nth_equalityI)
  show "length (ring_list n buf r w) = length (buf (unat r mod n) # ring_list n buf (r + 1) w)"
    using unat_suc_diff [OF assms [symmetric]] by simp
next
  fix i assume "i < length (ring_list n buf r w)"
  then show "ring_list n buf r w ! i = (buf (unat r mod n) # ring_list n buf (r + 1) w) ! i"
    using unat_suc_diff [OF assms [symmetric]] by (cases i) (simp_all add: ring_list_def add.assoc del: upt_Suc)
qed

lemma ring_list_append:
  assumes "unat (w - r) \<le> unat (e - r)"
  shows "ring_list n buf r e = ring_list n buf r w @ ring_list n buf w e"
proof -
  have "e - w = (e - r) - (w - r)" by simp
  then have d: "unat (e - w) = unat (e - r) - unat (w - r)" using assms by (simp only: unat_sub word_le_nat_alt)
  have "[0..<unat (e - r)] = [0..<unat (w - r)] @ [unat (w - r)..<unat (e - r)]"
    using assms upt_add_eq_append [of 0 "unat (w - r)" "unat (e - r) - unat (w - r)"] by simp
  moreover have "[unat (w - r)..<unat (e - r)] = map (\<lambda>k. k + unat (w - r)) [0..<unat (e - w)]"
    unfolding d map_add_upt using assms by simp
  moreover have "r + of_nat (k + unat (w - r)) = w + of_nat k" for k by simp
  ultimately show ?thesis unfolding ring_list_def by (simp only: map_append map_map comp_def)
qed

lemma ring_list_drop_last:
  assumes "e \<noteq> w"
  shows "ring_list n buf w (e - 1) = butlast (ring_list n buf w e)" "last (ring_list n buf w e) = buf (unat (e - 1) mod n)"
proof -
  have d: "unat (e - w) = Suc (unat (e - 1 - w))" using unat_suc_diff [OF assms] by (simp add: algebra_simps)
  show "ring_list n buf w (e - 1) = butlast (ring_list n buf w e)" by (simp add: ring_list_def d)
  have "w + of_nat (unat (e - 1 - w)) = e - 1" by simp
  then show "last (ring_list n buf w e) = buf (unat (e - 1) mod n)" by (simp add: ring_list_def d)
qed

lemma ring_shrink:
  assumes "unat (w - r) \<le> unat (e - r)" "e \<noteq> (w :: uint)"
  shows "unat (w - r) \<le> unat (e - 1 - r)" "unat (e - 1 - r) < unat (e - r)"
proof -
  have ne: "unat (w - r) \<noteq> unat (e - r)" using assms(2) by (simp add: word_unat_eq_iff [symmetric])
  then have "e \<noteq> r" using assms(1) by auto
  from unat_suc_diff [OF this] have "unat (e - r) = Suc (unat (e - 1 - r))" by (simp add: diff_diff_eq add.commute)
  then show "unat (w - r) \<le> unat (e - 1 - r)" "unat (e - 1 - r) < unat (e - r)" using assms(1) ne by auto
qed

locale ring =
  fixes size :: nat
  assumes size_pos: "0 < size" and size_dvd: "size dvd 2 ^ 32"
begin

lemma size_le: "size \<le> 2 ^ 32"
  using size_dvd by (rule dvd_imp_le) simp

lemma place_inj:
  assumes "unat ((w :: uint) - r) < size" "k < unat (w - r)"
  shows "unat (r + of_nat k) mod size \<noteq> unat w mod size"
proof
  assume e: "unat (r + of_nat k) mod size = unat w mod size"
  define d where "d = unat (w - r) - k"
  have d: "0 < d" "d < size" "unat (w - r) = k + d" using assms by (auto simp: d_def)
  have "w - r = of_nat (k + d)" unfolding d(3) [symmetric] by simp
  then have "w = (r + of_nat k) + of_nat d" by (simp add: algebra_simps)
  then have "unat w = (unat (r + of_nat k) + unat (of_nat d :: uint)) mod 2 ^ 32" by (simp only: unat_word_ariths(1)) simp
  also have "unat (of_nat d :: uint) = d" using d(2) size_le by (simp add: unat_of_nat)
  finally have "unat w mod size = (unat (r + of_nat k) + d) mod size" using size_dvd by (simp add: mod_mod_cancel)
  then have "(unat (r + of_nat k) + d) mod size = unat (r + of_nat k) mod size" using e by simp
  then have "size dvd (unat (r + of_nat k) + d) - unat (r + of_nat k)" by (simp add: mod_eq_dvd_iff_nat)
  then have "size dvd d" by simp
  with d(1,2) show False by (auto dest: dvd_imp_le)
qed

lemma ring_list_put:
  assumes "unat (w - r) < size" "unat (w - r) < 2 ^ 32 - 1"
  shows "ring_list size (buf(unat w mod size := c)) r (w + 1) = ring_list size buf r w @ [c]"
proof -
  have "map (\<lambda>k. (buf(unat w mod size := c)) (unat (r + of_nat k) mod size)) [0..<unat (w - r)] = ring_list size buf r w"
    unfolding ring_list_def using place_inj [OF assms(1)] by (intro map_cong) auto
  moreover have "r + of_nat (unat (w - r)) = w" by simp
  ultimately show ?thesis by (simp only: ring_list_def unat_diff_suc [OF assms(2)] upt_Suc_append [OF le0] map_append) simp
qed

end

end
