(* ===== verification/Console.thy ===== *)
theory Console
  imports Ring
begin

text \<open>
  The console of \<^verbatim>\<open>console.c\<close>: output to the serial port and to the screen, formatted printing, and the
  line editor of the input.

  The bytes sent to the serial port are recorded in order.  The screen is the CGA memory with the cursor
  position, which the code keeps in registers of the device.  The sections under \<^verbatim>\<open>cons.lock\<close> and
  \<^verbatim>\<open>input.lock\<close> are atomic.  The functions that need processes or inodes are in theory \<open>Kernel\<close>.
\<close>

section \<open>State\<close>

record console =
  uartout :: "uchar list"
  crt :: "nat \<Rightarrow> ushort"
  cursor :: nat
  panicked :: bool
  cbuf :: "nat \<Rightarrow> uchar"
  cr :: uint
  cw :: uint
  ce :: uint
  cwakes :: "chan list"

definition BACKSPACE :: int where "BACKSPACE = 0x100"
definition INPUT_BUF :: nat where "INPUT_BUF = 128"

section \<open>Output\<close>

definition uart :: "uchar \<Rightarrow> (unit, 'a console_scheme) kfun" where
  "uart b = modify (\<lambda>s. s\<lparr>uartout := uartout s @ [b]\<rparr>)"

text \<open>Where the character goes: the new contents of the screen and the new position, before scrolling.\<close>

definition cga_put :: "int \<Rightarrow> (nat \<Rightarrow> ushort) \<Rightarrow> nat \<Rightarrow> (nat \<Rightarrow> ushort) \<times> nat" where
  "cga_put c m pos =
     (if c = 10 then (m, pos + (80 - pos mod 80))
      else if c = BACKSPACE then (m, if pos > 0 then pos - 1 else pos)
      else (m(pos := (word_of_int c AND 0xFF) OR 0x0700), pos + 1))"

definition cga_scroll :: "(nat \<Rightarrow> ushort) \<Rightarrow> nat \<Rightarrow> nat \<Rightarrow> ushort" where
  "cga_scroll m pos = (\<lambda>i. if pos \<le> i \<and> i < 24 * 80 then 0 else if i < 23 * 80 then m (i + 80) else m i)"

text \<open>A cursor below the last line would make the length of the \<^verbatim>\<open>memset\<close> negative.\<close>

definition cgaputc :: "int \<Rightarrow> (unit, 'a console_scheme) kfun" where
  "cgaputc c = (\<lambda>s.
     let (m, pos) = cga_put c (crt s) (cursor s) in
     if pos div 80 \<ge> 24 then
       (let pos = pos - 80 in
        if pos > 24 * 80 then Fault
        else Ret () (s\<lparr>crt := (cga_scroll m pos)(pos := 0x0720), cursor := pos\<rparr>))
     else Ret () (s\<lparr>crt := m(pos := 0x0720), cursor := pos\<rparr>))"

definition consputc :: "int \<Rightarrow> (unit, 'a console_scheme) kfun" where
  "consputc c =
     branch panicked (\<lambda>s. Spin)
    (seq (if c = BACKSPACE then seq (uart 8) (seq (uart 32) (uart 8)) else uart (word_of_int c))
         (cgaputc c))"

text \<open>The digits, least significant first; \<open>None\<close> when they do not fit into the rest of \<^verbatim>\<open>buf\<close>.\<close>

definition digit :: "uint \<Rightarrow> uchar" where
  "digit d = (if d < 10 then ucast (48 + d) else ucast (87 + d))"

fun printint_buf :: "nat \<Rightarrow> uint \<Rightarrow> uint \<Rightarrow> uchar list option" where
  "printint_buf 0 x base = None"
| "printint_buf (Suc n) x base =
     map_option (Cons (digit (x mod base))) (if x div base \<noteq> 0 then printint_buf n (x div base) base else Some [])"

definition printint_chars :: "uint \<Rightarrow> uint \<Rightarrow> bool \<Rightarrow> uchar list option" where
  "printint_chars xx base sgnd =
     (let neg = (sgnd \<and> sint xx < 0); x = (if neg then - xx else xx) in
      case printint_buf 16 x base of
        None \<Rightarrow> None
      | Some ds \<Rightarrow> if neg then if length ds < 16 then Some (45 # rev ds) else None else Some (rev ds))"

definition printint :: "uint \<Rightarrow> uint \<Rightarrow> bool \<Rightarrow> (unit, 'a console_scheme) kfun" where
  "printint xx base sgnd =
     (case printint_chars xx base sgnd of None \<Rightarrow> fault | Some cs \<Rightarrow> for_each cs (\<lambda>c. consputc (uint c)))"

text \<open>
  \<^verbatim>\<open>cprintf\<close>: the format is the list of its bytes, the arguments are words, and \<open>str\<close> reads a string from
  memory.  A missing argument reads past the caller's arguments.
\<close>

fun cprintf_loop :: "(uint \<Rightarrow> uchar list) \<Rightarrow> uchar list \<Rightarrow> uint list \<Rightarrow> (unit, 'a console_scheme) kfun" where
  "cprintf_loop str [] args = return ()"
| "cprintf_loop str [c] args = (if c \<noteq> 37 then consputc (uint c) else return ())"
| "cprintf_loop str (c # d # fmt) args =
     (if c \<noteq> 37 then seq (consputc (uint c)) (cprintf_loop str (d # fmt) args)
      else if d = 100 then
        (case args of [] \<Rightarrow> fault | a # args \<Rightarrow> seq (printint a 10 True) (cprintf_loop str fmt args))
      else if d = 120 \<or> d = 112 then
        (case args of [] \<Rightarrow> fault | a # args \<Rightarrow> seq (printint a 16 False) (cprintf_loop str fmt args))
      else if d = 115 then
        (case args of [] \<Rightarrow> fault | a # args \<Rightarrow>
           seq (for_each (if a = 0 then [40, 110, 117, 108, 108, 41] else str a) (\<lambda>c. consputc (sint c)))
               (cprintf_loop str fmt args))
      else if d = 37 then seq (consputc 37) (cprintf_loop str fmt args)
      else seq (consputc 37) (seq (consputc (uint d)) (cprintf_loop str fmt args)))"

definition cprintf :: "(uint \<Rightarrow> uchar list) \<Rightarrow> uchar list \<Rightarrow> uint list \<Rightarrow> (unit, 'a console_scheme) kfun" where
  "cprintf str fmt args = cprintf_loop str fmt args"

section \<open>Input\<close>

definition ctl :: "int \<Rightarrow> int" where "ctl x = x - 64"

fun kill_line :: "nat \<Rightarrow> (unit, 'a console_scheme) kfun" where
  "kill_line 0 = (\<lambda>s. Spin)"
| "kill_line (Suc k) =
     branch (\<lambda>s. ce s \<noteq> cw s \<and> cbuf s (unat (ce s - 1) mod INPUT_BUF) \<noteq> 10)
       (seq (modify (\<lambda>s. s\<lparr>ce := ce s - 1\<rparr>)) (seq (consputc BACKSPACE) (kill_line k)))
       (return ())"

text \<open>One character of \<^verbatim>\<open>consoleintr\<close>, all cases but the process listing.\<close>

definition cons_key :: "int \<Rightarrow> (unit, 'a console_scheme) kfun" where
  "cons_key c =
     (if c = ctl 85 then (\<lambda>s. kill_line (Suc (unat (ce s - cw s))) s)
      else if c = ctl 72 \<or> c = 127 then
        branch (\<lambda>s. ce s \<noteq> cw s) (seq (modify (\<lambda>s. s\<lparr>ce := ce s - 1\<rparr>)) (consputc BACKSPACE)) (return ())
      else
        branch (\<lambda>s. c \<noteq> 0 \<and> ce s - cr s < of_nat INPUT_BUF)
          (let c = (if c = 13 then 10 else c) in
           seq (modify (\<lambda>s. s\<lparr>cbuf := (cbuf s)(unat (ce s) mod INPUT_BUF := word_of_int c), ce := ce s + 1\<rparr>))
          (seq (consputc c)
               (branch (\<lambda>s. c = 10 \<or> c = ctl 68 \<or> ce s = cr s + of_nat INPUT_BUF)
                  (modify (\<lambda>s. s\<lparr>cw := ce s, cwakes := cwakes s @ [ChInput]\<rparr>))
                  (return ()))))
          (return ()))"

section \<open>Numbers\<close>

definition undigit :: "uchar \<Rightarrow> nat" where
  "undigit c = (if c < 58 then unat c - 48 else unat c - 87)"

text \<open>The number written by a list of digits, and by a decimal with a sign.\<close>

definition num :: "nat \<Rightarrow> uchar list \<Rightarrow> nat" where
  "num base cs = foldl (\<lambda>n c. n * base + undigit c) 0 cs"

definition dec_value :: "uchar list \<Rightarrow> int" where
  "dec_value cs = (if cs \<noteq> [] \<and> hd cs = 45 then - int (num 10 (tl cs)) else int (num 10 cs))"

lemma num_snoc: "num base (cs @ [c]) = num base cs * base + undigit c"
  by (simp add: num_def)

lemma unat_digit: "d < 16 \<Longrightarrow> unat (digit d) = (if d < 10 then 48 + unat d else 87 + unat d)"
proof -
  assume "d < 16"
  then have d: "unat d < 16" by (simp add: word_less_nat_alt)
  then have "unat (48 + d) = 48 + unat d" "unat (87 + d) = 87 + unat d" by (simp_all add: unat_word_ariths(1))
  then show ?thesis using d
    by (auto simp: digit_def word_less_nat_alt unat_ucast_uchar)
qed

lemma undigit_digit: "d < 16 \<Longrightarrow> undigit (digit d) = unat d"
  using unat_digit [of d] by (auto simp: undigit_def word_less_nat_alt)

lemma digit_not_minus: "d < 16 \<Longrightarrow> digit d \<noteq> 45"
  using unat_digit [of d] by (auto split: if_splits)

lemma printint_buf_digits:
  assumes "unat x < b ^ n" "0 < n" "b = unat base" "2 \<le> b" "b \<le> 16" "n \<le> k"
  shows "\<exists>ds. printint_buf k x base = Some ds \<and> num b (rev ds) = unat x \<and> 0 < length ds \<and> length ds \<le> n \<and> 45 \<notin> set ds"
  using assms(1,2,6)
proof (induction n arbitrary: x k)
  case (Suc n)
  then obtain k' where k: "k = Suc k'" by (cases k) auto
  have "x mod base < 16"
    using assms(3-5) by (simp add: word_less_nat_alt unat_mod) (meson le_trans mod_less_divisor not_le order_less_le_trans zero_less_numeral)
  note d = undigit_digit [OF this] digit_not_minus [OF this]
  have m: "unat (x mod base) = unat x mod b" "unat (x div base) = unat x div b" using assms(3) by (simp_all add: unat_mod unat_div)
  show ?case
  proof (cases "x div base = 0")
    case True
    then have "unat x div b = 0" using m(2) by simp
    then have "unat x mod b = unat x" using assms(4) by (metis div_mult_mod_eq add_0 mult_zero_left)
    then show ?thesis using True k d m(1) by (simp add: num_def)
  next
    case False
    then have nz: "unat x div b \<noteq> 0" using m(2) by (metis unat_eq_zero)
    then have n: "0 < n" using Suc.prems(1) by (cases n) auto
    have "unat (x div base) < b ^ n" using Suc.prems(1) m(2) assms(4) by (simp add: div_less_iff_less_mult mult.commute)
    from Suc.IH [OF this n, of k'] obtain ds where ds: "printint_buf k' (x div base) base = Some ds"
      "num b (rev ds) = unat (x div base)" "length ds \<le> n" "45 \<notin> set ds" using Suc.prems(3) k by auto
    have "num b (rev (digit (x mod base) # ds)) = unat x"
      using ds(2) d(1) m by (simp add: num_snoc)
    then show ?thesis using False k ds d(2) by simp
  qed
qed simp

lemma printint_buf_dec:
  "unat x < 10 ^ 10 \<Longrightarrow>
     \<exists>ds. printint_buf 16 x 10 = Some ds \<and> num 10 (rev ds) = unat x \<and> 0 < length ds \<and> length ds \<le> 10 \<and> 45 \<notin> set ds"
  by (rule printint_buf_digits, assumption) simp_all

lemma printint_buf_hex:
  "unat x < 16 ^ 8 \<Longrightarrow>
     \<exists>ds. printint_buf 16 x 16 = Some ds \<and> num 16 (rev ds) = unat x \<and> 0 < length ds \<and> length ds \<le> 8 \<and> 45 \<notin> set ds"
  by (rule printint_buf_digits, assumption) simp_all

text \<open>
  C36. \<^verbatim>\<open>printint\<close> prints the number it is given and stays within its buffer of 16 bytes: in decimal the
  characters are the value as a signed number, at most eleven of them, and in hexadecimal the value as an
  unsigned number, at most eight of them.  This covers the most negative number, whose negation wraps around.
\<close>

theorem printint_prints:
  "(\<exists>cs. printint_chars xx 10 True = Some cs \<and> dec_value cs = sint xx \<and> length cs \<le> 11) \<and>
   (\<exists>cs. printint_chars xx 16 False = Some cs \<and> num 16 cs = unat xx \<and> length cs \<le> 8)"
proof
  have lt: "unat xx < 4294967296" using unsigned_less [of xx] by simp
  define x where "x = (if sint xx < 0 then - xx else xx)"
  have "unat x < 4294967296" using unsigned_less [of x] by simp
  then have "unat x < 10 ^ 10" by simp
  then obtain ds where ds: "printint_buf 16 x 10 = Some ds" "num 10 (rev ds) = unat x" "0 < length ds" "length ds \<le> 10" "45 \<notin> set ds"
    using printint_buf_dec by blast
  have neg: "- int (unat x) = sint xx" if "sint xx < 0"
  proof -
    have "xx \<noteq> 0" using that by auto
    then show ?thesis using that uint_bounds(2) [of xx] by (simp add: x_def uint_uminus sint_neg)
  qed
  have pos: "int (unat x) = sint xx" if "\<not> sint xx < 0"
    using that by (simp add: x_def sint_nonneg)
  have "hd (rev ds) \<noteq> 45" using ds(3,5) hd_in_set [of "rev ds"] by auto
  moreover have "printint_chars xx 10 True = Some (if sint xx < 0 then 45 # rev ds else rev ds)"
    using ds(1,4) unfolding printint_chars_def Let_def x_def by simp
  ultimately show "\<exists>cs. printint_chars xx 10 True = Some cs \<and> dec_value cs = sint xx \<and> length cs \<le> 11"
    using ds(2,4) neg pos by (cases "sint xx < 0") (simp_all add: dec_value_def)
  have "unat xx < 16 ^ 8" using lt by simp
  then obtain ds where ds: "printint_buf 16 xx 16 = Some ds" "num 16 (rev ds) = unat xx" "length ds \<le> 8"
    using printint_buf_hex by blast
  then show "\<exists>cs. printint_chars xx 16 False = Some cs \<and> num 16 cs = unat xx \<and> length cs \<le> 8"
    by (simp add: printint_chars_def)
qed

section \<open>The line editor\<close>

interpretation cons_ring: ring INPUT_BUF
  by unfold_locales (simp_all add: INPUT_BUF_def)

text \<open>The input that readers may take, and the line being typed.\<close>

definition ready_input :: "'a console_scheme \<Rightarrow> uchar list" where
  "ready_input s = ring_list INPUT_BUF (cbuf s) (cr s) (cw s)"

definition typed_line :: "'a console_scheme \<Rightarrow> uchar list" where
  "typed_line s = ring_list INPUT_BUF (cbuf s) (cw s) (ce s)"

definition cons_ok :: "'a console_scheme \<Rightarrow> bool" where
  "cons_ok s \<longleftrightarrow> \<not> panicked s \<and> cursor s < 24 * 80 \<and> unat (cw s - cr s) \<le> unat (ce s - cr s) \<and>
     unat (ce s - cr s) \<le> INPUT_BUF \<and> 10 \<notin> set (typed_line s)"

text \<open>What a key does to the two lists.\<close>

definition key_spec :: "int \<Rightarrow> uchar list \<times> uchar list \<Rightarrow> uchar list \<times> uchar list" where
  "key_spec c ab = (case ab of (a, b) \<Rightarrow>
     if c = ctl 85 then (a, [])
     else if c = ctl 72 \<or> c = 127 then (a, butlast b)
     else if c = 0 \<or> length a + length b \<ge> INPUT_BUF then (a, b)
     else
       let c = (if c = 13 then 10 else c); b = b @ [word_of_int c] in
       if c = 10 \<or> c = ctl 68 \<or> length a + length b = INPUT_BUF then (a @ b, []) else (a, b))"

lemma cgaputc_ret:
  assumes "cursor s < 24 * 80"
  shows "\<exists>m p. cgaputc c s = Ret () (s\<lparr>crt := m, cursor := p\<rparr>) \<and> p < 24 * 80 \<and> (\<forall>i\<ge>24 * 80. m i = crt s i)"
proof -
  obtain m p where mp: "cga_put c (crt s) (cursor s) = (m, p)" by fastforce
  have "cursor s div 80 < 24" using assms by (simp add: div_less_iff_less_mult)
  moreover have "cursor s = cursor s div 80 * 80 + cursor s mod 80" by simp
  ultimately have nl: "cursor s + 80 - cursor s mod 80 \<le> 24 * 80" by linarith
  have p: "p \<le> 24 * 80" "\<forall>i\<ge>24 * 80. m i = crt s i"
    using mp assms nl by (auto simp: cga_put_def split: if_splits)
  show ?thesis
  proof (cases "p div 80 \<ge> 24")
    case True
    then have "p = 24 * 80" using p(1) by linarith
    then show ?thesis using mp p(2)
      by (intro exI [of _ "(cga_scroll m (p - 80))(p - 80 := 0x0720)"] exI [of _ "p - 80"]) (simp add: cgaputc_def cga_scroll_def)
  next
    case False
    then have "p < 24 * 80" by linarith
    then show ?thesis using mp p(2) False
      by (intro exI [of _ "m(p := 0x0720)"] exI [of _ p]) (simp add: cgaputc_def)
  qed
qed

lemma consputc_ret:
  assumes "\<not> panicked s" "cursor s < 24 * 80"
  shows "\<exists>u m p. consputc c s = Ret () (s\<lparr>uartout := uartout s @ u, crt := m, cursor := p\<rparr>) \<and> p < 24 * 80 \<and> (\<forall>i\<ge>24 * 80. m i = crt s i)"
proof -
  define u :: "uchar list" where "u = (if c = BACKSPACE then [8, 32, 8] else [word_of_int c])"
  have "cursor (s\<lparr>uartout := uartout s @ u\<rparr>) < 24 * 80" using assms(2) by simp
  from cgaputc_ret [OF this, of c] obtain m p where
    "cgaputc c (s\<lparr>uartout := uartout s @ u\<rparr>) = Ret () (s\<lparr>uartout := uartout s @ u, crt := m, cursor := p\<rparr>)" "p < 24 * 80"
    "\<forall>i\<ge>24 * 80. m i = crt s i" by auto
  then show ?thesis using assms(1)
    by (intro exI [of _ u] exI [of _ m] exI [of _ p]) (auto simp: consputc_def uart_def u_def kfun_simps)
qed

text \<open>The input fields do not change when something is printed.\<close>

definition printed :: "'a console_scheme \<Rightarrow> 'a console_scheme \<Rightarrow> bool" where
  "printed s t \<longleftrightarrow> (\<exists>u m p. t = s\<lparr>uartout := u, crt := m, cursor := p\<rparr> \<and> p < 24 * 80)"

lemma consputc_printed: "\<not> panicked s \<Longrightarrow> cursor s < 24 * 80 \<Longrightarrow> \<exists>t. consputc c s = Ret () t \<and> printed s t"
  using consputc_ret [of s c] unfolding printed_def by blast

lemma printed_fields:
  "printed s t \<Longrightarrow> panicked t = panicked s \<and> cursor t < 24 * 80 \<and> cbuf t = cbuf s \<and> cr t = cr s \<and> cw t = cw s \<and> ce t = ce s \<and> cwakes t = cwakes s"
  by (auto simp: printed_def)

lemma cons_ok_shrink:
  assumes "cons_ok s" "ce s \<noteq> cw s" "printed (s\<lparr>ce := ce s - 1\<rparr>) t"
  shows "cons_ok t" "ready_input t = ready_input s" "typed_line t = butlast (typed_line s)"
proof -
  note pf = printed_fields [OF assms(3)]
  note dl = ring_list_drop_last [OF assms(2), of INPUT_BUF "cbuf s"]
  have ok: "unat (cw s - cr s) \<le> unat (ce s - cr s)" "unat (ce s - cr s) \<le> INPUT_BUF" "10 \<notin> set (typed_line s)" "\<not> panicked s"
    using assms(1) by (auto simp: cons_ok_def)
  show tl: "typed_line t = butlast (typed_line s)" using pf dl(1) by (simp add: typed_line_def)
  show "ready_input t = ready_input s" using pf by (simp add: ready_input_def)
  have "10 \<notin> set (typed_line t)" using ok(3) tl by (auto dest: in_set_butlastD)
  then show "cons_ok t" using pf ok(2,4) ring_shrink [OF ok(1) assms(2)] unfolding cons_ok_def by simp
qed

lemma kill_line_ret:
  assumes "cons_ok s" "unat (ce s - cw s) < k"
  shows "\<exists>t. kill_line k s = Ret () t \<and> panicked t = panicked s \<and> cursor t < 24 * 80 \<and> cbuf t = cbuf s \<and> cr t = cr s \<and> cw t = cw s \<and>
    ce t = cw s \<and> cwakes t = cwakes s"
  using assms
proof (induction k arbitrary: s)
  case (Suc k)
  show ?case
  proof (cases "ce s = cw s")
    case True
    then show ?thesis using Suc.prems(1) by (simp add: kfun_simps cons_ok_def)
  next
    case False
    note dl = ring_list_drop_last [OF False, of INPUT_BUF "cbuf s"]
    have ne: "typed_line s \<noteq> []" using False by (auto simp: typed_line_def ring_list_Nil)
    have nl: "cbuf s (unat (ce s - 1) mod INPUT_BUF) \<noteq> 10"
      using Suc.prems(1) dl(2) last_in_set [OF ne] unfolding cons_ok_def typed_line_def by auto
    define s1 where "s1 = s\<lparr>ce := ce s - 1\<rparr>"
    obtain t where t: "consputc BACKSPACE s1 = Ret () t" "printed s1 t"
      using consputc_printed [of s1] Suc.prems(1) by (auto simp: s1_def cons_ok_def)
    have u: "unat (ce s - cw s) = Suc (unat (ce s - 1 - cw s))" using unat_suc_diff [OF False] by (simp add: algebra_simps)
    have ok: "cons_ok t" using cons_ok_shrink [OF Suc.prems(1) False] t(2) by (simp add: s1_def)
    have "unat (ce t - cw t) < k" using printed_fields [OF t(2)] u Suc.prems(2) by (simp add: s1_def)
    from Suc.IH [OF ok this] obtain v where v: "kill_line k t = Ret () v" "panicked v = panicked t" "cursor v < 24 * 80"
      "cbuf v = cbuf t" "cr v = cr t" "cw v = cw t" "ce v = cw t" "cwakes v = cwakes t" by blast
    then show ?thesis using False nl t(1) printed_fields [OF t(2)] by (simp add: kfun_simps s1_def [symmetric]) (simp add: s1_def)
  qed
qed simp

text \<open>A character is added to the line, or completes it.\<close>

lemma cons_add:
  assumes "cons_ok s" "unat (ce s - cr s) < INPUT_BUF" "printed (s\<lparr>cbuf := (cbuf s)(unat (ce s) mod INPUT_BUF := x), ce := ce s + 1\<rparr>) t"
  shows "ready_input t = ready_input s" "typed_line t = typed_line s @ [x]" "unat (ce t - cr t) = Suc (unat (ce s - cr s))"
    "unat (cw t - cr t) \<le> unat (ce t - cr t)"
proof -
  note pf = printed_fields [OF assms(3)]
  have ok: "unat (cw s - cr s) \<le> unat (ce s - cr s)" using assms(1) by (auto simp: cons_ok_def)
  have lt: "unat (ce s - cr s) < 2 ^ 32 - 1" using assms(2) by (simp add: INPUT_BUF_def)
  show d: "unat (ce t - cr t) = Suc (unat (ce s - cr s))" using pf unat_diff_suc [OF lt] by simp
  show "unat (cw t - cr t) \<le> unat (ce t - cr t)" using d pf ok by simp
  have a: "ring_list INPUT_BUF (cbuf s) (cr s) (ce s) = ready_input s @ typed_line s"
    unfolding ready_input_def typed_line_def by (rule ring_list_append [OF ok])
  have "ready_input t @ typed_line t = ring_list INPUT_BUF (cbuf t) (cr t) (ce t)"
    unfolding ready_input_def typed_line_def using ok d pf by (intro ring_list_append [symmetric]) simp
  also have "\<dots> = (ready_input s @ typed_line s) @ [x]"
    using pf cons_ring.ring_list_put [OF assms(2) lt, of "cbuf s" x] a by simp
  finally have e: "ready_input t @ typed_line t = ready_input s @ (typed_line s @ [x])" by simp
  have l: "length (ready_input t) = length (ready_input s)" using pf by (simp add: ready_input_def)
  from e l show "ready_input t = ready_input s" "typed_line t = typed_line s @ [x]" by simp_all
qed

lemma full_iff: "e = r + of_nat INPUT_BUF \<longleftrightarrow> unat ((e :: uint) - r) = INPUT_BUF"
proof -
  have "e = r + of_nat INPUT_BUF \<longleftrightarrow> e - r = of_nat INPUT_BUF" by (auto simp: algebra_simps)
  also have "\<dots> \<longleftrightarrow> unat (e - r) = INPUT_BUF" unfolding word_unat_eq_iff by (simp add: INPUT_BUF_def)
  finally show ?thesis .
qed

lemma key_not_newline: "0 \<le> d \<Longrightarrow> d < 256 \<Longrightarrow> (word_of_int d :: uchar) = 10 \<Longrightarrow> d = 10"
proof -
  assume d: "0 \<le> d" "d < 256" "(word_of_int d :: uchar) = 10"
  then have "uint (word_of_int d :: uchar) = 10" by simp
  then show "d = 10" using d(1,2) by (simp add: uint_word_of_int)
qed


definition cons_demo :: console where
  "cons_demo = \<lparr>uartout = [], crt = (\<lambda>_. 0), cursor = 0, panicked = False, cbuf = (\<lambda>_. 0), cr = - 1, cw = - 1, ce = - 1, cwakes = []\<rparr>"


end
