(* ===== verification/Kernel.thy ===== *)
theory Kernel
  imports Fs Semaphore Console Vm_Map
begin

text \<open>
  The state of the whole kernel, and how code of one part runs in it.  The file system's record is extended
  with the semaphores and the process table, the physical memory, the console, the table of open files, the
  pipes and the clock.

  File-system code records the channels it wakes; \<open>fs\<close> runs such code and then performs the wake-ups on the
  process table.  When it has to wait, \<open>fs\<close> puts the current process to sleep on the channel, and the outcome
  \<open>Sleep\<close> ends the step.

  Memory is accessed through the page table the processor uses.  An access to a page that is not present
  ends with \<open>Fault\<close>, where the processor would enter \<^verbatim>\<open>trap\<close>.
\<close>

section \<open>State\<close>

datatype ftype = FD_NONE | FD_PIPE | FD_INODE

record kfile =
  ftyp :: ftype
  fref :: int
  freadable :: bool
  fwritable :: bool
  fpipe :: uint
  fip :: "nat option"
  foff :: uint

record pipe =
  pdata :: "nat \<Rightarrow> uchar"
  nread :: uint
  nwrite :: uint
  readopen :: bool
  writeopen :: bool

text \<open>A pipe occupies a page of its own; \<open>pipes\<close> is keyed by the address of the page.\<close>

record ksys = fsys +
  ksem :: ssys
  kmm :: kmem
  kcons :: console
  files :: "nat \<Rightarrow> kfile"
  pipes :: "uint \<Rightarrow> pipe"
  kticks :: uint

definition sem :: "('b, ssys) kfun \<Rightarrow> ('b, ksys) kfun" where
  "sem m = zoom ksem (\<lambda>t s. s\<lparr>ksem := t\<rparr>) m"

definition pt :: "('b, psys) kfun \<Rightarrow> ('b, ksys) kfun" where
  "pt m = sem (ptab m)"

definition km :: "('b, kmem) kfun \<Rightarrow> ('b, ksys) kfun" where
  "km m = zoom kmm (\<lambda>t s. s\<lparr>kmm := t\<rparr>) m"

definition con :: "('b, console) kfun \<Rightarrow> ('b, ksys) kfun" where
  "con m = zoom kcons (\<lambda>t s. s\<lparr>kcons := t\<rparr>) m"

abbreviation pst :: "ksys \<Rightarrow> psys" where "pst s \<equiv> spt (ksem s)"

text \<open>\<open>cproc f\<close> uses the current process and its record; a null \<^verbatim>\<open>proc\<close> is a fault.\<close>

definition cproc :: "(nat \<Rightarrow> proc \<Rightarrow> ('b, ksys) kfun) \<Rightarrow> ('b, ksys) kfun" where
  "cproc f = (\<lambda>s. case curproc (pst s) of None \<Rightarrow> Fault | Some p \<Rightarrow> f p (procs (pst s) p) s)"

definition upd_cur :: "(proc \<Rightarrow> proc) \<Rightarrow> (unit, ksys) kfun" where
  "upd_cur f = cproc (\<lambda>p _. pt (upd_proc p f))"

section \<open>Sleeping and waking\<close>

definition block :: "chan \<Rightarrow> ('b, ksys) kfun" where
  "block c = pt (seq (acquire PtableLock) (sleep c PtableLock))"

definition deliver :: "(unit, ksys) kfun" where
  "deliver = (\<lambda>s. for_each (wakeups s) (\<lambda>c. pt (wakeup c)) (s\<lparr>wakeups := []\<rparr>))"

definition fs :: "('b, ksys) kfun \<Rightarrow> ('b, ksys) kfun" where
  "fs m = (\<lambda>s. case m s of
     Ret x t \<Rightarrow> seq deliver (return x) t
   | Sleep c t \<Rightarrow> seq deliver (block c) t
   | Spin \<Rightarrow> Spin | Panic msg \<Rightarrow> Panic msg | Fault \<Rightarrow> Fault)"

section \<open>Memory through the page table\<close>

definition phys :: "mem \<Rightarrow> uint \<Rightarrow> uint \<Rightarrow> uint option" where
  "phys m pgd a =
     (if a \<ge> KERNBASE then Some a
      else if present (pte_at m pgd a) then Some (p2v (PTE_ADDR (pte_at m pgd a)) + (a AND 0xFFF))
      else None)"

definition at_phys :: "ksys \<Rightarrow> uint \<Rightarrow> uint option" where
  "at_phys s a = phys (kmemory (kmm s)) (p2v (cr3 (pst s))) a"

definition ubyte :: "ksys \<Rightarrow> uint \<Rightarrow> uchar" where
  "ubyte s a = (case at_phys s a of Some x \<Rightarrow> kmemory (kmm s) x | None \<Rightarrow> 0)"

definition uload :: "uint \<Rightarrow> (uchar, ksys) kfun" where
  "uload a = (\<lambda>s. if at_phys s a = None then Fault else Ret (ubyte s a) s)"

text \<open>
  A write through the page table of a process sets the dirty bit of the entry.  The accessed bit, which no
  code reads, is left out.
\<close>

definition PTE_D :: uint where "PTE_D = 0x40"

definition mark_dirty :: "mem \<Rightarrow> uint \<Rightarrow> uint \<Rightarrow> mem" where
  "mark_dirty m pgd a =
     (if a \<ge> KERNBASE then m
      else store32 m (tab_at m pgd (PDX a) + 4 * PTX a) (pte_at m pgd a OR PTE_D))"

definition ustore :: "uint \<Rightarrow> uchar \<Rightarrow> (unit, ksys) kfun" where
  "ustore a b = (\<lambda>s. case at_phys s a of
     None \<Rightarrow> Fault
   | Some x \<Rightarrow> Ret () (s\<lparr>kmm := (kmm s)\<lparr>kmemory := (mark_dirty (kmemory (kmm s)) (p2v (cr3 (pst s))) a)(x := b)\<rparr>\<rparr>))"

fun ustores :: "uint \<Rightarrow> uchar list \<Rightarrow> (unit, ksys) kfun" where
  "ustores a [] = return ()"
| "ustores a (b # bs) = seq (ustore a b) (ustores (a + 1) bs)"

definition uload32 :: "uint \<Rightarrow> (uint, ksys) kfun" where
  "uload32 a =
     bind (uload a) (\<lambda>b0. bind (uload (a + 1)) (\<lambda>b1. bind (uload (a + 2)) (\<lambda>b2. bind (uload (a + 3)) (\<lambda>b3.
     return (of_bytes b0 b1 b2 b3)))))"

definition ustore32 :: "uint \<Rightarrow> uint \<Rightarrow> (unit, ksys) kfun" where
  "ustore32 a w = ustores a [byte_of w 0, byte_of w 1, byte_of w 2, byte_of w 3]"

definition ustore16 :: "uint \<Rightarrow> ushort \<Rightarrow> (unit, ksys) kfun" where
  "ustore16 a w = ustores a [ucast w, ucast (drop_bit 8 w)]"

section \<open>An example\<close>

text \<open>Three processes and no open files.\<close>

definition kernel_demo :: ksys where
  "kernel_demo = \<lparr>bufs = bufs bio_demo, disk = (\<lambda>_ _. 0), disksize = 100, dwrites = [], wakeups = [], lstart = 70, lsize = 30,
     outstanding = 0, committing = False, ldev = 1, lh_n = 0, lh_sector = (\<lambda>_. 0),
     inodes = (\<lambda>_. \<lparr>idev = 0, inum = 0, iref = 0, ibusy = False, ivalid = False, itype = 0, imajor = 0, iminor = 0, inlink = 0,
       isize = 0, iaddrs = (\<lambda>_. 0)\<rparr>),
     ksem = \<lparr>spt = sched_demo, sems = (\<lambda>_. \<lparr>sid = 0, references = 0, svalue = 0\<rparr>)\<rparr>, kmm = kmem_demo, kcons = cons_demo,
     files = (\<lambda>_. \<lparr>ftyp = FD_NONE, fref = 0, freadable = False, fwritable = False, fpipe = 0, fip = None, foff = 0\<rparr>),
     pipes = (\<lambda>_. \<lparr>pdata = (\<lambda>_. 0), nread = 0, nwrite = 0, readopen = False, writeopen = False\<rparr>), kticks = 0\<rparr>"

end
