(* ===== verification/File.thy ===== *)
theory File
  imports Kernel
begin

text \<open>
  Open files, pipes and the console device: \<^verbatim>\<open>file.c\<close>, \<^verbatim>\<open>pipe.c\<close>, and \<^verbatim>\<open>consoleread\<close> and
  \<^verbatim>\<open>consolewrite\<close> of \<^verbatim>\<open>console.c\<close>.

  A pointer to a file is its index in \<^verbatim>\<open>ftable.file\<close>.  The sections under \<^verbatim>\<open>ftable.lock\<close> and under the
  lock of a pipe are atomic up to the point where they sleep.
\<close>

section \<open>The console device\<close>

text \<open>
  \<^verbatim>\<open>consoleread\<close> from the point where the lock is taken, with \<open>n\<close> bytes to go of \<open>target\<close>.  The bytes are
  returned in place of being written through \<^verbatim>\<open>dst\<close>; the flag is false when the process was killed.
\<close>

fun consoleread_loop :: "nat \<Rightarrow> nat \<Rightarrow> uchar list \<Rightarrow> (bool \<times> uchar list, ksys) kfun" where
  "consoleread_loop target 0 acc = return (True, acc)"
| "consoleread_loop target (Suc n) acc =
     branch (\<lambda>s. cr (kcons s) = cw (kcons s))
       (cproc (\<lambda>_ r. if killed r then return (False, acc) else (\<lambda>s. Sleep ChInput s)))
       (bind (gets (\<lambda>s. cbuf (kcons s) (unat (cr (kcons s)) mod INPUT_BUF))) (\<lambda>c.
        seq (con (modify (\<lambda>s. s\<lparr>cr := cr s + 1\<rparr>)))
       (if c = 4
        then seq (if Suc n < target then con (modify (\<lambda>s. s\<lparr>cr := cr s - 1\<rparr>)) else return ()) (return (True, acc))
        else if c = 10 then return (True, acc @ [c])
        else consoleread_loop target n (acc @ [c]))))"

definition consoleread :: "nat \<Rightarrow> uint \<Rightarrow> (int \<times> uchar list, ksys) kfun" where
  "consoleread ip n =
     seq (iunlock ip)
    (bind (consoleread_loop (nat (sint n)) (nat (sint n)) []) (\<lambda>(ok, bs).
     seq (ilock ip)
         (return (if ok then int (length bs) else - 1, bs))))"

definition consolewrite :: "nat \<Rightarrow> (nat \<Rightarrow> uchar) \<Rightarrow> uint \<Rightarrow> (int, ksys) kfun" where
  "consolewrite ip src n =
     seq (iunlock ip)
    (seq (for_each [0..<nat (sint n)] (\<lambda>i. con (consputc (uint (src i)))))
    (seq (ilock ip)
         (return (sint n))))"

text \<open>The table \<^verbatim>\<open>devsw\<close> as \<^verbatim>\<open>consoleinit\<close> fills it.\<close>

definition dev_reads :: "ksys dev_read" where
  "dev_reads m = (if m = 1 then Some consoleread else None)"

definition dev_writes :: "ksys dev_write" where
  "dev_writes m = (if m = 1 then Some consolewrite else None)"

section \<open>Pipes\<close>

definition PIPESIZE :: nat where "PIPESIZE = 512"

definition upd_pipe :: "uint \<Rightarrow> (pipe \<Rightarrow> pipe) \<Rightarrow> (unit, ksys) kfun" where
  "upd_pipe p f = modify (\<lambda>s. s\<lparr>pipes := (pipes s)(p := f (pipes s p))\<rparr>)"

definition pipeclose :: "uint \<Rightarrow> bool \<Rightarrow> (unit, ksys) kfun" where
  "pipeclose p writable =
     seq (if writable
          then seq (upd_pipe p (\<lambda>x. x\<lparr>writeopen := False\<rparr>)) (pt (wakeup (ChPipeRead p)))
          else seq (upd_pipe p (\<lambda>x. x\<lparr>readopen := False\<rparr>)) (pt (wakeup (ChPipeWrite p))))
         (branch (\<lambda>s. \<not> readopen (pipes s p) \<and> \<not> writeopen (pipes s p)) (km (kfree p)) (return ()))"

text \<open>
  The loop of \<^verbatim>\<open>pipewrite\<close> over the indices still to be written.  A writer that sleeps continues, when it is
  woken, with the index at which it went to sleep.
\<close>

fun pipewrite_loop :: "uint \<Rightarrow> uint \<Rightarrow> nat list \<Rightarrow> (bool, ksys) kfun" where
  "pipewrite_loop p addr [] = return True"
| "pipewrite_loop p addr (i # is) =
     branch (\<lambda>s. nwrite (pipes s p) = nread (pipes s p) + of_nat PIPESIZE)
       (cproc (\<lambda>_ r. branch (\<lambda>s. \<not> readopen (pipes s p) \<or> killed r)
          (return False)
          (seq (pt (wakeup (ChPipeRead p))) (block (ChPipeWrite p)))))
       (bind (uload (addr + of_nat i)) (\<lambda>b.
        seq (upd_pipe p (\<lambda>x. x\<lparr>pdata := (pdata x)(unat (nwrite x) mod PIPESIZE := b), nwrite := nwrite x + 1\<rparr>))
            (pipewrite_loop p addr is)))"

definition pipewrite :: "uint \<Rightarrow> uint \<Rightarrow> int \<Rightarrow> (int, ksys) kfun" where
  "pipewrite p addr n =
     bind (pipewrite_loop p addr [0..<nat n]) (\<lambda>ok.
     if \<not> ok then return (- 1)
     else seq (pt (wakeup (ChPipeRead p))) (return n))"

fun piperead_loop :: "uint \<Rightarrow> uint \<Rightarrow> nat \<Rightarrow> nat \<Rightarrow> (nat, ksys) kfun" where
  "piperead_loop p addr i 0 = return i"
| "piperead_loop p addr i (Suc k) =
     branch (\<lambda>s. nread (pipes s p) = nwrite (pipes s p)) (return i)
       (bind (gets (\<lambda>s. pdata (pipes s p) (unat (nread (pipes s p)) mod PIPESIZE))) (\<lambda>b.
        seq (upd_pipe p (\<lambda>x. x\<lparr>nread := nread x + 1\<rparr>))
       (seq (ustore (addr + of_nat i) b)
            (piperead_loop p addr (Suc i) k))))"

definition piperead :: "uint \<Rightarrow> uint \<Rightarrow> int \<Rightarrow> (int, ksys) kfun" where
  "piperead p addr n =
     branch (\<lambda>s. nread (pipes s p) = nwrite (pipes s p) \<and> writeopen (pipes s p))
       (cproc (\<lambda>_ r. if killed r then return (- 1) else block (ChPipeRead p)))
       (bind (piperead_loop p addr 0 (nat n)) (\<lambda>i.
        seq (pt (wakeup (ChPipeWrite p))) (return (int i))))"

section \<open>Open files\<close>

definition upd_file :: "nat \<Rightarrow> (kfile \<Rightarrow> kfile) \<Rightarrow> (unit, ksys) kfun" where
  "upd_file f g = modify (\<lambda>s. s\<lparr>files := (files s)(f := g (files s f))\<rparr>)"

definition filealloc :: "(nat option, ksys) kfun" where
  "filealloc = (\<lambda>s. case first_index NFILE (\<lambda>f. fref (files s f) = 0) of
     Some f \<Rightarrow> Ret (Some f) (s\<lparr>files := (files s)(f := (files s f)\<lparr>fref := 1\<rparr>)\<rparr>)
   | None \<Rightarrow> Ret None s)"

definition filedup :: "nat \<Rightarrow> (nat, ksys) kfun" where
  "filedup f =
     seq (panic_if (\<lambda>s. fref (files s f) < 1) ''filedup'')
    (seq (upd_file f (\<lambda>x. x\<lparr>fref := fref x + 1\<rparr>))
         (return f))"

text \<open>A null inode pointer is a fault.\<close>

definition with_ip :: "nat option \<Rightarrow> (nat \<Rightarrow> ('b, ksys) kfun) \<Rightarrow> ('b, ksys) kfun" where
  "with_ip ip f = (case ip of None \<Rightarrow> fault | Some i \<Rightarrow> f i)"

definition fileclose :: "nat \<Rightarrow> (unit, ksys) kfun" where
  "fileclose f =
     seq (panic_if (\<lambda>s. fref (files s f) < 1) ''fileclose'')
    (seq (upd_file f (\<lambda>x. x\<lparr>fref := fref x - 1\<rparr>))
    (bind (gets (\<lambda>s. files s f)) (\<lambda>ff.
     if fref ff > 0 then return ()
     else
       seq (upd_file f (\<lambda>x. x\<lparr>fref := 0, ftyp := FD_NONE\<rparr>))
      (case ftyp ff of
         FD_PIPE \<Rightarrow> pipeclose (fpipe ff) (fwritable ff)
       | FD_INODE \<Rightarrow> seq (fs begin_op) (seq (with_ip (fip ff) (\<lambda>ip. fs (iput ip))) (fs end_op))
       | FD_NONE \<Rightarrow> return ()))))"

text \<open>The fields of a \<^verbatim>\<open>struct stat\<close> at the address \<^verbatim>\<open>st\<close>.\<close>

definition store_stat :: "uint \<Rightarrow> stat \<Rightarrow> (unit, ksys) kfun" where
  "store_stat a st =
     seq (ustore32 (a + 4) (st_dev st))
    (seq (ustore32 (a + 8) (st_ino st))
    (seq (ustore16 a (st_type st))
    (seq (ustore16 (a + 12) (st_nlink st))
         (ustore32 (a + 16) (st_size st)))))"

definition filestat :: "nat \<Rightarrow> uint \<Rightarrow> (int, ksys) kfun" where
  "filestat f st =
     bind (gets (\<lambda>s. files s f)) (\<lambda>x.
     if ftyp x = FD_INODE
     then
       with_ip (fip x) (\<lambda>ip.
       seq (fs (ilock ip))
      (bind (stati ip) (\<lambda>v.
       seq (store_stat st v)
      (seq (fs (iunlock ip))
           (return 0)))))
     else return (- 1))"

definition fileread :: "nat \<Rightarrow> uint \<Rightarrow> int \<Rightarrow> (int, ksys) kfun" where
  "fileread f addr n =
     bind (gets (\<lambda>s. files s f)) (\<lambda>x.
     if \<not> freadable x then return (- 1)
     else case ftyp x of
       FD_PIPE \<Rightarrow> piperead (fpipe x) addr n
     | FD_INODE \<Rightarrow>
         with_ip (fip x) (\<lambda>ip.
         seq (fs (ilock ip))
        (bind (gets (\<lambda>s. foff (files s f))) (\<lambda>off.
         bind (fs (readi dev_reads ip off (word_of_int n))) (\<lambda>(r, bs).
         seq (ustores addr bs)
        (seq (if r > 0 then upd_file f (\<lambda>x. x\<lparr>foff := foff x + word_of_int r\<rparr>) else return ())
        (seq (fs (iunlock ip))
             (return r)))))))
     | FD_NONE \<Rightarrow> panic ''fileread'')"

text \<open>
  The loop of \<^verbatim>\<open>filewrite\<close>, \<open>i\<close> bytes being written already.  Each turn writes at least one byte, so that
  \<open>n + 1\<close> turns are enough.  The bytes written come from memory; if one of them is in a page that is not
  present, the copy faults.
\<close>

definition write_max :: int where
  "write_max = int ((LOGSIZE - 1 - 1 - 2) div 2 * 512)"

fun filewrite_loop :: "nat \<Rightarrow> nat \<Rightarrow> nat \<Rightarrow> uint \<Rightarrow> int \<Rightarrow> int \<Rightarrow> (int, ksys) kfun" where
  "filewrite_loop 0 f ip addr n i = (\<lambda>s. Spin)"
| "filewrite_loop (Suc k) f ip addr n i =
     (if i < n
      then
        let n1 = (if n - i > write_max then write_max else n - i) in
        seq (fs begin_op)
       (seq (fs (ilock ip))
       (bind (gets (\<lambda>s. foff (files s f))) (\<lambda>off.
        bind (\<lambda>s. fs (writei dev_writes ip (\<lambda>j. ubyte s (addr + word_of_int i + of_nat j)) off (word_of_int n1)) s) (\<lambda>r.
        seq (branch (\<lambda>s. list_ex (\<lambda>j. at_phys s (addr + word_of_int i + of_nat j) = None) [0..<nat r]) fault (return ()))
       (seq (if r > 0 then upd_file f (\<lambda>x. x\<lparr>foff := foff x + word_of_int r\<rparr>) else return ())
       (seq (fs (iunlock ip))
       (seq (fs end_op)
            (if r < 0 then return (if i = n then n else - 1)
             else if r \<noteq> n1 then panic ''short filewrite''
             else filewrite_loop k f ip addr n (i + r)))))))))
      else return (if i = n then n else - 1))"

definition filewrite :: "nat \<Rightarrow> uint \<Rightarrow> int \<Rightarrow> (int, ksys) kfun" where
  "filewrite f addr n =
     bind (gets (\<lambda>s. files s f)) (\<lambda>x.
     if \<not> fwritable x then return (- 1)
     else case ftyp x of
       FD_PIPE \<Rightarrow> pipewrite (fpipe x) addr n
     | FD_INODE \<Rightarrow> with_ip (fip x) (\<lambda>ip. filewrite_loop (Suc (nat n)) f ip addr n 0)
     | FD_NONE \<Rightarrow> panic ''filewrite'')"

text \<open>\<^verbatim>\<open>fileseek\<close>: the argument is unsigned, so the test for a negative one never succeeds.\<close>

definition fileseek :: "nat \<Rightarrow> uint \<Rightarrow> (int, ksys) kfun" where
  "fileseek f newoffset =
     bind (gets (\<lambda>s. files s f)) (\<lambda>x.
     with_ip (fip x) (\<lambda>ip.
     bind (gets (\<lambda>s. isize (inodes s ip))) (\<lambda>size.
     seq (upd_file f (\<lambda>x. x\<lparr>foff := (if newoffset > size then size else newoffset)\<rparr>))
         (return 0))))"

definition pipealloc :: "((nat \<times> nat) option, ksys) kfun" where
  "pipealloc =
     bind filealloc (\<lambda>f0.
     case f0 of
       None \<Rightarrow> return None
     | Some f0 \<Rightarrow>
         bind filealloc (\<lambda>f1.
         case f1 of
           None \<Rightarrow> seq (fileclose f0) (return None)
         | Some f1 \<Rightarrow>
             bind (km kalloc) (\<lambda>p.
             if p = 0 then seq (fileclose f0) (seq (fileclose f1) (return None))
             else
               seq (upd_pipe p (\<lambda>x. x\<lparr>readopen := True, writeopen := True, nwrite := 0, nread := 0\<rparr>))
              (seq (upd_file f0 (\<lambda>x. x\<lparr>ftyp := FD_PIPE, freadable := True, fwritable := False, fpipe := p\<rparr>))
              (seq (upd_file f1 (\<lambda>x. x\<lparr>ftyp := FD_PIPE, freadable := False, fwritable := True, fpipe := p\<rparr>))
                   (return (Some (f0, f1))))))))"

end
