(* ===== verification/Mmap.thy ===== *)
theory Mmap
  imports File
begin

text \<open>
  Files mapped into memory: \<^verbatim>\<open>mmap\<close> and \<^verbatim>\<open>munmap\<close> of \<^verbatim>\<open>mmap.c\<close>, and the search of \<^verbatim>\<open>trap.c\<close> for the mapping
  of an address.
\<close>

definition upd_map :: "nat \<Rightarrow> (mmap_entry \<Rightarrow> mmap_entry) \<Rightarrow> (unit, ksys) kfun" where
  "upd_map i f = upd_cur (\<lambda>r. r\<lparr>ommap := (ommap r)(i := f (ommap r i))\<rparr>)"

text \<open>\<^verbatim>\<open>*addr = ...\<close> at the end writes through a pointer that nobody has checked.\<close>

definition mmap :: "int \<Rightarrow> uint \<Rightarrow> (int, ksys) kfun" where
  "mmap fd addr = cproc (\<lambda>_ r.
     if \<not> (fd \<ge> 0 \<and> fd < int NOFILE) then return (- 1)
     else case ofile r (nat fd) of
       None \<Rightarrow> return (- 1)
     | Some f \<Rightarrow>
         (case first_index MAXMAPPEDFILES (\<lambda>i. pfile (ommap r i) = None) of
            None \<Rightarrow> return (- 2)
          | Some i \<Rightarrow>
              seq (upd_map i (\<lambda>e. e\<lparr>pfile := Some f\<rparr>))
             (bind (gets (\<lambda>s. fip (files s f))) (\<lambda>ipo.
              with_ip ipo (\<lambda>ip.
              bind (gets (\<lambda>s. isize (inodes s ip))) (\<lambda>size.
              seq (upd_map i (\<lambda>e. e\<lparr>msz := size\<rparr>))
             (seq (upd_map i (\<lambda>e. e\<lparr>va := sz r\<rparr>))
             (seq (upd_cur (\<lambda>r. r\<lparr>sz := PGROUNDUP (sz r + size)\<rparr>))
             (seq (ustore32 addr (sz r))
                  (return 0))))))))))"

text \<open>
  One page of \<^verbatim>\<open>munmap\<close>: a dirty page of a writable file is written at its place in the file, with \<^verbatim>\<open>PGSIZE\<close>
  bytes whatever the size of the file.
\<close>

definition write_back :: "nat \<Rightarrow> uint \<Rightarrow> uint \<Rightarrow> (unit, ksys) kfun" where
  "write_back f addr offset = cproc (\<lambda>_ r.
     bind (km (pgflags (pgdir r) offset PTE_D)) (\<lambda>pte.
     if pte = 0 then return ()
     else
       bind (gets (\<lambda>s. fwritable (files s f))) (\<lambda>w.
       if \<not> w then return ()
       else
         bind (km (read32 pte)) (\<lambda>e.
         seq (fileseek f (offset - addr))
        (seq (filewrite f (p2v (PTE_ADDR e)) (uint PGSIZE))
             (return ()))))))"

fun munmap_loop :: "nat \<Rightarrow> nat \<Rightarrow> uint \<Rightarrow> uint \<Rightarrow> uint \<Rightarrow> (unit, ksys) kfun" where
  "munmap_loop 0 f addr offset lim = (\<lambda>s. Spin)"
| "munmap_loop (Suc k) f addr offset lim =
     (if offset < lim
      then seq (write_back f addr offset) (munmap_loop k f addr (offset + PGSIZE) lim)
      else return ())"

definition find_map :: "proc \<Rightarrow> uint \<Rightarrow> nat option" where
  "find_map r addr = first_index MAXMAPPEDFILES (\<lambda>i. va (ommap r i) \<noteq> 0 \<and> pfile (ommap r i) \<noteq> None \<and> va (ommap r i) = addr)"

definition munmap :: "uint \<Rightarrow> (int, ksys) kfun" where
  "munmap addr = cproc (\<lambda>_ r.
     case find_map r addr of
       None \<Rightarrow> return (- 1)
     | Some i \<Rightarrow>
         (case pfile (ommap r i) of
            None \<Rightarrow> fault
          | Some f \<Rightarrow>
              let size = va (ommap r i) + msz (ommap r i) in
              seq (munmap_loop (2 ^ 20 + 1) f addr addr size)
             (seq (km (unmappages (pgdir r) (va (ommap r i)) size))
             (seq (upd_map i (\<lambda>e. e\<lparr>pfile := None\<rparr>))
             (seq (upd_map i (\<lambda>e. e\<lparr>va := 0\<rparr>))
                  (return 0))))))"

text \<open>
  \<^verbatim>\<open>mmapin\<close> of \<^verbatim>\<open>trap.c\<close>.  The address and the size are copied into signed variables; the comparisons with the
  unsigned fault address are unsigned again, so that the sum wraps around.
\<close>

definition mmapin :: "proc \<Rightarrow> uint \<Rightarrow> nat option" where
  "mmapin r a = first_index MAXMAPPEDFILES (\<lambda>i.
     pfile (ommap r i) \<noteq> None \<and> a \<ge> va (ommap r i) \<and> a < va (ommap r i) + msz (ommap r i))"

end
