(* ===== verification/Process.thy ===== *)
theory Process
  imports Mmap
begin

text \<open>
  The life of a process, the rest of \<^verbatim>\<open>proc.c\<close>: \<^verbatim>\<open>allocproc\<close>, \<^verbatim>\<open>userinit\<close>, \<^verbatim>\<open>growproc\<close>, \<^verbatim>\<open>fork\<close>,
  \<^verbatim>\<open>exit\<close>, \<^verbatim>\<open>wait\<close>, \<^verbatim>\<open>forkret\<close> and \<^verbatim>\<open>procdump\<close>.

  The trap frame and the saved context of a process, which the code keeps on its kernel stack, are fields of
  the process record.  What the linker places is gathered in the record \<open>linked\<close>: the start of the kernel's
  data, the entry points \<^verbatim>\<open>forkret\<close> and \<^verbatim>\<open>trapret\<close>, and the first program.
\<close>

record linked_addrs =
  l_data :: uint
  l_forkret :: uint
  l_trapret :: uint
  l_initcode :: uint
  l_initsize :: uint

definition upd_slot :: "nat \<Rightarrow> (proc \<Rightarrow> proc) \<Rightarrow> (unit, ksys) kfun" where
  "upd_slot p f = pt (upd_proc p f)"

section \<open>Creation\<close>

text \<open>The size of a trap frame.\<close>

definition TF_SIZE :: uint where "TF_SIZE = 76"

definition allocproc :: "linked_addrs \<Rightarrow> (nat option, ksys) kfun" where
  "allocproc l =
     bind (pt alloc_slot) (\<lambda>found.
     case found of
       None \<Rightarrow> return None
     | Some p \<Rightarrow>
         bind (km kalloc) (\<lambda>k.
         seq (upd_slot p (\<lambda>r. r\<lparr>kstack := k\<rparr>))
        (if k = 0 then seq (upd_slot p (\<lambda>r. r\<lparr>state := UNUSED\<rparr>)) (return None)
         else
           let sp = k + of_nat KSTACKSIZE - TF_SIZE - 4 in
           seq (km (write32 sp (l_trapret l)))
          (seq (upd_slot p (\<lambda>r. r\<lparr>pcontext := zero_context\<lparr>cx_eip := l_forkret l\<rparr>\<rparr>))
          (seq (upd_slot p (\<lambda>r. r\<lparr>priority := 0, age := 0\<rparr>))
               (return (Some p)))))))"

definition user_tf :: trapframe where
  "user_tf = zero_tf\<lparr>tf_cs := 0x23, tf_ds := 0x2B, tf_es := 0x2B, tf_ss := 0x2B, tf_eflags := 0x200, tf_esp := PGSIZE, tf_eip := 0\<rparr>"

definition userinit :: "linked_addrs \<Rightarrow> (unit, ksys) kfun" where
  "userinit l =
     bind (allocproc l) (\<lambda>found.
     seq (pt (modify (\<lambda>s. s\<lparr>initproc := found\<rparr>)))
    (case found of
       None \<Rightarrow> fault
     | Some p \<Rightarrow>
         bind (km (setupkvm (l_data l))) (\<lambda>d.
         seq (upd_slot p (\<lambda>r. r\<lparr>pgdir := d\<rparr>))
        (if d = 0 then panic ''userinit: out of memory?''
         else
           seq (km (inituvm d (l_initcode l) (l_initsize l)))
          (seq (upd_slot p (\<lambda>r. r\<lparr>sz := PGSIZE, tf := user_tf, pname := ''initcode''\<rparr>))
          (bind (fs (namei 0 [SLASH])) (\<lambda>ip.
           seq (upd_slot p (\<lambda>r. r\<lparr>cwd := ip\<rparr>))
               (pt (make_runnable p)))))))))"

definition growproc :: "int \<Rightarrow> (int, ksys) kfun" where
  "growproc n = cproc (\<lambda>p r.
     bind (if n > 0 then km (allocuvm (pgdir r) (sz r) (sz r + word_of_int n))
           else if n < 0 then km (deallocuvm (pgdir r) (sz r) (sz r + word_of_int n))
           else return (sz r)) (\<lambda>size.
     if n \<noteq> 0 \<and> size = 0 then return (- 1)
     else seq (upd_cur (\<lambda>r. r\<lparr>sz := size\<rparr>)) (seq (pt (switchuvm p)) (return 0))))"

section \<open>Fork\<close>

definition fork_file :: "nat \<Rightarrow> nat \<Rightarrow> (unit, ksys) kfun" where
  "fork_file np i = cproc (\<lambda>_ r.
     case ofile r i of
       None \<Rightarrow> return ()
     | Some f \<Rightarrow> bind (filedup f) (\<lambda>g. upd_slot np (\<lambda>r. r\<lparr>ofile := (ofile r)(i := Some g)\<rparr>)))"

definition fork_sem :: "nat \<Rightarrow> nat \<Rightarrow> (unit, ksys) kfun" where
  "fork_sem np i = cproc (\<lambda>_ r.
     case osemaphore r i of
       None \<Rightarrow> return ()
     | Some j \<Rightarrow> bind (sem (semdup j)) (\<lambda>g. upd_slot np (\<lambda>r. r\<lparr>osemaphore := (osemaphore r)(i := Some g)\<rparr>)))"

text \<open>The mappings are copied without a reference to the file.\<close>

definition fork_map :: "nat \<Rightarrow> nat \<Rightarrow> (unit, ksys) kfun" where
  "fork_map np i = cproc (\<lambda>_ r.
     if pfile (ommap r i) = None then return ()
     else upd_slot np (\<lambda>q. q\<lparr>ommap := (ommap q)(i := ommap r i)\<rparr>))"

definition fork :: "linked_addrs \<Rightarrow> (int, ksys) kfun" where
  "fork l = cproc (\<lambda>cp _.
     bind (allocproc l) (\<lambda>found.
     case found of
       None \<Rightarrow> return (- 1)
     | Some np \<Rightarrow> cproc (\<lambda>_ r.
         bind (km (copyuvm (l_data l) (pgdir r) (sz r))) (\<lambda>d.
         seq (upd_slot np (\<lambda>q. q\<lparr>pgdir := d\<rparr>))
        (if d = 0
         then
           bind (gets (\<lambda>s. kstack (procs (pst s) np))) (\<lambda>k.
           seq (km (kfree k))
          (seq (upd_slot np (\<lambda>q. q\<lparr>kstack := 0, state := UNUSED\<rparr>))
               (return (- 1))))
         else
           seq (upd_slot np (\<lambda>q. q\<lparr>sz := sz r, sstack := sstack r, parent := Some cp, tf := (tf r)\<lparr>tf_eax := 0\<rparr>\<rparr>))
          (seq (for_each [0..<NOFILE] (fork_file np))
          (seq (for_each [0..<MAXPROCSEM] (fork_sem np))
          (seq (for_each [0..<MAXMAPPEDFILES] (fork_map np))
          (bind (with_ip (cwd r) idup) (\<lambda>ip.
           seq (upd_slot np (\<lambda>q. q\<lparr>cwd := Some ip, pname := pname r\<rparr>))
          (bind (gets (\<lambda>s. pid (procs (pst s) np))) (\<lambda>n.
           seq (pt (start_child np))
               (return n)))))))))))))"

section \<open>Exit and wait\<close>

definition exit_map :: "nat \<Rightarrow> (unit, ksys) kfun" where
  "exit_map i = cproc (\<lambda>_ r.
     if pfile (ommap r i) = None then return () else seq (munmap (va (ommap r i))) (return ()))"

definition exit_file :: "nat \<Rightarrow> (unit, ksys) kfun" where
  "exit_file fd = cproc (\<lambda>_ r.
     case ofile r fd of
       None \<Rightarrow> return ()
     | Some f \<Rightarrow> seq (fileclose f) (upd_cur (\<lambda>r. r\<lparr>ofile := (ofile r)(fd := None)\<rparr>)))"

definition exit_sem :: "nat \<Rightarrow> (unit, ksys) kfun" where
  "exit_sem i = cproc (\<lambda>_ r.
     case osemaphore r i of
       None \<Rightarrow> return ()
     | Some j \<Rightarrow> seq (sem (semclose j)) (upd_cur (\<lambda>r. r\<lparr>osemaphore := (osemaphore r)(i := None)\<rparr>)))"

text \<open>\<^verbatim>\<open>exit\<close> up to the switch to the scheduler, which does not come back.\<close>

definition exit_proc :: "(unit, ksys) kfun" where
  "exit_proc = cproc (\<lambda>cp _.
     seq (panic_if (\<lambda>s. initproc (pst s) = Some cp) ''init exiting'')
    (seq (for_each [0..<MAXMAPPEDFILES] exit_map)
    (seq (for_each [0..<NOFILE] exit_file)
    (seq (for_each [0..<MAXPROCSEM] exit_sem)
    (seq (fs begin_op)
    (seq (cproc (\<lambda>_ r. with_ip (cwd r) (\<lambda>ip. fs (iput ip))))
    (seq (fs end_op)
    (seq (upd_cur (\<lambda>r. r\<lparr>cwd := None\<rparr>))
         (pt exit_sched)))))))))"

definition wait :: "(int, ksys) kfun" where
  "wait = cproc (\<lambda>cp _.
     seq (pt (acquire PtableLock))
    (\<lambda>s. case first_index NPROC (\<lambda>p. parent (procs (pst s) p) = Some cp \<and> state (procs (pst s) p) = ZOMBIE) of
       Some p \<Rightarrow>
        (let n = pid (procs (pst s) p) in
         seq (km (kfree (kstack (procs (pst s) p))))
        (seq (upd_slot p (\<lambda>r. r\<lparr>kstack := 0\<rparr>))
        (seq (km (freevm (pgdir (procs (pst s) p))))
        (seq (pt (reap p))
        (seq (pt (release PtableLock))
             (return n)))))) s
     | None \<Rightarrow>
        (if first_index NPROC (\<lambda>p. parent (procs (pst s) p) = Some cp) = None \<or> killed (procs (pst s) cp)
         then seq (pt (release PtableLock)) (return (- 1))
         else pt (sleep (ChProc cp) PtableLock)) s))"

text \<open>\<^verbatim>\<open>forkret\<close>, where the flag says whether this is its first call.\<close>

definition forkret :: "bool \<Rightarrow> (unit, ksys) kfun" where
  "forkret is_first = seq (pt (release PtableLock)) (if is_first then fs initlog else return ())"

section \<open>Listing\<close>

definition chars :: "string \<Rightarrow> uchar list" where
  "chars cs = map of_char cs"

fun state_name :: "procstate \<Rightarrow> string" where
  "state_name UNUSED = ''unused''"
| "state_name EMBRYO = ''embryo''"
| "state_name SLEEPING = ''sleep ''"
| "state_name RUNNABLE = ''runble''"
| "state_name RUNNING = ''run   ''"
| "state_name ZOMBIE = ''zombie''"

text \<open>The strings are passed to \<^verbatim>\<open>cprintf\<close> as the addresses 1 and 2.\<close>

definition dump_slot :: "nat \<Rightarrow> (unit, ksys) kfun" where
  "dump_slot p = (\<lambda>s.
     let r = procs (pst s) p; str = (\<lambda>a. if a = 1 then chars (state_name (state r)) else chars (pname r)) in
     (if state r = UNUSED then return ()
      else
        seq (con (cprintf str (chars ''%d %s %s priority:%d age:%d'')
               [word_of_int (pid r), 1, 2, ucast (priority r), ucast (age r)]))
       (seq (if state r = SLEEPING
             then for_each (takeWhile (\<lambda>a. a \<noteq> 0) (getcallerpcs (load32 (kmemory (kmm s))) (cx_ebp (pcontext r) + 8)))
                    (\<lambda>a. con (cprintf str (chars '' %p'') [a]))
             else return ())
            (con (cprintf str [10] [])))) s)"

definition procdump :: "(unit, ksys) kfun" where
  "procdump = for_each [0..<NPROC] dump_slot"

text \<open>\<^verbatim>\<open>consoleintr\<close> on the characters that \<^verbatim>\<open>getc\<close> delivers before it returns a negative number.\<close>

definition consoleintr :: "int list \<Rightarrow> (unit, ksys) kfun" where
  "consoleintr cs = for_each cs (\<lambda>c.
     if c = ctl 80 then procdump
     else
       seq (con (cons_key c))
      (bind (gets (\<lambda>s. cwakes (kcons s))) (\<lambda>ws.
       seq (con (modify (\<lambda>s. s\<lparr>cwakes := []\<rparr>)))
           (for_each ws (\<lambda>w. pt (wakeup w))))))"

end
