(* ===== verification/Syscall.thy ===== *)
theory Syscall
  imports Process
begin

text \<open>
  System call arguments (\<^verbatim>\<open>syscall.c\<close>) and the calls of \<^verbatim>\<open>sysproc.c\<close>.  An argument function that fails
  returns \<open>None\<close>; a string argument is returned as the list of its bytes.
\<close>

section \<open>Arguments\<close>

definition fetchint :: "uint \<Rightarrow> (uint option, ksys) kfun" where
  "fetchint addr = cproc (\<lambda>_ r.
     if addr \<ge> sz r \<or> addr + 4 > sz r then return None
     else bind (uload32 addr) (\<lambda>w. return (Some w)))"

text \<open>The loop of \<^verbatim>\<open>fetchstr\<close> over the bytes that are left below the size of the process.\<close>

fun fetchstr_loop :: "nat \<Rightarrow> uint \<Rightarrow> (uchar list option, ksys) kfun" where
  "fetchstr_loop 0 a = return None"
| "fetchstr_loop (Suc k) a =
     bind (uload a) (\<lambda>b.
     if b = 0 then return (Some [])
     else bind (fetchstr_loop k (a + 1)) (\<lambda>cs. return (map_option (Cons b) cs)))"

definition fetchstr :: "uint \<Rightarrow> (uchar list option, ksys) kfun" where
  "fetchstr addr = cproc (\<lambda>_ r.
     if addr \<ge> sz r then return None else fetchstr_loop (unat (sz r - addr)) addr)"

definition argint :: "nat \<Rightarrow> (uint option, ksys) kfun" where
  "argint n = cproc (\<lambda>_ r. fetchint (tf_esp (tf r) + 4 + 4 * of_nat n))"

definition argptr :: "nat \<Rightarrow> int \<Rightarrow> (uint option, ksys) kfun" where
  "argptr n len =
     bind (argint n) (\<lambda>i.
     case i of
       None \<Rightarrow> return None
     | Some a \<Rightarrow> cproc (\<lambda>_ r. if a \<ge> sz r \<or> a + word_of_int len > sz r then return None else return (Some a)))"

definition argstr :: "nat \<Rightarrow> (uchar list option, ksys) kfun" where
  "argstr n = bind (argint n) (\<lambda>i. case i of None \<Rightarrow> return None | Some a \<Rightarrow> fetchstr a)"

text \<open>Most calls start with arguments and return -1 when one of them cannot be fetched.\<close>

definition with_int :: "nat \<Rightarrow> (int \<Rightarrow> (int, ksys) kfun) \<Rightarrow> (int, ksys) kfun" where
  "with_int n f = bind (argint n) (\<lambda>i. case i of None \<Rightarrow> return (- 1) | Some w \<Rightarrow> f (sint w))"

definition with_ptr :: "nat \<Rightarrow> int \<Rightarrow> (uint \<Rightarrow> (int, ksys) kfun) \<Rightarrow> (int, ksys) kfun" where
  "with_ptr n len f = bind (argptr n len) (\<lambda>a. case a of None \<Rightarrow> return (- 1) | Some a \<Rightarrow> f a)"

definition with_str :: "nat \<Rightarrow> (uchar list \<Rightarrow> (int, ksys) kfun) \<Rightarrow> (int, ksys) kfun" where
  "with_str n f = bind (argstr n) (\<lambda>a. case a of None \<Rightarrow> return (- 1) | Some cs \<Rightarrow> f cs)"

section \<open>Processes\<close>

definition sys_fork :: "linked_addrs \<Rightarrow> (int, ksys) kfun" where
  "sys_fork l = fork l"

definition sys_exit :: "(int, ksys) kfun" where
  "sys_exit = seq exit_proc (return 0)"

definition sys_wait :: "(int, ksys) kfun" where
  "sys_wait = wait"

definition sys_kill :: "(int, ksys) kfun" where
  "sys_kill = with_int 0 (\<lambda>n. pt (kill n))"

definition sys_getpid :: "(int, ksys) kfun" where
  "sys_getpid = cproc (\<lambda>_ r. return (pid r))"

definition sys_sbrk :: "(int, ksys) kfun" where
  "sys_sbrk = with_int 0 (\<lambda>n. cproc (\<lambda>_ r.
     bind (growproc n) (\<lambda>e. if e < 0 then return (- 1) else return (sint (sz r)))))"

text \<open>The loop of \<^verbatim>\<open>sys_sleep\<close>, run again when the process is woken.\<close>

definition sleep_until :: "uint \<Rightarrow> int \<Rightarrow> (int, ksys) kfun" where
  "sleep_until ticks0 n = cproc (\<lambda>_ r.
     branch (\<lambda>s. kticks s - ticks0 < word_of_int n)
       (if killed r then seq (pt (release TicksLock)) (return (- 1)) else pt (sleep ChTicks TicksLock))
       (seq (pt (release TicksLock)) (return 0)))"

definition sys_sleep :: "(int, ksys) kfun" where
  "sys_sleep = with_int 0 (\<lambda>n.
     seq (pt (acquire TicksLock))
    (bind (gets kticks) (\<lambda>ticks0. sleep_until ticks0 n)))"

definition sys_uptime :: "(int, ksys) kfun" where
  "sys_uptime =
     seq (pt (acquire TicksLock))
    (bind (gets kticks) (\<lambda>x.
     seq (pt (release TicksLock)) (return (sint x))))"

definition sys_procstat :: "(int, ksys) kfun" where
  "sys_procstat = seq (con (cprintf (\<lambda>_. []) (chars ''sys_procstat'' @ [10]) [])) (seq procdump (return 0))"

definition sys_setpriority :: "(int, ksys) kfun" where
  "sys_setpriority = with_int 0 (\<lambda>n. pt (setpriority (word_of_int n)))"

section \<open>Semaphores\<close>

definition sys_semget :: "(int, ksys) kfun" where
  "sys_semget = with_int 0 (\<lambda>i. with_int 1 (\<lambda>v. sem (semget i v)))"

definition sys_semfree :: "(int, ksys) kfun" where
  "sys_semfree = with_int 0 (\<lambda>i. sem (semfree i))"

definition sys_semdown :: "(int, ksys) kfun" where
  "sys_semdown = with_int 0 (\<lambda>i. sem (semdown i))"

definition sys_semup :: "(int, ksys) kfun" where
  "sys_semup = with_int 0 (\<lambda>i. sem (semup i))"

end
