(* ===== verification/Exec.thy ===== *)
theory Exec
  imports Syscall
begin

text \<open>
  Loading a program: \<^verbatim>\<open>loaduvm\<close> of \<^verbatim>\<open>vm.c\<close> and \<^verbatim>\<open>exec\<close> of \<^verbatim>\<open>exec.c\<close>.  The argument strings are lists of
  bytes, and \<^verbatim>\<open>copyout\<close> is given the bytes it copies.
\<close>

section \<open>Files into memory\<close>

fun loaduvm_loop :: "nat \<Rightarrow> uint \<Rightarrow> uint \<Rightarrow> nat \<Rightarrow> uint \<Rightarrow> uint \<Rightarrow> uint \<Rightarrow> (int, ksys) kfun" where
  "loaduvm_loop 0 pgd addr ip offset len i = (\<lambda>s. Spin)"
| "loaduvm_loop (Suc k) pgd addr ip offset len i =
     (if i < len
      then
        bind (km (walkpgdir pgd (addr + i) False)) (\<lambda>pte.
        if pte = 0 then panic ''loaduvm: address should exist''
        else
          bind (km (read32 pte)) (\<lambda>e.
          let n = (if len - i < PGSIZE then len - i else PGSIZE) in
          bind (fs (readi dev_reads ip (offset + i) n)) (\<lambda>(r, bs).
          seq (ustores (p2v (PTE_ADDR e)) bs)
         (if word_of_int r \<noteq> n then return (- 1)
          else loaduvm_loop k pgd addr ip offset len (i + PGSIZE)))))
      else return 0)"

definition loaduvm :: "uint \<Rightarrow> uint \<Rightarrow> nat \<Rightarrow> uint \<Rightarrow> uint \<Rightarrow> (int, ksys) kfun" where
  "loaduvm pgd addr ip offset len =
     seq (panic_if (\<lambda>_. addr mod PGSIZE \<noteq> 0) ''loaduvm: addr must be page aligned'')
         (loaduvm_loop (2 ^ 20 + 1) pgd addr ip offset len 0)"

fun copyout_bytes :: "nat \<Rightarrow> uint \<Rightarrow> uint \<Rightarrow> uchar list \<Rightarrow> (int, ksys) kfun" where
  "copyout_bytes 0 pgd a bs = (\<lambda>s. Spin)"
| "copyout_bytes (Suc k) pgd a bs =
     (if bs \<noteq> []
      then
        let va0 = PGROUNDDOWN a in
        bind (km (uva2ka pgd va0)) (\<lambda>pa0.
        if pa0 = 0 then return (- 1)
        else
          let n0 = unat (PGSIZE - (a - va0)); n = (if n0 > length bs then length bs else n0) in
          seq (ustores (pa0 + (a - va0)) (take n bs))
              (copyout_bytes k pgd (va0 + PGSIZE) (drop n bs)))
      else return 0)"

section \<open>The image\<close>

definition ELF_MAGIC :: uint where "ELF_MAGIC = 0x464C457F"
definition ELF_PROG_LOAD :: uint where "ELF_PROG_LOAD = 1"

definition bytes32 :: "uchar list \<Rightarrow> nat \<Rightarrow> uint" where
  "bytes32 bs i = of_bytes (bs ! i) (bs ! (i + 1)) (bs ! (i + 2)) (bs ! (i + 3))"

definition bytes16 :: "uchar list \<Rightarrow> nat \<Rightarrow> ushort" where
  "bytes16 bs i = word_cat (bs ! (i + 1)) (bs ! i)"

record elfhdr =
  e_magic :: uint
  e_entry :: uint
  e_phoff :: uint
  e_phnum :: ushort

definition elfhdr_of :: "uchar list \<Rightarrow> elfhdr" where
  "elfhdr_of bs = \<lparr>e_magic = bytes32 bs 0, e_entry = bytes32 bs 24, e_phoff = bytes32 bs 28, e_phnum = bytes16 bs 44\<rparr>"

record proghdr =
  ph_type :: uint
  ph_off :: uint
  ph_vaddr :: uint
  ph_filesz :: uint
  ph_memsz :: uint

definition proghdr_of :: "uchar list \<Rightarrow> proghdr" where
  "proghdr_of bs = \<lparr>ph_type = bytes32 bs 0, ph_off = bytes32 bs 4, ph_vaddr = bytes32 bs 8, ph_filesz = bytes32 bs 16, ph_memsz = bytes32 bs 20\<rparr>"

text \<open>The loop over the program headers; \<open>None\<close> is the jump to \<^verbatim>\<open>bad\<close>.\<close>

fun exec_segments :: "nat \<Rightarrow> uint \<Rightarrow> nat \<Rightarrow> uint \<Rightarrow> uint \<Rightarrow> (uint option, ksys) kfun" where
  "exec_segments 0 pgd ip off hi = return (Some hi)"
| "exec_segments (Suc k) pgd ip off hi =
     bind (fs (readi dev_reads ip off 32)) (\<lambda>(r, bs).
     if r \<noteq> 32 then return None
     else
       let ph = proghdr_of bs in
       if ph_type ph \<noteq> ELF_PROG_LOAD then exec_segments k pgd ip (off + 32) hi
       else if ph_memsz ph < ph_filesz ph then return None
       else
         bind (km (allocuvm pgd hi (ph_vaddr ph + ph_memsz ph))) (\<lambda>hi.
         if hi = 0 then return None
         else
           bind (loaduvm pgd (ph_vaddr ph) ip (ph_off ph) (ph_filesz ph)) (\<lambda>e.
           if e < 0 then return None else exec_segments k pgd ip (off + 32) hi)))"

text \<open>
  The header is accepted unless fewer than 52 bytes were read; the comparison is unsigned, so that the result
  -1 is accepted too and the header is then whatever was on the stack, which ends the model with \<open>Fault\<close>.
\<close>

definition exec_load :: "linked_addrs \<Rightarrow> nat \<Rightarrow> (uint \<times> (uint \<times> uint) option, ksys) kfun" where
  "exec_load l ip =
     bind (fs (readi dev_reads ip 0 52)) (\<lambda>(r, bs).
     if (word_of_int r :: uint) < 52 then return (0, None)
     else if length bs < 52 then fault
     else
       let elf = elfhdr_of bs in
       if e_magic elf \<noteq> ELF_MAGIC then return (0, None)
       else
         bind (km (setupkvm (l_data l))) (\<lambda>pgd.
         if pgd = 0 then return (0, None)
         else
           bind (exec_segments (unat (e_phnum elf)) pgd ip (e_phoff elf) 0) (\<lambda>hi.
           return (pgd, map_option (\<lambda>hi. (hi, e_entry elf)) hi))))"

section \<open>The stack\<close>

fun push_args :: "uint \<Rightarrow> nat \<Rightarrow> uchar list list \<Rightarrow> uint \<Rightarrow> uint list \<Rightarrow> ((uint \<times> uint list) option, ksys) kfun" where
  "push_args pgd argc [] sp ptrs = return (Some (sp, ptrs))"
| "push_args pgd argc (a # args) sp ptrs =
     (if argc \<ge> MAXARG then return None
      else
        let sp = (sp - (of_nat (length a) + 1)) AND NOT 3 in
        bind (copyout_bytes (2 ^ 20 + 2) pgd sp (a @ [0])) (\<lambda>e.
        if e < 0 then return None else push_args pgd (Suc argc) args sp (ptrs @ [sp])))"

definition word_bytes :: "uint \<Rightarrow> uchar list" where
  "word_bytes w = [byte_of w 0, byte_of w 1, byte_of w 2, byte_of w 3]"

definition ustack :: "uint list \<Rightarrow> uint \<Rightarrow> uint list" where
  "ustack ptrs sp = [0xffffffff, of_nat (length ptrs), sp - (of_nat (length ptrs) + 1) * 4] @ ptrs @ [0]"

definition exec_stack :: "uint \<Rightarrow> uchar list list \<Rightarrow> uint \<Rightarrow> (uint option, ksys) kfun" where
  "exec_stack pgd argv hi =
     bind (push_args pgd 0 argv hi []) (\<lambda>res.
     case res of
       None \<Rightarrow> return None
     | Some (sp, ptrs) \<Rightarrow>
         let words = ustack ptrs sp; sp' = sp - of_nat (length words) * 4 in
         bind (copyout_bytes (2 ^ 20 + 2) pgd sp' (concat (map word_bytes words))) (\<lambda>e.
         if e < 0 then return None else return (Some sp')))"

text \<open>What follows the last slash.\<close>

definition last_elem :: "uchar list \<Rightarrow> uchar list" where
  "last_elem path = rev (takeWhile (\<lambda>c. c \<noteq> SLASH) (rev path))"

section \<open>Exec\<close>

definition namei_cur :: "uchar list \<Rightarrow> (nat option, ksys) kfun" where
  "namei_cur path = cproc (\<lambda>_ r.
     if path \<noteq> [] \<and> hd path = SLASH then fs (namei 0 path) else with_ip (cwd r) (\<lambda>c. fs (namei c path)))"

definition exec_bad :: "uint \<Rightarrow> nat option \<Rightarrow> (int, ksys) kfun" where
  "exec_bad pgd ip =
     seq (if pgd \<noteq> 0 then km (freevm pgd) else return ())
    (seq (case ip of None \<Rightarrow> return () | Some ip \<Rightarrow> seq (fs (iunlockput ip)) (fs end_op))
         (return (- 1)))"

definition exec_commit :: "uint \<Rightarrow> uint \<Rightarrow> uint \<Rightarrow> uint \<Rightarrow> uchar list \<Rightarrow> (int, ksys) kfun" where
  "exec_commit pgd hi entry sp path = cproc (\<lambda>p r.
     seq (upd_cur (\<lambda>r. r\<lparr>pname := map (\<lambda>c. char_of (unat c)) (take 15 (last_elem path))\<rparr>))
    (seq (upd_cur (\<lambda>r. r\<lparr>pgdir := pgd, sz := hi, tf := (tf r)\<lparr>tf_eip := entry, tf_esp := sp\<rparr>\<rparr>))
    (seq (pt (switchuvm p))
    (seq (km (freevm (pgdir r)))
         (return 0)))))"

definition exec :: "linked_addrs \<Rightarrow> uchar list \<Rightarrow> uchar list list \<Rightarrow> (int, ksys) kfun" where
  "exec l path argv =
     seq (fs begin_op)
    (bind (namei_cur path) (\<lambda>ipo.
     case ipo of
       None \<Rightarrow> seq (fs end_op) (return (- 1))
     | Some ip \<Rightarrow>
         seq (fs (ilock ip))
        (bind (exec_load l ip) (\<lambda>(pgd, res).
         case res of
           None \<Rightarrow> exec_bad pgd (Some ip)
         | Some (hi, entry) \<Rightarrow>
             seq (fs (iunlockput ip))
            (seq (fs end_op)
            (let base = PGROUNDUP (hi + PGSIZE); hi = PGROUNDUP (base + PGSIZE * of_nat (MAXSTACKPAGES - 1)) in
             seq (upd_cur (\<lambda>r. r\<lparr>sstack := base\<rparr>))
            (bind (km (allocuvm pgd hi (hi + PGSIZE))) (\<lambda>hi.
             if hi = 0 then exec_bad pgd None
             else
               bind (exec_stack pgd argv hi) (\<lambda>spo.
               case spo of
                 None \<Rightarrow> exec_bad pgd None
               | Some sp \<Rightarrow> exec_commit pgd hi entry sp path)))))))))"

end
