(* ===== verification/Sysfile.thy ===== *)
theory Sysfile
  imports Exec
begin

text \<open>
  The file-system calls of \<^verbatim>\<open>sysfile.c\<close>.  Every call takes its arguments from the stack of the process,
  as the code does.
\<close>

section \<open>Descriptors\<close>

definition argfd :: "nat \<Rightarrow> ((nat \<times> nat) option, ksys) kfun" where
  "argfd n =
     bind (argint n) (\<lambda>i.
     case i of
       None \<Rightarrow> return None
     | Some w \<Rightarrow> cproc (\<lambda>_ r.
         let fd = sint w in
         if fd < 0 \<or> fd \<ge> int NOFILE then return None
         else return (map_option (\<lambda>f. (nat fd, f)) (ofile r (nat fd)))))"

definition with_fd :: "nat \<Rightarrow> (nat \<Rightarrow> nat \<Rightarrow> (int, ksys) kfun) \<Rightarrow> (int, ksys) kfun" where
  "with_fd n f = bind (argfd n) (\<lambda>a. case a of None \<Rightarrow> return (- 1) | Some (fd, g) \<Rightarrow> f fd g)"

definition set_fd :: "nat \<Rightarrow> nat option \<Rightarrow> (unit, ksys) kfun" where
  "set_fd fd f = upd_cur (\<lambda>r. r\<lparr>ofile := (ofile r)(fd := f)\<rparr>)"

definition fdalloc :: "nat \<Rightarrow> (int, ksys) kfun" where
  "fdalloc f = cproc (\<lambda>_ r.
     case first_index NOFILE (\<lambda>fd. ofile r fd = None) of
       None \<Rightarrow> return (- 1)
     | Some fd \<Rightarrow> seq (set_fd fd (Some f)) (return (int fd)))"

definition sys_dup :: "(int, ksys) kfun" where
  "sys_dup = with_fd 0 (\<lambda>_ f.
     bind (fdalloc f) (\<lambda>fd. if fd < 0 then return (- 1) else seq (filedup f) (return fd)))"

definition sys_read :: "(int, ksys) kfun" where
  "sys_read = with_fd 0 (\<lambda>_ f. with_int 2 (\<lambda>n. with_ptr 1 n (\<lambda>p. fileread f p n)))"

definition sys_write :: "(int, ksys) kfun" where
  "sys_write = with_fd 0 (\<lambda>_ f. with_int 2 (\<lambda>n. with_ptr 1 n (\<lambda>p. filewrite f p n)))"

definition sys_close :: "(int, ksys) kfun" where
  "sys_close = with_fd 0 (\<lambda>fd f. seq (set_fd fd None) (seq (fileclose f) (return 0)))"

definition sys_fstat :: "(int, ksys) kfun" where
  "sys_fstat = with_fd 0 (\<lambda>_ f. with_ptr 1 20 (\<lambda>st. filestat f st))"

definition sys_seek :: "(int, ksys) kfun" where
  "sys_seek = with_fd 0 (\<lambda>_ f. with_int 1 (\<lambda>n. fileseek f (word_of_int n)))"

section \<open>Directories\<close>

definition upd_link :: "nat \<Rightarrow> ushort \<Rightarrow> (unit, ksys) kfun" where
  "upd_link ip d = upd_ino ip (\<lambda>x. x\<lparr>inlink := inlink x + d\<rparr>)"

definition parent_cur :: "uchar list \<Rightarrow> ((nat \<times> name) option, ksys) kfun" where
  "parent_cur path = cproc (\<lambda>_ r.
     if path \<noteq> [] \<and> hd path = SLASH then fs (nameiparent 0 path (\<lambda>_. 0))
     else with_ip (cwd r) (\<lambda>c. fs (nameiparent c path (\<lambda>_. 0))))"

definition link_bad :: "nat \<Rightarrow> (int, ksys) kfun" where
  "link_bad ip =
     seq (fs (ilock ip))
    (seq (upd_link ip (- 1))
    (seq (fs (iupdate ip))
    (seq (fs (iunlockput ip))
    (seq (fs end_op)
         (return (- 1))))))"

definition sys_link :: "(int, ksys) kfun" where
  "sys_link = with_str 0 (\<lambda>old. with_str 1 (\<lambda>new.
     seq (fs begin_op)
    (bind (namei_cur old) (\<lambda>ipo.
     case ipo of
       None \<Rightarrow> seq (fs end_op) (return (- 1))
     | Some ip \<Rightarrow>
         seq (fs (ilock ip))
        (bind (ino ip) (\<lambda>x.
         if itype x = T_DIR then seq (fs (iunlockput ip)) (seq (fs end_op) (return (- 1)))
         else
           seq (upd_link ip 1)
          (seq (fs (iupdate ip))
          (seq (fs (iunlock ip))
          (bind (parent_cur new) (\<lambda>dpo.
           case dpo of
             None \<Rightarrow> link_bad ip
           | Some (dp, nm) \<Rightarrow>
               seq (fs (ilock dp))
              (bind (ino dp) (\<lambda>d. bind (ino ip) (\<lambda>x.
               bind (if idev d \<noteq> idev x then return (- 1) else fs (dirlink dp nm (inum x))) (\<lambda>e.
               if e < 0 then seq (fs (iunlockput dp)) (link_bad ip)
               else
                 seq (fs (iunlockput dp))
                (seq (fs (iput ip))
                (seq (fs end_op)
                     (return 0)))))))))))))))))"

fun isdirempty_loop :: "nat \<Rightarrow> nat \<Rightarrow> uint \<Rightarrow> (bool, ksys) kfun" where
  "isdirempty_loop 0 dp off = (\<lambda>s. Spin)"
| "isdirempty_loop (Suc k) dp off =
     bind (ino dp) (\<lambda>x.
     if off < isize x
     then
       bind (readi dev_reads dp off 16) (\<lambda>(r, de).
       if r \<noteq> 16 then panic ''isdirempty: readi''
       else if de_inum de \<noteq> 0 then return False
       else isdirempty_loop k dp (off + 16))
     else return True)"

definition isdirempty :: "nat \<Rightarrow> (bool, ksys) kfun" where
  "isdirempty dp = bind (ino dp) (\<lambda>x. isdirempty_loop (Suc (unat (isize x))) dp 32)"

definition dot :: name where
  "dot = (\<lambda>i. if i = 0 then 46 else 0)"

definition dotdot :: name where
  "dotdot = (\<lambda>i. if i < 2 then 46 else 0)"

definition unlink_bad :: "nat \<Rightarrow> (int, ksys) kfun" where
  "unlink_bad dp = seq (fs (iunlockput dp)) (seq (fs end_op) (return (- 1)))"

definition unlink_entry :: "nat \<Rightarrow> nat \<Rightarrow> uint \<Rightarrow> (int, ksys) kfun" where
  "unlink_entry dp ip off =
     bind (fs (writei dev_writes dp (\<lambda>_. 0) off 16)) (\<lambda>r.
     if r \<noteq> 16 then panic ''unlink: writei''
     else
       bind (ino ip) (\<lambda>x.
       seq (if itype x = T_DIR then seq (upd_link dp (- 1)) (fs (iupdate dp)) else return ())
      (seq (fs (iunlockput dp))
      (seq (upd_link ip (- 1))
      (seq (fs (iupdate ip))
      (seq (fs (iunlockput ip))
      (seq (fs end_op)
           (return 0))))))))"

definition sys_unlink :: "(int, ksys) kfun" where
  "sys_unlink = with_str 0 (\<lambda>path.
     seq (fs begin_op)
    (bind (parent_cur path) (\<lambda>dpo.
     case dpo of
       None \<Rightarrow> seq (fs end_op) (return (- 1))
     | Some (dp, nm) \<Rightarrow>
         seq (fs (ilock dp))
        (if namecmp nm dot = 0 \<or> namecmp nm dotdot = 0 then unlink_bad dp
         else
           bind (fs (dirlookup dp nm)) (\<lambda>res.
           case res of
             None \<Rightarrow> unlink_bad dp
           | Some (ip, off) \<Rightarrow>
               seq (fs (ilock ip))
              (bind (ino ip) (\<lambda>x.
               if sint (inlink x) < 1 then panic ''unlink: nlink < 1''
               else
                 bind (if itype x = T_DIR then fs (isdirempty ip) else return True) (\<lambda>empty.
                 if \<not> empty then seq (fs (iunlockput ip)) (unlink_bad dp)
                 else unlink_entry dp ip off))))))))"

section \<open>Creating\<close>

definition create_new :: "nat \<Rightarrow> name \<Rightarrow> ushort \<Rightarrow> ushort \<Rightarrow> ushort \<Rightarrow> (nat option, ksys) kfun" where
  "create_new dp nm ty major minor =
     bind (ino dp) (\<lambda>d.
     bind (fs (ialloc (idev d) ty)) (\<lambda>ip.
     seq (fs (ilock ip))
    (seq (upd_ino ip (\<lambda>x. x\<lparr>imajor := major, iminor := minor, inlink := 1\<rparr>))
    (seq (fs (iupdate ip))
    (bind (ino ip) (\<lambda>x.
     seq (if ty = T_DIR
          then
            seq (upd_link dp 1)
           (seq (fs (iupdate dp))
           (bind (fs (dirlink ip dot (inum x))) (\<lambda>e1.
            if e1 < 0 then panic ''create dots''
            else bind (fs (dirlink ip dotdot (inum d))) (\<lambda>e2.
              if e2 < 0 then panic ''create dots'' else return ()))))
          else return ())
    (bind (fs (dirlink dp nm (inum x))) (\<lambda>e.
     if e < 0 then panic ''create: dirlink''
     else seq (fs (iunlockput dp)) (return (Some ip))))))))))"

definition create :: "uchar list \<Rightarrow> ushort \<Rightarrow> ushort \<Rightarrow> ushort \<Rightarrow> (nat option, ksys) kfun" where
  "create path ty major minor =
     bind (parent_cur path) (\<lambda>dpo.
     case dpo of
       None \<Rightarrow> return None
     | Some (dp, nm) \<Rightarrow>
         seq (fs (ilock dp))
        (bind (fs (dirlookup dp nm)) (\<lambda>res.
         case res of
           Some (ip, _) \<Rightarrow>
             seq (fs (iunlockput dp))
            (seq (fs (ilock ip))
            (bind (ino ip) (\<lambda>x.
             if ty = T_FILE \<and> itype x = T_FILE then return (Some ip)
             else seq (fs (iunlockput ip)) (return None))))
         | None \<Rightarrow> create_new dp nm ty major minor)))"

definition O_RDONLY :: uint where "O_RDONLY = 0"
definition O_WRONLY :: uint where "O_WRONLY = 1"
definition O_RDWR :: uint where "O_RDWR = 2"
definition O_CREATE :: uint where "O_CREATE = 0x200"

text \<open>The inode \<^verbatim>\<open>sys_open\<close> opens, locked; \<open>None\<close> when the call fails.\<close>

definition open_inode :: "uchar list \<Rightarrow> uint \<Rightarrow> (nat option, ksys) kfun" where
  "open_inode path omode =
     (if omode AND O_CREATE \<noteq> 0 then create path T_FILE 0 0
      else
        bind (namei_cur path) (\<lambda>ipo.
        case ipo of
          None \<Rightarrow> return None
        | Some ip \<Rightarrow>
            seq (fs (ilock ip))
           (bind (ino ip) (\<lambda>x.
            if itype x = T_DIR \<and> omode \<noteq> O_RDONLY then seq (fs (iunlockput ip)) (return None)
            else return (Some ip)))))"

definition sys_open :: "(int, ksys) kfun" where
  "sys_open = with_str 0 (\<lambda>path. with_int 1 (\<lambda>m.
     let omode = word_of_int m in
     seq (fs begin_op)
    (bind (open_inode path omode) (\<lambda>ipo.
     case ipo of
       None \<Rightarrow> seq (fs end_op) (return (- 1))
     | Some ip \<Rightarrow>
         let fail = seq (fs (iunlockput ip)) (seq (fs end_op) (return (- 1))) in
         bind filealloc (\<lambda>fo.
         case fo of
           None \<Rightarrow> fail
         | Some f \<Rightarrow>
             bind (fdalloc f) (\<lambda>fd.
             if fd < 0 then seq (fileclose f) fail
             else
               seq (fs (iunlock ip))
              (seq (fs end_op)
              (seq (upd_file f (\<lambda>x. x\<lparr>ftyp := FD_INODE, fip := Some ip, foff := 0, freadable := (omode AND O_WRONLY = 0),
                     fwritable := (omode AND O_WRONLY \<noteq> 0 \<or> omode AND O_RDWR \<noteq> 0)\<rparr>))
                   (return fd)))))))))"

definition sys_mkdir :: "(int, ksys) kfun" where
  "sys_mkdir =
     seq (fs begin_op)
    (bind (argstr 0) (\<lambda>po.
     bind (case po of None \<Rightarrow> return None | Some path \<Rightarrow> create path T_DIR 0 0) (\<lambda>ipo.
     case ipo of
       None \<Rightarrow> seq (fs end_op) (return (- 1))
     | Some ip \<Rightarrow> seq (fs (iunlockput ip)) (seq (fs end_op) (return 0)))))"

definition sys_mknod :: "(int, ksys) kfun" where
  "sys_mknod =
     seq (fs begin_op)
    (bind (argstr 0) (\<lambda>po.
     bind (case po of
             None \<Rightarrow> return None
           | Some path \<Rightarrow>
               bind (argint 1) (\<lambda>mj.
               case mj of
                 None \<Rightarrow> return None
               | Some major \<Rightarrow>
                   bind (argint 2) (\<lambda>mn.
                   case mn of None \<Rightarrow> return None | Some minor \<Rightarrow> create path T_DEV (ucast major) (ucast minor)))) (\<lambda>ipo.
     case ipo of
       None \<Rightarrow> seq (fs end_op) (return (- 1))
     | Some ip \<Rightarrow> seq (fs (iunlockput ip)) (seq (fs end_op) (return 0)))))"

definition sys_chdir :: "(int, ksys) kfun" where
  "sys_chdir =
     seq (fs begin_op)
    (bind (argstr 0) (\<lambda>po.
     bind (case po of None \<Rightarrow> return None | Some path \<Rightarrow> namei_cur path) (\<lambda>ipo.
     case ipo of
       None \<Rightarrow> seq (fs end_op) (return (- 1))
     | Some ip \<Rightarrow>
         seq (fs (ilock ip))
        (bind (ino ip) (\<lambda>x.
         if itype x \<noteq> T_DIR then seq (fs (iunlockput ip)) (seq (fs end_op) (return (- 1)))
         else
           seq (fs (iunlock ip))
          (seq (cproc (\<lambda>_ r. with_ip (cwd r) (\<lambda>c. fs (iput c))))
          (seq (fs end_op)
          (seq (upd_cur (\<lambda>r. r\<lparr>cwd := Some ip\<rparr>))
               (return 0)))))))))"

section \<open>Programs, pipes and mappings\<close>

text \<open>The loop of \<^verbatim>\<open>sys_exec\<close>: \<open>k\<close> places are left in \<^verbatim>\<open>argv\<close>.\<close>

fun exec_args :: "nat \<Rightarrow> uint \<Rightarrow> (uchar list list option, ksys) kfun" where
  "exec_args 0 a = return None"
| "exec_args (Suc k) a =
     bind (fetchint a) (\<lambda>uo.
     case uo of
       None \<Rightarrow> return None
     | Some uarg \<Rightarrow>
         if uarg = 0 then return (Some [])
         else
           bind (fetchstr uarg) (\<lambda>so.
           case so of
             None \<Rightarrow> return None
           | Some str \<Rightarrow> bind (exec_args k (a + 4)) (\<lambda>rest. return (map_option (Cons str) rest))))"

definition sys_exec :: "linked_addrs \<Rightarrow> (int, ksys) kfun" where
  "sys_exec l = with_str 0 (\<lambda>path. with_int 1 (\<lambda>uargv.
     bind (exec_args MAXARG (word_of_int uargv)) (\<lambda>argv.
     case argv of None \<Rightarrow> return (- 1) | Some argv \<Rightarrow> exec l path argv)))"

definition sys_pipe :: "(int, ksys) kfun" where
  "sys_pipe = with_ptr 0 8 (\<lambda>fd.
     bind pipealloc (\<lambda>res.
     case res of
       None \<Rightarrow> return (- 1)
     | Some (f0, f1) \<Rightarrow>
         bind (fdalloc f0) (\<lambda>fd0.
         bind (if fd0 < 0 then return (- 1) else fdalloc f1) (\<lambda>fd1.
         if fd0 < 0 \<or> fd1 < 0
         then
           seq (if fd0 \<ge> 0 then set_fd (nat fd0) None else return ())
          (seq (fileclose f0)
          (seq (fileclose f1)
               (return (- 1))))
         else
           seq (ustore32 fd (word_of_int fd0))
          (seq (ustore32 (fd + 4) (word_of_int fd1))
               (return 0))))))"

definition sys_mmap :: "(int, ksys) kfun" where
  "sys_mmap = with_int 0 (\<lambda>fd. with_int 1 (\<lambda>addr. mmap fd (word_of_int addr)))"

definition sys_munmap :: "(int, ksys) kfun" where
  "sys_munmap = with_int 0 (\<lambda>addr. munmap (word_of_int addr))"

end
