(* ===== verification/Kbd.thy ===== *)
theory Kbd
  imports Prelude
begin

text \<open>
  The keyboard driver of \<^verbatim>\<open>kbd.c\<close> with the tables of \<^verbatim>\<open>kbd.h\<close>: from scan codes to characters.  What the
  code reads from the ports of the controller, the status and the scan code, are arguments.
\<close>

section \<open>Tables\<close>

definition SHIFT :: uint where "SHIFT = 1"
definition CTL :: uint where "CTL = 2"
definition ALT :: uint where "ALT = 4"
definition CAPSLOCK :: uint where "CAPSLOCK = 8"
definition NUMLOCK :: uint where "NUMLOCK = 16"
definition SCROLLLOCK :: uint where "SCROLLLOCK = 32"
definition E0ESC :: uint where "E0ESC = 64"

lemmas kbd_bits = SHIFT_def CTL_def ALT_def CAPSLOCK_def NUMLOCK_def SCROLLLOCK_def E0ESC_def

definition shiftcode :: "nat \<Rightarrow> uint" where
  "shiftcode = (\<lambda>_. 0)(0x1D := CTL, 0x2A := SHIFT, 0x36 := SHIFT, 0x38 := ALT, 0x9D := CTL, 0xB8 := ALT)"

definition togglecode :: "nat \<Rightarrow> uint" where
  "togglecode = (\<lambda>_. 0)(0x3A := CAPSLOCK, 0x45 := NUMLOCK, 0x46 := SCROLLLOCK)"

text \<open>The initialiser of a table: the listed entries, then zeros.\<close>

definition keys :: "uchar list \<Rightarrow> nat \<Rightarrow> uchar" where
  "keys ks i = (if i < length ks then ks ! i else 0)"

definition normalmap :: "nat \<Rightarrow> uchar" where
  "normalmap = (keys
     [0, 27, 49, 50, 51, 52, 53, 54,
      55, 56, 57, 48, 45, 61, 8, 9,
      113, 119, 101, 114, 116, 121, 117, 105,
      111, 112, 91, 93, 10, 0, 97, 115,
      100, 102, 103, 104, 106, 107, 108, 59,
      39, 96, 0, 92, 122, 120, 99, 118,
      98, 110, 109, 44, 46, 47, 0, 42,
      0, 32, 0, 0, 0, 0, 0, 0,
      0, 0, 0, 0, 0, 0, 0, 55,
      56, 57, 45, 52, 53, 54, 43, 49,
      50, 51, 48, 46, 0, 0, 0, 0])(0x9C := 10, 0xB5 := 47, 0xC8 := 226, 0xD0 := 227, 0xC9 := 230, 0xD1 := 231, 0xCB := 228, 0xCD := 229, 0x97 := 224, 0xCF := 225, 0xD2 := 232, 0xD3 := 233)"

definition shiftmap :: "nat \<Rightarrow> uchar" where
  "shiftmap = (keys
     [0, 27, 33, 64, 35, 36, 37, 94,
      38, 42, 40, 41, 95, 43, 8, 9,
      81, 87, 69, 82, 84, 89, 85, 73,
      79, 80, 123, 125, 10, 0, 65, 83,
      68, 70, 71, 72, 74, 75, 76, 58,
      34, 126, 0, 124, 90, 88, 67, 86,
      66, 78, 77, 60, 62, 63, 0, 42,
      0, 32, 0, 0, 0, 0, 0, 0,
      0, 0, 0, 0, 0, 0, 0, 55,
      56, 57, 45, 52, 53, 54, 43, 49,
      50, 51, 48, 46, 0, 0, 0, 0])(0x9C := 10, 0xB5 := 47, 0xC8 := 226, 0xD0 := 227, 0xC9 := 230, 0xD1 := 231, 0xCB := 228, 0xCD := 229, 0x97 := 224, 0xCF := 225, 0xD2 := 232, 0xD3 := 233)"

definition ctlmap :: "nat \<Rightarrow> uchar" where
  "ctlmap = (keys
     [0, 0, 0, 0, 0, 0, 0, 0,
      0, 0, 0, 0, 0, 0, 0, 0,
      17, 23, 5, 18, 20, 25, 21, 9,
      15, 16, 0, 0, 13, 0, 1, 19,
      4, 6, 7, 8, 10, 11, 12, 0,
      0, 0, 0, 28, 26, 24, 3, 22,
      2, 14, 13, 0, 0, 239, 0, 0])(0x9C := 13, 0xB5 := 239, 0xC8 := 226, 0xD0 := 227, 0xC9 := 230, 0xD1 := 231, 0xCB := 228, 0xCD := 229, 0x97 := 224, 0xCF := 225, 0xD2 := 232, 0xD3 := 233)"

section \<open>Driver\<close>

definition charcode :: "uint \<Rightarrow> nat \<Rightarrow> uchar" where
  "charcode m = (if m AND CTL \<noteq> 0 then ctlmap else if m AND SHIFT \<noteq> 0 then shiftmap else normalmap)"

definition swap_case :: "uint \<Rightarrow> uint" where
  "swap_case c = (if 97 \<le> c \<and> c \<le> 122 then c - 32 else if 65 \<le> c \<and> c \<le> 90 then c + 32 else c)"

text \<open>\<^verbatim>\<open>kbdgetc\<close>: the character, 0 or -1, and the new state of the modifiers.\<close>

definition kbdgetc :: "uint \<Rightarrow> uchar \<Rightarrow> uint \<Rightarrow> int \<times> uint" where
  "kbdgetc st sc shift =
     (if st AND 1 = 0 then (- 1, shift)
      else
        let data = ucast sc :: uint in
        if data = 0xE0 then (0, shift OR E0ESC)
        else if data AND 0x80 \<noteq> 0 then
          (let data = (if shift AND E0ESC \<noteq> 0 then data else data AND 0x7F) in
           (0, shift AND NOT (shiftcode (unat data) OR E0ESC)))
        else
          let esc = (shift AND E0ESC \<noteq> 0);
              data = (if esc then data OR 0x80 else data);
              shift = (if esc then shift AND NOT E0ESC else shift);
              shift = (shift OR shiftcode (unat data)) XOR togglecode (unat data);
              c = ucast (charcode (shift AND (CTL OR SHIFT)) (unat data)) :: uint;
              c = (if shift AND CAPSLOCK \<noteq> 0 then swap_case c else c) in
          (uint c, shift))"

text \<open>The characters \<^verbatim>\<open>consoleintr\<close> gets from a sequence of scan codes, and the modifiers after them.\<close>

fun kbd_chars :: "uchar list \<Rightarrow> uint \<Rightarrow> int list \<times> uint" where
  "kbd_chars [] shift = ([], shift)"
| "kbd_chars (d # ds) shift =
     (let (c, shift) = kbdgetc 1 d shift; (cs, shift) = kbd_chars ds shift in (c # cs, shift))"

end
