(* ===== verification/Trap.thy ===== *)
theory Trap
  imports Sysfile Kbd
begin

text \<open>
  Entering the kernel: the table of system calls and \<^verbatim>\<open>syscall\<close> (\<^verbatim>\<open>syscall.c\<close>), and \<^verbatim>\<open>trap\<close> (\<^verbatim>\<open>trap.c\<close>)
  with its page faults, clock ticks and quantum.

  \<^verbatim>\<open>trap\<close> returns to the interrupted code, or the process exits, or it gives up the processor; in the last case
  \<open>trap_yielded\<close> is what \<^verbatim>\<open>trap\<close> does when the process runs again.  The fault address that the code reads from
  the register \<^verbatim>\<open>%cr2\<close> and the characters that a device delivers are arguments.
\<close>

section \<open>System calls\<close>

definition syscalls :: "linked_addrs \<Rightarrow> int \<Rightarrow> (int, ksys) kfun option" where
  "syscalls l n =
     (if n = 1 then Some (sys_fork l) else if n = 2 then Some sys_exit else if n = 3 then Some sys_wait
      else if n = 4 then Some sys_pipe else if n = 5 then Some sys_read else if n = 6 then Some sys_kill
      else if n = 7 then Some (sys_exec l) else if n = 8 then Some sys_fstat else if n = 9 then Some sys_chdir
      else if n = 10 then Some sys_dup else if n = 11 then Some sys_getpid else if n = 12 then Some sys_sbrk
      else if n = 13 then Some sys_sleep else if n = 14 then Some sys_uptime else if n = 15 then Some sys_open
      else if n = 16 then Some sys_write else if n = 17 then Some sys_mknod else if n = 18 then Some sys_unlink
      else if n = 19 then Some sys_link else if n = 20 then Some sys_mkdir else if n = 21 then Some sys_close
      else if n = 22 then Some sys_procstat else if n = 23 then Some sys_setpriority else if n = 24 then Some sys_semget
      else if n = 25 then Some sys_semfree else if n = 26 then Some sys_semdown else if n = 27 then Some sys_semup
      else if n = 28 then Some sys_seek else if n = 29 then Some sys_mmap else if n = 30 then Some sys_munmap
      else None)"

definition SYS_exit :: int where "SYS_exit = 2"

text \<open>The result is true unless the call was \<^verbatim>\<open>exit\<close>, which does not come back.\<close>

definition syscall :: "linked_addrs \<Rightarrow> (bool, ksys) kfun" where
  "syscall l = cproc (\<lambda>_ r.
     let num = sint (tf_eax (tf r)) in
     case (if num > 0 then syscalls l num else None) of
       Some f \<Rightarrow>
         bind f (\<lambda>v.
         if num = SYS_exit then return False
         else seq (upd_cur (\<lambda>r. r\<lparr>tf := (tf r)\<lparr>tf_eax := word_of_int v\<rparr>\<rparr>)) (return True))
     | None \<Rightarrow>
         seq (con (cprintf (\<lambda>_. chars (pname r)) (chars ''%d %s: unknown sys call %d'' @ [10])
                [word_of_int (pid r), 1, word_of_int num]))
        (seq (upd_cur (\<lambda>r. r\<lparr>tf := (tf r)\<lparr>tf_eax := - 1\<rparr>\<rparr>)) (return True)))"

section \<open>Traps\<close>

definition T_PGFLT :: uint where "T_PGFLT = 14"
definition T_SYSCALL :: uint where "T_SYSCALL = 64"
definition T_IRQ0 :: uint where "T_IRQ0 = 32"
definition IRQ_TIMER :: uint where "IRQ_TIMER = 0"
definition IRQ_KBD :: uint where "IRQ_KBD = 1"
definition IRQ_COM1 :: uint where "IRQ_COM1 = 4"
definition IRQ_IDE :: uint where "IRQ_IDE = 14"
definition IRQ_SPURIOUS :: uint where "IRQ_SPURIOUS = 31"

datatype trap_end = Returns | Exits | Yields

definition user_mode :: "trapframe \<Rightarrow> bool" where
  "user_mode f \<longleftrightarrow> tf_cs f AND 3 = 3"

definition cur_killed :: "ksys \<Rightarrow> bool" where
  "cur_killed s = (case curproc (pst s) of None \<Rightarrow> False | Some p \<Rightarrow> killed (procs (pst s) p))"

definition clock_tick :: "(unit, ksys) kfun" where
  "clock_tick =
     branch (\<lambda>s. cpuid (cpu (pst s)) = 0)
       (seq (pt (acquire TicksLock))
       (seq (modify (\<lambda>s. s\<lparr>kticks := kticks s + 1\<rparr>))
       (seq (pt (wakeup ChTicks))
            (pt (release TicksLock)))))
       (return ())"

text \<open>The two page faults that are repaired; false when the fault is neither.\<close>

definition page_fault :: "uint \<Rightarrow> (bool, ksys) kfun" where
  "page_fault a = cproc (\<lambda>_ r.
     let base = PGROUNDDOWN a in
     if a \<ge> sstack r \<and> a < sstack r + of_nat MAXSTACKPAGES * PGSIZE
     then
       seq (con (cprintf (\<lambda>_. []) (chars ''exhausted the stack, it will increase...virtual address:%x'' @ [10]) [a]))
      (bind (km (allocuvm (pgdir r) base (base + PGSIZE))) (\<lambda>e.
       if e = 0 then panic ''trap alloc stack'' else return True))
     else
       case mmapin r a of
         None \<Rightarrow> return False
       | Some i \<Rightarrow>
           seq (con (cprintf (\<lambda>_. []) ([10] @ chars ''SE QUIERE LEER UNA PAGINA DEL ARCHIVO NO ALOCADA!'' @ [10]) []))
          (bind (km (allocuvm (pgdir r) base (base + PGSIZE))) (\<lambda>e.
           if e = 0 then panic ''trap alloc mmap''
           else
             case pfile (ommap r i) of
               None \<Rightarrow> fault
             | Some f \<Rightarrow>
                 seq (fileseek f (base - va (ommap r i)))
                (seq (fileread f base (uint PGSIZE))
                     (return True)))))"

text \<open>A trap that nobody expected: in the kernel it is a panic, in a process it kills the process.\<close>

definition bad_trap :: "trapframe \<Rightarrow> uint \<Rightarrow> (unit, ksys) kfun" where
  "bad_trap f a = (\<lambda>s.
     case curproc (pst s) of
       None \<Rightarrow> Panic ''trap''
     | Some p \<Rightarrow>
        (if tf_cs f AND 3 = 0 then panic ''trap''
         else
           seq (con (cprintf (\<lambda>_. chars (pname (procs (pst s) p)))
                  (chars ''pid %d %s: trap %d err %d on cpu %d eip 0x%x addr 0x%x--kill proc'' @ [10])
                  [word_of_int (pid (procs (pst s) p)), 1, tf_trapno f, tf_err f, of_nat (cpuid (cpu (pst s))), tf_eip f, a]))
               (upd_cur (\<lambda>r. r\<lparr>killed := True\<rparr>))) s)"

definition dispatch :: "trapframe \<Rightarrow> uint \<Rightarrow> int list \<Rightarrow> (unit, ksys) kfun" where
  "dispatch f a input =
     (let no = tf_trapno f in
      if no = T_IRQ0 + IRQ_TIMER then clock_tick
      else if no = T_IRQ0 + IRQ_IDE \<or> no = T_IRQ0 + IRQ_IDE + 1 then return ()
      else if no = T_IRQ0 + IRQ_KBD \<or> no = T_IRQ0 + IRQ_COM1 then consoleintr input
      else if no = T_IRQ0 + 7 \<or> no = T_IRQ0 + IRQ_SPURIOUS then
        (\<lambda>s. con (cprintf (\<lambda>_. []) (chars ''cpu%d: spurious interrupt at %x:%x'' @ [10])
               [of_nat (cpuid (cpu (pst s))), ucast (tf_cs f), tf_eip f]) s)
      else
        branch (\<lambda>s. curproc (pst s) \<noteq> None \<and> no = T_PGFLT)
          (bind (page_fault a) (\<lambda>ok. if ok then return () else bad_trap f a))
          (bad_trap f a))"

text \<open>From the test of the age counters to the end.\<close>

definition trap_tail :: "trapframe \<Rightarrow> (trap_end, ksys) kfun" where
  "trap_tail f =
     seq (branch (\<lambda>s. tf_trapno f = T_IRQ0 + IRQ_TIMER \<and> kticks s mod of_nat TICKSFORAGE = 0) (pt calculateaging) (return ()))
         (branch (\<lambda>s. cur_killed s \<and> user_mode f) (seq exit_proc (return Exits)) (return Returns))"

definition trap_yielded :: "trapframe \<Rightarrow> (trap_end, ksys) kfun" where
  "trap_yielded f = seq (pt yield_resume) (trap_tail f)"

text \<open>The quantum: on its last tick the process yields.\<close>

definition quantum :: "trapframe \<Rightarrow> (trap_end, ksys) kfun" where
  "quantum f = (\<lambda>s.
     case curproc (pst s) of
       None \<Rightarrow> trap_tail f s
     | Some p \<Rightarrow>
        (let r = procs (pst s) p in
         if state r = RUNNING \<and> tf_trapno f = T_IRQ0 + IRQ_TIMER
         then
           if pticks r = of_nat (QUANTUM - 1)
           then seq (upd_cur (\<lambda>r. r\<lparr>pticks := 0\<rparr>)) (seq (pt yield) (return Yields))
           else seq (upd_cur (\<lambda>r. r\<lparr>pticks := pticks r + 1\<rparr>)) (trap_tail f)
         else trap_tail f) s)"

definition trap :: "linked_addrs \<Rightarrow> trapframe \<Rightarrow> uint \<Rightarrow> int list \<Rightarrow> (trap_end, ksys) kfun" where
  "trap l f a input =
     (if tf_trapno f = T_SYSCALL
      then
        cproc (\<lambda>_ r.
        if killed r then seq exit_proc (return Exits)
        else
          seq (upd_cur (\<lambda>r. r\<lparr>tf := f\<rparr>))
         (bind (syscall l) (\<lambda>ok.
          if \<not> ok then return Exits
          else branch cur_killed (seq exit_proc (return Exits)) (return Returns))))
      else
        seq (dispatch f a input)
            (branch (\<lambda>s. cur_killed s \<and> user_mode f) (seq exit_proc (return Exits)) (quantum f)))"

end
