(* ===== verification/Segments.thy ===== *)
theory Segments
  imports Trap
begin

text \<open>
  Segment and gate descriptors: the formats and macros of \<^verbatim>\<open>mmu.h\<close>, the segments \<^verbatim>\<open>seginit\<close> and \<^verbatim>\<open>switchuvm\<close>
  (\<^verbatim>\<open>vm.c\<close>) set up on each processor, and the interrupt descriptor table of \<^verbatim>\<open>tvinit\<close> (\<^verbatim>\<open>trap.c\<close>).  A bit field of
  \<open>n\<close> bits is an \<open>n\<close>-bit word.  The addresses of the tables and the entry points \<^verbatim>\<open>vectors\<close>, which the build generates,
  are arguments.
\<close>

section \<open>Formats (mmu.h)\<close>

record segdesc =
  sd_lim_15_0 :: "16 word"
  sd_base_15_0 :: "16 word"
  sd_base_23_16 :: "8 word"
  sd_type :: "4 word"
  sd_s :: "1 word"
  sd_dpl :: "2 word"
  sd_p :: "1 word"
  sd_lim_19_16 :: "4 word"
  sd_avl :: "1 word"
  sd_rsv1 :: "1 word"
  sd_db :: "1 word"
  sd_g :: "1 word"
  sd_base_31_24 :: "8 word"

definition SEG :: "4 word \<Rightarrow> uint \<Rightarrow> uint \<Rightarrow> 2 word \<Rightarrow> segdesc" where
  "SEG type base lim d =
     \<lparr>sd_lim_15_0 = ucast (drop_bit 12 lim AND 0xffff), sd_base_15_0 = ucast (base AND 0xffff),
      sd_base_23_16 = ucast (drop_bit 16 base AND 0xff), sd_type = type, sd_s = 1, sd_dpl = d, sd_p = 1,
      sd_lim_19_16 = ucast (drop_bit 28 lim), sd_avl = 0, sd_rsv1 = 0, sd_db = 1, sd_g = 1, sd_base_31_24 = ucast (drop_bit 24 base)\<rparr>"

definition SEG16 :: "4 word \<Rightarrow> uint \<Rightarrow> uint \<Rightarrow> 2 word \<Rightarrow> segdesc" where
  "SEG16 type base lim d =
     \<lparr>sd_lim_15_0 = ucast (lim AND 0xffff), sd_base_15_0 = ucast (base AND 0xffff),
      sd_base_23_16 = ucast (drop_bit 16 base AND 0xff), sd_type = type, sd_s = 1, sd_dpl = d, sd_p = 1,
      sd_lim_19_16 = ucast (drop_bit 16 lim), sd_avl = 0, sd_rsv1 = 0, sd_db = 1, sd_g = 0, sd_base_31_24 = ucast (drop_bit 24 base)\<rparr>"

definition SEG_KCODE :: nat where "SEG_KCODE = 1"
definition SEG_KDATA :: nat where "SEG_KDATA = 2"
definition SEG_KCPU :: nat where "SEG_KCPU = 3"
definition SEG_UCODE :: nat where "SEG_UCODE = 4"
definition SEG_UDATA :: nat where "SEG_UDATA = 5"
definition SEG_TSS :: nat where "SEG_TSS = 6"
definition NSEGS :: nat where "NSEGS = 7"

definition DPL_USER :: "2 word" where "DPL_USER = 3"
definition STA_X :: "4 word" where "STA_X = 8"
definition STA_W :: "4 word" where "STA_W = 2"
definition STA_R :: "4 word" where "STA_R = 2"
definition STS_T32A :: "4 word" where "STS_T32A = 9"
definition STS_IG32 :: "4 word" where "STS_IG32 = 0xE"
definition STS_TG32 :: "4 word" where "STS_TG32 = 0xF"

lemmas seg_defs = SEG_KCODE_def SEG_KDATA_def SEG_KCPU_def SEG_UCODE_def SEG_UDATA_def SEG_TSS_def DPL_USER_def
  STA_X_def STA_W_def STA_R_def STS_T32A_def STS_IG32_def STS_TG32_def

record taskstate =
  ts_link :: uint
  ts_esp0 :: uint
  ts_ss0 :: ushort
  ts_padding1 :: ushort
  ts_esp1 :: uint
  ts_ss1 :: ushort
  ts_padding2 :: ushort
  ts_esp2 :: uint
  ts_ss2 :: ushort
  ts_padding3 :: ushort
  ts_cr3 :: uint
  ts_eip :: uint
  ts_eflags :: uint
  ts_eax :: uint
  ts_ecx :: uint
  ts_edx :: uint
  ts_ebx :: uint
  ts_esp :: uint
  ts_ebp :: uint
  ts_esi :: uint
  ts_edi :: uint
  ts_es :: ushort
  ts_padding4 :: ushort
  ts_cs :: ushort
  ts_padding5 :: ushort
  ts_ss :: ushort
  ts_padding6 :: ushort
  ts_ds :: ushort
  ts_padding7 :: ushort
  ts_fs :: ushort
  ts_padding8 :: ushort
  ts_gs :: ushort
  ts_padding9 :: ushort
  ts_ldt :: ushort
  ts_padding10 :: ushort
  ts_t :: ushort
  ts_iomb :: ushort

text \<open>Fifteen words of 32 bits and twenty-two of 16 bits.\<close>

definition sizeof_taskstate :: uint where "sizeof_taskstate = 104"

record gatedesc =
  gd_off_15_0 :: "16 word"
  gd_cs :: "16 word"
  gd_args :: "5 word"
  gd_rsv1 :: "3 word"
  gd_type :: "4 word"
  gd_s :: "1 word"
  gd_dpl :: "2 word"
  gd_p :: "1 word"
  gd_off_31_16 :: "16 word"

definition SETGATE :: "gatedesc \<Rightarrow> bool \<Rightarrow> ushort \<Rightarrow> uint \<Rightarrow> 2 word \<Rightarrow> gatedesc" where
  "SETGATE gate istrap sel off d = gate\<lparr>
     gd_off_15_0 := ucast (off AND 0xffff), gd_cs := sel, gd_args := 0, gd_rsv1 := 0,
     gd_type := (if istrap then STS_TG32 else STS_IG32), gd_s := 0, gd_dpl := d, gd_p := 1,
     gd_off_31_16 := ucast (drop_bit 16 off)\<rparr>"

section \<open>Tables of a processor (vm.c, trap.c)\<close>

text \<open>
  What \<^verbatim>\<open>lgdt\<close> and \<^verbatim>\<open>lidt\<close> load: the limit and the two halves of the address.  \<^verbatim>\<open>cpu\<close> and \<^verbatim>\<open>proc\<close> are the two words
  that the segment register \<^verbatim>\<open>%gs\<close> reaches.
\<close>

type_synonym pseudo_desc = "ushort \<times> ushort \<times> ushort"

record segs =
  gdt :: "nat \<Rightarrow> segdesc"
  gdtr :: pseudo_desc
  gs :: ushort
  gs_cpu :: uint
  gs_proc :: uint
  ts :: taskstate
  tr :: ushort
  idt :: "nat \<Rightarrow> gatedesc"
  idtr :: pseudo_desc

definition pseudo :: "uint \<Rightarrow> uint \<Rightarrow> pseudo_desc" where
  "pseudo p n = (ucast (n - 1), ucast p, ucast (drop_bit 16 p))"

definition lgdt :: "uint \<Rightarrow> uint \<Rightarrow> (unit, 'a segs_scheme) kfun" where
  "lgdt p n = modify (\<lambda>s. s\<lparr>gdtr := pseudo p n\<rparr>)"

definition lidt :: "uint \<Rightarrow> uint \<Rightarrow> (unit, 'a segs_scheme) kfun" where
  "lidt p n = modify (\<lambda>s. s\<lparr>idtr := pseudo p n\<rparr>)"

definition ltr :: "ushort \<Rightarrow> (unit, 'a segs_scheme) kfun" where
  "ltr sel = modify (\<lambda>s. s\<lparr>tr := sel\<rparr>)"

definition loadgs :: "ushort \<Rightarrow> (unit, 'a segs_scheme) kfun" where
  "loadgs v = modify (\<lambda>s. s\<lparr>gs := v\<rparr>)"

definition set_seg :: "nat \<Rightarrow> segdesc \<Rightarrow> (unit, 'a segs_scheme) kfun" where
  "set_seg i d = modify (\<lambda>s. s\<lparr>gdt := (gdt s)(i := d)\<rparr>)"

text \<open>The selector of a segment, its index shifted by three bits.\<close>

definition sel :: "nat \<Rightarrow> ushort" where
  "sel i = push_bit 3 (of_nat i)"

text \<open>\<open>c\<close>, \<open>acpu\<close> and \<open>agdt\<close> are the addresses of \<^verbatim>\<open>cpus[cpunum()]\<close> and of its fields \<^verbatim>\<open>cpu\<close> and \<^verbatim>\<open>gdt\<close>.\<close>

definition seginit :: "uint \<Rightarrow> uint \<Rightarrow> uint \<Rightarrow> (unit, 'a segs_scheme) kfun" where
  "seginit c acpu agdt =
     seq (set_seg SEG_KCODE (SEG (STA_X OR STA_R) 0 0xffffffff 0))
    (seq (set_seg SEG_KDATA (SEG STA_W 0 0xffffffff 0))
    (seq (set_seg SEG_UCODE (SEG (STA_X OR STA_R) 0 0xffffffff DPL_USER))
    (seq (set_seg SEG_UDATA (SEG STA_W 0 0xffffffff DPL_USER))
    (seq (set_seg SEG_KCPU (SEG STA_W acpu 8 0))
    (seq (lgdt agdt (of_nat (8 * NSEGS)))
    (seq (loadgs (sel SEG_KCPU))
    (seq (modify (\<lambda>s. s\<lparr>gs_cpu := c\<rparr>))
         (modify (\<lambda>s. s\<lparr>gs_proc := 0\<rparr>)))))))))"

text \<open>The part of \<^verbatim>\<open>switchuvm\<close> that sets up the task state; the rest is in theory \<open>Proc\<close>.\<close>

definition set_task :: "uint \<Rightarrow> uint \<Rightarrow> (unit, 'a segs_scheme) kfun" where
  "set_task ats stack =
     seq (set_seg SEG_TSS (SEG16 STS_T32A ats (sizeof_taskstate - 1) 0))
    (seq (modify (\<lambda>s. s\<lparr>gdt := (gdt s)(SEG_TSS := (gdt s SEG_TSS)\<lparr>sd_s := 0\<rparr>)\<rparr>))
    (seq (modify (\<lambda>s. s\<lparr>ts := (ts s)\<lparr>ts_ss0 := sel SEG_KDATA\<rparr>\<rparr>))
    (seq (modify (\<lambda>s. s\<lparr>ts := (ts s)\<lparr>ts_esp0 := stack + of_nat KSTACKSIZE\<rparr>\<rparr>))
         (ltr (sel SEG_TSS)))))"

definition set_gate :: "nat \<Rightarrow> bool \<Rightarrow> uint \<Rightarrow> 2 word \<Rightarrow> (unit, 'a segs_scheme) kfun" where
  "set_gate i istrap off d = modify (\<lambda>s. s\<lparr>idt := (idt s)(i := SETGATE (idt s i) istrap (sel SEG_KCODE) off d)\<rparr>)"

text \<open>Naming the lock of the clock is left out.\<close>

definition tvinit :: "(nat \<Rightarrow> uint) \<Rightarrow> (unit, 'a segs_scheme) kfun" where
  "tvinit vectors =
     seq (for_each [0..<256] (\<lambda>i. set_gate i False (vectors i) 0))
         (set_gate (unat T_SYSCALL) True (vectors (unat T_SYSCALL)) DPL_USER)"

definition idtinit :: "uint \<Rightarrow> (unit, 'a segs_scheme) kfun" where
  "idtinit aidt = lidt aidt (8 * 256)"

section \<open>What the processor reads\<close>

text \<open>
  Base and limit of a segment, the entry point of a gate and who may use it, as the comments of \<^verbatim>\<open>mmu.h\<close> describe the
  fields: the limit counts pages when the granularity bit is set; an \<^verbatim>\<open>int\<close> instruction needs the privilege level of the
  gate; an interrupt gate disables interrupts.
\<close>

definition seg_base :: "segdesc \<Rightarrow> uint" where
  "seg_base d = ucast (sd_base_15_0 d) OR push_bit 16 (ucast (sd_base_23_16 d)) OR push_bit 24 (ucast (sd_base_31_24 d))"

definition seg_limit :: "segdesc \<Rightarrow> uint" where
  "seg_limit d = (let l = ucast (sd_lim_15_0 d) OR push_bit 16 (ucast (sd_lim_19_16 d))
     in if sd_g d = 1 then push_bit 12 l OR 0xfff else l)"

definition gate_offset :: "gatedesc \<Rightarrow> uint" where
  "gate_offset g = ucast (gd_off_15_0 g) OR push_bit 16 (ucast (gd_off_31_16 g))"

definition int_allowed :: "2 word \<Rightarrow> gatedesc \<Rightarrow> bool" where
  "int_allowed cpl g \<longleftrightarrow> gd_p g = 1 \<and> cpl \<le> gd_dpl g"

definition pseudo_base :: "pseudo_desc \<Rightarrow> uint" where
  "pseudo_base = (\<lambda>(l, a, b). ucast a OR push_bit 16 (ucast b))"

lemma mask_numerals: "(0xffff :: uint) = mask 16" "(0xff :: uint) = mask 8" "(0xfff :: uint) = mask 12"
  by (simp_all add: mask_eq_exp_minus_1)

lemma halves:
  "ucast (ucast (a AND 0xffff :: uint) :: ushort) OR push_bit 16 (ucast (ucast (drop_bit 16 a) :: ushort)) = a"
  "ucast (ucast a :: ushort) OR push_bit 16 (ucast (ucast (drop_bit 16 a) :: ushort)) = (a :: uint)"
  unfolding mask_numerals by (rule bit_word_eqI; auto simp: bit_simps)+

lemma add_diff_max: "(k :: nat) + (n - k) = max k n"
  by simp

lemma seg_base_SEG [simp]: "seg_base (SEG ty a l d) = a" "seg_base (SEG16 ty a l d) = a"
  unfolding seg_base_def SEG_def SEG16_def segdesc.simps mask_numerals by (rule bit_word_eqI; auto simp: bit_simps add_diff_max max_def)+

text \<open>The limit of a segment is rounded up to whole pages, or kept in its lower twenty bits.\<close>

lemma seg_limit_SEG [simp]:
  "seg_limit (SEG ty a l d) = l OR 0xfff" "seg_limit (SEG16 ty a l d) = l AND mask 20"
  unfolding seg_limit_def SEG_def SEG16_def segdesc.simps Let_def mask_numerals
  by (simp_all) (rule bit_word_eqI; auto simp: bit_simps add_diff_max max_def)+

lemma SEG_fields [simp]: "sd_dpl (SEG ty a l d) = d" "sd_type (SEG ty a l d) = ty"
  by (simp_all add: SEG_def)

lemma gate_SETGATE [simp]:
  "gate_offset (SETGATE g t cs a d) = a" "gd_cs (SETGATE g t cs a d) = cs" "int_allowed cpl (SETGATE g t cs a d) \<longleftrightarrow> cpl \<le> d"
  "gd_type (SETGATE g t cs a d) = (if t then STS_TG32 else STS_IG32)"
  by (simp_all add: gate_offset_def SETGATE_def int_allowed_def halves)

lemma pseudo_base [simp]: "pseudo_base (pseudo a n) = a"
  by (simp add: pseudo_base_def pseudo_def halves)

section \<open>Entering the kernel\<close>

lemma seginit_ret:
  "\<exists>t. seginit c acpu agdt s = Ret () t \<and> gdt t = (gdt s)(SEG_KCODE := SEG (STA_X OR STA_R) 0 0xffffffff 0,
     SEG_KDATA := SEG STA_W 0 0xffffffff 0, SEG_UCODE := SEG (STA_X OR STA_R) 0 0xffffffff DPL_USER,
     SEG_UDATA := SEG STA_W 0 0xffffffff DPL_USER, SEG_KCPU := SEG STA_W acpu 8 0) \<and>
     pseudo_base (gdtr t) = agdt \<and> gs t = sel SEG_KCPU \<and> gs_cpu t = c \<and> gs_proc t = 0 \<and> idt t = idt s"
  by (simp add: seginit_def set_seg_def lgdt_def loadgs_def kfun_simps)

text \<open>
  \<^verbatim>\<open>switchuvm\<close> describes the task state as a system segment at its address and of its size, and the kernel stack
  of the process as the stack for entries into the kernel.
\<close>

lemma set_task_ret:
  "\<exists>t. set_task ats k s = Ret () t \<and> seg_base (gdt t SEG_TSS) = ats \<and> seg_limit (gdt t SEG_TSS) = sizeof_taskstate - 1 \<and>
     sd_s (gdt t SEG_TSS) = 0 \<and> sd_dpl (gdt t SEG_TSS) = 0 \<and> ts_ss0 (ts t) = sel SEG_KDATA \<and> ts_esp0 (ts t) = k + of_nat KSTACKSIZE \<and>
     tr t = sel SEG_TSS \<and> (\<forall>i. i \<noteq> SEG_TSS \<longrightarrow> gdt t i = gdt s i) \<and> idt t = idt s"
proof -
  have d: "seg_base (d\<lparr>sd_s := b\<rparr>) = seg_base d" "seg_limit (d\<lparr>sd_s := b\<rparr>) = seg_limit d" for d b
    by (simp_all add: seg_base_def seg_limit_def)
  have "(103 :: uint) AND mask 20 = 103" by (simp add: mask_eq_exp_minus_1)
  moreover have "sd_dpl (SEG16 STS_T32A ats 103 0) = 0" by (simp add: SEG16_def)
  ultimately show ?thesis by (simp add: set_task_def set_seg_def ltr_def kfun_simps d sizeof_taskstate_def)
qed

lemma gates_loop:
  "\<exists>t. for_each xs (\<lambda>i. set_gate i False (v i) 0) s = Ret () t \<and> gdt t = gdt s \<and> gdtr t = gdtr s \<and> gs t = gs s \<and>
     (\<forall>i. (i \<in> set xs \<longrightarrow> (\<exists>g. idt t i = SETGATE g False (sel SEG_KCODE) (v i) 0)) \<and> (i \<notin> set xs \<longrightarrow> idt t i = idt s i))"
proof (induction xs arbitrary: s)
  case Nil
  then show ?case by (simp add: kfun_simps)
next
  case (Cons x xs)
  obtain t where "for_each xs (\<lambda>i. set_gate i False (v i) 0) (s\<lparr>idt := (idt s)(x := SETGATE (idt s x) False (sel SEG_KCODE) (v x) 0)\<rparr>) = Ret () t"
    "gdt t = gdt s" "gdtr t = gdtr s" "gs t = gs s"
    "\<forall>i. (i \<in> set xs \<longrightarrow> (\<exists>g. idt t i = SETGATE g False (sel SEG_KCODE) (v i) 0)) \<and>
       (i \<notin> set xs \<longrightarrow> idt t i = ((idt s)(x := SETGATE (idt s x) False (sel SEG_KCODE) (v x) 0)) i)"
    using Cons.IH [of "s\<lparr>idt := (idt s)(x := SETGATE (idt s x) False (sel SEG_KCODE) (v x) 0)\<rparr>"] by auto
  moreover have "set_gate x False (v x) 0 s = Ret () (s\<lparr>idt := (idt s)(x := SETGATE (idt s x) False (sel SEG_KCODE) (v x) 0)\<rparr>)"
    by (simp add: set_gate_def kfun_simps)
  ultimately show ?case by (intro exI [of _ t]) (simp add: kfun_simps, metis)
qed

lemma tvinit_ret:
  "\<exists>t. tvinit v s = Ret () t \<and> gdt t = gdt s \<and> gdtr t = gdtr s \<and> gs t = gs s \<and>
     (\<forall>i<256. \<exists>g. idt t i = SETGATE g (i = unat T_SYSCALL) (sel SEG_KCODE) (v i) (if i = unat T_SYSCALL then DPL_USER else 0))"
proof -
  obtain u where u: "for_each [0..<256] (\<lambda>i. set_gate i False (v i) 0) s = Ret () u" "gdt u = gdt s" "gdtr u = gdtr s" "gs u = gs s"
    "\<forall>i\<in>set [0..<256]. \<exists>g. idt u i = SETGATE g False (sel SEG_KCODE) (v i) 0"
    using gates_loop [of "[0..<256]" v s] by blast
  let ?k = "unat T_SYSCALL"
  let ?t = "u\<lparr>idt := (idt u)(?k := SETGATE (idt u ?k) True (sel SEG_KCODE) (v ?k) DPL_USER)\<rparr>"
  have "tvinit v s = Ret () ?t" unfolding tvinit_def seq_apply u(1) by (simp add: set_gate_def kfun_simps)
  moreover have "\<exists>g. idt ?t i = SETGATE g (i = ?k) (sel SEG_KCODE) (v i) (if i = ?k then DPL_USER else 0)" if "i < 256" for i
    using u(5) that by auto
  ultimately show ?thesis using u(2-4) by (intro exI [of _ ?t]) simp
qed

text \<open>
  C30. A process enters the kernel by a system call only.  After \<^verbatim>\<open>seginit\<close> and \<^verbatim>\<open>tvinit\<close> every one of the 256 gates leads to its
  entry of \<^verbatim>\<open>vectors\<close>, in a code segment of kernel privilege that covers all addresses.  An \<^verbatim>\<open>int\<close> instruction of user privilege
  may use the gate of \<^verbatim>\<open>T_SYSCALL\<close> and no other, and every other gate disables interrupts.  The segments for processes
  have user privilege and cover all addresses, and the segment of \<^verbatim>\<open>%gs\<close> starts at the word that holds \<^verbatim>\<open>cpu\<close>.
\<close>

theorem user_enters_by_syscall_only:
  "\<exists>t. seq (seginit c acpu agdt) (tvinit vectors) s = Ret () t \<and>
     (\<forall>i<256. gate_offset (idt t i) = vectors i \<and> (int_allowed DPL_USER (idt t i) \<longleftrightarrow> i = unat T_SYSCALL) \<and>
        (gd_type (idt t i) = STS_IG32 \<longleftrightarrow> i \<noteq> unat T_SYSCALL) \<and>
        (let d = gdt t (unat (drop_bit 3 (gd_cs (idt t i)))) in sd_dpl d = 0 \<and> sd_type d = STA_X OR STA_R \<and> seg_base d = 0 \<and> seg_limit d = 0xffffffff)) \<and>
     (\<forall>i\<in>{SEG_UCODE, SEG_UDATA}. sd_dpl (gdt t i) = DPL_USER \<and> seg_base (gdt t i) = 0 \<and> seg_limit (gdt t i) = 0xffffffff) \<and>
     seg_base (gdt t (unat (drop_bit 3 (gs t)))) = acpu \<and> pseudo_base (gdtr t) = agdt"
proof -
  obtain u where u: "seginit c acpu agdt s = Ret () u" "pseudo_base (gdtr u) = agdt" "gs u = sel SEG_KCPU"
    "gdt u = (gdt s)(SEG_KCODE := SEG (STA_X OR STA_R) 0 0xffffffff 0,
     SEG_KDATA := SEG STA_W 0 0xffffffff 0, SEG_UCODE := SEG (STA_X OR STA_R) 0 0xffffffff DPL_USER,
     SEG_UDATA := SEG STA_W 0 0xffffffff DPL_USER, SEG_KCPU := SEG STA_W acpu 8 0)"
    using seginit_ret [of c acpu agdt s] by blast
  obtain t where t: "tvinit vectors u = Ret () t" "gdt t = gdt u" "gdtr t = gdtr u" "gs t = gs u"
    "\<forall>i<256. \<exists>g. idt t i = SETGATE g (i = unat T_SYSCALL) (sel SEG_KCODE) (vectors i) (if i = unat T_SYSCALL then DPL_USER else 0)"
    using tvinit_ret [of vectors u] by blast
  have sel: "unat (drop_bit 3 (sel SEG_KCODE)) = SEG_KCODE" "unat (drop_bit 3 (sel SEG_KCPU)) = SEG_KCPU"
    by (simp_all add: sel_def seg_defs push_bit_eq_mult drop_bit_eq_div)
  have kc: "gdt t SEG_KCODE = SEG (STA_X OR STA_R) 0 0xffffffff 0" "gdt t SEG_UCODE = SEG (STA_X OR STA_R) 0 0xffffffff DPL_USER"
    "gdt t SEG_UDATA = SEG STA_W 0 0xffffffff DPL_USER" "gdt t SEG_KCPU = SEG STA_W acpu 8 0"
    unfolding t(2) u(4) by (simp_all add: seg_defs)
  have gate: "gate_offset (idt t i) = vectors i" "int_allowed DPL_USER (idt t i) \<longleftrightarrow> i = unat T_SYSCALL"
      "gd_type (idt t i) = STS_IG32 \<longleftrightarrow> i \<noteq> unat T_SYSCALL" "gd_cs (idt t i) = sel SEG_KCODE" if i: "i < 256" for i
  proof -
    obtain g where g: "idt t i = SETGATE g (i = unat T_SYSCALL) (sel SEG_KCODE) (vectors i) (if i = unat T_SYSCALL then DPL_USER else 0)"
      using t(5) i by blast
    show "gate_offset (idt t i) = vectors i" "gd_cs (idt t i) = sel SEG_KCODE" "int_allowed DPL_USER (idt t i) \<longleftrightarrow> i = unat T_SYSCALL"
      "gd_type (idt t i) = STS_IG32 \<longleftrightarrow> i \<noteq> unat T_SYSCALL" unfolding g by (simp_all add: seg_defs)
  qed
  have full: "(0xffffffff :: uint) OR 0xfff = 0xffffffff" by simp
  show ?thesis
    using u(1,2,3) t(1,3,4) by (intro exI [of _ t]) (simp add: kfun_simps gate sel kc full Let_def)
qed

theorem user_enters_by_syscall_only_witness:
  "\<exists>t :: segs. seq (seginit 0x80112000 0x801120b0 0x80112070) (tvinit (\<lambda>i. 0x80105000 + 16 * of_nat i)) undefined = Ret () t \<and>
     int_allowed DPL_USER (idt t 64) \<and> \<not> int_allowed DPL_USER (idt t 14) \<and> gate_offset (idt t 14) = 0x801050e0"
proof -
  have "unat T_SYSCALL = 64" by (simp add: T_SYSCALL_def)
  then show ?thesis
    using user_enters_by_syscall_only [of "0x80112000" "0x801120b0" "0x80112070" "\<lambda>i. 0x80105000 + 16 * of_nat i" "undefined :: segs"]
    by auto
qed

end
