(* ===== verification/Stays.thy ===== *)
theory Stays
  imports Prelude
begin

text \<open>
  Preservation of an invariant, by the shape of the code.  \<open>stays I Q m\<close> says that \<open>m\<close>, started in a state with
  \<open>I\<close>, leaves a state with \<open>I\<close> whenever it returns or goes to sleep, and that a returned value satisfies \<open>Q\<close>.
  The rules of the collection \<open>stays_rules\<close> follow the combinators of the model, so that the proof for a function
  is a walk over its text.
\<close>

definition good :: "('s \<Rightarrow> bool) \<Rightarrow> ('a \<Rightarrow> bool) \<Rightarrow> ('a, 's) outcome \<Rightarrow> bool" where
  "good I Q r = (case r of Ret x t \<Rightarrow> Q x \<and> I t | Sleep c t \<Rightarrow> I t | Spin \<Rightarrow> True | Panic msg \<Rightarrow> True | Fault \<Rightarrow> True)"

definition stays :: "('s \<Rightarrow> bool) \<Rightarrow> ('a \<Rightarrow> bool) \<Rightarrow> ('a, 's) kfun \<Rightarrow> bool" where
  "stays I Q m \<longleftrightarrow> (\<forall>s. I s \<longrightarrow> good I Q (m s))"

abbreviation keeps :: "('s \<Rightarrow> bool) \<Rightarrow> ('a, 's) kfun \<Rightarrow> bool" where
  "keeps I m \<equiv> stays I (\<lambda>_. True) m"

lemma good_simps [simp]:
  "good I Q (Ret x t) \<longleftrightarrow> Q x \<and> I t" "good I Q (Sleep c t) \<longleftrightarrow> I t" "good I Q Spin" "good I Q (Panic msg)" "good I Q Fault"
  by (simp_all add: good_def)

lemma staysI: "(\<And>s. I s \<Longrightarrow> good I Q (m s)) \<Longrightarrow> stays I Q m"
  by (simp add: stays_def)

lemma staysD: "stays I Q m \<Longrightarrow> I s \<Longrightarrow> good I Q (m s)"
  by (simp add: stays_def)

lemma good_weaken: "good I P r \<Longrightarrow> (\<And>x. P x \<Longrightarrow> Q x) \<Longrightarrow> good I Q r"
  by (cases r) auto

lemma stays_weaken: "stays I P m \<Longrightarrow> (\<And>x. P x \<Longrightarrow> Q x) \<Longrightarrow> stays I Q m"
  by (blast intro: staysI good_weaken dest: staysD)

lemma stays_keeps: "stays I P m \<Longrightarrow> keeps I m"
  by (erule stays_weaken) simp

lemma stays_bind: "stays I P m \<Longrightarrow> (\<And>x. P x \<Longrightarrow> stays I Q (f x)) \<Longrightarrow> stays I Q (bind m f)"
  by (rule staysI, drule (1) staysD) (auto simp: bind_apply intro: staysD split: outcome.splits)

section \<open>Rules for the combinators\<close>

lemma bind_keeps: "keeps I m \<Longrightarrow> (\<And>x. stays I Q (f x)) \<Longrightarrow> stays I Q (bind m f)"
  by (rule stays_bind)

lemma seq_keeps: "keeps I m \<Longrightarrow> stays I Q k \<Longrightarrow> stays I Q (seq m k)"
  by (simp add: seq_def stays_bind)

lemma return_stays: "Q x \<Longrightarrow> stays I Q (return x)"
  by (rule staysI) (simp add: return_apply)

lemma gets_stays: "(\<And>s. I s \<Longrightarrow> Q (g s)) \<Longrightarrow> stays I Q (gets g)"
  by (rule staysI) (simp add: gets_apply)

lemma gets_keeps: "keeps I (gets g)"
  by (rule gets_stays) simp

lemma modify_keeps: "(\<And>s. I s \<Longrightarrow> I (g s)) \<Longrightarrow> keeps I (modify g)"
  by (rule staysI) (simp add: modify_apply)

lemma panic_stays: "stays I Q (panic msg)"
  by (rule staysI) (simp add: panic_apply)

lemma fault_stays: "stays I Q fault"
  by (rule staysI) (simp add: fault_apply)

lemma spin_stays: "stays I Q (\<lambda>s. Spin)"
  by (rule staysI) simp

lemma sleep_stays: "stays I Q (\<lambda>s. Sleep c s)"
  by (rule staysI) simp

lemma panic_if_keeps: "keeps I (panic_if b msg)"
  by (rule staysI) (simp add: panic_if_apply)

lemma branch_stays: "stays I Q m \<Longrightarrow> stays I Q k \<Longrightarrow> stays I Q (branch b m k)"
  by (rule staysI) (simp add: branch_apply staysD)

lemma for_each_keeps: "(\<And>i. i \<in> set is \<Longrightarrow> keeps I (body i)) \<Longrightarrow> keeps I (for_each is body)"
  by (induction "is") (simp_all add: return_stays seq_keeps)

lemma if_stays: "(b \<Longrightarrow> stays I Q m) \<Longrightarrow> (\<not> b \<Longrightarrow> stays I Q k) \<Longrightarrow> stays I Q (if b then m else k)"
  by simp

lemma option_stays:
  "(x = None \<Longrightarrow> stays I Q m) \<Longrightarrow> (\<And>y. x = Some y \<Longrightarrow> stays I Q (k y)) \<Longrightarrow>
   stays I Q (case x of None \<Rightarrow> m | Some y \<Rightarrow> k y)"
  by (cases x) simp_all

lemma prod_stays: "(\<And>a b. p = (a, b) \<Longrightarrow> stays I Q (f a b)) \<Longrightarrow> stays I Q (case p of (a, b) \<Rightarrow> f a b)"
  by (cases p) simp

lemma let_stays: "(\<And>x. stays I Q (f x)) \<Longrightarrow> stays I Q (Let v f)"
  by (simp add: Let_def)

lemma state_stays: "(\<And>s. I s \<Longrightarrow> stays I Q (f s)) \<Longrightarrow> stays I Q (\<lambda>s. f s s)"
  by (rule staysI) (blast dest: staysD)

text \<open>Code that runs on a part of the state the invariant restricts only by \<open>P\<close>.\<close>

lemma zoom_stays:
  assumes "stays P Q m" "\<And>s. I s \<Longrightarrow> P (get s)" "\<And>s t. I s \<Longrightarrow> P t \<Longrightarrow> I (put t s)"
  shows "stays I Q (zoom get put m)"
proof (rule staysI)
  fix s assume "I s"
  then show "good I Q (zoom get put m s)"
    using staysD [OF assms(1) assms(2) [of s]] assms(3) [of s] by (cases "m (get s)") (simp_all add: zoom_apply)
qed

lemma zoom_keeps:
  assumes "\<And>s t. I s \<Longrightarrow> I (put t s)"
  shows "keeps I (zoom get put m)"
  using assms by (auto intro!: staysI simp: zoom_apply split: outcome.split)

lemmas stays_rules = seq_keeps bind_keeps return_stays gets_keeps panic_stays fault_stays spin_stays sleep_stays
  panic_if_keeps branch_stays if_stays option_stays prod_stays let_stays for_each_keeps TrueI

end
