(* ===== verification/Fs_Frame.thy ===== *)
theory Fs_Frame
  imports Fs Stays
begin

text \<open>
  The file system changes nothing outside its own record.  The locale \<open>fs_frame\<close> is the contract of the layers
  from the buffer cache to path names with the rest of the kernel: an invariant that depends only on the
  fields beyond the file system's survives every one of their functions.  Functions that find an inode return an
  index of the inode cache.
\<close>

abbreviation in_cache :: "nat \<Rightarrow> bool" where "in_cache ip \<equiv> ip < NINODE"

definition found_in_cache :: "(nat \<times> 'b) option \<Rightarrow> bool" where
  "found_in_cache r \<longleftrightarrow> (\<forall>ip x. r = Some (ip, x) \<longrightarrow> in_cache ip)"

lemma found_in_cache_simps [simp]: "found_in_cache None" "found_in_cache (Some (ip, x)) \<longleftrightarrow> in_cache ip"
  by (simp_all add: found_in_cache_def)

locale fs_frame =
  fixes I :: "'a fsys_scheme \<Rightarrow> bool"
  assumes frame: "fsys.more t = fsys.more s \<Longrightarrow> I t \<longleftrightarrow> I s"
begin

lemma frame_simps [simp]:
  "I (s\<lparr>bufs := a\<rparr>) \<longleftrightarrow> I s" "I (s\<lparr>disk := b\<rparr>) \<longleftrightarrow> I s" "I (s\<lparr>dwrites := c\<rparr>) \<longleftrightarrow> I s"
  "I (s\<lparr>wakeups := d\<rparr>) \<longleftrightarrow> I s" "I (s\<lparr>lstart := e\<rparr>) \<longleftrightarrow> I s" "I (s\<lparr>lsize := f\<rparr>) \<longleftrightarrow> I s"
  "I (s\<lparr>outstanding := g\<rparr>) \<longleftrightarrow> I s" "I (s\<lparr>committing := h\<rparr>) \<longleftrightarrow> I s" "I (s\<lparr>ldev := i\<rparr>) \<longleftrightarrow> I s"
  "I (s\<lparr>lh_n := j\<rparr>) \<longleftrightarrow> I s" "I (s\<lparr>lh_sector := k\<rparr>) \<longleftrightarrow> I s" "I (s\<lparr>inodes := l\<rparr>) \<longleftrightarrow> I s"
  by (rule frame, simp)+

lemma updates_keep:
  "keeps I (upd_buf b f)" "keeps I (wake c)" "keeps I (put_sector k d)" "keeps I (upd_ino ip g)"
  "keeps I (modify (\<lambda>s. s\<lparr>lh_n := n s\<rparr>))" "keeps I (modify (\<lambda>s. s\<lparr>outstanding := n' s\<rparr>))"
  "keeps I (modify (\<lambda>s. s\<lparr>committing := x s\<rparr>))"
  "keeps I (modify (\<lambda>s. s\<lparr>lstart := x1 s, lsize := x2 s, ldev := x3 s\<rparr>))"
  by (auto simp: upd_buf_def wake_def put_sector_def upd_ino_def intro!: modify_keeps)

lemma sector_keeps: "keeps I (set_sector i k)" "keeps I (get_sector i)"
  by (simp_all add: set_sector_def get_sector_def gets_keeps fault_stays modify_keeps)

lemmas fs_rules = stays_rules updates_keep sector_keeps

lemma iderw_keeps: "keeps I (iderw b)"
  unfolding iderw_def by (rule fs_rules)+

lemma bget_searches_keep: "keeps I (bget_cached n dev k b)" "keeps I (bget_clean n b')"
  by (induction n arbitrary: b b') (auto simp: stays_def)

lemma bget_keeps: "keeps I (bget dev k)"
  unfolding bget_def by (rule fs_rules bget_searches_keep)+

lemma bread_keeps: "keeps I (bread dev k)"
  unfolding bread_def by (rule fs_rules bget_keeps iderw_keeps)+

lemma bwrite_keeps: "keeps I (bwrite b)"
  unfolding bwrite_def by (rule fs_rules iderw_keeps)+

lemma brelse_keeps: "keeps I (brelse b)"
  unfolding brelse_def bunlink_def bpush_def by (rule fs_rules)+

lemmas bio_rules = fs_rules bread_keeps bwrite_keeps brelse_keeps

lemma readsb_keeps: "keeps I (readsb dev)"
  unfolding readsb_def by (rule bio_rules)+

lemma copy_data_keeps: "keeps I (copy_data d s)"
  unfolding copy_data_def by (rule bio_rules)+

lemma log_bread_keeps: "keeps I (log_bread k)"
  unfolding log_bread_def by (rule bio_rules)+

lemmas log_rules = bio_rules readsb_keeps copy_data_keeps log_bread_keeps

lemma install_trans_keeps: "keeps I install_trans"
  unfolding install_trans_def install_block_def by (rule log_rules)+

lemma heads_keep: "keeps I read_head" "keeps I write_head"
  unfolding read_head_def write_head_def by (rule log_rules)+

lemma write_log_keeps: "keeps I write_log"
  unfolding write_log_def write_log_block_def by (rule log_rules)+

lemma initlog_keeps: "keeps I initlog"
  unfolding initlog_def recover_from_log_def by (rule log_rules install_trans_keeps heads_keep)+

lemma commit_keeps: "keeps I commit"
  unfolding commit_def by (rule log_rules install_trans_keeps heads_keep write_log_keeps)+

lemma begin_op_keeps: "keeps I begin_op"
  by (rule staysI) (simp add: begin_op_def)

lemma end_op_keeps: "keeps I end_op"
  unfolding end_op_def by (rule log_rules commit_keeps)+

lemma log_write_keeps: "keeps I (log_write b)"
  unfolding log_write_def by (rule log_rules)+

lemma set_data_keeps: "keeps I (set_data b f)" "keeps I (data b)"
  unfolding set_data_def data_def by (rule log_rules)+

lemma ino_keeps: "keeps I (ino ip)"
  unfolding ino_def by (rule log_rules)

lemmas block_rules = log_rules begin_op_keeps end_op_keeps log_write_keeps set_data_keeps ino_keeps

lemma bzero_keeps: "keeps I (bzero dev b)"
  unfolding bzero_def by (rule block_rules)+

lemma balloc_loop_keeps: "keeps I (balloc_loop n dev sb b)"
  by (induction n arbitrary: b) (simp only: balloc_loop.simps, (rule block_rules bzero_keeps | assumption)+)+

lemma balloc_keeps: "keeps I (balloc dev)"
  unfolding balloc_def by (rule block_rules balloc_loop_keeps)+

lemma bfree_keeps: "keeps I (bfree dev b)"
  unfolding bfree_def by (rule block_rules)+

section \<open>Inodes\<close>

lemma iget_stays: "stays I in_cache (iget dev i)"
  by (rule staysI) (auto simp: iget_def split: option.split dest: first_index_Some)

lemma ialloc_loop_stays: "stays I in_cache (ialloc_loop n dev ty sb i)"
  by (induction n arbitrary: i) (simp only: ialloc_loop.simps, (rule block_rules iget_stays | assumption)+)+

lemma ialloc_stays: "stays I in_cache (ialloc dev ty)"
  unfolding ialloc_def by (rule block_rules ialloc_loop_stays)+

lemma iupdate_keeps: "keeps I (iupdate ip)"
  unfolding iupdate_def by (rule block_rules)+

lemma idup_stays: "in_cache ip \<Longrightarrow> stays I in_cache (idup ip)"
  unfolding idup_def by (rule block_rules | assumption)+

lemma ilock_keeps: "keeps I (ilock ip)"
  unfolding ilock_def by (rule block_rules)+

lemma iunlock_keeps: "keeps I (iunlock ip)"
  unfolding iunlock_def by (rule block_rules)+

lemmas inode_rules = block_rules balloc_keeps bfree_keeps iupdate_keeps ilock_keeps iunlock_keeps

lemma bmap_keeps: "keeps I (bmap ip bn)"
  unfolding bmap_def by (rule inode_rules)+

lemma itrunc_keeps: "keeps I (itrunc ip)"
  unfolding itrunc_def itrunc_direct_def itrunc_indirect_def by (rule inode_rules)+

lemma iput_keeps: "keeps I (iput ip)"
  unfolding iput_def by (rule inode_rules itrunc_keeps)+

lemma iunlockput_keeps: "keeps I (iunlockput ip)"
  unfolding iunlockput_def by (rule inode_rules iput_keeps)+

lemma stati_keeps: "keeps I (stati ip)"
  unfolding stati_def by (rule inode_rules)+

section \<open>Contents\<close>

lemma readi_loop_keeps: "keeps I (readi_loop k ip off tot n)"
  by (induction k arbitrary: off tot) (simp only: readi_loop.simps, (rule inode_rules bmap_keeps | assumption)+)+

lemma writei_loop_keeps: "keeps I (writei_loop k ip src off tot n)"
  by (induction k arbitrary: off tot) (simp only: writei_loop.simps, (rule inode_rules bmap_keeps | assumption)+)+

text \<open>The functions of a device may do more, and have to keep the invariant themselves.\<close>

lemma readi_keeps:
  assumes "\<And>d f i k. devsw d = Some f \<Longrightarrow> keeps I (f i k)"
  shows "keeps I (readi devsw ip off n)"
  unfolding readi_def by (rule inode_rules readi_loop_keeps | erule assms)+

lemma writei_keeps:
  assumes "\<And>d f i b k. devsw d = Some f \<Longrightarrow> keeps I (f i b k)"
  shows "keeps I (writei devsw ip src off n)"
  unfolding writei_def by (rule inode_rules writei_loop_keeps | erule assms)+

lemmas dir_rules = inode_rules iput_keeps iunlockput_keeps

lemma readi_dir_keeps: "keeps I (readi (\<lambda>_. None) ip off n)"
  by (rule readi_keeps) simp

lemma writei_dir_keeps: "keeps I (writei (\<lambda>_. None) ip src off n)"
  by (rule writei_keeps) simp

lemma dirlookup_loop_stays: "stays I found_in_cache (dirlookup_loop k dp nm off)"
  by (induction k arbitrary: off)
    (simp only: dirlookup_loop.simps, (rule stays_bind [OF iget_stays] dir_rules readi_dir_keeps | assumption | simp)+)+

lemma dirlookup_stays: "stays I found_in_cache (dirlookup dp nm)"
  unfolding dirlookup_def by (rule dir_rules dirlookup_loop_stays)+

lemma dirlink_find_keeps: "keeps I (dirlink_find k dp off)"
  by (induction k arbitrary: off) (simp only: dirlink_find.simps, (rule dir_rules readi_dir_keeps | assumption)+)+

lemma dirlink_keeps: "keeps I (dirlink dp nm i)"
  unfolding dirlink_def
  by (rule dir_rules stays_keeps [OF dirlookup_stays] dirlink_find_keeps writei_dir_keeps)+

lemma namex_loop_stays: "in_cache ip \<Longrightarrow> stays I found_in_cache (namex_loop k ip path parent nm)"
proof (induction k arbitrary: ip path nm)
  case (Suc k)
  note IH = Suc.IH and ip = Suc.prems
  show ?case
    unfolding namex_loop.simps by (rule stays_bind [OF dirlookup_stays] dir_rules IH | simp add: ip; fail)+
qed (simp add: spin_stays)

lemma namex_stays:
  assumes "path \<noteq> [] \<and> hd path = SLASH \<or> in_cache cwd"
  shows "stays I found_in_cache (namex cwd path parent nm)"
  unfolding namex_def
  by (rule stays_bind [where P = in_cache])
    (use assms in \<open>auto intro: iget_stays idup_stays namex_loop_stays simp del: namex_loop.simps\<close>)

lemma namei_stays:
  assumes "path \<noteq> [] \<and> hd path = SLASH \<or> in_cache cwd"
  shows "stays I (\<lambda>r. \<forall>ip. r = Some ip \<longrightarrow> in_cache ip) (namei cwd path)"
  unfolding namei_def by (rule stays_bind [OF namex_stays [OF assms]], rule return_stays) (auto simp: found_in_cache_def)

lemmas keeps_rules = dir_rules initlog_keeps stati_keeps dirlink_keeps

end

end
