(* ===== verification/Typed.thy ===== *)
theory Typed
  imports Trap Fs_Frame
begin

text \<open>
  The types of the kernel's tables.  The tables refer to each other by index: open descriptors to open files,
  files and current directories to inodes, processes to semaphores, parents and queue neighbours.  A state is
  typed when every such index lies inside the table it points into and no process uses a place beyond its
  arrays.  Every entry into the kernel keeps the state typed, whether it returns or puts the process to sleep.
\<close>

section \<open>Typed states\<close>

abbreviation below :: "nat \<Rightarrow> nat option \<Rightarrow> bool" where
  "below n x \<equiv> (\<forall>i. x = Some i \<longrightarrow> i < n)"

definition proc_typed :: "proc \<Rightarrow> bool" where
  "proc_typed r \<longleftrightarrow>
     (\<forall>i f. ofile r i = Some f \<longrightarrow> i < NOFILE \<and> f < NFILE) \<and>
     (\<forall>i j. osemaphore r i = Some j \<longrightarrow> i < MAXPROCSEM \<and> j < MAXSEM) \<and>
     (\<forall>i f. pfile (ommap r i) = Some f \<longrightarrow> i < MAXMAPPEDFILES \<and> f < NFILE) \<and>
     below NINODE (cwd r) \<and> below NPROC (parent r) \<and> below NPROC (pnext r)"

definition level_typed :: "mlf_level \<Rightarrow> bool" where
  "level_typed q \<longleftrightarrow> below NPROC (first q) \<and> below NPROC (last_proc q)"

definition ptable_typed :: "psys \<Rightarrow> bool" where
  "ptable_typed s \<longleftrightarrow> (\<forall>p. proc_typed (procs s p)) \<and> below NPROC (curproc s) \<and> below NPROC (initproc s) \<and>
     (\<forall>l. level_typed (mlf s l))"

definition file_typed :: "kfile \<Rightarrow> bool" where
  "file_typed x \<longleftrightarrow> 0 \<le> fref x \<and> below NINODE (fip x) \<and> (ftyp x = FD_INODE \<longrightarrow> fip x \<noteq> None) \<and>
     (ftyp x = FD_PIPE \<longrightarrow> fpipe x \<noteq> 0)"

definition kernel_typed :: "ksys \<Rightarrow> bool" where
  "kernel_typed s \<longleftrightarrow> ptable_typed (pst s) \<and> (\<forall>f. file_typed (files s f))"

section \<open>The process table\<close>

lemma ptable_typed_simps [simp]:
  "ptable_typed (s\<lparr>cpu := a\<rparr>) \<longleftrightarrow> ptable_typed s" "ptable_typed (s\<lparr>locks := b\<rparr>) \<longleftrightarrow> ptable_typed s"
  "ptable_typed (s\<lparr>nextpid := c\<rparr>) \<longleftrightarrow> ptable_typed s" "ptable_typed (s\<lparr>cr3 := d\<rparr>) \<longleftrightarrow> ptable_typed s"
  "ptable_typed (s\<lparr>tss_esp0 := e\<rparr>) \<longleftrightarrow> ptable_typed s"
  by (simp_all add: ptable_typed_def)

lemma proc_typed_simps [simp]:
  "proc_typed (r\<lparr>sz := a1\<rparr>) \<longleftrightarrow> proc_typed r" "proc_typed (r\<lparr>pgdir := a2\<rparr>) \<longleftrightarrow> proc_typed r"
  "proc_typed (r\<lparr>kstack := a3\<rparr>) \<longleftrightarrow> proc_typed r" "proc_typed (r\<lparr>state := a4\<rparr>) \<longleftrightarrow> proc_typed r"
  "proc_typed (r\<lparr>pid := a5\<rparr>) \<longleftrightarrow> proc_typed r" "proc_typed (r\<lparr>tf := a6\<rparr>) \<longleftrightarrow> proc_typed r"
  "proc_typed (r\<lparr>pcontext := a7\<rparr>) \<longleftrightarrow> proc_typed r" "proc_typed (r\<lparr>pchan := a8\<rparr>) \<longleftrightarrow> proc_typed r"
  "proc_typed (r\<lparr>killed := a9\<rparr>) \<longleftrightarrow> proc_typed r" "proc_typed (r\<lparr>pname := b1\<rparr>) \<longleftrightarrow> proc_typed r"
  "proc_typed (r\<lparr>pticks := b2\<rparr>) \<longleftrightarrow> proc_typed r" "proc_typed (r\<lparr>priority := b3\<rparr>) \<longleftrightarrow> proc_typed r"
  "proc_typed (r\<lparr>age := b4\<rparr>) \<longleftrightarrow> proc_typed r" "proc_typed (r\<lparr>sstack := b5\<rparr>) \<longleftrightarrow> proc_typed r"
  by (simp_all add: proc_typed_def)

lemma proc_typed_links [simp]:
  "proc_typed r \<Longrightarrow> below NPROC x \<Longrightarrow> proc_typed (r\<lparr>pnext := x\<rparr>)"
  "proc_typed r \<Longrightarrow> below NPROC x \<Longrightarrow> proc_typed (r\<lparr>parent := x\<rparr>)"
  "proc_typed r \<Longrightarrow> below NINODE x \<Longrightarrow> proc_typed (r\<lparr>cwd := x\<rparr>)"
  by (simp_all add: proc_typed_def)

lemma proc_typed_tables:
  "proc_typed r \<Longrightarrow> i < NOFILE \<Longrightarrow> below NFILE x \<Longrightarrow> proc_typed (r\<lparr>ofile := (ofile r)(i := x)\<rparr>)"
  "proc_typed r \<Longrightarrow> i < MAXPROCSEM \<Longrightarrow> below MAXSEM x \<Longrightarrow> proc_typed (r\<lparr>osemaphore := (osemaphore r)(i := x)\<rparr>)"
  "proc_typed r \<Longrightarrow> i < MAXMAPPEDFILES \<Longrightarrow> below NFILE (pfile e) \<Longrightarrow> proc_typed (r\<lparr>ommap := (ommap r)(i := e)\<rparr>)"
  by (auto simp: proc_typed_def)

lemma upd_proc_keeps: "(\<And>r. proc_typed r \<Longrightarrow> proc_typed (f r)) \<Longrightarrow> keeps ptable_typed (upd_proc p f)"
  unfolding upd_proc_def by (rule modify_keeps) (simp add: ptable_typed_def)

lemma upd_level_keeps: "(\<And>q. level_typed q \<Longrightarrow> level_typed (f q)) \<Longrightarrow> keeps ptable_typed (upd_level l f)"
  unfolding upd_level_def by (rule modify_keeps) (simp add: ptable_typed_def)

lemma level_typed_links [simp]:
  "level_typed q \<Longrightarrow> below NPROC x \<Longrightarrow> level_typed (q\<lparr>first := x\<rparr>)"
  "level_typed q \<Longrightarrow> below NPROC x \<Longrightarrow> level_typed (q\<lparr>last_proc := x\<rparr>)"
  by (simp_all add: level_typed_def)

lemma cli_keeps: "keeps ptable_typed pushcli" "keeps ptable_typed popcli"
  unfolding pushcli_def popcli_def by (rule stays_rules modify_keeps | simp)+

lemma xchg_keeps:
  "keeps ptable_typed (\<lambda>s. let (old, lk) = xchg 1 (locks s l) in
     if old \<noteq> 0 then Spin else Ret () (s\<lparr>locks := (locks s)(l := lk\<lparr>lk_cpu := Some (cpuid (cpu s))\<rparr>)\<rparr>))"
  by (rule staysI) (simp add: xchg_def)

lemma lock_keeps: "keeps ptable_typed (acquire l)" "keeps ptable_typed (release l)"
  unfolding acquire_def release_def by (rule stays_rules cli_keeps xchg_keeps modify_keeps | simp)+

lemma with_lock_stays: "stays ptable_typed Q m \<Longrightarrow> stays ptable_typed Q (with_lock l m)"
  unfolding with_lock_def
  by (intro seq_keeps lock_keeps, erule stays_bind, intro seq_keeps lock_keeps return_stays)

lemma first_stays: "stays ptable_typed (below NPROC) (gets (\<lambda>s. first (mlf s l)))"
  by (rule gets_stays) (simp add: ptable_typed_def level_typed_def)

lemma last_stays: "stays ptable_typed (below NPROC) (gets (\<lambda>s. last_proc (mlf s l)))"
  by (rule gets_stays) (simp add: ptable_typed_def level_typed_def)

lemma level_stays: "stays ptable_typed level_typed (gets (\<lambda>s. mlf s l))"
  by (rule gets_stays) (simp add: ptable_typed_def)

lemma curproc_stays: "stays ptable_typed (below NPROC) (gets curproc)"
  by (rule gets_stays) (simp add: ptable_typed_def)

lemma with_proc_stays: "(\<And>p. p < NPROC \<Longrightarrow> stays ptable_typed Q (f p)) \<Longrightarrow> stays ptable_typed Q (with_proc f)"
  unfolding with_proc_def by (rule stays_bind [OF curproc_stays] stays_rules | simp)+

lemmas ptable_rules = stays_bind [OF first_stays] stays_bind [OF last_stays] stays_bind [OF curproc_stays]
  stays_rules lock_keeps with_lock_stays with_proc_stays upd_proc_keeps upd_level_keeps modify_keeps

lemma make_runnable_keeps: "p < NPROC \<Longrightarrow> keeps ptable_typed (make_runnable p)"
  unfolding make_runnable_def by (rule ptable_rules | simp)+

lemma unqueue_stays: "stays ptable_typed (\<lambda>p. p < NPROC) (unqueue l)"
proof -
  have first: "keeps ptable_typed (\<lambda>s. upd_level l (\<lambda>q. q\<lparr>first := pnext (procs s p)\<rparr>) s)" for p
    by (rule staysI, rule staysD [OF upd_level_keeps]) (auto simp: ptable_typed_def proc_typed_def)
  show ?thesis
    unfolding unqueue_def
    by (rule stays_bind [OF level_stays] first stays_rules upd_level_keeps | simp add: level_typed_def; fail)+
qed

lemma levelupdate_keeps: "p < NPROC \<Longrightarrow> keeps ptable_typed (levelupdate p)"
  unfolding levelupdate_def by (rule ptable_rules stays_keeps [OF unqueue_stays] make_runnable_keeps | simp)+

lemma calculateaging_keeps: "keeps ptable_typed calculateaging"
  unfolding calculateaging_def age_level_def by (rule ptable_rules levelupdate_keeps | simp)+

lemma switchuvm_keeps: "keeps ptable_typed (switchuvm p)"
proof -
  have load: "keeps ptable_typed (\<lambda>s. lcr3 (v2p (pgdir (procs s p))) s)" for p
    by (rule staysI) (simp add: lcr3_def modify_apply)
  show ?thesis unfolding switchuvm_def by (rule load ptable_rules cli_keeps | simp)+
qed

lemma sched_keeps: "keeps ptable_typed sched"
  unfolding sched_def by (rule ptable_rules)+

lemma yield_keeps: "keeps ptable_typed yield"
  unfolding yield_def by (rule ptable_rules make_runnable_keeps sched_keeps | simp)+

lemma sleep_keeps: "stays ptable_typed Q (sleep c lk)"
  unfolding sleep_def by (rule ptable_rules sched_keeps | simp)+

lemma wakeup1_keeps: "keeps ptable_typed (wakeup1 c)"
  unfolding wakeup1_def wake_slot_def by (rule ptable_rules make_runnable_keeps | simp)+

lemma wakeup_keeps: "keeps ptable_typed (wakeup c)"
  unfolding wakeup_def by (rule with_lock_stays wakeup1_keeps)+

lemma searched_stays: "stays ptable_typed (below n) (gets (\<lambda>s. first_index n (P s)))"
  by (rule gets_stays) (auto dest: first_index_Some)

lemma kill_keeps: "keeps ptable_typed (kill n)"
  unfolding kill_def kill_locked_def
  by (rule with_lock_stays stays_bind [OF searched_stays] ptable_rules make_runnable_keeps | simp)+

lemma setpriority_keeps: "keeps ptable_typed (setpriority l)"
  unfolding setpriority_def by (rule ptable_rules | simp)+

lemma alloc_slot_stays: "stays ptable_typed (below NPROC) alloc_slot"
proof -
  have number: "keeps ptable_typed (\<lambda>s. upd_proc p (\<lambda>r. r\<lparr>pid := nextpid s\<rparr>) s)" for p
    by (rule staysI, rule staysD [OF upd_proc_keeps]) simp_all
  show ?thesis
    unfolding alloc_slot_def claim_slot_def
    by (rule number with_lock_stays stays_bind [OF searched_stays] ptable_rules | simp)+
qed

lemma start_child_keeps: "p < NPROC \<Longrightarrow> keeps ptable_typed (start_child p)"
  unfolding start_child_def by (rule with_lock_stays make_runnable_keeps | assumption)+

lemma wakeup_proc_keeps: "keeps ptable_typed (wakeup_proc po)"
  unfolding wakeup_proc_def by (rule ptable_rules wakeup1_keeps)+

lemma exit_sched_keeps: "keeps ptable_typed exit_sched"
proof -
  have links: "keeps ptable_typed (\<lambda>s. upd_proc p (\<lambda>r. r\<lparr>parent := initproc s\<rparr>) s)"
    "keeps ptable_typed (\<lambda>s. wakeup_proc (initproc s) s)" "keeps ptable_typed (\<lambda>s. wakeup_proc (parent (procs s p)) s)" for p
    by (rule staysI, rule staysD [OF upd_proc_keeps] staysD [OF wakeup_proc_keeps], auto simp: ptable_typed_def)+
  show ?thesis
    unfolding exit_sched_def reparent_def by (rule links ptable_rules sched_keeps | simp)+
qed

lemma reap_keeps: "keeps ptable_typed (reap p)"
  unfolding reap_def by (rule upd_proc_keeps) simp

lemma yield_resume_keeps: "keeps ptable_typed yield_resume"
  unfolding yield_resume_def by (rule lock_keeps)

section \<open>Semaphores\<close>

abbreviation sems_typed :: "ssys \<Rightarrow> bool" where
  "sems_typed s \<equiv> ptable_typed (spt s)"

lemma ptab_stays: "stays ptable_typed Q m \<Longrightarrow> stays sems_typed Q (ptab m)"
  unfolding ptab_def by (erule zoom_stays) simp_all

lemma upd_sem_keeps: "keeps sems_typed (upd_sem j f)"
  unfolding upd_sem_def by (rule modify_keeps) simp

lemma cur_stays: "(\<And>p. p < NPROC \<Longrightarrow> stays sems_typed Q (f p)) \<Longrightarrow> stays sems_typed Q (cur f)"
  unfolding cur_def by (rule stays_bind [OF ptab_stays [OF curproc_stays]] stays_rules | simp)+

lemma stable_section_stays: "stays sems_typed Q m \<Longrightarrow> stays sems_typed Q (stable_section m)"
  unfolding stable_section_def
  by (intro seq_keeps ptab_stays lock_keeps, erule stays_bind, intro seq_keeps ptab_stays lock_keeps return_stays)

lemma held_stays:
  assumes "\<And>j. i < MAXPROCSEM \<Longrightarrow> j < MAXSEM \<Longrightarrow> stays sems_typed Q (f j)"
  shows "stays sems_typed Q (held p i f)"
proof -
  have entry: "stays ptable_typed (\<lambda>x. \<forall>j. x = Some j \<longrightarrow> i < MAXPROCSEM \<and> j < MAXSEM) (gets (\<lambda>s. osemaphore (procs s p) i))"
    by (rule gets_stays) (simp add: ptable_typed_def proc_typed_def)
  show ?thesis
    unfolding held_def by (rule stays_bind [OF ptab_stays [OF entry]] stays_rules assms | simp)+
qed

lemma found_stays: "stays sems_typed (below n) (gets (\<lambda>s. first_index n (P s)))"
  by (rule gets_stays) (auto dest: first_index_Some)

lemma allocinprocess_stays: "stays sems_typed (below MAXPROCSEM) allocinprocess"
  unfolding allocinprocess_def by (rule cur_stays found_stays)+

lemma searchinprocess_keeps: "keeps sems_typed (searchinprocess n)"
  unfolding searchinprocess_def by (rule cur_stays gets_keeps)+

lemmas sem_rules = stays_bind [OF allocinprocess_stays] stays_bind [OF found_stays] stays_rules upd_sem_keeps cur_stays
  stable_section_stays held_stays searchinprocess_keeps ptab_stays lock_keeps sleep_keeps wakeup_keeps

lemma sem_open_keeps: "i < MAXPROCSEM \<Longrightarrow> j < MAXSEM \<Longrightarrow> keeps sems_typed (sem_open i j)"
  unfolding sem_open_def by (rule sem_rules upd_proc_keeps | simp add: proc_typed_tables)+

lemma semget_keeps: "keeps sems_typed (semget i v)"
  unfolding semget_def semget_locked_def allocinsystem_def by (rule sem_rules sem_open_keeps | simp)+

lemma semfree_keeps: "keeps sems_typed (semfree i)"
  unfolding semfree_def by (rule sem_rules upd_proc_keeps | simp add: proc_typed_tables)+

lemma semdown_keeps: "keeps sems_typed (semdown i)"
  unfolding semdown_def semdown_loop_def by (rule sem_rules)+

lemma semup_keeps: "keeps sems_typed (semup i)"
  unfolding semup_def by (rule sem_rules)+

lemma semclose_keeps: "keeps sems_typed (semclose j)"
  unfolding semclose_def by (rule sem_rules)+

lemma semdup_stays: "j < MAXSEM \<Longrightarrow> stays sems_typed (\<lambda>i. i < MAXSEM) (semdup j)"
  unfolding semdup_def by (rule sem_rules | assumption)+

section \<open>The whole kernel\<close>

lemma kernel_typed_simps [simp]:
  "kernel_typed (s\<lparr>kmm := a\<rparr>) \<longleftrightarrow> kernel_typed s" "kernel_typed (s\<lparr>kcons := b\<rparr>) \<longleftrightarrow> kernel_typed s"
  "kernel_typed (s\<lparr>pipes := c\<rparr>) \<longleftrightarrow> kernel_typed s" "kernel_typed (s\<lparr>kticks := d\<rparr>) \<longleftrightarrow> kernel_typed s"
  by (simp_all add: kernel_typed_def)

interpretation kern: fs_frame kernel_typed
proof
  fix s t :: ksys
  assume "fsys.more t = fsys.more s"
  then have "ksem t = ksem s" "files t = files s" by (cases s; cases t; simp)+
  then show "kernel_typed t \<longleftrightarrow> kernel_typed s" by (simp add: kernel_typed_def)
qed

lemma sem_stays: "stays sems_typed Q m \<Longrightarrow> stays kernel_typed Q (sem m)"
  unfolding sem_def by (erule zoom_stays) (simp_all add: kernel_typed_def)

lemma pt_stays: "stays ptable_typed Q m \<Longrightarrow> stays kernel_typed Q (pt m)"
  unfolding pt_def by (intro sem_stays ptab_stays)

lemma km_keeps: "keeps kernel_typed (km m)"
  unfolding km_def by (rule zoom_keeps) simp

lemma con_keeps: "keeps kernel_typed (con m)"
  unfolding con_def by (rule zoom_keeps) simp

lemma cproc_stays:
  assumes "\<And>p r. p < NPROC \<Longrightarrow> proc_typed r \<Longrightarrow> stays kernel_typed Q (f p r)"
  shows "stays kernel_typed Q (cproc f)"
proof (rule staysI)
  fix s assume s: "kernel_typed s"
  show "good kernel_typed Q (cproc f s)"
  proof (cases "curproc (pst s)")
    case (Some p)
    with s have "p < NPROC" "proc_typed (procs (pst s) p)"
      by (simp_all add: kernel_typed_def ptable_typed_def)
    from staysD [OF assms [OF this] s] Some show ?thesis by (simp add: cproc_def)
  qed (simp add: cproc_def)
qed

lemma upd_slot_keeps: "(\<And>r. proc_typed r \<Longrightarrow> proc_typed (f r)) \<Longrightarrow> keeps kernel_typed (upd_slot p f)"
  unfolding upd_slot_def by (intro pt_stays upd_proc_keeps)

lemma upd_cur_keeps: "(\<And>r. proc_typed r \<Longrightarrow> proc_typed (f r)) \<Longrightarrow> keeps kernel_typed (upd_cur f)"
  unfolding upd_cur_def by (intro cproc_stays pt_stays upd_proc_keeps)

lemma block_stays: "stays kernel_typed Q (block c)"
  unfolding block_def by (intro pt_stays seq_keeps lock_keeps sleep_keeps)

lemma deliver_keeps: "keeps kernel_typed deliver"
proof (rule staysI)
  fix s assume "kernel_typed s"
  then show "good kernel_typed (\<lambda>_. True) (deliver s)"
    unfolding deliver_def by (intro staysD [OF for_each_keeps [OF pt_stays [OF wakeup_keeps]]]) simp
qed

lemma fs_stays:
  assumes "stays kernel_typed Q m"
  shows "stays kernel_typed Q (fs m)"
proof (rule staysI)
  fix s assume "kernel_typed s"
  then have g: "good kernel_typed Q (m s)" by (rule staysD [OF assms])
  show "good kernel_typed Q (fs m s)"
  proof (cases "m s")
    case (Ret x t)
    with g have "Q x" "kernel_typed t" by simp_all
    with Ret show ?thesis
      using staysD [OF seq_keeps [OF deliver_keeps return_stays]] by (simp add: fs_def)
  next
    case (Sleep c t)
    with g have "kernel_typed t" by simp
    with Sleep show ?thesis using staysD [OF seq_keeps [OF deliver_keeps block_stays]] by (simp add: fs_def)
  qed (simp_all add: fs_def)
qed

lemma uload_keeps: "keeps kernel_typed (uload a)"
  by (rule staysI) (simp add: uload_def)

lemma ustore_keeps: "keeps kernel_typed (ustore a b)"
  by (rule staysI) (simp add: ustore_def split: option.split)

lemma ustores_keeps: "keeps kernel_typed (ustores a bs)"
  by (induction bs arbitrary: a) (simp_all add: stays_rules ustore_keeps)

lemma ustore32_keeps: "keeps kernel_typed (ustore32 a w)" "keeps kernel_typed (ustore16 a h)"
  unfolding ustore32_def ustore16_def by (rule ustores_keeps)+

lemma uload32_keeps: "keeps kernel_typed (uload32 a)"
  unfolding uload32_def by (rule stays_rules uload_keeps)+

lemmas kern_rules = stays_rules kern.keeps_rules km_keeps con_keeps cproc_stays upd_slot_keeps upd_cur_keeps block_stays fs_stays
  uload_keeps ustore_keeps ustores_keeps ustore32_keeps uload32_keeps pt_stays sem_stays lock_keeps wakeup_keeps switchuvm_keeps

section \<open>Files\<close>

lemma file_typed_simps [simp]:
  "file_typed (x\<lparr>foff := a\<rparr>) \<longleftrightarrow> file_typed x" "file_typed (x\<lparr>freadable := b\<rparr>) \<longleftrightarrow> file_typed x"
  "file_typed (x\<lparr>fwritable := c\<rparr>) \<longleftrightarrow> file_typed x"
  by (simp_all add: file_typed_def)

lemma upd_file_keeps: "(\<And>x. file_typed x \<Longrightarrow> file_typed (g x)) \<Longrightarrow> keeps kernel_typed (upd_file f g)"
  unfolding upd_file_def by (rule modify_keeps) (simp add: kernel_typed_def)

lemma file_stays: "stays kernel_typed file_typed (gets (\<lambda>s. files s f))"
  by (rule gets_stays) (simp add: kernel_typed_def)

lemma upd_pipe_keeps: "keeps kernel_typed (upd_pipe p f)"
  unfolding upd_pipe_def by (rule modify_keeps) simp

lemma consoleread_loop_keeps: "keeps kernel_typed (consoleread_loop t n acc)"
  by (induction n arbitrary: acc) (simp only: consoleread_loop.simps, (rule kern_rules | assumption)+)+

lemma devices_keep:
  "dev_reads d = Some rd \<Longrightarrow> keeps kernel_typed (rd ip n)" "dev_writes d = Some wr \<Longrightarrow> keeps kernel_typed (wr ip src n)"
  by (auto simp: dev_reads_def dev_writes_def consoleread_def consolewrite_def split: if_splits
      intro!: kern_rules consoleread_loop_keeps)

lemma readi_kern: "keeps kernel_typed (readi dev_reads ip off n)"
  by (rule kern.readi_keeps) (rule devices_keep)

lemma writei_kern: "keeps kernel_typed (writei dev_writes ip src off n)"
  by (rule kern.writei_keeps) (rule devices_keep)

lemma with_ip_stays: "(\<And>i. x = Some i \<Longrightarrow> stays kernel_typed Q (f i)) \<Longrightarrow> stays kernel_typed Q (with_ip x f)"
  unfolding with_ip_def by (rule kern_rules | simp)+

lemmas file_rules = stays_bind [OF file_stays] kern_rules upd_file_keeps upd_pipe_keeps readi_kern writei_kern with_ip_stays

lemma pipeclose_keeps: "keeps kernel_typed (pipeclose p w)"
  unfolding pipeclose_def by (rule file_rules)+

lemma pipewrite_loop_keeps: "keeps kernel_typed (pipewrite_loop p a is)"
  by (induction "is") (simp only: pipewrite_loop.simps, (rule file_rules | assumption)+)+

lemma pipewrite_keeps: "keeps kernel_typed (pipewrite p a n)"
  unfolding pipewrite_def by (rule file_rules pipewrite_loop_keeps)+

lemma piperead_loop_keeps: "keeps kernel_typed (piperead_loop p a i k)"
  by (induction k arbitrary: i) (simp only: piperead_loop.simps, (rule file_rules | assumption)+)+

lemma piperead_keeps: "keeps kernel_typed (piperead p a n)"
  unfolding piperead_def by (rule file_rules piperead_loop_keeps)+

lemma filealloc_stays: "stays kernel_typed (below NFILE) filealloc"
  by (rule staysI) (auto simp: filealloc_def kernel_typed_def file_typed_def split: option.split dest: first_index_Some)

lemma filedup_stays: "f < NFILE \<Longrightarrow> stays kernel_typed (\<lambda>g. g < NFILE) (filedup f)"
  unfolding filedup_def by (rule file_rules | assumption | simp add: file_typed_def)+

lemma file_less_keeps:
  "keeps kernel_typed (seq (panic_if (\<lambda>s. fref (files s f) < 1) msg) (upd_file f (\<lambda>x. x\<lparr>fref := fref x - 1\<rparr>)))"
  by (rule staysI) (auto simp: upd_file_def kfun_simps kernel_typed_def file_typed_def)

lemma ftype_stays:
  "stays I Q a \<Longrightarrow> stays I Q b \<Longrightarrow> stays I Q c \<Longrightarrow> stays I Q (case t of FD_NONE \<Rightarrow> a | FD_PIPE \<Rightarrow> b | FD_INODE \<Rightarrow> c)"
  by (cases t) simp_all

lemma fileclose_keeps: "keeps kernel_typed (fileclose f)"
proof -
  have split: "fileclose f = seq (seq (panic_if (\<lambda>s. fref (files s f) < 1) ''fileclose'') (upd_file f (\<lambda>x. x\<lparr>fref := fref x - 1\<rparr>)))
    (bind (gets (\<lambda>s. files s f)) (\<lambda>ff.
     if fref ff > 0 then return ()
     else
       seq (upd_file f (\<lambda>x. x\<lparr>fref := 0, ftyp := FD_NONE\<rparr>))
      (case ftyp ff of
         FD_PIPE \<Rightarrow> pipeclose (fpipe ff) (fwritable ff)
       | FD_INODE \<Rightarrow> seq (fs begin_op) (seq (with_ip (fip ff) (\<lambda>ip. fs (iput ip))) (fs end_op))
       | FD_NONE \<Rightarrow> return ())))"
    by (simp add: fileclose_def seq_def bind_assoc)
  show ?thesis
    unfolding split by (rule file_less_keeps file_rules pipeclose_keeps ftype_stays | simp add: file_typed_def)+
qed

lemma filestat_keeps: "keeps kernel_typed (filestat f a)"
  unfolding filestat_def store_stat_def by (rule file_rules)+

lemma fileread_keeps: "keeps kernel_typed (fileread f a n)"
  unfolding fileread_def by (rule file_rules piperead_keeps ftype_stays | simp)+

lemma filewrite_loop_keeps: "keeps kernel_typed (filewrite_loop k f ip a n i)"
proof (induction k arbitrary: i)
  case (Suc k)
  have w: "keeps kernel_typed (\<lambda>s. fs (writei dev_writes ip (\<lambda>j. ubyte s (a' + of_nat j)) off m) s)" for a' off m
    by (rule staysI) (rule staysD [OF fs_stays [OF writei_kern]])
  show ?case unfolding filewrite_loop.simps by (rule w file_rules Suc.IH | simp)+
qed (simp add: spin_stays)

lemma filewrite_keeps: "keeps kernel_typed (filewrite f a n)"
  unfolding filewrite_def by (rule file_rules pipewrite_keeps ftype_stays filewrite_loop_keeps)+

lemma fileseek_keeps: "keeps kernel_typed (fileseek f off)"
  unfolding fileseek_def by (rule file_rules | simp)+

lemma pipealloc_stays: "stays kernel_typed (\<lambda>x. \<forall>f g. x = Some (f, g) \<longrightarrow> f < NFILE \<and> g < NFILE) pipealloc"
  unfolding pipealloc_def
  by (rule stays_bind [OF filealloc_stays] file_rules fileclose_keeps | simp add: file_typed_def)+

section \<open>Mappings and processes\<close>

lemma upd_map_keeps:
  "i < MAXMAPPEDFILES \<Longrightarrow> (\<And>e. below NFILE (pfile e) \<Longrightarrow> below NFILE (pfile (g e))) \<Longrightarrow> keeps kernel_typed (upd_map i g)"
  unfolding upd_map_def
proof (rule upd_cur_keeps)
  fix r
  assume i: "i < MAXMAPPEDFILES" and g: "\<And>e. below NFILE (pfile e) \<Longrightarrow> below NFILE (pfile (g e))" and r: "proc_typed r"
  from r have "below NFILE (pfile (ommap r i))" by (simp add: proc_typed_def)
  from proc_typed_tables(3) [OF r i g [OF this]] show "proc_typed (r\<lparr>ommap := (ommap r)(i := g (ommap r i))\<rparr>)" .
qed

lemma mmap_keeps: "keeps kernel_typed (mmap fd a)"
  unfolding mmap_def
  by (rule file_rules upd_map_keeps | auto simp: proc_typed_def dest: first_index_Some; fail)+

lemma write_back_keeps: "keeps kernel_typed (write_back f a off)"
  unfolding write_back_def by (rule file_rules fileseek_keeps filewrite_keeps)+

lemma munmap_loop_keeps: "keeps kernel_typed (munmap_loop k f a off lim)"
  by (induction k arbitrary: off) (simp only: munmap_loop.simps, (rule file_rules write_back_keeps | assumption)+)+

lemma munmap_keeps: "keeps kernel_typed (munmap a)"
  unfolding munmap_def
  by (rule file_rules munmap_loop_keeps upd_map_keeps | auto simp: find_map_def dest: first_index_Some; fail)+

lemma allocproc_stays: "stays kernel_typed (below NPROC) (allocproc l)"
  unfolding allocproc_def by (rule stays_bind [OF pt_stays [OF alloc_slot_stays]] kern_rules | simp)+

lemma modify_init_keeps: "below NPROC x \<Longrightarrow> keeps ptable_typed (modify (\<lambda>s. s\<lparr>initproc := x\<rparr>))"
  by (rule modify_keeps) (simp add: ptable_typed_def)

lemma userinit_keeps: "keeps kernel_typed (userinit l)"
  unfolding userinit_def
  by (rule stays_bind [OF allocproc_stays] stays_bind [OF fs_stays [OF kern.namei_stays]] kern_rules modify_init_keeps make_runnable_keeps | simp)+

lemma growproc_keeps: "keeps kernel_typed (growproc n)"
  unfolding growproc_def by (rule kern_rules | simp)+

lemma fork_file_keeps: "keeps kernel_typed (fork_file np i)"
  unfolding fork_file_def
  by (rule stays_bind [OF filedup_stays] kern_rules | auto simp: proc_typed_def; fail)+

lemma fork_sem_keeps: "keeps kernel_typed (fork_sem np i)"
  unfolding fork_sem_def
  by (rule stays_bind [OF sem_stays [OF semdup_stays]] kern_rules | auto simp: proc_typed_def; fail)+

lemma fork_map_keeps: "keeps kernel_typed (fork_map np i)"
  unfolding fork_map_def by (rule kern_rules proc_typed_tables | auto simp: proc_typed_def; fail)+

lemma fork_keeps: "keeps kernel_typed (fork l)"
  unfolding fork_def
  by (rule stays_bind [OF allocproc_stays] stays_bind [OF with_ip_stays [OF kern.idup_stays]] kern_rules fork_file_keeps fork_sem_keeps fork_map_keeps
      start_child_keeps | simp add: proc_typed_def; fail | simp)+

lemma exit_map_keeps: "keeps kernel_typed (exit_map i)"
  unfolding exit_map_def by (rule kern_rules munmap_keeps)+

lemma exit_file_keeps: "keeps kernel_typed (exit_file i)"
  unfolding exit_file_def by (rule kern_rules fileclose_keeps | auto simp: proc_typed_def; fail)+

lemma exit_sem_keeps: "keeps kernel_typed (exit_sem i)"
  unfolding exit_sem_def by (rule kern_rules semclose_keeps | auto simp: proc_typed_def; fail)+

lemma exit_proc_keeps: "keeps kernel_typed exit_proc"
  unfolding exit_proc_def
  by (rule kern_rules exit_map_keeps exit_file_keeps exit_sem_keeps with_ip_stays exit_sched_keeps | simp)+

lemma reap_child_keeps:
  "keeps kernel_typed (seq (km (kfree k)) (seq (upd_slot p (\<lambda>r. r\<lparr>kstack := 0\<rparr>)) (seq (km (freevm d))
     (seq (pt (reap p)) (seq (pt (release PtableLock)) (return n))))))"
  by (rule kern_rules reap_keeps | simp)+

lemma wait_keeps: "keeps kernel_typed wait"
proof -
  have search: "keeps kernel_typed (\<lambda>s. case first_index NPROC (P s) of
      Some p \<Rightarrow> (let n = pid (procs (pst s) p) in
         seq (km (kfree (kstack (procs (pst s) p))))
        (seq (upd_slot p (\<lambda>r. r\<lparr>kstack := 0\<rparr>))
        (seq (km (freevm (pgdir (procs (pst s) p))))
        (seq (pt (reap p))
        (seq (pt (release PtableLock))
             (return n)))))) s
     | None \<Rightarrow> (if B s then seq (pt (release PtableLock)) (return (- 1)) else pt (sleep c PtableLock)) s)" for P B c
    by (rule staysI)
      (auto split: option.split simp: Let_def intro!: staysD [OF reap_child_keeps] staysD [OF seq_keeps [OF pt_stays [OF lock_keeps(2)] return_stays]]
        staysD [OF pt_stays [OF sleep_keeps]])
  show ?thesis unfolding wait_def by (rule search kern_rules)+
qed

lemma forkret_keeps: "keeps kernel_typed (forkret b)"
  unfolding forkret_def by (rule kern_rules)+

lemma procdump_keeps: "keeps kernel_typed procdump"
proof -
  have "keeps kernel_typed (dump_slot p)" for p
    unfolding dump_slot_def Let_def by (rule state_stays, (rule kern_rules)+)
  then show ?thesis unfolding procdump_def by (rule for_each_keeps)
qed

lemma consoleintr_keeps: "keeps kernel_typed (consoleintr cs)"
  unfolding consoleintr_def by (rule kern_rules procdump_keeps)+

section \<open>System calls\<close>

lemma fetchint_keeps: "keeps kernel_typed (fetchint a)"
  unfolding fetchint_def by (rule kern_rules)+

lemma fetchstr_keeps: "keeps kernel_typed (fetchstr a)"
proof -
  have "keeps kernel_typed (fetchstr_loop k a)" for k a
    by (induction k arbitrary: a) (simp only: fetchstr_loop.simps, (rule kern_rules | assumption)+)+
  then show ?thesis unfolding fetchstr_def by (intro kern_rules)
qed

lemma args_keep: "keeps kernel_typed (argint n)" "keeps kernel_typed (argptr n k)" "keeps kernel_typed (argstr n)"
  unfolding argint_def argptr_def argstr_def by (rule kern_rules fetchint_keeps fetchstr_keeps)+

lemma with_int_stays: "(\<And>i. keeps kernel_typed (f i)) \<Longrightarrow> keeps kernel_typed (with_int n f)"
  unfolding with_int_def by (rule kern_rules args_keep | assumption)+

lemma with_ptr_stays: "(\<And>a. keeps kernel_typed (f a)) \<Longrightarrow> keeps kernel_typed (with_ptr n k f)"
  unfolding with_ptr_def by (rule kern_rules args_keep | assumption)+

lemma with_str_stays: "(\<And>cs. keeps kernel_typed (f cs)) \<Longrightarrow> keeps kernel_typed (with_str n f)"
  unfolding with_str_def by (rule kern_rules args_keep | assumption)+

lemmas sys_rules = with_int_stays with_ptr_stays with_str_stays args_keep kern_rules

lemma sysproc_keeps:
  "keeps kernel_typed (sys_fork l)" "keeps kernel_typed sys_exit" "keeps kernel_typed sys_wait" "keeps kernel_typed sys_kill"
  "keeps kernel_typed sys_getpid" "keeps kernel_typed sys_sbrk" "keeps kernel_typed sys_sleep" "keeps kernel_typed sys_uptime"
  "keeps kernel_typed sys_procstat" "keeps kernel_typed sys_setpriority"
  unfolding sys_fork_def sys_exit_def sys_wait_def sys_kill_def sys_getpid_def sys_sbrk_def sys_sleep_def sleep_until_def
    sys_uptime_def sys_procstat_def sys_setpriority_def
  by (rule sys_rules fork_keeps exit_proc_keeps wait_keeps kill_keeps growproc_keeps procdump_keeps setpriority_keeps sleep_keeps)+

lemma syssem_keeps:
  "keeps kernel_typed sys_semget" "keeps kernel_typed sys_semfree" "keeps kernel_typed sys_semdown" "keeps kernel_typed sys_semup"
  unfolding sys_semget_def sys_semfree_def sys_semdown_def sys_semup_def
  by (rule sys_rules semget_keeps semfree_keeps semdown_keeps semup_keeps)+

subsection \<open>Programs\<close>

lemma loaduvm_keeps: "keeps kernel_typed (loaduvm d a ip off n)"
proof -
  have "keeps kernel_typed (loaduvm_loop k d a ip off n i)" for k i
    by (induction k arbitrary: i) (simp only: loaduvm_loop.simps, (rule file_rules | assumption)+)+
  then show ?thesis unfolding loaduvm_def by (intro kern_rules)
qed

lemma copyout_keeps: "keeps kernel_typed (copyout_bytes k d a bs)"
  by (induction k arbitrary: a bs) (simp only: copyout_bytes.simps, (rule kern_rules | assumption)+)+

lemma exec_segments_keeps: "keeps kernel_typed (exec_segments k d ip off hi)"
  by (induction k arbitrary: off hi) (simp only: exec_segments.simps, (rule file_rules loaduvm_keeps | assumption)+)+

lemma exec_load_keeps: "keeps kernel_typed (exec_load l ip)"
  unfolding exec_load_def by (rule file_rules exec_segments_keeps)+

lemma push_args_keeps: "keeps kernel_typed (push_args d n args sp ptrs)"
  by (induction args arbitrary: n sp ptrs) (simp only: push_args.simps, (rule kern_rules copyout_keeps | assumption)+)+

lemma exec_stack_keeps: "keeps kernel_typed (exec_stack d argv hi)"
  unfolding exec_stack_def by (rule kern_rules copyout_keeps push_args_keeps)+

lemma namei_cur_stays: "stays kernel_typed (\<lambda>r. \<forall>ip. r = Some ip \<longrightarrow> in_cache ip) (namei_cur path)"
  unfolding namei_cur_def
  by (rule cproc_stays if_stays with_ip_stays fs_stays kern.namei_stays | simp add: proc_typed_def)+

lemma parent_cur_stays: "stays kernel_typed found_in_cache (parent_cur path)"
  unfolding parent_cur_def nameiparent_def
  by (rule cproc_stays if_stays with_ip_stays fs_stays kern.namex_stays | simp add: proc_typed_def)+

lemma exec_keeps: "keeps kernel_typed (exec l path argv)"
  unfolding exec_def exec_bad_def exec_commit_def
  by (rule stays_bind [OF namei_cur_stays] kern_rules exec_load_keeps exec_stack_keeps | simp)+

subsection \<open>Files\<close>

lemma with_fd_keeps:
  assumes "\<And>fd f. fd < NOFILE \<Longrightarrow> f < NFILE \<Longrightarrow> keeps kernel_typed (g fd f)"
  shows "keeps kernel_typed (with_fd n g)"
proof -
  have "stays kernel_typed (\<lambda>x. \<forall>fd f. x = Some (fd, f) \<longrightarrow> fd < NOFILE \<and> f < NFILE) (argfd n)"
    unfolding argfd_def by (rule kern_rules args_keep | auto simp: proc_typed_def; fail)+
  then show ?thesis unfolding with_fd_def by (rule stays_bind) (rule kern_rules assms | simp)+
qed

lemma set_fd_keeps: "fd < NOFILE \<Longrightarrow> below NFILE x \<Longrightarrow> keeps kernel_typed (set_fd fd x)"
  unfolding set_fd_def by (rule upd_cur_keeps) (simp add: proc_typed_tables)

lemma fdalloc_stays: "f < NFILE \<Longrightarrow> stays kernel_typed (\<lambda>fd. fd < int NOFILE) (fdalloc f)"
  unfolding fdalloc_def by (rule kern_rules set_fd_keeps | auto dest: first_index_Some; fail)+

lemmas sysfile_rules = stays_bind [OF fdalloc_stays] with_fd_keeps sys_rules set_fd_keeps fileclose_keeps

lemma sysfd_keeps:
  "keeps kernel_typed sys_dup" "keeps kernel_typed sys_read" "keeps kernel_typed sys_write" "keeps kernel_typed sys_close"
  "keeps kernel_typed sys_fstat" "keeps kernel_typed sys_seek"
  unfolding sys_dup_def sys_read_def sys_write_def sys_close_def sys_fstat_def sys_seek_def
  by (rule sysfile_rules stays_keeps [OF filedup_stays] fileread_keeps filewrite_keeps filestat_keeps fileseek_keeps | simp)+

lemma upd_link_keeps: "keeps kernel_typed (upd_link ip d)"
  unfolding upd_link_def by (rule kern_rules)

lemma sys_link_keeps: "keeps kernel_typed sys_link"
  unfolding sys_link_def link_bad_def
  by (rule sysfile_rules stays_keeps [OF namei_cur_stays] stays_keeps [OF parent_cur_stays] upd_link_keeps)+

lemma isdirempty_keeps: "keeps kernel_typed (isdirempty ip)"
proof -
  have "keeps kernel_typed (isdirempty_loop k ip off)" for k off
    by (induction k arbitrary: off) (simp only: isdirempty_loop.simps, (rule file_rules | assumption)+)+
  then show ?thesis unfolding isdirempty_def by (intro kern_rules)
qed

lemma sys_unlink_keeps: "keeps kernel_typed sys_unlink"
  unfolding sys_unlink_def unlink_bad_def unlink_entry_def
  by (rule sysfile_rules file_rules stays_keeps [OF parent_cur_stays] stays_keeps [OF kern.dirlookup_stays] upd_link_keeps isdirempty_keeps)+

lemma create_new_stays: "stays kernel_typed (\<lambda>r. \<forall>ip. r = Some ip \<longrightarrow> in_cache ip) (create_new dp nm ty mj mn)"
  unfolding create_new_def by (rule stays_bind [OF fs_stays [OF kern.ialloc_stays]] kern_rules upd_link_keeps | simp)+

lemma create_stays: "stays kernel_typed (\<lambda>r. \<forall>ip. r = Some ip \<longrightarrow> in_cache ip) (create path ty mj mn)"
  unfolding create_def
  by (rule stays_bind [OF parent_cur_stays] stays_bind [OF fs_stays [OF kern.dirlookup_stays]] kern_rules create_new_stays | simp)+

lemma open_inode_stays: "stays kernel_typed (\<lambda>r. \<forall>ip. r = Some ip \<longrightarrow> in_cache ip) (open_inode path m)"
  unfolding open_inode_def by (rule stays_bind [OF namei_cur_stays] create_stays kern_rules | simp)+

lemma sys_open_keeps: "keeps kernel_typed sys_open"
  unfolding sys_open_def Let_def
  by (rule stays_bind [OF open_inode_stays] stays_bind [OF filealloc_stays] sysfile_rules upd_file_keeps
      | simp add: file_typed_def)+

lemma sys_make_keeps: "keeps kernel_typed sys_mkdir" "keeps kernel_typed sys_mknod"
  unfolding sys_mkdir_def sys_mknod_def by (rule sysfile_rules stays_keeps [OF create_stays])+

lemma sys_chdir_keeps: "keeps kernel_typed sys_chdir"
  unfolding sys_chdir_def
  by (rule sysfile_rules stays_bind [where P = "\<lambda>r. \<forall>ip. r = Some ip \<longrightarrow> in_cache ip"] namei_cur_stays with_ip_stays | simp)+

lemma sys_exec_keeps: "keeps kernel_typed (sys_exec l)"
proof -
  have "keeps kernel_typed (exec_args k a)" for k a
    by (induction k arbitrary: a) (simp only: exec_args.simps, (rule kern_rules fetchint_keeps fetchstr_keeps | assumption)+)+
  then show ?thesis unfolding sys_exec_def by (intro sys_rules exec_keeps)
qed

lemma sys_pipe_keeps: "keeps kernel_typed sys_pipe"
  unfolding sys_pipe_def
  by (rule stays_bind [OF pipealloc_stays] sysfile_rules stays_keeps [OF fdalloc_stays] | simp)+

lemma sys_map_keeps: "keeps kernel_typed sys_mmap" "keeps kernel_typed sys_munmap"
  unfolding sys_mmap_def sys_munmap_def by (rule sys_rules mmap_keeps munmap_keeps)+

section \<open>Traps\<close>

lemma syscalls_keep: "syscalls l n = Some f \<Longrightarrow> keeps kernel_typed f"
  by (simp add: syscalls_def split: if_splits)
    (auto intro: sysproc_keeps syssem_keeps sysfd_keeps sys_link_keeps sys_unlink_keeps sys_open_keeps sys_make_keeps
      sys_chdir_keeps sys_exec_keeps sys_pipe_keeps sys_map_keeps)

lemma syscall_keeps: "keeps kernel_typed (syscall l)"
  unfolding syscall_def by (rule kern_rules syscalls_keep | simp split: if_splits)+

lemma clock_tick_keeps: "keeps kernel_typed clock_tick"
  unfolding clock_tick_def by (rule kern_rules modify_keeps | simp)+

lemma page_fault_keeps: "keeps kernel_typed (page_fault a)"
  unfolding page_fault_def by (rule kern_rules fileseek_keeps fileread_keeps)+

lemma bad_trap_keeps: "keeps kernel_typed (bad_trap f a)"
proof (rule staysI)
  fix s assume s: "kernel_typed s"
  have "keeps kernel_typed (seq (con (k :: (unit, console) kfun)) (upd_cur (\<lambda>r. r\<lparr>killed := True\<rparr>)))" for k
    by (rule kern_rules | simp)+
  from staysD [OF this s] show "good kernel_typed (\<lambda>_. True) (bad_trap f a s)"
    by (simp add: bad_trap_def panic_apply split: option.split)
qed

lemma dispatch_keeps: "keeps kernel_typed (dispatch f a input)"
proof -
  have msg: "keeps kernel_typed (\<lambda>s. con (g s) s)" for g
    by (rule staysI) (rule staysD [OF con_keeps])
  show ?thesis
    unfolding dispatch_def
    by (rule msg kern_rules clock_tick_keeps consoleintr_keeps page_fault_keeps bad_trap_keeps)+
qed

lemma trap_tail_keeps: "keeps kernel_typed (trap_tail f)"
  unfolding trap_tail_def by (rule kern_rules calculateaging_keeps exit_proc_keeps)+

lemma trap_yielded_keeps: "keeps kernel_typed (trap_yielded f)"
  unfolding trap_yielded_def by (rule kern_rules yield_resume_keeps trap_tail_keeps)+

lemma quantum_keeps: "keeps kernel_typed (quantum f)"
proof (rule staysI)
  fix s assume s: "kernel_typed s"
  have "keeps kernel_typed (if b then if c then seq (upd_cur (\<lambda>r. r\<lparr>pticks := 0\<rparr>)) (seq (pt yield) (return Yields))
      else seq (upd_cur (\<lambda>r. r\<lparr>pticks := pticks r + 1\<rparr>)) (trap_tail f) else trap_tail f)" for b c
    by (rule kern_rules yield_keeps trap_tail_keeps | simp)+
  from staysD [OF this s] staysD [OF trap_tail_keeps s] show "good kernel_typed (\<lambda>_. True) (quantum f s)"
    by (simp add: quantum_def Let_def split: option.split)
qed

lemma trap_keeps: "keeps kernel_typed (trap l f a input)"
  unfolding trap_def
  by (rule kern_rules syscall_keeps exit_proc_keeps dispatch_keeps quantum_keeps | simp)+

section \<open>The scheduler\<close>

lemma scheduler_pick_keeps: "keeps ptable_typed scheduler_pick"
proof -
  have run: "p < NPROC \<Longrightarrow> keeps ptable_typed (modify (\<lambda>s. s\<lparr>curproc := Some p\<rparr>))" for p
    by (rule modify_keeps) (simp add: ptable_typed_def)
  show ?thesis
    unfolding scheduler_pick_def
    by (rule stays_bind [OF unqueue_stays] run ptable_rules switchuvm_keeps | simp)+
qed

lemma scheduler_resume_keeps: "keeps ptable_typed scheduler_resume"
  unfolding scheduler_resume_def switchkvm_def lcr3_def
  by (rule ptable_rules | simp add: ptable_typed_def)+

lemma sleep_resume_keeps: "keeps ptable_typed (sleep_resume lk)"
  unfolding sleep_resume_def by (rule ptable_rules | simp)+

section \<open>Type preservation\<close>



end
