(* ===== verification/Pipe.thy ===== *)
theory Pipe
  imports File
begin

text \<open>
  A pipe is a bounded queue of bytes.  The contents of a pipe are the bytes between its two counters; writing
  appends to them and reading takes from the front, across the end of the buffer and the wrap-around of the counters.
\<close>

interpretation pipe_ring: ring PIPESIZE
  by unfold_locales (simp_all add: PIPESIZE_def)

definition pipe_queue :: "pipe \<Rightarrow> uchar list" where
  "pipe_queue x = ring_list PIPESIZE (pdata x) (nread x) (nwrite x)"

definition pipe_ok :: "pipe \<Rightarrow> bool" where
  "pipe_ok x \<longleftrightarrow> unat (nwrite x - nread x) \<le> PIPESIZE"

lemma pipe_queue_length [simp]: "length (pipe_queue x) = unat (nwrite x - nread x)"
  by (simp add: pipe_queue_def)

lemma pipe_full_iff: "nwrite x = nread x + of_nat PIPESIZE \<longleftrightarrow> length (pipe_queue x) = PIPESIZE"
proof -
  have "nwrite x = nread x + of_nat PIPESIZE \<longleftrightarrow> nwrite x - nread x = of_nat PIPESIZE" by (auto simp: algebra_simps)
  also have "\<dots> \<longleftrightarrow> unat (nwrite x - nread x) = unat (of_nat PIPESIZE :: uint)" by (rule word_unat_eq_iff)
  finally show ?thesis by (simp add: PIPESIZE_def)
qed

lemma pipe_empty_iff: "nread x = nwrite x \<longleftrightarrow> pipe_queue x = []"
  by (simp add: pipe_queue_def ring_list_Nil)

section \<open>One byte\<close>

definition pipe_put :: "pipe \<Rightarrow> uchar \<Rightarrow> pipe" where
  "pipe_put x b = x\<lparr>pdata := (pdata x)(unat (nwrite x) mod PIPESIZE := b), nwrite := nwrite x + 1\<rparr>"

lemma pipe_put_queue:
  assumes "pipe_ok x" "length (pipe_queue x) < PIPESIZE"
  shows "pipe_queue (pipe_put x b) = pipe_queue x @ [b]" "pipe_ok (pipe_put x b)"
proof -
  have lt: "unat (nwrite x - nread x) < PIPESIZE" "unat (nwrite x - nread x) < 2 ^ 32 - 1"
    using assms(2) by (simp_all add: PIPESIZE_def)
  then show "pipe_queue (pipe_put x b) = pipe_queue x @ [b]"
    by (simp add: pipe_queue_def pipe_put_def pipe_ring.ring_list_put)
  then have "length (pipe_queue (pipe_put x b)) = Suc (length (pipe_queue x))" by simp
  then show "pipe_ok (pipe_put x b)" using lt(1) by (simp add: pipe_ok_def)
qed

lemma pipe_get_queue:
  assumes "pipe_queue x \<noteq> []"
  shows "pipe_queue x = pdata x (unat (nread x) mod PIPESIZE) # pipe_queue (x\<lparr>nread := nread x + 1\<rparr>)"
  using assms ring_list_get [of "nread x" "nwrite x" PIPESIZE "pdata x"] by (simp add: pipe_queue_def ring_list_Nil)

definition set_pipe :: "uint \<Rightarrow> pipe \<Rightarrow> ksys \<Rightarrow> ksys" where
  "set_pipe p x s = s\<lparr>pipes := (pipes s)(p := x)\<rparr>"

lemma set_pipe_simps [simp]:
  "pipes (set_pipe p x s) = (pipes s)(p := x)" "set_pipe p x (set_pipe p y s) = set_pipe p x s" "set_pipe p (pipes s p) s = s"
  "at_phys (set_pipe p x s) a = at_phys s a" "ubyte (set_pipe p x s) a = ubyte s a" "ksem (set_pipe p x s) = ksem s"
  by (simp_all add: set_pipe_def at_phys_def ubyte_def split: option.split)

lemma upd_pipe_apply: "upd_pipe p f s = Ret () (set_pipe p (f (pipes s p)) s)"
  by (simp add: upd_pipe_def set_pipe_def kfun_simps)

section \<open>Writing\<close>

text \<open>What a writer does when the pipe is full.\<close>

definition writer_waits :: "uint \<Rightarrow> (bool, ksys) kfun" where
  "writer_waits p = cproc (\<lambda>_ r. branch (\<lambda>s. \<not> readopen (pipes s p) \<or> killed r)
     (return False) (seq (pt (wakeup (ChPipeRead p))) (block (ChPipeWrite p))))"

lemma pipewrite_loop_queue:
  assumes "pipe_ok (pipes s p)" "\<And>i. i \<in> set is \<Longrightarrow> at_phys s (addr + of_nat i) \<noteq> None"
  shows "\<exists>x. pipe_ok x \<and> readopen x = readopen (pipes s p) \<and> writeopen x = writeopen (pipes s p) \<and>
    pipe_queue x = pipe_queue (pipes s p) @ take (PIPESIZE - length (pipe_queue (pipes s p))) (map (\<lambda>i. ubyte s (addr + of_nat i)) is) \<and>
    pipewrite_loop p addr is s =
      (if length is \<le> PIPESIZE - length (pipe_queue (pipes s p)) then Ret True (set_pipe p x s) else writer_waits p (set_pipe p x s))"
  using assms
proof (induction "is" arbitrary: s)
  case Nil
  then show ?case by (intro exI [of _ "pipes s p"]) (simp add: kfun_simps)
next
  case (Cons i "is")
  let ?x = "pipes s p"
  show ?case
  proof (cases "length (pipe_queue ?x) = PIPESIZE")
    case True
    then have "pipewrite_loop p addr (i # is) s = writer_waits p s"
      unfolding pipewrite_loop.simps writer_waits_def branch_apply [of _ _ _ s] pipe_full_iff by (simp only: simp_thms if_True)
    then show ?thesis using True Cons.prems(1) by (intro exI [of _ ?x]) simp
  next
    case False
    then have lt: "length (pipe_queue ?x) < PIPESIZE" using Cons.prems(1) by (simp add: pipe_ok_def)
    let ?b = "ubyte s (addr + of_nat i)" and ?s = "set_pipe p (pipe_put ?x (ubyte s (addr + of_nat i))) s"
    note put = pipe_put_queue [OF Cons.prems(1) lt, of ?b]
    have room: "PIPESIZE - length (pipe_queue ?x) = Suc (PIPESIZE - length (pipe_queue (pipe_put ?x ?b)))" using put lt by simp
    have step: "pipewrite_loop p addr (i # is) s = pipewrite_loop p addr is ?s"
      using False Cons.prems(2) [of i] by (auto simp: pipe_full_iff uload_def upd_pipe_apply pipe_put_def kfun_simps)
    obtain x where "pipe_ok x" "readopen x = readopen (pipes ?s p)" "writeopen x = writeopen (pipes ?s p)"
      "pipe_queue x = pipe_queue (pipes ?s p) @ take (PIPESIZE - length (pipe_queue (pipes ?s p))) (map (\<lambda>i. ubyte ?s (addr + of_nat i)) is)"
      "pipewrite_loop p addr is ?s =
        (if length is \<le> PIPESIZE - length (pipe_queue (pipes ?s p)) then Ret True (set_pipe p x ?s) else writer_waits p (set_pipe p x ?s))"
      using Cons.IH [of ?s] Cons.prems(2) put(2) by (auto simp del: pipe_queue_length)
    then show ?thesis
      unfolding step room using put(1) by (intro exI [of _ x]) (simp add: pipe_put_def del: pipe_queue_length)
  qed
qed

section \<open>Reading\<close>

lemma ustore_pipe: "ustore a b (set_pipe p x s) = (case ustore a b s of Ret u t \<Rightarrow> Ret u (set_pipe p x t) | _ \<Rightarrow> Fault)"
  by (simp add: ustore_def set_pipe_def at_phys_def split: option.split)

lemma ustore_cases: obtains t where "ustore a b s = Ret () t" "pipes t = pipes s" | "ustore a b s = Fault"
  by (cases "at_phys s a") (auto simp: ustore_def)

definition pipe_take :: "nat \<Rightarrow> pipe \<Rightarrow> pipe" where
  "pipe_take k x = x\<lparr>nread := nread x + of_nat (min k (length (pipe_queue x)))\<rparr>"

lemma pipe_take_simps:
  "pipe_take 0 x = x" "pipe_queue x = [] \<Longrightarrow> pipe_take k x = x"
  "pipe_queue x \<noteq> [] \<Longrightarrow> pipe_take (Suc k) x = pipe_take k (x\<lparr>nread := nread x + 1\<rparr>)"
proof -
  assume "pipe_queue x \<noteq> []"
  from pipe_get_queue [OF this] have "length (pipe_queue x) = Suc (length (pipe_queue (x\<lparr>nread := nread x + 1\<rparr>)))"
    by (metis length_Cons)
  then show "pipe_take (Suc k) x = pipe_take k (x\<lparr>nread := nread x + 1\<rparr>)"
    unfolding pipe_take_def by (simp only: min_Suc_Suc) (simp del: pipe_queue_length)
qed (simp_all add: pipe_take_def del: pipe_queue_length)

lemma pipe_take_queue:
  "pipe_queue (pipe_take k x) = drop k (pipe_queue x) \<and> (pipe_ok x \<longrightarrow> pipe_ok (pipe_take k x)) \<and>
   readopen (pipe_take k x) = readopen x \<and> writeopen (pipe_take k x) = writeopen x"
proof (induction k arbitrary: x)
  case (Suc k)
  show ?case
  proof (cases "pipe_queue x = []")
    case False
    note get = pipe_get_queue [OF False]
    then have "length (pipe_queue x) = Suc (length (pipe_queue (x\<lparr>nread := nread x + 1\<rparr>)))" by (metis length_Cons)
    then have "pipe_ok x \<longrightarrow> pipe_ok (x\<lparr>nread := nread x + 1\<rparr>)" by (simp add: pipe_ok_def)
    moreover have "drop (Suc k) (pipe_queue x) = drop k (pipe_queue (x\<lparr>nread := nread x + 1\<rparr>))" by (subst get) simp
    ultimately show ?thesis using Suc.IH [of "x\<lparr>nread := nread x + 1\<rparr>"] pipe_take_simps(3) [OF False, of k] by simp
  qed (simp add: pipe_take_simps)
qed (simp add: pipe_take_simps)

lemma piperead_loop_queue:
  "piperead_loop p addr i k s = seq (ustores (addr + of_nat i) (take k (pipe_queue (pipes s p))))
     (return (i + length (take k (pipe_queue (pipes s p))))) (set_pipe p (pipe_take k (pipes s p)) s)"
proof (induction k arbitrary: i s)
  case 0
  then show ?case by (simp add: kfun_simps pipe_take_simps)
next
  case (Suc k)
  let ?x = "pipes s p"
  show ?case
  proof (cases "pipe_queue ?x = []")
    case True
    then have "nread ?x = nwrite ?x" by (simp add: pipe_empty_iff)
    then show ?thesis using True by (simp add: kfun_simps pipe_take_simps)
  next
    case False
    let ?y = "?x\<lparr>nread := nread ?x + 1\<rparr>" and ?b = "pdata ?x (unat (nread ?x) mod PIPESIZE)"
    note get = pipe_get_queue [OF False]
    have step: "piperead_loop p addr i (Suc k) s =
        seq (ustore (addr + of_nat i) ?b) (piperead_loop p addr (Suc i) k) (set_pipe p ?y s)"
      using False by (simp add: pipe_empty_iff upd_pipe_apply kfun_simps)
    have tk: "take (Suc k) (pipe_queue ?x) = ?b # take k (pipe_queue ?y)" by (subst get) simp
    have a: "addr + of_nat (Suc i) = addr + of_nat i + 1" by simp
    show ?thesis
      unfolding step tk ustores.simps pipe_take_simps(3) [OF False] using Suc.IH [of "Suc i"] unfolding a
      by (cases rule: ustore_cases [of "addr + of_nat i" ?b s])
        (simp_all add: seq_apply ustore_pipe return_apply del: pipe_queue_length split: outcome.split)
  qed
qed

section \<open>The queue\<close>

lemma block_bind: "bind (block c) f = block c"
  by (rule ext)
    (simp add: block_def pt_def sem_def ptab_def zoom_def bind_def seq_def sleep_def gets_def panic_def split: outcome.split option.split)

lemma writer_waits_bind:
  assumes "curproc (pst s) = Some cp"
  shows "bind (writer_waits p) f s = (if \<not> readopen (pipes s p) \<or> killed (procs (pst s) cp) then f False s
    else seq (pt (wakeup (ChPipeRead p))) (block (ChPipeWrite p)) s)"
proof -
  have "seq (pt (wakeup (ChPipeRead p))) (block (ChPipeWrite p)) =
      bind (seq (pt (wakeup (ChPipeRead p))) (block (ChPipeWrite p))) f"
    by (simp add: seq_def bind_assoc block_bind)
  then show ?thesis
    using assms unfolding bind_apply [of "writer_waits p"]
    by (auto simp: writer_waits_def cproc_def branch_apply return_apply bind_def [of "seq _ _"])
qed

text \<open>
  C27. A pipe is a bounded first-in first-out queue.  \<^verbatim>\<open>pipewrite\<close> appends the bytes of the buffer, in order and as many as
  fit; when they all fit it wakes the readers and returns their number, when they do not it fails if nobody can read or
  the writer is killed, and otherwise wakes the readers and sleeps.  \<^verbatim>\<open>piperead\<close> on an empty pipe with a writer fails or
  sleeps; otherwise it takes up to \<open>n\<close> bytes from the front, stores them in order, wakes the writers and returns how many
  they were.  The contents of other pipes and the rest of the state are untouched, and the counters may wrap around.
\<close>

theorem pipe_refines_queue:
  assumes "pipe_ok (pipes s p)" "curproc (pst s) = Some cp" "0 \<le> n" "\<forall>i<nat n. at_phys s (addr + of_nat i) \<noteq> None"
  shows "(\<exists>x. pipe_ok x \<and> readopen x = readopen (pipes s p) \<and> writeopen x = writeopen (pipes s p) \<and>
       pipe_queue x = pipe_queue (pipes s p) @
         take (PIPESIZE - length (pipe_queue (pipes s p))) (map (\<lambda>i. ubyte s (addr + of_nat i)) [0..<nat n]) \<and>
       pipewrite p addr n s =
         (if nat n \<le> PIPESIZE - length (pipe_queue (pipes s p)) then seq (pt (wakeup (ChPipeRead p))) (return n) (set_pipe p x s)
          else if \<not> readopen (pipes s p) \<or> killed (procs (pst s) cp) then Ret (- 1) (set_pipe p x s)
          else seq (pt (wakeup (ChPipeRead p))) (block (ChPipeWrite p)) (set_pipe p x s))) \<and>
    (\<exists>x. pipe_ok x \<and> readopen x = readopen (pipes s p) \<and> writeopen x = writeopen (pipes s p) \<and>
       pipe_queue x = drop (nat n) (pipe_queue (pipes s p)) \<and>
       piperead p addr n s =
         (if pipe_queue (pipes s p) = [] \<and> writeopen (pipes s p)
          then if killed (procs (pst s) cp) then Ret (- 1) s else block (ChPipeRead p) s
          else seq (ustores addr (take (nat n) (pipe_queue (pipes s p))))
             (seq (pt (wakeup (ChPipeWrite p))) (return (int (length (take (nat n) (pipe_queue (pipes s p))))))) (set_pipe p x s)))"
proof (intro conjI)
  obtain x where x: "pipe_ok x" "readopen x = readopen (pipes s p)" "writeopen x = writeopen (pipes s p)"
    "pipe_queue x = pipe_queue (pipes s p) @ take (PIPESIZE - length (pipe_queue (pipes s p))) (map (\<lambda>i. ubyte s (addr + of_nat i)) [0..<nat n])"
    "pipewrite_loop p addr [0..<nat n] s = (if nat n \<le> PIPESIZE - length (pipe_queue (pipes s p)) then Ret True (set_pipe p x s)
       else writer_waits p (set_pipe p x s))"
    using pipewrite_loop_queue [OF assms(1), of "[0..<nat n]" addr] assms(4) by (auto simp del: pipe_queue_length)
  have waits: "bind (writer_waits p) f (set_pipe p x s) =
      (if \<not> readopen (pipes s p) \<or> killed (procs (pst s) cp) then f False (set_pipe p x s)
       else seq (pt (wakeup (ChPipeRead p))) (block (ChPipeWrite p)) (set_pipe p x s))" for f :: "bool \<Rightarrow> (int, ksys) kfun"
    using writer_waits_bind [of "set_pipe p x s" cp p f] assms(2) x(2) by simp
  show "\<exists>x. pipe_ok x \<and> readopen x = readopen (pipes s p) \<and> writeopen x = writeopen (pipes s p) \<and>
       pipe_queue x = pipe_queue (pipes s p) @
         take (PIPESIZE - length (pipe_queue (pipes s p))) (map (\<lambda>i. ubyte s (addr + of_nat i)) [0..<nat n]) \<and>
       pipewrite p addr n s =
         (if nat n \<le> PIPESIZE - length (pipe_queue (pipes s p)) then seq (pt (wakeup (ChPipeRead p))) (return n) (set_pipe p x s)
          else if \<not> readopen (pipes s p) \<or> killed (procs (pst s) cp) then Ret (- 1) (set_pipe p x s)
          else seq (pt (wakeup (ChPipeRead p))) (block (ChPipeWrite p)) (set_pipe p x s))"
    using x waits unfolding pipewrite_def
    by (intro exI [of _ x]) (simp add: bind_def [of "pipewrite_loop p addr _"] bind_def [of "writer_waits p"] return_apply del: pipe_queue_length)
  let ?x = "pipe_take (nat n) (pipes s p)"
  have "piperead_loop p addr 0 (nat n) s = seq (ustores addr (take (nat n) (pipe_queue (pipes s p))))
     (return (length (take (nat n) (pipe_queue (pipes s p))))) (set_pipe p ?x s)"
    using piperead_loop_queue [of p addr 0 "nat n" s] by simp
  then show "\<exists>x. pipe_ok x \<and> readopen x = readopen (pipes s p) \<and> writeopen x = writeopen (pipes s p) \<and>
       pipe_queue x = drop (nat n) (pipe_queue (pipes s p)) \<and>
       piperead p addr n s =
         (if pipe_queue (pipes s p) = [] \<and> writeopen (pipes s p)
          then if killed (procs (pst s) cp) then Ret (- 1) s else block (ChPipeRead p) s
          else seq (ustores addr (take (nat n) (pipe_queue (pipes s p))))
             (seq (pt (wakeup (ChPipeWrite p))) (return (int (length (take (nat n) (pipe_queue (pipes s p))))))) (set_pipe p x s))"
    using pipe_take_queue [of "nat n" "pipes s p"] assms(1,2)
    by (intro exI [of _ ?x]) (auto simp: piperead_def pipe_empty_iff cproc_def kfun_simps simp del: pipe_queue_length split: outcome.split)
qed

theorem pipe_refines_queue_witness:
  "\<exists>s x. pipe_queue (pipes s 0x80001000) = [] \<and> pipe_queue x = [ubyte s 0x80000000, ubyte s 0x80000001] \<and>
     pipewrite 0x80001000 0x80000000 2 s =
       seq (pt (wakeup (ChPipeRead 0x80001000))) (return 2) (set_pipe 0x80001000 x s)"
proof -
  define s where "s = kernel_demo\<lparr>pipes := (\<lambda>_. \<lparr>pdata = (\<lambda>_. 0), nread = - 1, nwrite = - 1, readopen = True, writeopen = True\<rparr>)\<rparr>"
  have ok: "pipe_ok (pipes s 0x80001000)" "curproc (pst s) = Some 0" "pipe_queue (pipes s 0x80001000) = []"
    by (simp_all add: s_def pipe_ok_def pipe_queue_def kernel_demo_def sched_demo_def)
  have "at_phys s (0x80000000 + of_nat i) \<noteq> None" if "i < nat 2" for i
  proof -
    have "i = 0 \<or> i = 1" using that by auto
    then show ?thesis by (auto simp: at_phys_def phys_def KERNBASE_def)
  qed
  then show ?thesis
    using pipe_refines_queue [OF ok(1,2), of 2 "0x80000000"] ok(3) by (auto simp: PIPESIZE_def upt_rec numeral_2_eq_2)
qed

end
