(* ===== verification/Access.thy ===== *)
theory Access
  imports Syscall
begin

text \<open>
  What a process can make the kernel read and write through system call arguments.  Integers, pointers with a
  length, and strings are accepted only inside the memory of the process.  Two calls escape this: a negative
  length passes the test, and \<^verbatim>\<open>mmap\<close> writes through a pointer that is not tested at all.
\<close>

definition uword :: "ksys \<Rightarrow> uint \<Rightarrow> uint" where
  "uword s a = of_bytes (ubyte s a) (ubyte s (a + 1)) (ubyte s (a + 2)) (ubyte s (a + 3))"

lemma uload_outcome: "uload a s = Ret (ubyte s a) s \<or> uload a s = Fault"
  by (simp add: uload_def)

lemma uload32_outcome: "uload32 a s = Ret (uword s a) s \<or> uload32 a s = Fault"
  unfolding uload32_def uword_def
  using uload_outcome [of a s] uload_outcome [of "a + 1" s] uload_outcome [of "a + 2" s] uload_outcome [of "a + 3" s]
  by (elim disjE) (simp_all add: kfun_simps)

section \<open>Ranges\<close>

lemma add_bounded:
  assumes "a < n" "n \<le> KERNBASE" "0 \<le> len" "len < 2 ^ 31"
  shows "a + word_of_int len > n \<longleftrightarrow> unat a + nat len > unat n"
proof -
  have a: "unat a < 2 ^ 31" "unat n \<le> 2 ^ 31"
    using assms(1,2) by (auto simp: KERNBASE_def word_less_nat_alt word_le_nat_alt)
  have "unat (word_of_int len :: uint) = nat len"
    using assms(3,4) by (simp add: unat_eq_nat_uint uint_word_of_int)
  then have "unat (a + word_of_int len) = unat a + nat len"
    using a(1) assms(3,4) by (simp add: unat_word_ariths nat_less_iff)
  then show ?thesis by (simp add: word_less_nat_alt)
qed

lemma fetchint_bounds:
  assumes "curproc (pst s) = Some p" "sz (procs (pst s) p) \<le> KERNBASE"
  shows "fetchint a s = (if unat a + 4 \<le> unat (sz (procs (pst s) p))
    then (case uload32 a s of Ret w t \<Rightarrow> Ret (Some w) t | _ \<Rightarrow> Fault) else Ret None s)"
proof -
  let ?n = "sz (procs (pst s) p)"
  have "a \<ge> ?n \<or> a + 4 > ?n \<longleftrightarrow> \<not> unat a + 4 \<le> unat ?n"
  proof (cases "a < ?n")
    case True
    from add_bounded [OF True assms(2), of 4] True show ?thesis by auto
  qed (auto simp: word_le_nat_alt not_less)
  moreover have "uload32 a s = Ret (uword s a) s \<or> uload32 a s = Fault" by (rule uload32_outcome)
  ultimately show ?thesis using assms(1) by (auto simp: fetchint_def cproc_def kfun_simps)
qed

lemma fetchstr_loop_ret:
  assumes "fetchstr_loop k a s = Ret x t"
  shows "t = s \<and> (\<forall>cs. x = Some cs \<longrightarrow> length cs < k \<and> (\<forall>i<length cs. cs ! i = ubyte s (a + of_nat i) \<and> cs ! i \<noteq> 0) \<and>
    ubyte s (a + of_nat (length cs)) = 0) \<and> (x = None \<longrightarrow> (\<forall>i<k. ubyte s (a + of_nat i) \<noteq> 0))"
  using assms
proof (induction k arbitrary: a x)
  case 0
  then show ?case by (simp add: kfun_simps)
next
  case (Suc k)
  show ?case
  proof (cases "uload a s = Fault")
    case False
    then have u: "uload a s = Ret (ubyte s a) s" using uload_outcome by blast
    show ?thesis
    proof (cases "ubyte s a = 0")
      case True
      then show ?thesis using Suc.prems u by (auto simp: kfun_simps)
    next
      case nz: False
      then obtain y where y: "fetchstr_loop k (a + 1) s = Ret y t" "x = map_option (Cons (ubyte s a)) y"
        using Suc.prems u by (auto simp: kfun_simps split: outcome.splits)
      note IH = Suc.IH [OF y(1)]
      have sh: "a + 1 + of_nat i = a + of_nat (Suc i)" for i by simp
      show ?thesis
      proof (cases y)
        case None
        then show ?thesis using IH y(2) nz unfolding sh by (auto simp del: of_nat_Suc simp: less_Suc_eq_0_disj)
      next
        case (Some cs)
        then show ?thesis using IH y(2) nz unfolding sh by (auto simp del: of_nat_Suc simp: less_Suc_eq_0_disj)
      qed
    qed
  qed (use Suc.prems in \<open>simp add: kfun_simps\<close>)
qed

lemma fetchstr_ret:
  assumes "curproc (pst s) = Some p" "fetchstr a s = Ret (Some cs) t"
  shows "t = s \<and> unat a + length cs < unat (sz (procs (pst s) p)) \<and>
    (\<forall>i<length cs. cs ! i = ubyte s (a + of_nat i) \<and> cs ! i \<noteq> 0) \<and> ubyte s (a + of_nat (length cs)) = 0"
proof -
  let ?n = "sz (procs (pst s) p)"
  have lt: "a < ?n" and l: "fetchstr_loop (unat (?n - a)) a s = Ret (Some cs) t"
    using assms by (auto simp: fetchstr_def cproc_def return_apply not_le split: if_splits)
  then have "unat (?n - a) = unat ?n - unat a" by (intro unat_sub) simp
  then show ?thesis using fetchstr_loop_ret [OF l] lt by (auto simp: word_less_nat_alt)
qed

section \<open>Arguments\<close>


text \<open>A process of one page whose words all contain 7.\<close>

definition access_demo :: ksys where
  "access_demo = kernel_demo\<lparr>kmm := kmem_demo\<lparr>kmemory := (\<lambda>a. if a AND 3 = 0 then 7 else 0)\<rparr>,
     ksem := (ksem kernel_demo)\<lparr>spt := sched_demo\<lparr>procs := (procs sched_demo)(0 := zero_proc\<lparr>state := RUNNING, sz := 0x1000\<rparr>)\<rparr>\<rparr>\<rparr>"

lemma access_demo_simps:
  "curproc (pst access_demo) = Some 0" "sz (procs (pst access_demo) 0) = 0x1000" "tf_esp (tf (procs (pst access_demo) 0)) = 0"
  by (simp_all add: access_demo_def kernel_demo_def sched_demo_def zero_proc_def zero_tf_def)

lemma access_demo_mem:
  "ubyte access_demo 4 = 7" "ubyte access_demo 5 = 0" "ubyte access_demo 6 = 0" "ubyte access_demo 7 = 0"
  "at_phys access_demo 4 \<noteq> None" "at_phys access_demo 5 \<noteq> None" "at_phys access_demo 6 \<noteq> None" "at_phys access_demo 7 \<noteq> None"
  by (simp_all add: access_demo_def sched_demo_def sched_boot_def ubyte_def at_phys_def phys_def KERNBASE_def pte_at_def pde_at_def tab_at_def present_def PTE_P_def
      PTE_ADDR_def PDX_def PTX_def p2v_def load32_def of_bytes_def)

lemma access_demo_int: "argint 0 access_demo = Ret (Some 7) access_demo"
  using access_demo_mem
  by (simp add: argint_def fetchint_def cproc_def access_demo_simps uload32_def uload_def kfun_simps of_bytes_def)




section \<open>Mapping a file\<close>

lemma ustore_kernel:
  "a \<ge> KERNBASE \<Longrightarrow> ustore a b s = Ret () (s\<lparr>kmm := (kmm s)\<lparr>kmemory := (kmemory (kmm s))(a := b)\<rparr>\<rparr>)"
  by (simp add: ustore_def at_phys_def phys_def mark_dirty_def)

lemma ustore32_kernel:
  assumes "a \<ge> KERNBASE" "a \<le> - 4"
  shows "ustore32 a w s = Ret () (s\<lparr>kmm := (kmm s)\<lparr>kmemory := store32 (kmemory (kmm s)) a w\<rparr>\<rparr>)"
proof -
  have "KERNBASE \<le> a + 1" "KERNBASE \<le> a + 2" "KERNBASE \<le> a + 3"
    using assms by (simp_all add: KERNBASE_def word_le_nat_alt unat_word_ariths)
  then show ?thesis
    using assms(1) by (simp add: ustore32_def store32_def ustore_kernel kfun_simps add.assoc)
qed



end
