(* ===== verification/Shell.thy ===== *)
theory Shell
  imports Prelude
begin

text \<open>
  The command parser of \<^verbatim>\<open>user/sh.c\<close>.  The input line is the list of the bytes before the terminating zero; a pointer into it is an index.  The
  state of the parser is the position \<^verbatim>\<open>*ps\<close>, and \<^verbatim>\<open>panic\<close>, which ends the process, is the outcome \<open>Panic\<close>.  A command
  has pointers to the start and the end of its words, as the structures of the code have; \<^verbatim>\<open>nulterminate\<close> puts the
  zeroes behind them that make them strings.
\<close>

section \<open>Commands\<close>

datatype 'w cmd =
    EXEC "'w list"
  | REDIR "'w cmd" 'w uint nat
  | PIPE "'w cmd" "'w cmd"
  | LIST "'w cmd" "'w cmd"
  | BACK "'w cmd"

type_synonym span = "nat \<times> nat"

definition MAXARGS :: nat where "MAXARGS = 10"

section \<open>Tokens\<close>

text \<open>The bytes of the line, with the zero behind it.\<close>

definition byte :: "uchar list \<Rightarrow> nat \<Rightarrow> uchar" where
  "byte cs i = (if i < length cs then cs ! i else 0)"

definition whitespace :: "uchar list" where "whitespace = [32, 9, 13, 10, 11]"
definition symbols :: "uchar list" where "symbols = [60, 124, 62, 38, 59, 40, 41]"

definition is_ws :: "uchar \<Rightarrow> bool" where "is_ws c \<longleftrightarrow> c \<in> set whitespace"
definition is_word :: "uchar \<Rightarrow> bool" where "is_word c \<longleftrightarrow> c \<notin> set whitespace \<and> c \<notin> set symbols"

text \<open>A loop that advances while it is before the end; \<open>k\<close> is the distance to the end.\<close>

fun scan_while :: "nat \<Rightarrow> (uchar \<Rightarrow> bool) \<Rightarrow> uchar list \<Rightarrow> nat \<Rightarrow> nat" where
  "scan_while 0 P cs s = s"
| "scan_while (Suc k) P cs s = (if P (byte cs s) then scan_while k P cs (Suc s) else s)"

definition skip_ws :: "uchar list \<Rightarrow> nat \<Rightarrow> nat" where
  "skip_ws cs s = scan_while (length cs - s) is_ws cs s"

definition gettoken :: "uchar list \<Rightarrow> (uchar \<times> span, nat) kfun" where
  "gettoken cs = (\<lambda>s.
     let q = skip_ws cs s; c = byte cs q;
         (ret, eq) =
           (if c = 0 then (0, q)
            else if c \<in> {124, 40, 41, 59, 38, 60} then (c, q + 1)
            else if c = 62 then (if byte cs (q + 1) = 62 then (43, q + 2) else (c, q + 1))
            else (97, scan_while (length cs - q) is_word cs q))
     in Ret (ret, (q, eq)) (skip_ws cs eq))"

definition peek :: "uchar list \<Rightarrow> uchar list \<Rightarrow> (bool, nat) kfun" where
  "peek cs toks = (\<lambda>s. let s = skip_ws cs s in Ret (byte cs s \<noteq> 0 \<and> byte cs s \<in> set toks) s)"

section \<open>Parsing\<close>

text \<open>
  Flags of \<^verbatim>\<open>open\<close>: \<^verbatim>\<open>O_RDONLY\<close> is 0, \<^verbatim>\<open>O_WRONLY|O_CREATE\<close> is \<open>0x201\<close>.
\<close>

definition redir_of :: "uchar \<Rightarrow> span cmd \<Rightarrow> span \<Rightarrow> span cmd" where
  "redir_of tok cmd w =
     (if tok = 60 then REDIR cmd w 0 0
      else if tok = 62 then REDIR cmd w 0x201 1
      else if tok = 43 then REDIR cmd w 0x201 1
      else cmd)"

fun parseredirs :: "nat \<Rightarrow> uchar list \<Rightarrow> span cmd \<Rightarrow> (span cmd, nat) kfun" where
  "parseredirs 0 cs cmd = (\<lambda>s. Spin)"
| "parseredirs (Suc k) cs cmd =
     bind (peek cs [60, 62]) (\<lambda>b.
     if b
     then
       bind (gettoken cs) (\<lambda>(tok, _).
       bind (gettoken cs) (\<lambda>(tok2, w).
       if tok2 \<noteq> 97 then panic ''missing file for redirection''
       else parseredirs k cs (redir_of tok cmd w)))
     else return cmd)"

text \<open>
  In \<^verbatim>\<open>parseexec\<close> the variable \<^verbatim>\<open>cmd\<close> points to the command inside the redirections of \<^verbatim>\<open>ret\<close>; storing an argument there
  changes \<^verbatim>\<open>ret\<close>.
\<close>

fun add_arg :: "'w \<Rightarrow> 'w cmd \<Rightarrow> 'w cmd" where
  "add_arg w (EXEC ws) = EXEC (ws @ [w])"
| "add_arg w (REDIR c f m d) = REDIR (add_arg w c) f m d"
| "add_arg w c = c"

fun parseargs :: "nat \<Rightarrow> uchar list \<Rightarrow> span cmd \<Rightarrow> nat \<Rightarrow> (span cmd, nat) kfun" where
  "parseargs 0 cs ret argc = (\<lambda>s. Spin)"
| "parseargs (Suc k) cs ret argc =
     bind (peek cs [124, 41, 38, 59]) (\<lambda>b.
     if b then return ret
     else
       bind (gettoken cs) (\<lambda>(tok, w).
       if tok = 0 then return ret
       else if tok \<noteq> 97 then panic ''syntax''
       else if argc + 1 \<ge> MAXARGS then panic ''too many args''
       else bind (parseredirs k cs (add_arg w ret)) (\<lambda>ret. parseargs k cs ret (argc + 1))))"

fun parseback :: "nat \<Rightarrow> uchar list \<Rightarrow> span cmd \<Rightarrow> (span cmd, nat) kfun" where
  "parseback 0 cs cmd = (\<lambda>s. Spin)"
| "parseback (Suc k) cs cmd =
     bind (peek cs [38]) (\<lambda>b. if b then seq (gettoken cs) (parseback k cs (BACK cmd)) else return cmd)"

fun parseline :: "nat \<Rightarrow> uchar list \<Rightarrow> (span cmd, nat) kfun"
  and parsepipe :: "nat \<Rightarrow> uchar list \<Rightarrow> (span cmd, nat) kfun"
  and parseexec :: "nat \<Rightarrow> uchar list \<Rightarrow> (span cmd, nat) kfun"
  and parseblock :: "nat \<Rightarrow> uchar list \<Rightarrow> (span cmd, nat) kfun" where
  "parseline 0 cs = (\<lambda>s. Spin)"
| "parseline (Suc k) cs =
     bind (parsepipe k cs) (\<lambda>cmd.
     bind (parseback k cs cmd) (\<lambda>cmd.
     bind (peek cs [59]) (\<lambda>b.
     if b then seq (gettoken cs) (bind (parseline k cs) (\<lambda>right. return (LIST cmd right)))
     else return cmd)))"
| "parsepipe 0 cs = (\<lambda>s. Spin)"
| "parsepipe (Suc k) cs =
     bind (parseexec k cs) (\<lambda>cmd.
     bind (peek cs [124]) (\<lambda>b.
     if b then seq (gettoken cs) (bind (parsepipe k cs) (\<lambda>right. return (PIPE cmd right)))
     else return cmd))"
| "parseexec 0 cs = (\<lambda>s. Spin)"
| "parseexec (Suc k) cs =
     bind (peek cs [40]) (\<lambda>b.
     if b then parseblock k cs
     else bind (parseredirs k cs (EXEC [])) (\<lambda>ret. parseargs k cs ret 0))"
| "parseblock 0 cs = (\<lambda>s. Spin)"
| "parseblock (Suc k) cs =
     bind (peek cs [40]) (\<lambda>b.
     if \<not> b then panic ''parseblock''
     else
       seq (gettoken cs)
      (bind (parseline k cs) (\<lambda>cmd.
       bind (peek cs [41]) (\<lambda>b.
       if \<not> b then panic ''syntax - missing )''
       else seq (gettoken cs) (parseredirs k cs cmd)))))"

declare parseline.simps [simp del] parsepipe.simps [simp del] parseexec.simps [simp del] parseblock.simps [simp del]
  parseredirs.simps [simp del] parseargs.simps [simp del] parseback.simps [simp del]

text \<open>\<^verbatim>\<open>nulterminate\<close> changes the line, in which a zero may then come early.\<close>

fun nulterminate :: "span cmd \<Rightarrow> (nat \<Rightarrow> uchar) \<Rightarrow> (nat \<Rightarrow> uchar)" where
  "nulterminate (EXEC ws) m = foldl (\<lambda>m w. m(snd w := 0)) m ws"
| "nulterminate (REDIR c w md fd) m = (nulterminate c m)(snd w := 0)"
| "nulterminate (PIPE l r) m = nulterminate r (nulterminate l m)"
| "nulterminate (LIST l r) m = nulterminate r (nulterminate l m)"
| "nulterminate (BACK c) m = nulterminate c m"

text \<open>The result is the command and the line it points into.\<close>

definition parsecmd :: "uchar list \<Rightarrow> (span cmd \<times> (nat \<Rightarrow> uchar), nat) outcome" where
  "parsecmd cs =
     bind (parseline (4 * length cs + 4) cs) (\<lambda>cmd.
     bind (peek cs []) (\<lambda>_ s.
     if s \<noteq> length cs then panic ''syntax'' s
     else return (cmd, nulterminate cmd (byte cs)) s)) 0"

section \<open>Positions\<close>

lemma scan_while_bounds:
  "s \<le> scan_while k P cs s" "scan_while k P cs s \<le> s + k"
  "\<And>i. s \<le> i \<Longrightarrow> i < scan_while k P cs s \<Longrightarrow> P (byte cs i)"
  "scan_while k P cs s < s + k \<Longrightarrow> \<not> P (byte cs (scan_while k P cs s))"
proof (induction k arbitrary: s)
  case (Suc k)
  { case 1 show ?case using Suc(1) [of "Suc s"] by auto }
  { case 2 show ?case using Suc(2) [of "Suc s"] by auto }
  { case (3 i) then show ?case using Suc(3) [of "Suc s" i] by (cases "i = s") (auto split: if_splits) }
  { case 4 then show ?case using Suc(4) [of "Suc s"] by (auto split: if_splits) }
qed simp_all

lemma skip_ws_bounds:
  assumes "s \<le> length cs"
  shows "s \<le> skip_ws cs s" "skip_ws cs s \<le> length cs" "skip_ws cs s < length cs \<Longrightarrow> \<not> is_ws (cs ! skip_ws cs s)"
  using assms scan_while_bounds [where s = s and k = "length cs - s" and P = is_ws and cs = cs] by (auto simp: skip_ws_def byte_def)

text \<open>The words of a command lie in the line, are not empty, and end where a word must end.\<close>

definition span_ok :: "uchar list \<Rightarrow> span \<Rightarrow> bool" where
  "span_ok cs w \<longleftrightarrow> (case w of (q, eq) \<Rightarrow> q < eq \<and> eq \<le> length cs \<and> (\<forall>i. q \<le> i \<and> i < eq \<longrightarrow> is_word (cs ! i)) \<and>
     (eq < length cs \<longrightarrow> \<not> is_word (cs ! eq)))"

lemma is_word_cases: "is_word c \<longleftrightarrow> \<not> is_ws c \<and> c \<notin> {124, 40, 41, 59, 38, 60, 62}"
  by (auto simp: is_word_def is_ws_def symbols_def)

lemma byte_zero: "0 \<notin> set cs \<Longrightarrow> i \<le> length cs \<Longrightarrow> byte cs i = 0 \<longleftrightarrow> i = length cs"
  by (auto simp: byte_def) (metis nth_mem)

lemma gettoken_ret:
  assumes "0 \<notin> set cs" "s \<le> length cs"
  shows "\<exists>ret w t. gettoken cs s = Ret (ret, w) t \<and> s \<le> t \<and> t \<le> length cs \<and> (ret \<noteq> 0 \<longrightarrow> s < t) \<and> (ret = 97 \<longrightarrow> span_ok cs w) \<and>
    (ret = 0 \<longleftrightarrow> skip_ws cs s = length cs)"
proof -
  define q where "q = skip_ws cs s"
  note q = skip_ws_bounds [OF assms(2), folded q_def]
  define r where "r = (if byte cs q = 0 then (0, q)
     else if byte cs q \<in> {124, 40, 41, 59, 38, 60} then (byte cs q, q + 1)
     else if byte cs q = 62 then (if byte cs (q + 1) = 62 then (43, q + 2) else (byte cs q, q + 1))
     else (97, scan_while (length cs - q) is_word cs q))"
  have g: "gettoken cs s = Ret (fst r, (q, snd r)) (skip_ws cs (snd r))"
    unfolding gettoken_def Let_def q_def [symmetric] r_def [symmetric] by (cases r) simp
  have z: "byte cs q = 0 \<longleftrightarrow> q = length cs" by (rule byte_zero [OF assms(1) q(2)])
  have "q \<le> snd r \<and> snd r \<le> length cs \<and> (fst r \<noteq> 0 \<longrightarrow> q < snd r) \<and> (fst r = 97 \<longrightarrow> span_ok cs (q, snd r)) \<and> (fst r = 0 \<longleftrightarrow> q = length cs)"
  proof (cases "byte cs q = 0")
    case True
    then show ?thesis using z by (simp add: r_def)
  next
    case nz: False
    then have ql: "q < length cs" using z q(2) by simp
    show ?thesis
    proof (cases "byte cs q \<in> {124, 40, 41, 59, 38, 60, 62}")
      case True
      have "byte cs (q + 1) = 62 \<Longrightarrow> q + 2 \<le> length cs" by (auto simp: byte_def split: if_splits)
      then show ?thesis using True ql nz by (auto simp: r_def)
    next
      case False
      note sw = scan_while_bounds [where s = q and k = "length cs - q" and P = is_word and cs = cs]
      have w: "is_word (byte cs q)" using False q(3) ql by (simp add: is_word_cases byte_def)
      have r: "r = (97, scan_while (length cs - q) is_word cs q)" using False nz by (auto simp: r_def)
      obtain k where k: "length cs - q = Suc k" using ql by (cases "length cs - q") auto
      have "q < snd r" using scan_while_bounds(1) [of "Suc q" k is_word cs] w by (simp add: r k)
      then show ?thesis using sw ql by (auto simp: r span_ok_def byte_def)
    qed
  qed
  then show ?thesis using g q skip_ws_bounds [of "snd r" cs] q_def
    by (intro exI [of _ "fst r"] exI [of _ "(q, snd r)"] exI [of _ "skip_ws cs (snd r)"]) auto
qed

lemma peek_ret:
  assumes "0 \<notin> set cs" "s \<le> length cs"
  shows "\<exists>b t. peek cs toks s = Ret b t \<and> t = skip_ws cs s \<and> s \<le> t \<and> t \<le> length cs \<and> (b \<longrightarrow> t < length cs)"
  using skip_ws_bounds [OF assms(2)] byte_zero [OF assms(1)] by (auto simp: peek_def Let_def byte_def)

section \<open>The parser ends\<close>

text \<open>The parser returns a position not before the one it started from, or gives up with an error; it never runs on forever.\<close>

definition ends :: "uchar list \<Rightarrow> nat \<Rightarrow> ('a \<Rightarrow> bool) \<Rightarrow> ('a, nat) outcome \<Rightarrow> bool" where
  "ends cs s Q r \<longleftrightarrow> (case r of Ret x t \<Rightarrow> s \<le> t \<and> t \<le> length cs \<and> Q x | Panic m \<Rightarrow> True | _ \<Rightarrow> False)"

lemma ends_bind:
  assumes "ends cs s Q (m s)" "\<And>x t. Q x \<Longrightarrow> s \<le> t \<Longrightarrow> t \<le> length cs \<Longrightarrow> ends cs t R (f x t)"
  shows "ends cs s R (bind m f s)"
proof (cases "m s")
  case (Ret x t)
  then have "Q x" "s \<le> t" "t \<le> length cs" using assms(1) by (simp_all add: ends_def)
  then show ?thesis using assms(2) [of x t] Ret by (auto simp: ends_def kfun_simps split: outcome.splits)
qed (use assms(1) in \<open>simp_all add: ends_def kfun_simps\<close>)

lemma ends_mono: "ends cs t Q r \<Longrightarrow> s \<le> t \<Longrightarrow> ends cs s Q r"
  by (auto simp: ends_def split: outcome.splits)

lemma ends_return: "s \<le> length cs \<Longrightarrow> Q x \<Longrightarrow> ends cs s Q (return x s)"
  by (simp add: ends_def kfun_simps)

lemma ends_panic: "ends cs s Q (panic m s)"
  by (simp add: ends_def kfun_simps)

lemma ends_peek:
  assumes "0 \<notin> set cs" "s \<le> length cs"
    "\<And>t. s \<le> t \<Longrightarrow> t < length cs \<Longrightarrow> ends cs t R (f True t)" "\<And>t. s \<le> t \<Longrightarrow> t \<le> length cs \<Longrightarrow> ends cs t R (f False t)"
  shows "ends cs s R (bind (peek cs toks) f s)"
proof -
  obtain b t where p: "peek cs toks s = Ret b t" "s \<le> t" "t \<le> length cs" "b \<longrightarrow> t < length cs" using peek_ret [OF assms(1,2), of toks] by blast
  then have "ends cs t R (f b t)" using assms(3,4) by (cases b) auto
  then show ?thesis using p(1,2) ends_mono by (auto simp: kfun_simps)
qed

lemma skip_ws_again: "s \<le> length cs \<Longrightarrow> skip_ws cs (skip_ws cs s) = skip_ws cs s"
proof -
  assume s: "s \<le> length cs"
  note b = skip_ws_bounds [OF s]
  show ?thesis
  proof (cases "skip_ws cs s = length cs")
    case True
    then show ?thesis by (simp add: skip_ws_def [of cs "length cs"])
  next
    case False
    then obtain k where "length cs - skip_ws cs s = Suc k" using b(2) by (cases "length cs - skip_ws cs s") auto
    then show ?thesis using b False unfolding skip_ws_def [of cs "skip_ws cs s"] by (simp add: byte_def)
  qed
qed

text \<open>A token after a successful \<^verbatim>\<open>peek\<close> takes at least one byte.\<close>

lemma ends_gettoken:
  assumes "0 \<notin> set cs" "s \<le> length cs"
    "\<And>ret w t. s \<le> t \<Longrightarrow> t \<le> length cs \<Longrightarrow> ret \<noteq> 0 \<longrightarrow> s < t \<Longrightarrow> ret = 97 \<longrightarrow> span_ok cs w \<Longrightarrow>
       ret = 0 \<longleftrightarrow> skip_ws cs s = length cs \<Longrightarrow> ends cs t R (f (ret, w) t)"
  shows "ends cs s R (bind (gettoken cs) f s)"
proof -
  obtain ret w t where p: "gettoken cs s = Ret (ret, w) t" "s \<le> t" "t \<le> length cs" "ret \<noteq> 0 \<longrightarrow> s < t" "ret = 97 \<longrightarrow> span_ok cs w"
    "ret = 0 \<longleftrightarrow> skip_ws cs s = length cs"
    using gettoken_ret [OF assms(1,2)] by blast
  have "ends cs s R (f (ret, w) t)" by (rule ends_mono [OF assms(3) [OF p(2-6)] p(2)])
  then show ?thesis using p(1) by (simp add: kfun_simps)
qed

text \<open>After a successful \<^verbatim>\<open>peek\<close>.\<close>

lemma ends_peek_token:
  assumes "0 \<notin> set cs" "s \<le> length cs"
    "\<And>ret w t. s < t \<Longrightarrow> t \<le> length cs \<Longrightarrow> ends cs t R (f (ret, w) t)" "\<And>t. s \<le> t \<Longrightarrow> t \<le> length cs \<Longrightarrow> ends cs t R (g t)"
  shows "ends cs s R (bind (peek cs toks) (\<lambda>b. if b then bind (gettoken cs) f else g) s)"
proof -
  obtain b t where p: "peek cs toks s = Ret b t" "t = skip_ws cs s" "s \<le> t" "t \<le> length cs" "b \<longrightarrow> t < length cs"
    using peek_ret [OF assms(1,2), of toks] by blast
  have "ends cs t R ((if b then bind (gettoken cs) f else g) t)"
  proof (cases b)
    case True
    have "ends cs t R (bind (gettoken cs) f t)"
    proof (rule ends_gettoken [OF assms(1) p(4)])
      fix ret :: uchar and w u assume u: "t \<le> u" "u \<le> length cs" "ret \<noteq> 0 \<longrightarrow> t < u" "ret = 0 \<longleftrightarrow> skip_ws cs t = length cs"
      have "skip_ws cs t \<noteq> length cs" using p(2,5) True skip_ws_again [OF assms(2)] by simp
      then show "ends cs u R (f (ret, w) u)" using assms(3) [of u ret w] u p(3) by auto
    qed
    then show ?thesis using True by simp
  next
    case False
    then show ?thesis using assms(4) [OF p(3,4)] by simp
  qed
  then show ?thesis using p(1,3) ends_mono by (auto simp: kfun_simps)
qed

definition words_ok :: "uchar list \<Rightarrow> span cmd \<Rightarrow> bool" where
  "words_ok cs c \<longleftrightarrow> (\<forall>w\<in>set_cmd c. span_ok cs w)"

lemma words_ok_simps [simp]:
  "words_ok cs (EXEC ws) \<longleftrightarrow> (\<forall>w\<in>set ws. span_ok cs w)"
  "words_ok cs (REDIR c w m fd) \<longleftrightarrow> words_ok cs c \<and> span_ok cs w"
  "words_ok cs (PIPE c d) \<longleftrightarrow> words_ok cs c \<and> words_ok cs d"
  "words_ok cs (LIST c d) \<longleftrightarrow> words_ok cs c \<and> words_ok cs d"
  "words_ok cs (BACK c) \<longleftrightarrow> words_ok cs c"
  by (auto simp: words_ok_def)

lemma words_ok_add_arg: "words_ok cs c \<Longrightarrow> span_ok cs w \<Longrightarrow> words_ok cs (add_arg w c)"
  by (induction c) auto

lemma ends_token_seq:
  assumes "0 \<notin> set cs" "s \<le> length cs" "\<And>t. s < t \<Longrightarrow> t \<le> length cs \<Longrightarrow> ends cs t R (f t)" "\<And>t. s \<le> t \<Longrightarrow> t \<le> length cs \<Longrightarrow> ends cs t R (g t)"
  shows "ends cs s R (bind (peek cs toks) (\<lambda>b. if b then seq (gettoken cs) f else g) s)"
  unfolding seq_def using assms by (rule ends_peek_token)

lemma parseredirs_ends:
  assumes "0 \<notin> set cs" "s \<le> length cs" "length cs - s < k" "words_ok cs cmd"
  shows "ends cs s (words_ok cs) (parseredirs k cs cmd s)"
  using assms(2-)
proof (induction k arbitrary: s cmd)
  case (Suc k)
  show ?case unfolding parseredirs.simps
  proof (rule ends_peek_token [OF assms(1) Suc.prems(1)])
    fix ret :: uchar and w :: span and t assume t: "s < t" "t \<le> length cs"
    show "ends cs t (words_ok cs) ((case (ret, w) of (tok, _) \<Rightarrow> bind (gettoken cs) (\<lambda>(tok2, w).
        if tok2 \<noteq> 97 then panic ''missing file for redirection'' else parseredirs k cs (redir_of tok cmd w))) t)"
    proof (simp only: prod.case, rule ends_gettoken [OF assms(1) t(2)])
      fix tok2 :: uchar and w2 u assume u: "t \<le> u" "u \<le> length cs" "tok2 = 97 \<longrightarrow> span_ok cs w2"
      have "words_ok cs (redir_of ret cmd w2)" if "tok2 = 97" using Suc.prems(3) u(3) that by (simp add: redir_of_def)
      then have "ends cs u (words_ok cs) (parseredirs k cs (redir_of ret cmd w2) u)" if "tok2 = 97"
        using Suc.prems u(1,2) t that by (intro Suc.IH) auto
      then show "ends cs u (words_ok cs) ((case (tok2, w2) of (tok2, w) \<Rightarrow>
          if tok2 \<noteq> 97 then panic ''missing file for redirection'' else parseredirs k cs (redir_of ret cmd w)) u)"
        by (simp add: ends_panic)
    qed
  qed (use Suc.prems in \<open>simp add: ends_return\<close>)
qed simp

lemma parseargs_ends:
  assumes "0 \<notin> set cs" "s \<le> length cs" "length cs - s < k" "words_ok cs ret"
  shows "ends cs s (words_ok cs) (parseargs k cs ret n s)"
  using assms(2-)
proof (induction k arbitrary: s ret n)
  case (Suc k)
  show ?case unfolding parseargs.simps
  proof (rule ends_peek [OF assms(1) Suc.prems(1)])
    fix t assume t: "s \<le> t" "t \<le> length cs"
    show "ends cs t (words_ok cs) ((if False then return ret else bind (gettoken cs) (\<lambda>(tok, w).
       if tok = 0 then return ret
       else if tok \<noteq> 97 then panic ''syntax''
       else if n + 1 \<ge> MAXARGS then panic ''too many args''
       else bind (parseredirs k cs (add_arg w ret)) (\<lambda>ret. parseargs k cs ret (n + 1)))) t)"
    proof (simp only: if_False, rule ends_gettoken [OF assms(1) t(2)])
      fix tok :: uchar and w u assume u: "t \<le> u" "u \<le> length cs" "tok \<noteq> 0 \<longrightarrow> t < u" "tok = 97 \<longrightarrow> span_ok cs w"
      have "ends cs u (words_ok cs) (bind (parseredirs k cs (add_arg w ret)) (\<lambda>ret. parseargs k cs ret (n + 1)) u)" if "tok = 97"
      proof (rule ends_bind)
        show "ends cs u (words_ok cs) (parseredirs k cs (add_arg w ret) u)"
          using Suc.prems t u that by (intro parseredirs_ends assms(1) words_ok_add_arg) auto
        fix c v assume "words_ok cs c" "u \<le> v" "v \<le> length cs"
        then show "ends cs v (words_ok cs) (parseargs k cs c (n + 1) v)" using Suc.prems t u that by (intro Suc.IH) auto
      qed
      then show "ends cs u (words_ok cs) ((case (tok, w) of (tok, w) \<Rightarrow> if tok = 0 then return ret
         else if tok \<noteq> 97 then panic ''syntax''
         else if n + 1 \<ge> MAXARGS then panic ''too many args''
         else bind (parseredirs k cs (add_arg w ret)) (\<lambda>ret. parseargs k cs ret (n + 1))) u)"
        using Suc.prems(3) u(2) by (simp add: ends_panic ends_return)
    qed
  qed (use Suc.prems in \<open>simp add: ends_return\<close>)
qed simp

lemma parseback_ends:
  assumes "0 \<notin> set cs" "s \<le> length cs" "length cs - s < k" "words_ok cs cmd"
  shows "ends cs s (words_ok cs) (parseback k cs cmd s)"
  using assms(2-)
proof (induction k arbitrary: s cmd)
  case (Suc k)
  show ?case unfolding parseback.simps
  proof (rule ends_token_seq [OF assms(1) Suc.prems(1)])
    fix t assume t: "s < t" "t \<le> length cs"
    show "ends cs t (words_ok cs) (parseback k cs (BACK cmd) t)" using Suc.prems t by (intro Suc.IH) auto
  qed (use Suc.prems in \<open>simp add: ends_return\<close>)
qed simp

text \<open>
  Fuel: every opening parenthesis costs four calls and one byte, every separator one call and one byte.
\<close>

lemma parse_ends:
  assumes "0 \<notin> set cs"
  shows "(\<forall>s\<le>length cs. 4 * (length cs - s) + 4 \<le> k \<longrightarrow> ends cs s (words_ok cs) (parseline k cs s)) \<and>
    (\<forall>s\<le>length cs. 4 * (length cs - s) + 3 \<le> k \<longrightarrow> ends cs s (words_ok cs) (parsepipe k cs s)) \<and>
    (\<forall>s\<le>length cs. 4 * (length cs - s) + 2 \<le> k \<longrightarrow> ends cs s (words_ok cs) (parseexec k cs s)) \<and>
    (\<forall>s\<le>length cs. 4 * (length cs - s) + 1 \<le> k \<longrightarrow> ends cs s (words_ok cs) (parseblock k cs s))"
proof (induction k)
  case 0
  then show ?case by simp
next
  case (Suc k)
  have line: "ends cs s (words_ok cs) (parseline k cs s)" if "s \<le> length cs" "4 * (length cs - s) + 4 \<le> k" for s using Suc.IH that by blast
  have pipe: "ends cs s (words_ok cs) (parsepipe k cs s)" if "s \<le> length cs" "4 * (length cs - s) + 3 \<le> k" for s using Suc.IH that by blast
  have exec: "ends cs s (words_ok cs) (parseexec k cs s)" if "s \<le> length cs" "4 * (length cs - s) + 2 \<le> k" for s using Suc.IH that by blast
  have block: "ends cs s (words_ok cs) (parseblock k cs s)" if "s \<le> length cs" "4 * (length cs - s) + 1 \<le> k" for s using Suc.IH that by blast
  have l: "ends cs s (words_ok cs) (parseline (Suc k) cs s)" if s: "s \<le> length cs" "4 * (length cs - s) + 4 \<le> Suc k" for s
    unfolding parseline.simps
  proof (rule ends_bind [where Q = "words_ok cs"])
    show "ends cs s (words_ok cs) (parsepipe k cs s)" using s by (intro pipe) linarith+
    fix c t assume t: "words_ok cs c" "s \<le> t" "t \<le> length cs"
    show "ends cs t (words_ok cs) (bind (parseback k cs c) (\<lambda>cmd. bind (peek cs [59]) (\<lambda>b.
        if b then seq (gettoken cs) (bind (parseline k cs) (\<lambda>right. return (LIST cmd right))) else return cmd)) t)"
    proof (rule ends_bind [where Q = "words_ok cs"])
      show "ends cs t (words_ok cs) (parseback k cs c t)" using s t by (intro parseback_ends assms) linarith+
      fix d u assume u: "words_ok cs d" "t \<le> u" "u \<le> length cs"
      show "ends cs u (words_ok cs) (bind (peek cs [59]) (\<lambda>b.
        if b then seq (gettoken cs) (bind (parseline k cs) (\<lambda>right. return (LIST d right))) else return d) u)"
      proof (rule ends_token_seq [OF assms u(3)])
        fix v assume v: "u < v" "v \<le> length cs"
        then have "ends cs v (words_ok cs) (parseline k cs v)" using s(1,2) t(2,3) u(2,3) by (intro line) linarith+
        then show "ends cs v (words_ok cs) (bind (parseline k cs) (\<lambda>right. return (LIST d right)) v)"
          by (rule ends_bind) (simp add: ends_return u(1))
      qed (simp add: ends_return u(1))
    qed
  qed
  have p: "ends cs s (words_ok cs) (parsepipe (Suc k) cs s)" if s: "s \<le> length cs" "4 * (length cs - s) + 3 \<le> Suc k" for s
    unfolding parsepipe.simps
  proof (rule ends_bind [where Q = "words_ok cs"])
    show "ends cs s (words_ok cs) (parseexec k cs s)" using s by (intro exec) linarith+
    fix c t assume t: "words_ok cs c" "s \<le> t" "t \<le> length cs"
    show "ends cs t (words_ok cs) (bind (peek cs [124]) (\<lambda>b.
       if b then seq (gettoken cs) (bind (parsepipe k cs) (\<lambda>right. return (PIPE c right))) else return c) t)"
      using s t by (intro ends_token_seq assms ends_bind [where Q = "words_ok cs"] pipe ends_return) auto
  qed
  have e: "ends cs s (words_ok cs) (parseexec (Suc k) cs s)" if s: "s \<le> length cs" "4 * (length cs - s) + 2 \<le> Suc k" for s
    unfolding parseexec.simps
  proof (rule ends_peek [OF assms s(1)])
    fix t assume t: "s \<le> t" "t \<le> length cs"
    have "ends cs t (words_ok cs) (bind (parseredirs k cs (EXEC [])) (\<lambda>ret. parseargs k cs ret 0) t)"
      using s t by (intro ends_bind [where Q = "words_ok cs"] parseredirs_ends parseargs_ends assms) auto
    then show "ends cs t (words_ok cs) ((if False then parseblock k cs else bind (parseredirs k cs (EXEC [])) (\<lambda>ret. parseargs k cs ret 0)) t)"
      by simp
  qed (use s block in simp)
  have b: "ends cs s (words_ok cs) (parseblock (Suc k) cs s)" if s: "s \<le> length cs" "4 * (length cs - s) + 1 \<le> Suc k" for s
  proof -
    have sw: "(if \<not> b then x else y) = (if b then y else x)" for b and x y :: "(span cmd, nat) kfun" by simp
    show ?thesis
      unfolding parseblock.simps sw
    proof (rule ends_token_seq [OF assms s(1)])
      fix t assume t: "s < t" "t \<le> length cs"
      show "ends cs t (words_ok cs) (bind (parseline k cs) (\<lambda>cmd. bind (peek cs [41]) (\<lambda>b.
         if b then seq (gettoken cs) (parseredirs k cs cmd) else panic ''syntax - missing )'')) t)"
        using s t by (intro ends_bind [where Q = "words_ok cs"] line ends_token_seq assms parseredirs_ends ends_panic) auto
    qed (rule ends_panic)
  qed
  show ?case using l p e b by blast
qed

lemma parsecmd_ends:
  assumes "0 \<notin> set cs"
  shows "(\<exists>c m. parsecmd cs = Ret (c, m) (length cs) \<and> words_ok cs c \<and> m = nulterminate c (byte cs)) \<or> (\<exists>e. parsecmd cs = Panic e)"
proof -
  let ?k = "4 * length cs + 4"
  have l: "ends cs 0 (words_ok cs) (parseline ?k cs 0)" using conjunct1 [OF parse_ends [OF assms, of ?k]] by (elim allE [of _ 0]) simp
  show ?thesis
  proof (cases "parseline ?k cs 0")
    case (Ret c t)
    then have c: "words_ok cs c" "t \<le> length cs" using l by (simp_all add: ends_def)
    obtain b where "peek cs [] t = Ret b (skip_ws cs t)" using peek_ret [OF assms c(2)] by blast
    then show ?thesis using Ret c by (simp add: parsecmd_def kfun_simps)
  qed (use l in \<open>simp_all add: ends_def parsecmd_def kfun_simps\<close>)
qed

section \<open>The words become strings\<close>

definition word_of :: "uchar list \<Rightarrow> span \<Rightarrow> uchar list" where
  "word_of cs w = take (snd w - fst w) (drop (fst w) cs)"

text \<open>The string at \<open>q\<close>: the bytes before the next zero.\<close>

fun cstring :: "nat \<Rightarrow> (nat \<Rightarrow> uchar) \<Rightarrow> nat \<Rightarrow> uchar list" where
  "cstring 0 m q = []"
| "cstring (Suc k) m q = (if m q = 0 then [] else m q # cstring k m (Suc q))"

lemma nulterminate_at: "nulterminate c m i = (if i \<in> snd ` set_cmd c then 0 else m i)"
proof (induction c arbitrary: m)
  case (EXEC ws)
  have "foldl (\<lambda>m w. m(snd w := 0)) m ws i = (if i \<in> snd ` set ws then 0 else m i)" for m :: "nat \<Rightarrow> uchar"
    by (induction ws arbitrary: m) auto
  then show ?case by simp
qed auto

lemma cstring_span:
  assumes "q \<le> eq" "eq - q < k" "m eq = 0" "\<forall>i. q \<le> i \<and> i < eq \<longrightarrow> m i = cs ! i \<and> m i \<noteq> 0" "eq \<le> length cs"
  shows "cstring k m q = take (eq - q) (drop q cs)"
  using assms
proof (induction k arbitrary: q)
  case (Suc k)
  show ?case
  proof (cases "q = eq")
    case False
    have "\<forall>i. Suc q \<le> i \<and> i < eq \<longrightarrow> m i = cs ! i \<and> m i \<noteq> 0" using Suc.prems(4) Suc_leD by blast
    then have "cstring k m (Suc q) = take (eq - Suc q) (drop (Suc q) cs)" using Suc.prems False by (intro Suc.IH) linarith+
    moreover have "m q = cs ! q" "m q \<noteq> 0" "q < length cs" "eq - q = Suc (eq - Suc q)" using Suc.prems False by auto
    ultimately show ?thesis by (simp add: Cons_nth_drop_Suc [symmetric])
  qed (use Suc.prems in simp)
qed simp

text \<open>
  The zeroes are put where words end, and no word goes on there: every word of the command is the string at its start.
\<close>

lemma nulterminate_words:
  assumes "0 \<notin> set cs" "words_ok cs c" "w \<in> set_cmd c"
  shows "cstring (Suc (length cs)) (nulterminate c (byte cs)) (fst w) = word_of cs w"
proof -
  let ?m = "nulterminate c (byte cs)"
  obtain q eq where w: "w = (q, eq)" by (cases w)
  have ok: "q < eq" "eq \<le> length cs" "\<forall>i. q \<le> i \<and> i < eq \<longrightarrow> is_word (cs ! i)" using assms(2,3) w by (auto simp: words_ok_def span_ok_def)
  have "i \<notin> snd ` set_cmd c" if "q \<le> i" "i < eq" for i
  proof
    assume "i \<in> snd ` set_cmd c"
    then obtain p where "(p, i) \<in> set_cmd c" by auto
    then have "i < length cs \<longrightarrow> \<not> is_word (cs ! i)" using assms(2) by (auto simp: words_ok_def span_ok_def)
    then show False using ok that by auto
  qed
  then have at: "?m i = cs ! i \<and> ?m i \<noteq> 0" if "q \<le> i" "i < eq" for i
    using that ok(2) assms(1) unfolding nulterminate_at by (auto simp: byte_def) (metis nth_mem order.strict_trans2)
  have z: "?m eq = 0" using assms(3) w unfolding nulterminate_at by force
  have all: "\<forall>i. q \<le> i \<and> i < eq \<longrightarrow> ?m i = cs ! i \<and> ?m i \<noteq> 0" using at by blast
  have "eq - q < Suc (length cs)" using ok(2) by linarith
  then have "cstring (Suc (length cs)) ?m q = take (eq - q) (drop q cs)" by (rule cstring_span [OF less_imp_le [OF ok(1)] _ z all ok(2)])
  then show ?thesis by (simp only: w word_of_def fst_conv snd_conv)
qed

section \<open>Reading the line from a position\<close>

definition front :: "uchar list \<Rightarrow> uchar list" where
  "front xs = dropWhile is_ws xs"

text \<open>What is left of the line at position \<open>s\<close> is \<open>xs\<close>, up to leading blanks.\<close>

definition at :: "uchar list \<Rightarrow> nat \<Rightarrow> uchar list \<Rightarrow> bool" where
  "at cs s xs \<longleftrightarrow> s \<le> length cs \<and> front (drop s cs) = front xs"

text \<open>After blanks comes the end or one of the given bytes.\<close>

definition stops :: "uchar set \<Rightarrow> uchar list \<Rightarrow> bool" where
  "stops X xs \<longleftrightarrow> front xs = [] \<or> hd (front xs) \<in> X"

lemma front_simps [simp]:
  "front [] = []" "is_ws x \<Longrightarrow> front (x # xs) = front xs" "\<not> is_ws x \<Longrightarrow> front (x # xs) = x # xs" "front (front xs) = front xs"
  by (simp_all add: front_def)

lemma blank [simp]: "is_ws 32" "\<not> is_ws 60" "\<not> is_ws 62" "\<not> is_ws 38" "\<not> is_ws 59" "\<not> is_ws 124" "\<not> is_ws 40" "\<not> is_ws 41"
  by (simp_all add: is_ws_def whitespace_def)

lemma symbol_not_word [simp]: "\<not> is_word 60" "\<not> is_word 62" "\<not> is_word 38" "\<not> is_word 59" "\<not> is_word 124" "\<not> is_word 40" "\<not> is_word 41"
  by (simp_all add: is_word_def symbols_def)

lemma ws_not_word: "is_ws c \<Longrightarrow> \<not> is_word c"
  by (simp add: is_ws_def is_word_def)

lemma stops_not_word:
  assumes "stops X xs" "\<forall>x\<in>X. \<not> is_word x"
  shows "xs = [] \<or> \<not> is_word (hd xs)"
proof (cases xs)
  case (Cons x ys)
  then show ?thesis using assms ws_not_word by (cases "is_ws x") (auto simp: stops_def)
qed simp

lemma stops_mono: "stops X xs \<Longrightarrow> X \<subseteq> Y \<Longrightarrow> stops Y xs"
  by (auto simp: stops_def)

lemma scan_while_take: "s \<le> length cs \<Longrightarrow> scan_while (length cs - s) P cs s = s + length (takeWhile P (drop s cs))"
proof (induction "length cs - s" arbitrary: s)
  case 0
  then show ?case by simp
next
  case (Suc n)
  then have "s < length cs" "length cs - s = Suc (length cs - Suc s)" by auto
  moreover have "drop s cs = cs ! s # drop (Suc s) cs" using \<open>s < length cs\<close> by (rule Cons_nth_drop_Suc [symmetric])
  ultimately show ?case using Suc by (simp add: byte_def)
qed

lemma skip_ws_drop: "s \<le> length cs \<Longrightarrow> drop (skip_ws cs s) cs = front (drop s cs)"
  unfolding skip_ws_def by (simp add: scan_while_take front_def dropWhile_eq_drop add.commute)

lemma at_skip: "at cs s xs \<Longrightarrow> at cs (skip_ws cs s) xs \<and> drop (skip_ws cs s) cs = front xs \<and> s \<le> skip_ws cs s"
  using skip_ws_bounds [of s cs] skip_ws_drop [of s cs] by (auto simp: at_def)

lemma at_drop: "s \<le> length cs \<Longrightarrow> at cs s (drop s cs)"
  by (simp add: at_def)

lemma byte_drop: "byte cs s = (case drop s cs of [] \<Rightarrow> 0 | x # _ \<Rightarrow> x)"
proof (cases "s < length cs")
  case True
  then show ?thesis by (simp add: byte_def Cons_nth_drop_Suc [symmetric])
qed (simp add: byte_def)

lemma peek_at:
  assumes "at cs s xs" "0 \<notin> set cs"
  shows "\<exists>t. peek cs toks s = Ret (front xs \<noteq> [] \<and> hd (front xs) \<in> set toks) t \<and> at cs t xs \<and> s \<le> t"
proof -
  let ?t = "skip_ws cs s"
  have t: "at cs ?t xs" "drop ?t cs = front xs" "s \<le> ?t" using at_skip [OF assms(1)] by auto
  have "x \<noteq> 0" if "front xs = x # ys" for x ys
    using assms(2) that t(2) by (metis in_set_dropD list.set_intros(1))
  then have "(byte cs ?t \<noteq> 0 \<and> byte cs ?t \<in> set toks) = (front xs \<noteq> [] \<and> hd (front xs) \<in> set toks)"
    using t(2) byte_drop [of cs ?t] by (auto split: list.splits)
  then show ?thesis using t by (simp add: peek_def Let_def)
qed

lemma gettoken_symbol:
  assumes "at cs s xs" "0 \<notin> set cs" "front xs = c # ys" "c \<in> {124, 40, 41, 59, 38, 60} \<or> c = 62 \<and> (ys = [] \<or> hd ys \<noteq> 62)"
  shows "\<exists>w t. gettoken cs s = Ret (c, w) t \<and> at cs t ys \<and> s < t"
proof -
  let ?q = "skip_ws cs s"
  have q: "drop ?q cs = c # ys" "s \<le> ?q" using at_skip [OF assms(1)] assms(3) by auto
  then have d: "drop (Suc ?q) cs = ys" "?q < length cs" by (metis drop_Suc list.sel(3) tl_drop) (metis drop_all linorder_not_less list.distinct(1) q(1))
  have b: "byte cs ?q = c" "byte cs (Suc ?q) = (case ys of [] \<Rightarrow> 0 | x # _ \<Rightarrow> x)"
    using byte_drop [of cs ?q] byte_drop [of cs "Suc ?q"] q(1) d(1) by auto
  have n: "c \<noteq> 0" "c = 62 \<Longrightarrow> byte cs (Suc ?q) \<noteq> 62" using assms(4) b(2) by (auto split: list.splits)
  have at: "at cs (skip_ws cs (Suc ?q)) ys" "Suc ?q \<le> skip_ws cs (Suc ?q)"
    using at_skip [OF at_drop [of "Suc ?q" cs]] d by auto
  have "gettoken cs s = Ret (c, (?q, Suc ?q)) (skip_ws cs (Suc ?q))"
    using assms(4) n b(1) unfolding gettoken_def Let_def by auto
  then show ?thesis using at q(2) by auto
qed

lemma gettoken_word:
  assumes "at cs s xs" "0 \<notin> set cs" "front xs = w @ ys" "w \<noteq> []" "\<forall>x\<in>set w. is_word x" "ys = [] \<or> \<not> is_word (hd ys)"
  shows "\<exists>sp t. gettoken cs s = Ret (97, sp) t \<and> word_of cs sp = w \<and> at cs t ys \<and> s < t"
proof -
  let ?q = "skip_ws cs s"
  have q: "drop ?q cs = w @ ys" "s \<le> ?q" "?q \<le> length cs" using at_skip [OF assms(1)] assms(3) by (auto simp: at_def)
  have tw: "takeWhile is_word (w @ ys) = w"
    using assms(5,6) by (cases ys) simp_all
  have e: "scan_while (length cs - ?q) is_word cs ?q = ?q + length w" using scan_while_take [OF q(3)] q(1) tw by simp
  have d: "drop (?q + length w) cs = ys" using q(1) by (metis add.commute append_eq_conv_conj drop_drop)
  have le: "?q + length w \<le> length cs" using q(1,3) by (metis length_append length_drop le_add1 le_diff_conv2 add.commute)
  obtain x v where w: "w = x # v" using assms(4) by (cases w) auto
  have b: "byte cs ?q = x" using byte_drop [of cs ?q] q(1) w by simp
  have x: "is_word x" using assms(5) w by simp
  have "x \<in> set cs" using q(1) w by (metis append_Cons in_set_dropD list.set_intros(1))
  then have "x \<noteq> 0" using assms(2) by auto
  moreover have "x \<notin> {124, 40, 41, 59, 38, 60, 62}" using x is_word_cases by blast
  ultimately have g: "gettoken cs s = Ret (97, (?q, ?q + length w)) (skip_ws cs (?q + length w))"
    using e b unfolding gettoken_def Let_def by auto
  have "word_of cs (?q, ?q + length w) = w" using q(1) by (simp add: word_of_def)
  moreover have "at cs (skip_ws cs (?q + length w)) ys" "?q + length w \<le> skip_ws cs (?q + length w)"
    using at_skip [OF at_drop [OF le]] d by auto
  ultimately show ?thesis using g q(2) w by auto
qed

lemma gettoken_end: "at cs s xs \<Longrightarrow> front xs = [] \<Longrightarrow> \<exists>w t. gettoken cs s = Ret (0, w) t \<and> at cs t xs \<and> s \<le> t"
proof -
  assume a: "at cs s xs" "front xs = []"
  let ?q = "skip_ws cs s"
  have q: "drop ?q cs = []" "s \<le> ?q" "at cs ?q xs" using at_skip [OF a(1)] a(2) by auto
  have "byte cs ?q = 0" using byte_drop [of cs ?q] q(1) by simp
  then have "gettoken cs s = Ret (0, (?q, ?q)) (skip_ws cs ?q)" by (simp add: gettoken_def Let_def)
  then show ?thesis using q(2) at_skip [OF q(3)] by auto
qed

section \<open>Printing commands\<close>

text \<open>
  A command tree as text.  The level is what the place asks for: 0 a line, 1 something that may be followed by
  \<^verbatim>\<open>&\<close>, 2 a pipeline, 3 a single command; a command of a lower level is put in parentheses.
\<close>

definition pr_redir :: "uchar list \<Rightarrow> nat \<Rightarrow> uchar list" where
  "pr_redir w fd = [32, if fd = 0 then 60 else 62, 32] @ w"

definition paren_if :: "bool \<Rightarrow> uchar list \<Rightarrow> uchar list" where
  "paren_if b xs = (if b then [40] @ xs @ [41] else xs)"

fun pr_cmd :: "nat \<Rightarrow> uchar list cmd \<Rightarrow> uchar list" where
  "pr_cmd l (EXEC ws) = concat (map (\<lambda>w. 32 # w) ws)"
| "pr_cmd l (REDIR c w m fd) = pr_cmd 3 c @ pr_redir w fd"
| "pr_cmd l (PIPE c d) = paren_if (l > 2) (pr_cmd 3 c @ [124] @ pr_cmd 2 d)"
| "pr_cmd l (LIST c d) = paren_if (l > 0) (pr_cmd 1 c @ [59] @ pr_cmd 0 d)"
| "pr_cmd l (BACK c) = paren_if (l > 1) (pr_cmd 1 c @ [38])"

text \<open>Words without blanks, symbols and zeroes, at most nine of them, and redirections of input or output.\<close>

definition word_ok :: "uchar list \<Rightarrow> bool" where
  "word_ok w \<longleftrightarrow> w \<noteq> [] \<and> 0 \<notin> set w \<and> (\<forall>x\<in>set w. is_word x)"

fun cmd_ok :: "uchar list cmd \<Rightarrow> bool" where
  "cmd_ok (EXEC ws) \<longleftrightarrow> length ws < MAXARGS \<and> (\<forall>w\<in>set ws. word_ok w)"
| "cmd_ok (REDIR c w m fd) \<longleftrightarrow> cmd_ok c \<and> word_ok w \<and> (m = 0 \<and> fd = 0 \<or> m = 0x201 \<and> fd = 1)"
| "cmd_ok (PIPE c d) \<longleftrightarrow> cmd_ok c \<and> cmd_ok d"
| "cmd_ok (LIST c d) \<longleftrightarrow> cmd_ok c \<and> cmd_ok d"
| "cmd_ok (BACK c) \<longleftrightarrow> cmd_ok c"

type_synonym redir = "uchar list \<times> uint \<times> nat"

fun wrap :: "uchar list cmd \<Rightarrow> redir \<Rightarrow> uchar list cmd" where
  "wrap c (w, m, fd) = REDIR c w m fd"

fun redir_ok :: "redir \<Rightarrow> bool" where
  "redir_ok (w, m, fd) \<longleftrightarrow> word_ok w \<and> (m = 0 \<and> fd = 0 \<or> m = 0x201 \<and> fd = 1)"

fun pr_one :: "redir \<Rightarrow> uchar list" where
  "pr_one (w, m, fd) = pr_redir w fd"

definition pr_redirs :: "redir list \<Rightarrow> uchar list" where
  "pr_redirs rs = concat (map pr_one rs)"

section \<open>Parsing what was printed\<close>

definition SEP :: "uchar set" where "SEP = {124, 41, 38, 59}"

lemma word_front: "word_ok w \<Longrightarrow> front (w @ ys) = w @ ys \<and> front (32 # w @ ys) = w @ ys \<and> w \<noteq> []"
proof (cases w)
  case (Cons a v)
  assume "word_ok w"
  then have "\<not> is_ws a" using ws_not_word Cons by (auto simp: word_ok_def)
  then show ?thesis using Cons by simp
qed (simp add: word_ok_def)

lemma front_redirs: "front (pr_redirs rs @ ys) = (case rs of [] \<Rightarrow> front ys | (w, m, fd) # rs' \<Rightarrow>
    (if fd = 0 then 60 else 62) # 32 # w @ pr_redirs rs' @ ys)"
  by (cases rs) (auto simp: pr_redirs_def pr_redir_def)

lemma redirs_not_word: "stops SEP rest \<Longrightarrow> pr_redirs rs @ rest = [] \<or> \<not> is_word (hd (pr_redirs rs @ rest))"
proof (cases rs)
  case Nil
  assume "stops SEP rest"
  then show ?thesis using stops_not_word [of SEP rest] Nil by (simp add: pr_redirs_def SEP_def)
next
  case (Cons r rs')
  then show ?thesis using ws_not_word [of 32] by (cases r) (simp add: pr_redirs_def pr_redir_def)
qed

definition yields :: "uchar list \<Rightarrow> (span cmd, nat) kfun \<Rightarrow> nat \<Rightarrow> uchar list cmd \<Rightarrow> uchar list \<Rightarrow> bool" where
  "yields cs f s c rest \<longleftrightarrow> (\<exists>d t. f s = Ret d t \<and> map_cmd (word_of cs) d = c \<and> at cs t rest \<and> s \<le> t)"

lemma map_add_arg: "map_cmd f (add_arg w c) = add_arg (f w) (map_cmd f c)"
  by (induction c) auto

lemma parseredirs_yields:
  assumes "0 \<notin> set cs" "at cs s (pr_redirs rs @ rest)" "\<forall>r\<in>set rs. redir_ok r" "stops X rest" "60 \<notin> X" "62 \<notin> X"
    "pr_redirs rs = [] \<or> rest = [] \<or> \<not> is_word (hd rest)" "length cs - s < k"
  shows "yields cs (parseredirs k cs c) s (foldl wrap (map_cmd (word_of cs) c) rs) rest"
  using assms(2,3,7,8)
proof (induction k arbitrary: s rs c)
  case (Suc k)
  obtain t where t: "peek cs [60, 62] s = Ret (front (pr_redirs rs @ rest) \<noteq> [] \<and> hd (front (pr_redirs rs @ rest)) \<in> {60, 62}) t"
    "at cs t (pr_redirs rs @ rest)" "s \<le> t" using peek_at [OF Suc.prems(1) assms(1), of "[60, 62]"] by auto
  show ?case
  proof (cases rs)
    case Nil
    then have "peek cs [60, 62] s = Ret False t" using t(1) assms(4-6) by (auto simp: pr_redirs_def stops_def)
    then show ?thesis using t(2,3) Nil by (simp add: yields_def parseredirs.simps kfun_simps pr_redirs_def)
  next
    case (Cons r rs')
    obtain w m fd where r: "r = (w, m, fd)" by (cases r)
    let ?c = "if fd = 0 then 60 else 62 :: uchar"
    have ok: "word_ok w" "m = 0 \<and> fd = 0 \<or> m = 0x201 \<and> fd = 1" using Suc.prems(2) Cons r by auto
    have f: "front (pr_redirs rs @ rest) = ?c # 32 # w @ pr_redirs rs' @ rest" using front_redirs [of rs rest] Cons r by simp
    then have p: "peek cs [60, 62] s = Ret True t" using t(1) by simp
    obtain sp u where u: "gettoken cs t = Ret (?c, sp) u" "at cs u (32 # w @ pr_redirs rs' @ rest)" "t < u"
      using gettoken_symbol [OF t(2) assms(1) f] by (cases "fd = 0") auto
    have nw: "pr_redirs rs' @ rest = [] \<or> \<not> is_word (hd (pr_redirs rs' @ rest))"
    proof (cases rs')
      case Nil
      then show ?thesis using Suc.prems(3) Cons r by (auto simp: pr_redirs_def pr_redir_def)
    next
      case (Cons r2 rs2)
      then show ?thesis using ws_not_word [of 32] by (cases r2) (simp add: pr_redirs_def pr_redir_def)
    qed
    obtain sp2 v where v: "gettoken cs u = Ret (97, sp2) v" "word_of cs sp2 = w" "at cs v (pr_redirs rs' @ rest)" "u < v"
      using gettoken_word [OF u(2) assms(1) _ _ _ nw, of w] word_front [OF ok(1)] ok(1) by (auto simp: word_ok_def)
    have kv: "length cs - v < k" using t(3) u(3) v(3,4) Suc.prems(4) unfolding at_def by linarith
    have "yields cs (parseredirs k cs (redir_of ?c c sp2)) v (foldl wrap (map_cmd (word_of cs) (redir_of ?c c sp2)) rs') rest"
      using Suc.prems v(3) kv Cons r by (intro Suc.IH) (auto simp: pr_redirs_def pr_redir_def)
    moreover have "map_cmd (word_of cs) (redir_of ?c c sp2) = wrap (map_cmd (word_of cs) c) r" using ok(2) v(2) r by (auto simp: redir_of_def)
    ultimately show ?thesis using p u(1,3) v(1,4) t(3) Cons by (auto simp: yields_def parseredirs.simps kfun_simps)
  qed
qed simp

definition pr_words :: "uchar list list \<Rightarrow> uchar list" where
  "pr_words ws = concat (map (\<lambda>w. 32 # w) ws)"

lemma pr_words_simps [simp]: "pr_words [] = []" "pr_words (w # ws) = 32 # w @ pr_words ws"
  by (simp_all add: pr_words_def)

lemma front_words: "\<forall>w\<in>set ws. word_ok w \<Longrightarrow> ws \<noteq> [] \<Longrightarrow> front (pr_words ws @ ys) = hd ws @ pr_words (tl ws) @ ys"
proof (cases ws)
  case (Cons w ws')
  assume "\<forall>w\<in>set ws. word_ok w"
  then have "word_ok w" using Cons by simp
  then show ?thesis using word_front [of w "pr_words ws' @ ys"] Cons by simp
qed simp

lemma word_stops: "\<forall>w\<in>set ws. word_ok w \<Longrightarrow> ws \<noteq> [] \<Longrightarrow> stops {x. is_word x} (pr_words ws @ ys)"
  using front_words [of ws ys] by (cases ws) (auto simp: stops_def word_ok_def hd_append)

text \<open>The redirections behind the last word.\<close>

definition tail_redirs :: "uchar list list \<Rightarrow> redir list \<Rightarrow> redir list" where
  "tail_redirs ws rs = (if ws = [] then [] else rs)"

lemma parseargs_yields:
  assumes "0 \<notin> set cs" "at cs s (pr_words ws @ pr_redirs (tail_redirs ws rs) @ rest)" "\<forall>w\<in>set ws. word_ok w" "\<forall>r\<in>set rs. redir_ok r"
    "stops SEP rest" "n + length ws < MAXARGS" "length cs - s < k"
  shows "yields cs (parseargs k cs ret n) s (foldl wrap (foldl (\<lambda>c w. add_arg w c) (map_cmd (word_of cs) ret) ws) (tail_redirs ws rs)) rest"
  using assms(2,3,6,7)
proof (induction k arbitrary: s ws ret n)
  case (Suc k)
  let ?xs = "pr_words ws @ pr_redirs (tail_redirs ws rs) @ rest"
  obtain t where t: "peek cs [124, 41, 38, 59] s = Ret (front ?xs \<noteq> [] \<and> hd (front ?xs) \<in> SEP) t"
    "at cs t ?xs" "s \<le> t" using peek_at [OF Suc.prems(1) assms(1), of "[124, 41, 38, 59]"] by (auto simp: SEP_def)
  show ?case
  proof (cases ws)
    case Nil
    then have x: "?xs = rest" by (simp add: tail_redirs_def pr_redirs_def)
    show ?thesis
    proof (cases "front rest = []")
      case True
      obtain w u where "gettoken cs t = Ret (0, w) u" "at cs u rest" "t \<le> u" using gettoken_end [OF t(2)] True x by auto
      then show ?thesis using t(1,3) True x Nil by (simp add: yields_def parseargs.simps kfun_simps tail_redirs_def)
    next
      case False
      then have "hd (front rest) \<in> SEP" using assms(5) by (simp add: stops_def)
      then show ?thesis using t x Nil False by (simp add: yields_def parseargs.simps kfun_simps tail_redirs_def)
    qed
  next
    case (Cons w ws')
    let ?ys = "pr_words ws' @ pr_redirs rs @ rest"
    have w: "word_ok w" "\<forall>w\<in>set ws'. word_ok w" using Suc.prems(2) Cons by auto
    have f: "front ?xs = w @ ?ys" using front_words [OF Suc.prems(2)] Cons by (simp add: tail_redirs_def)
    have "hd (front ?xs) \<notin> SEP" using w(1) f symbol_not_word by (cases w) (auto simp: word_ok_def SEP_def)
    then have p: "peek cs [124, 41, 38, 59] s = Ret False t" using t(1) by simp
    have nw: "?ys = [] \<or> \<not> is_word (hd ?ys)"
      using redirs_not_word [OF assms(5), of rs] ws_not_word [of 32] by (cases ws') auto
    obtain sp u where u: "gettoken cs t = Ret (97, sp) u" "word_of cs sp = w" "at cs u ?ys" "t < u"
      using gettoken_word [OF t(2) assms(1) f _ _ nw] w(1) by (auto simp: word_ok_def)
    have ku: "length cs - u < k" using t(3) u(3,4) Suc.prems(4) unfolding at_def by linarith
    have n: "\<not> MAXARGS \<le> n + 1" "n + 1 + length ws' < MAXARGS" using Suc.prems(3) Cons by auto
    let ?c = "add_arg w (map_cmd (word_of cs) ret)"
    have m: "map_cmd (word_of cs) (add_arg sp ret) = ?c" using u(2) by (simp add: map_add_arg)
    obtain c2 v where c2: "parseredirs k cs (add_arg sp ret) u = Ret c2 v" "u \<le> v"
      "if ws' = [] then map_cmd (word_of cs) c2 = foldl wrap ?c rs \<and> at cs v rest
       else map_cmd (word_of cs) c2 = ?c \<and> at cs v (pr_words ws' @ pr_redirs (tail_redirs ws' rs) @ rest)"
    proof (cases "ws' = []")
      case True
      have "at cs u (pr_redirs rs @ rest)" using u(3) True by simp
      then have "yields cs (parseredirs k cs (add_arg sp ret)) u (foldl wrap (map_cmd (word_of cs) (add_arg sp ret)) rs) rest"
        using stops_not_word [OF assms(5)] by (intro parseredirs_yields [OF assms(1) _ assms(4,5) _ _ _ ku]) (auto simp: SEP_def)
      then show ?thesis using that True m by (auto simp: yields_def)
    next
      case False
      have "at cs u (pr_redirs [] @ ?ys)" using u(3) by (simp add: pr_redirs_def)
      then have "yields cs (parseredirs k cs (add_arg sp ret)) u (foldl wrap (map_cmd (word_of cs) (add_arg sp ret)) []) ?ys"
        by (intro parseredirs_yields [OF assms(1) _ _ word_stops [OF w(2) False] _ _ _ ku]) (auto simp: pr_redirs_def)
      then show ?thesis using that False m by (auto simp: yields_def tail_redirs_def)
    qed
    have "at cs v (pr_words ws' @ pr_redirs (tail_redirs ws' rs) @ rest)" using c2(3) by (auto simp: tail_redirs_def pr_redirs_def split: if_splits)
    moreover have "length cs - v < k" using ku c2(2) by linarith
    ultimately have y: "yields cs (parseargs k cs c2 (n + 1)) v
        (foldl wrap (foldl (\<lambda>c w. add_arg w c) (map_cmd (word_of cs) c2) ws') (tail_redirs ws' rs)) rest"
      using w(2) n(2) by (intro Suc.IH)
    have "foldl wrap (foldl (\<lambda>c w. add_arg w c) (map_cmd (word_of cs) c2) ws') (tail_redirs ws' rs) =
        foldl wrap (foldl (\<lambda>c w. add_arg w c) (map_cmd (word_of cs) ret) ws) (tail_redirs ws rs)"
      using c2(3) Cons by (auto simp: tail_redirs_def split: if_splits)
    then show ?thesis using y p u(1,4) c2(1,2) t(3) n(1) unfolding parseargs.simps by (auto simp: yields_def kfun_simps)
  qed
qed simp

text \<open>What the four functions make of a printed command.  \<open>rest\<close> is what follows it in the line.\<close>

definition exec_reads :: "uchar list \<Rightarrow> uchar list cmd \<Rightarrow> bool" where
  "exec_reads cs c \<longleftrightarrow> (\<forall>s rs rest k. at cs s (pr_cmd 3 c @ pr_redirs rs @ rest) \<longrightarrow> (\<forall>r\<in>set rs. redir_ok r) \<longrightarrow> stops SEP rest \<longrightarrow>
     4 * (length cs - s) + 2 \<le> k \<longrightarrow> yields cs (parseexec k cs) s (foldl wrap c rs) rest)"

definition pipe_reads :: "uchar list \<Rightarrow> uchar list cmd \<Rightarrow> bool" where
  "pipe_reads cs c \<longleftrightarrow> (\<forall>s rest k. at cs s (pr_cmd 2 c @ rest) \<longrightarrow> stops {38, 59, 41} rest \<longrightarrow>
     4 * (length cs - s) + 3 \<le> k \<longrightarrow> yields cs (parsepipe k cs) s c rest)"

definition back_reads :: "uchar list \<Rightarrow> uchar list cmd \<Rightarrow> bool" where
  "back_reads cs c \<longleftrightarrow> (\<forall>s n rest k. at cs s (pr_cmd 1 c @ replicate n 38 @ rest) \<longrightarrow> stops {59, 41} rest \<longrightarrow>
     4 * (length cs - s) + 3 \<le> k \<longrightarrow> yields cs (bind (parsepipe k cs) (parseback k cs)) s ((BACK ^^ n) c) rest)"

definition line_reads :: "uchar list \<Rightarrow> uchar list cmd \<Rightarrow> bool" where
  "line_reads cs c \<longleftrightarrow> (\<forall>s rest k. at cs s (pr_cmd 0 c @ rest) \<longrightarrow> stops {41} rest \<longrightarrow>
     4 * (length cs - s) + 4 \<le> k \<longrightarrow> yields cs (parseline k cs) s c rest)"

lemma exec_readsD:
  "exec_reads cs c \<Longrightarrow> at cs s (pr_cmd 3 c @ pr_redirs rs @ rest) \<Longrightarrow> \<forall>r\<in>set rs. redir_ok r \<Longrightarrow> stops SEP rest \<Longrightarrow>
     4 * (length cs - s) + 2 \<le> k \<Longrightarrow> yields cs (parseexec k cs) s (foldl wrap c rs) rest"
  unfolding exec_reads_def by blast

lemma stops_Cons [simp]: "\<not> is_ws x \<Longrightarrow> stops X (x # xs) \<longleftrightarrow> x \<in> X"
  by (simp add: stops_def)

lemma peek_sep:
  assumes "at cs s rest" "0 \<notin> set cs" "stops X rest" "set toks \<inter> X = {}"
  shows "\<exists>t. peek cs toks s = Ret False t \<and> at cs t rest \<and> s \<le> t"
proof -
  have "\<not> (front rest \<noteq> [] \<and> hd (front rest) \<in> set toks)" using assms(3,4) by (auto simp: stops_def)
  then show ?thesis using peek_at [OF assms(1,2), of toks] by auto
qed

lemma peek_token:
  assumes "at cs s (c # rest)" "0 \<notin> set cs" "c \<in> {124, 40, 41, 59, 38}" "c \<in> set toks"
  shows "\<exists>t w u. peek cs toks s = Ret True t \<and> gettoken cs t = Ret (c, w) u \<and> at cs u rest \<and> s < u"
proof -
  have f: "front (c # rest) = c # rest" using assms(3) by auto
  obtain t where t: "peek cs toks s = Ret True t" "at cs t (c # rest)" "s \<le> t" using peek_at [OF assms(1,2), of toks] f assms(4) by auto
  obtain w u where "gettoken cs t = Ret (c, w) u" "at cs u rest" "t < u" using gettoken_symbol [OF t(2) assms(2) f] assms(3) by auto
  then show ?thesis using t by auto
qed

lemma pipe_of_exec:
  assumes "exec_reads cs c" "pr_cmd 2 c = pr_cmd 3 c" "0 \<notin> set cs"
  shows "pipe_reads cs c"
  unfolding pipe_reads_def
proof (intro allI impI)
  fix s rest k assume a: "at cs s (pr_cmd 2 c @ rest)" "stops {38, 59, 41} rest" "4 * (length cs - s) + 3 \<le> k"
  obtain k' where k: "k = Suc k'" using a(3) by (cases k) auto
  have "at cs s (pr_cmd 3 c @ pr_redirs [] @ rest)" using a(1) assms(2) by (simp add: pr_redirs_def)
  moreover have "stops SEP rest" by (rule stops_mono [OF a(2)]) (auto simp: SEP_def)
  ultimately have "yields cs (parseexec k' cs) s (foldl wrap c []) rest" using a(3) k by (intro exec_readsD [OF assms(1)]) auto
  then obtain d t where d: "parseexec k' cs s = Ret d t" "map_cmd (word_of cs) d = c" "at cs t rest" "s \<le> t" by (auto simp: yields_def)
  obtain u where "peek cs [124] t = Ret False u" "at cs u rest" "t \<le> u" using peek_sep [OF d(3) assms(3) a(2), of "[124]"] by auto
  then show "yields cs (parsepipe k cs) s c rest" using d unfolding k by (auto simp: yields_def parsepipe.simps kfun_simps)
qed

lemma back_loop:
  assumes "0 \<notin> set cs" "at cs s (replicate n 38 @ rest)" "stops {59, 41} rest" "length cs - s < k"
  shows "yields cs (parseback k cs d) s ((BACK ^^ n) (map_cmd (word_of cs) d)) rest"
  using assms(2,4)
proof (induction k arbitrary: s n d)
  case (Suc k)
  show ?case
  proof (cases n)
    case 0
    then obtain t where "peek cs [38] s = Ret False t" "at cs t rest" "s \<le> t"
      using peek_sep [OF _ assms(1,3), of s "[38]"] Suc.prems(1) by auto
    then show ?thesis using 0 by (auto simp: yields_def parseback.simps kfun_simps)
  next
    case (Suc n')
    then obtain t w u where t: "peek cs [38] s = Ret True t" "gettoken cs t = Ret (38, w) u" "at cs u (replicate n' 38 @ rest)" "s < u"
      using peek_token [of cs s 38 "replicate n' 38 @ rest" "[38]"] Suc.prems(1) assms(1) by auto
    have "length cs - u < k" using t(3,4) Suc.prems(2) unfolding at_def by linarith
    then have "yields cs (parseback k cs (BACK d)) u ((BACK ^^ n') (map_cmd (word_of cs) (BACK d))) rest" using t(3) by (intro Suc.IH)
    moreover have "(BACK ^^ n') (map_cmd (word_of cs) (BACK d)) = (BACK ^^ n) (map_cmd (word_of cs) d)" using Suc by (simp add: funpow_swap1)
    ultimately show ?thesis using t(1,2,4) by (auto simp: yields_def parseback.simps kfun_simps)
  qed
qed simp

lemma back_of_pipe:
  assumes "pipe_reads cs c" "pr_cmd 1 c = pr_cmd 2 c" "0 \<notin> set cs"
  shows "back_reads cs c"
  unfolding back_reads_def
proof (intro allI impI)
  fix s n rest k assume a: "at cs s (pr_cmd 1 c @ replicate n 38 @ rest)" "stops {59, 41} rest" "4 * (length cs - s) + 3 \<le> k"
  have "stops {38, 59, 41} (replicate n 38 @ rest)" using a(2) by (cases n) (auto simp: stops_def)
  then have "yields cs (parsepipe k cs) s c (replicate n 38 @ rest)" using assms(1,2) a(1,3) unfolding pipe_reads_def by simp
  then obtain d t where d: "parsepipe k cs s = Ret d t" "map_cmd (word_of cs) d = c" "at cs t (replicate n 38 @ rest)" "s \<le> t"
    by (auto simp: yields_def)
  have "length cs - t < k" using d(4) a(3) by linarith
  then have "yields cs (parseback k cs d) t ((BACK ^^ n) c) rest" using back_loop [OF assms(3) d(3) a(2)] d(2) by blast
  then show "yields cs (bind (parsepipe k cs) (parseback k cs)) s ((BACK ^^ n) c) rest" using d(1,4) by (auto simp: yields_def kfun_simps)
qed

lemma back_of_back:
  assumes "back_reads cs c"
  shows "back_reads cs (BACK c)"
  unfolding back_reads_def
proof (intro allI impI)
  fix s n rest k assume a: "at cs s (pr_cmd 1 (BACK c) @ replicate n 38 @ rest)" "stops {59, 41} rest" "4 * (length cs - s) + 3 \<le> k"
  then have "at cs s (pr_cmd 1 c @ replicate (Suc n) 38 @ rest)" by (simp add: paren_if_def)
  then have "yields cs (bind (parsepipe k cs) (parseback k cs)) s ((BACK ^^ Suc n) c) rest" using assms a(2,3) unfolding back_reads_def by blast
  then show "yields cs (bind (parsepipe k cs) (parseback k cs)) s ((BACK ^^ n) (BACK c)) rest" by (simp add: funpow_swap1)
qed

text \<open>\<^verbatim>\<open>parseline\<close> begins with a pipeline and its \<^verbatim>\<open>&\<close>.\<close>

lemma parseline_back:
  "parseline (Suc k) cs = bind (bind (parsepipe k cs) (parseback k cs)) (\<lambda>cmd. bind (peek cs [59]) (\<lambda>b.
     if b then seq (gettoken cs) (bind (parseline k cs) (\<lambda>right. return (LIST cmd right))) else return cmd))"
  by (simp add: parseline.simps bind_assoc)

lemma line_of_back:
  assumes "back_reads cs c" "pr_cmd 0 c = pr_cmd 1 c" "0 \<notin> set cs"
  shows "line_reads cs c"
  unfolding line_reads_def
proof (intro allI impI)
  fix s rest k assume a: "at cs s (pr_cmd 0 c @ rest)" "stops {41} rest" "4 * (length cs - s) + 4 \<le> k"
  obtain k' where k: "k = Suc k'" using a(3) by (cases k) auto
  have "at cs s (pr_cmd 1 c @ replicate 0 38 @ rest)" using a(1) assms(2) by simp
  moreover have "stops {59, 41} rest" by (rule stops_mono [OF a(2)]) auto
  moreover have "4 * (length cs - s) + 3 \<le> k'" using a(3) k by linarith
  ultimately have "yields cs (bind (parsepipe k' cs) (parseback k' cs)) s ((BACK ^^ 0) c) rest" using assms(1) unfolding back_reads_def by blast
  then obtain d t where d: "bind (parsepipe k' cs) (parseback k' cs) s = Ret d t" "map_cmd (word_of cs) d = c" "at cs t rest" "s \<le> t"
    by (auto simp: yields_def)
  obtain u where "peek cs [59] t = Ret False u" "at cs u rest" "t \<le> u" using peek_sep [OF d(3) assms(3) a(2), of "[59]"] by auto
  then show "yields cs (parseline k cs) s c rest" using d unfolding k parseline_back bind_apply [of "bind _ _"]
    by (auto simp: yields_def kfun_simps(1) bind_apply [of "peek _ _"])
qed

lemma line_of_list:
  assumes "back_reads cs c" "line_reads cs e" "0 \<notin> set cs"
  shows "line_reads cs (LIST c e)"
  unfolding line_reads_def
proof (intro allI impI)
  fix s rest k assume a: "at cs s (pr_cmd 0 (LIST c e) @ rest)" "stops {41} rest" "4 * (length cs - s) + 4 \<le> k"
  obtain k' where k: "k = Suc k'" using a(3) by (cases k) auto
  have "at cs s (pr_cmd 1 c @ replicate 0 38 @ 59 # pr_cmd 0 e @ rest)" using a(1) by (simp add: paren_if_def)
  moreover have "stops {59, 41} (59 # pr_cmd 0 e @ rest)" by simp
  moreover have "4 * (length cs - s) + 3 \<le> k'" using a(3) k by linarith
  ultimately have "yields cs (bind (parsepipe k' cs) (parseback k' cs)) s ((BACK ^^ 0) c) (59 # pr_cmd 0 e @ rest)"
    using assms(1) unfolding back_reads_def by blast
  then obtain d t where d: "bind (parsepipe k' cs) (parseback k' cs) s = Ret d t" "map_cmd (word_of cs) d = c" "at cs t (59 # pr_cmd 0 e @ rest)" "s \<le> t"
    by (auto simp: yields_def)
  obtain t2 w u where u: "peek cs [59] t = Ret True t2" "gettoken cs t2 = Ret (59, w) u" "at cs u (pr_cmd 0 e @ rest)" "t < u"
    using peek_token [OF d(3) assms(3), of "[59]"] by auto
  have "4 * (length cs - u) + 4 \<le> k'" using u(3,4) d(4) a(3) k unfolding at_def by linarith
  then have "yields cs (parseline k' cs) u e rest" using assms(2) u(3) a(2) unfolding line_reads_def by blast
  then show "yields cs (parseline k cs) s (LIST c e) rest" using d u unfolding k parseline_back bind_apply [of "bind _ _"]
    by (auto simp: yields_def kfun_simps(1) bind_apply [of "peek _ _"] bind_apply [of "parseline _ _"] seq_apply)
qed

lemma pipe_of_pipe:
  assumes "exec_reads cs c" "pipe_reads cs e" "0 \<notin> set cs"
  shows "pipe_reads cs (PIPE c e)"
  unfolding pipe_reads_def
proof (intro allI impI)
  fix s rest k assume a: "at cs s (pr_cmd 2 (PIPE c e) @ rest)" "stops {38, 59, 41} rest" "4 * (length cs - s) + 3 \<le> k"
  obtain k' where k: "k = Suc k'" using a(3) by (cases k) auto
  have "at cs s (pr_cmd 3 c @ pr_redirs [] @ 124 # pr_cmd 2 e @ rest)" using a(1) by (simp add: pr_redirs_def paren_if_def)
  moreover have "stops SEP (124 # pr_cmd 2 e @ rest)" by (simp add: SEP_def)
  ultimately have "yields cs (parseexec k' cs) s (foldl wrap c []) (124 # pr_cmd 2 e @ rest)" using a(3) k by (intro exec_readsD [OF assms(1)]) auto
  then obtain d t where d: "parseexec k' cs s = Ret d t" "map_cmd (word_of cs) d = c" "at cs t (124 # pr_cmd 2 e @ rest)" "s \<le> t"
    by (auto simp: yields_def)
  obtain t2 w u where u: "peek cs [124] t = Ret True t2" "gettoken cs t2 = Ret (124, w) u" "at cs u (pr_cmd 2 e @ rest)" "t < u"
    using peek_token [OF d(3) assms(3), of "[124]"] by auto
  have "4 * (length cs - u) + 3 \<le> k'" using u(3,4) d(4) a(3) k unfolding at_def by linarith
  then have "yields cs (parsepipe k' cs) u e rest" using assms(2) u(3) a(2) unfolding pipe_reads_def by blast
  then show "yields cs (parsepipe k cs) s (PIPE c e) rest" using d u unfolding k by (auto simp: yields_def parsepipe.simps kfun_simps)
qed

lemma exec_of_paren:
  assumes "line_reads cs c" "pr_cmd 3 c = [40] @ pr_cmd 0 c @ [41]" "0 \<notin> set cs"
  shows "exec_reads cs c"
  unfolding exec_reads_def
proof (intro allI impI)
  fix s rs rest k
  assume a: "at cs s (pr_cmd 3 c @ pr_redirs rs @ rest)" "\<forall>r\<in>set rs. redir_ok r" "stops SEP rest" "4 * (length cs - s) + 2 \<le> k"
  let ?xs = "pr_redirs rs @ rest"
  obtain k1 k2 where k: "k = Suc k1" "k1 = Suc k2" using a(4) by (cases k; cases "k - 1") auto
  have "at cs s (40 # pr_cmd 0 c @ 41 # ?xs)" using a(1) assms(2) by simp
  then obtain t0 where t0: "peek cs [40] s = Ret True t0" "at cs t0 (40 # pr_cmd 0 c @ 41 # ?xs)" "s \<le> t0"
    using peek_at [of cs s "40 # pr_cmd 0 c @ 41 # ?xs" "[40]"] assms(3) by auto
  obtain t w u where u: "peek cs [40] t0 = Ret True t" "gettoken cs t = Ret (40, w) u" "at cs u (pr_cmd 0 c @ 41 # ?xs)" "t0 < u"
    using peek_token [OF t0(2) assms(3), of "[40]"] by auto
  have ul: "u \<le> length cs" using u(3) by (simp add: at_def)
  have "4 * (length cs - u) + 4 \<le> k2" using u(4) t0(3) a(4) k ul by linarith
  moreover have "stops {41} (41 # ?xs)" by simp
  ultimately have "yields cs (parseline k2 cs) u c (41 # ?xs)" using assms(1) u(3) unfolding line_reads_def by blast
  then obtain d v where d: "parseline k2 cs u = Ret d v" "map_cmd (word_of cs) d = c" "at cs v (41 # ?xs)" "u \<le> v" by (auto simp: yields_def)
  obtain v2 w2 x where x: "peek cs [41] v = Ret True v2" "gettoken cs v2 = Ret (41, w2) x" "at cs x ?xs" "v < x"
    using peek_token [OF d(3) assms(3), of "[41]"] by auto
  have "length cs - x < k2" using x(4) d(4) u(4) t0(3) a(4) k ul by linarith
  then have "yields cs (parseredirs k2 cs d) x (foldl wrap (map_cmd (word_of cs) d) rs) rest"
    using stops_not_word [OF a(3)] by (intro parseredirs_yields [OF assms(3) x(3) a(2,3)]) (auto simp: SEP_def)
  then show "yields cs (parseexec k cs) s (foldl wrap c rs) rest"
    using t0 u(1,2,4) d(1,2,4) x(1,2,4) unfolding k(1) parseexec.simps unfolding k(2) parseblock.simps
    by (auto simp: yields_def kfun_simps)
qed

lemma exec_of_words:
  assumes "cmd_ok (EXEC ws)" "0 \<notin> set cs"
  shows "exec_reads cs (EXEC ws)"
  unfolding exec_reads_def
proof (intro allI impI)
  fix s rs rest k
  assume a: "at cs s (pr_cmd 3 (EXEC ws) @ pr_redirs rs @ rest)" "\<forall>r\<in>set rs. redir_ok r" "stops SEP rest" "4 * (length cs - s) + 2 \<le> k"
  have ws: "\<forall>w\<in>set ws. word_ok w" "length ws < MAXARGS" using assms(1) by auto
  obtain k' where k: "k = Suc k'" using a(4) by (cases k) auto
  have at: "at cs s (pr_words ws @ pr_redirs rs @ rest)" using a(1) by (simp add: pr_words_def)
  let ?xs = "pr_words ws @ pr_redirs rs @ rest" and ?m = "map_cmd (word_of cs)"
  have "front ?xs = [] \<or> hd (front ?xs) \<noteq> 40"
  proof (cases "ws = []")
    case True
    then show ?thesis using a(3) by (cases rs) (auto simp: front_redirs stops_def SEP_def split: if_splits)
  next
    case False
    then show ?thesis using word_stops [OF ws(1) False, of "pr_redirs rs @ rest"] by (auto simp: stops_def)
  qed
  then obtain t where t: "peek cs [40] s = Ret False t" "at cs t ?xs" "s \<le> t" using peek_at [OF at assms(2), of "[40]"] by auto
  have kt: "length cs - t < k'" using t(3) a(4) k by linarith
  obtain d u where d: "parseredirs k' cs (EXEC []) t = Ret d u" "t \<le> u" "at cs u (pr_words ws @ pr_redirs (tail_redirs ws rs) @ rest)"
    "?m d = (if ws = [] then foldl wrap (EXEC []) rs else EXEC [])"
  proof (cases "ws = []")
    case True
    then have "at cs t (pr_redirs rs @ rest)" using t(2) by simp
    then have "yields cs (parseredirs k' cs (EXEC [])) t (foldl wrap (?m (EXEC [])) rs) rest"
      using stops_not_word [OF a(3)] by (intro parseredirs_yields [OF assms(2) _ a(2,3) _ _ _ kt]) (auto simp: SEP_def)
    then show ?thesis using that True by (auto simp: yields_def tail_redirs_def pr_redirs_def)
  next
    case False
    have "at cs t (pr_redirs [] @ ?xs)" using t(2) by (simp add: pr_redirs_def)
    then have "yields cs (parseredirs k' cs (EXEC [])) t (foldl wrap (?m (EXEC [])) []) ?xs"
      by (intro parseredirs_yields [OF assms(2) _ _ word_stops [OF ws(1) False] _ _ _ kt]) (auto simp: pr_redirs_def)
    then show ?thesis using that False by (auto simp: yields_def tail_redirs_def)
  qed
  have "length cs - u < k'" using kt d(2) by linarith
  then have y: "yields cs (parseargs k' cs d 0) u (foldl wrap (foldl (\<lambda>c w. add_arg w c) (?m d) ws) (tail_redirs ws rs)) rest"
    using ws by (intro parseargs_yields [OF assms(2) d(3) _ a(2,3)]) auto
  have args: "foldl (\<lambda>c w. add_arg w c) (EXEC vs) us = EXEC (vs @ us)" for vs us :: "uchar list list"
    by (induction us arbitrary: vs) auto
  have "foldl wrap (foldl (\<lambda>c w. add_arg w c) (?m d) ws) (tail_redirs ws rs) = foldl wrap (EXEC ws) rs"
    using d(4) args by (simp add: tail_redirs_def)
  then show "yields cs (parseexec k cs) s (foldl wrap (EXEC ws) rs) rest"
    using y t(1,3) d(1,2) unfolding k by (auto simp: yields_def parseexec.simps kfun_simps)
qed

lemma exec_of_redir:
  assumes "exec_reads cs c" "cmd_ok (REDIR c w m fd)"
  shows "exec_reads cs (REDIR c w m fd)"
  unfolding exec_reads_def
proof (intro allI impI)
  fix s rs rest k
  assume a: "at cs s (pr_cmd 3 (REDIR c w m fd) @ pr_redirs rs @ rest)" "\<forall>r\<in>set rs. redir_ok r" "stops SEP rest" "4 * (length cs - s) + 2 \<le> k"
  have "at cs s (pr_cmd 3 c @ pr_redirs ((w, m, fd) # rs) @ rest)" using a(1) by (simp add: pr_redirs_def)
  moreover have "\<forall>r\<in>set ((w, m, fd) # rs). redir_ok r" using a(2) assms(2) by simp
  ultimately have "yields cs (parseexec k cs) s (foldl wrap c ((w, m, fd) # rs)) rest" by (rule exec_readsD [OF assms(1) _ _ a(3,4)])
  then show "yields cs (parseexec k cs) s (foldl wrap (REDIR c w m fd) rs) rest" by simp
qed

lemma cmd_reads:
  assumes "0 \<notin> set cs" "cmd_ok c"
  shows "line_reads cs c \<and> back_reads cs c \<and> pipe_reads cs c \<and> exec_reads cs c"
  using assms(2)
proof (induction c)
  case (EXEC ws)
  have e: "exec_reads cs (EXEC ws)" by (rule exec_of_words [OF EXEC assms(1)])
  have p: "pipe_reads cs (EXEC ws)" by (rule pipe_of_exec [OF e _ assms(1)]) simp
  have b: "back_reads cs (EXEC ws)" by (rule back_of_pipe [OF p _ assms(1)]) simp
  show ?case using e p b line_of_back [OF b _ assms(1)] by simp
next
  case (REDIR c w m fd)
  then have "exec_reads cs c" by simp
  then have e: "exec_reads cs (REDIR c w m fd)" using REDIR.prems by (rule exec_of_redir)
  have p: "pipe_reads cs (REDIR c w m fd)" by (rule pipe_of_exec [OF e _ assms(1)]) simp
  have b: "back_reads cs (REDIR c w m fd)" by (rule back_of_pipe [OF p _ assms(1)]) simp
  show ?case using e p b line_of_back [OF b _ assms(1)] by simp
next
  case (PIPE c d)
  then have p: "pipe_reads cs (PIPE c d)" by (intro pipe_of_pipe assms(1)) simp_all
  have b: "back_reads cs (PIPE c d)" by (rule back_of_pipe [OF p _ assms(1)]) (simp add: paren_if_def)
  have l: "line_reads cs (PIPE c d)" by (rule line_of_back [OF b _ assms(1)]) (simp add: paren_if_def)
  show ?case using p b l exec_of_paren [OF l _ assms(1)] by (simp add: paren_if_def)
next
  case (LIST c d)
  then have l: "line_reads cs (LIST c d)" by (intro line_of_list assms(1)) simp_all
  have e: "exec_reads cs (LIST c d)" by (rule exec_of_paren [OF l _ assms(1)]) (simp add: paren_if_def)
  have p: "pipe_reads cs (LIST c d)" by (rule pipe_of_exec [OF e _ assms(1)]) (simp add: paren_if_def)
  show ?case using l e p back_of_pipe [OF p _ assms(1)] by (simp add: paren_if_def)
next
  case (BACK c)
  then have b: "back_reads cs (BACK c)" by (intro back_of_back) simp
  have l: "line_reads cs (BACK c)" by (rule line_of_back [OF b _ assms(1)]) (simp add: paren_if_def)
  have e: "exec_reads cs (BACK c)" by (rule exec_of_paren [OF l _ assms(1)]) (simp add: paren_if_def)
  show ?case using b l e pipe_of_exec [OF e _ assms(1)] by (simp add: paren_if_def)
qed

lemma pr_cmd_no_zero: "cmd_ok c \<Longrightarrow> 0 \<notin> set (pr_cmd l c)"
  by (induction c arbitrary: l) (auto simp: paren_if_def pr_redir_def word_ok_def)

text \<open>
  C31. The shell reads back every command.  For every tree of commands, with words of bytes that are no blanks, symbols or zeroes, at most
  nine of them per command, and redirections of standard input and output, \<^verbatim>\<open>parsecmd\<close> of its text, with parentheses where the grammar needs
  them, returns the same tree: the pointers of the result point to strings, in the line that \<^verbatim>\<open>nulterminate\<close> has changed, that are the words.
\<close>

theorem parse_print:
  assumes "cmd_ok c"
  shows "\<exists>d m. parsecmd (pr_cmd 0 c) = Ret (d, m) (length (pr_cmd 0 c)) \<and>
    map_cmd (\<lambda>w. cstring (Suc (length (pr_cmd 0 c))) m (fst w)) d = c"
proof -
  let ?cs = "pr_cmd 0 c"
  let ?k = "4 * length ?cs + 4"
  have z: "0 \<notin> set ?cs" by (rule pr_cmd_no_zero [OF assms])
  have "at ?cs 0 (?cs @ [])" by (simp add: at_def)
  then have "yields ?cs (parseline ?k ?cs) 0 c []" using cmd_reads [OF z assms] unfolding line_reads_def by (simp add: stops_def)
  then obtain d t where d: "parseline ?k ?cs 0 = Ret d t" "map_cmd (word_of ?cs) d = c" "at ?cs t []" by (auto simp: yields_def)
  have s: "skip_ws ?cs t = length ?cs" using at_skip [OF d(3)] by (simp add: at_def)
  have "parsecmd ?cs = Ret (d, nulterminate d (byte ?cs)) (length ?cs)"
    using d(1) s by (simp add: parsecmd_def kfun_simps peek_def Let_def)
  moreover have "words_ok ?cs d" using parsecmd_ends [OF z] calculation by auto
  then have "map_cmd (\<lambda>w. cstring (Suc (length ?cs)) (nulterminate d (byte ?cs)) (fst w)) d = map_cmd (word_of ?cs) d"
    using nulterminate_words [OF z] by (intro cmd.map_cong0) blast
  ultimately show ?thesis using d(2) by (intro exI [of _ d] exI [of _ "nulterminate d (byte ?cs)"]) simp
qed

theorem parse_print_witness:
  "\<exists>d m. parsecmd [40, 32, 97, 32, 98, 38, 41, 32, 60, 32, 102, 124, 32, 99, 59, 32, 100] = Ret (d, m) 17 \<and>
     map_cmd (\<lambda>w. cstring 18 m (fst w)) d = LIST (PIPE (REDIR (BACK (EXEC [[97], [98]])) [102] 0 0) (EXEC [[99]])) (EXEC [[100]])"
proof -
  let ?c = "LIST (PIPE (REDIR (BACK (EXEC [[97], [98]])) [102] 0 0) (EXEC [[99]])) (EXEC [[100]])"
  let ?s = "[40, 32, 97, 32, 98, 38, 41, 32, 60, 32, 102, 124, 32, 99, 59, 32, 100] :: uchar list"
  have ok: "cmd_ok ?c" by (simp add: MAXARGS_def word_ok_def is_word_def whitespace_def symbols_def)
  have pr: "pr_cmd 0 ?c = ?s" by (simp add: paren_if_def pr_redir_def)
  have len: "length ?s = 17" "Suc 17 = 18" by simp_all
  show ?thesis using parse_print [OF ok] unfolding pr len .
qed

end
