(* ===== verification/Grep.thy ===== *)
theory Grep
  imports Prelude
begin

text \<open>
  The regular expressions of \<^verbatim>\<open>user/grep.c\<close>.  Strings are lists of the bytes before the terminating zero, so the end of the list is where the
  code finds \<open>'\0'\<close>.  \<open>matches\<close> is the meaning of an expression, and \<open>starts\<close> the texts that start with a match.
  \<^verbatim>\<open>match\<close> finds an expression in a text exactly when the text has it.
\<close>

section \<open>The matcher\<close>

definition STAR :: uchar where "STAR = 42"
definition DOT :: uchar where "DOT = 46"
definition DOLLAR :: uchar where "DOLLAR = 36"
definition CARET :: uchar where "CARET = 94"

function matchhere :: "uchar list \<Rightarrow> uchar list \<Rightarrow> bool" and matchstar :: "uchar \<Rightarrow> uchar list \<Rightarrow> uchar list \<Rightarrow> bool" where
  "matchhere re text =
     (case re of
        [] \<Rightarrow> True
      | c # re1 \<Rightarrow>
        if re1 \<noteq> [] \<and> hd re1 = STAR then matchstar c (tl re1) text
        else if c = DOLLAR \<and> re1 = [] then text = []
        else if text \<noteq> [] \<and> (c = DOT \<or> c = hd text) then matchhere re1 (tl text)
        else False)"
| "matchstar c re text =
     (if matchhere re text then True
      else if text \<noteq> [] \<and> (hd text = c \<or> c = DOT) then matchstar c re (tl text)
      else False)"
  by pat_completeness auto
termination
  by (relation "measures [\<lambda>x. case x of Inl (re, t) \<Rightarrow> length re | Inr (c, re, t) \<Rightarrow> Suc (length re),
      \<lambda>x. case x of Inl (re, t) \<Rightarrow> 0 | Inr (c, re, t) \<Rightarrow> length t]") auto

declare matchhere.simps [simp del] matchstar.simps [simp del]

fun match_from :: "uchar list \<Rightarrow> uchar list \<Rightarrow> bool" where
  "match_from re [] = matchhere re []"
| "match_from re (t # text) = (if matchhere re (t # text) then True else match_from re text)"

definition match :: "uchar list \<Rightarrow> uchar list \<Rightarrow> bool" where
  "match re text =
     (if re \<noteq> [] \<and> hd re = CARET then matchhere (tl re) text
      else match_from re text)"

section \<open>Reading lines\<close>

text \<open>
  The buffer of 1024 bytes is a function of the index; reading beyond it is the outcome \<open>None\<close>.  The input is a list of
  what successive calls of \<^verbatim>\<open>read\<close> can deliver: a call returns at most the number of bytes asked for, and an empty
  list is the end of the input.
\<close>

definition BUFSIZE :: nat where "BUFSIZE = 1024"
definition NEWLINE :: uchar where "NEWLINE = 10"

fun read_some :: "nat \<Rightarrow> uchar list list \<Rightarrow> uchar list \<times> uchar list list" where
  "read_some n [] = ([], [])"
| "read_some n (c # cs) = (take n c, if length c \<le> n then cs else drop n c # cs)"

fun strchr_buf :: "nat \<Rightarrow> (nat \<Rightarrow> uchar) \<Rightarrow> nat \<Rightarrow> uchar \<Rightarrow> nat option option" where
  "strchr_buf 0 buf p c = None"
| "strchr_buf (Suc k) buf p c =
     (if BUFSIZE \<le> p then None
      else if buf p = 0 then Some None
      else if buf p = c then Some (Some p)
      else strchr_buf k buf (Suc p) c)"

text \<open>The inner loop: lines from \<open>p\<close> on, with what is written to the output.\<close>

fun grep_lines :: "nat \<Rightarrow> uchar list \<Rightarrow> (nat \<Rightarrow> uchar) \<Rightarrow> nat \<Rightarrow> ((nat \<Rightarrow> uchar) \<times> nat \<times> uchar list) option" where
  "grep_lines 0 pat buf p = None"
| "grep_lines (Suc k) pat buf p =
     (case strchr_buf (Suc (BUFSIZE - p)) buf p NEWLINE of
        None \<Rightarrow> None
      | Some None \<Rightarrow> Some (buf, p, [])
      | Some (Some q) \<Rightarrow>
        let line = map buf [p..<q]; buf0 = buf(q := 0); hit = match pat line;
            buf1 = (if hit then buf0(q := NEWLINE) else buf0) in
        (case grep_lines k pat buf1 (Suc q) of
           None \<Rightarrow> None
         | Some (buf2, p2, out) \<Rightarrow> Some (buf2, p2, (if hit then line @ [NEWLINE] else []) @ out)))"

fun grep_loop :: "nat \<Rightarrow> uchar list \<Rightarrow> (nat \<Rightarrow> uchar) \<Rightarrow> nat \<Rightarrow> uchar list list \<Rightarrow> uchar list option" where
  "grep_loop 0 pat buf m input = None"
| "grep_loop (Suc k) pat buf m input =
     (case read_some (BUFSIZE - m) input of (got, input) \<Rightarrow>
      if got = [] then Some []
      else
        let buf1 = (\<lambda>i. if m \<le> i \<and> i < m + length got then got ! (i - m) else buf i); m1 = m + length got in
        (case grep_lines (Suc BUFSIZE) pat buf1 0 of
           None \<Rightarrow> None
         | Some (buf2, p, out) \<Rightarrow>
           let m2 = (if p = 0 then 0 else m1);
               m3 = (if m2 > 0 then m2 - p else m2);
               buf3 = (if m2 > 0 then (\<lambda>i. if i < m3 then buf2 (p + i) else buf2 i) else buf2) in
           (case grep_loop k pat buf3 m3 input of None \<Rightarrow> None | Some rest \<Rightarrow> Some (out @ rest))))"

text \<open>Every call of \<^verbatim>\<open>read\<close> but the last delivers a byte, so that the number of bytes plus one is enough fuel.\<close>

definition grep :: "uchar list \<Rightarrow> uchar list list \<Rightarrow> uchar list option" where
  "grep pat input = grep_loop (Suc (sum_list (map length input))) pat (\<lambda>_. 0) 0 input"

section \<open>What an expression means\<close>

datatype atom = Any | Ch uchar

datatype piece = One atom | Many atom | EndOfText

definition atom_of :: "uchar \<Rightarrow> atom" where
  "atom_of c = (if c = DOT then Any else Ch c)"

fun pieces :: "uchar list \<Rightarrow> piece list" where
  "pieces [] = []"
| "pieces [c] = (if c = DOLLAR then [EndOfText] else [One (atom_of c)])"
| "pieces (c # d # re) = (if d = STAR then Many (atom_of c) # pieces re else One (atom_of c) # pieces (d # re))"

fun sat :: "atom \<Rightarrow> uchar \<Rightarrow> bool" where
  "sat Any x = True"
| "sat (Ch c) x = (x = c)"

text \<open>\<open>matches ps m r\<close>: the pieces match the text \<open>m\<close>, with \<open>r\<close> behind it.\<close>

inductive matches :: "piece list \<Rightarrow> uchar list \<Rightarrow> uchar list \<Rightarrow> bool" where
  nothing: "matches [] [] r"
| one: "sat a x \<Longrightarrow> matches ps m r \<Longrightarrow> matches (One a # ps) (x # m) r"
| many: "\<forall>x\<in>set xs. sat a x \<Longrightarrow> matches ps m r \<Longrightarrow> matches (Many a # ps) (xs @ m) r"
| eot: "matches ps m [] \<Longrightarrow> matches (EndOfText # ps) m []"

inductive_simps matches_Nil [simp]: "matches [] m r"
inductive_simps matches_One [simp]: "matches (One a # ps) m r"
inductive_simps matches_Many: "matches (Many a # ps) m r"
inductive_simps matches_EndOfText [simp]: "matches (EndOfText # ps) m r"

definition starts :: "piece list \<Rightarrow> uchar list \<Rightarrow> bool" where
  "starts ps text \<longleftrightarrow> (\<exists>m r. text = m @ r \<and> matches ps m r)"

lemma sat_atom [simp]: "sat (atom_of c) x \<longleftrightarrow> c = DOT \<or> x = c"
  by (simp add: atom_of_def)

lemma starts_Nil [simp]: "starts [] text"
  by (simp add: starts_def)

lemma starts_EndOfText [simp]: "starts [EndOfText] text \<longleftrightarrow> text = []"
  by (auto simp: starts_def)

lemma starts_One [simp]: "starts (One a # ps) text \<longleftrightarrow> text \<noteq> [] \<and> sat a (hd text) \<and> starts ps (tl text)"
  by (cases "text") (auto simp: starts_def Cons_eq_append_conv)

text \<open>A repetition matches nothing, or one more character.\<close>

lemma starts_Many: "starts (Many a # ps) text \<longleftrightarrow> starts ps text \<or> (text \<noteq> [] \<and> sat a (hd text) \<and> starts (Many a # ps) (tl text))"
proof
  assume "starts (Many a # ps) text"
  then obtain xs m r where t: "text = xs @ m @ r" "\<forall>x\<in>set xs. sat a x" "matches ps m r"
    by (auto simp: starts_def matches_Many)
  show "starts ps text \<or> (text \<noteq> [] \<and> sat a (hd text) \<and> starts (Many a # ps) (tl text))"
  proof (cases xs)
    case Nil
    then show ?thesis using t by (auto simp: starts_def)
  next
    case (Cons x ys)
    then have "matches (Many a # ps) (ys @ m) r" using t by (auto intro: matches.many)
    then show ?thesis using t Cons by (auto simp: starts_def)
  qed
next
  assume "starts ps text \<or> (text \<noteq> [] \<and> sat a (hd text) \<and> starts (Many a # ps) (tl text))"
  then show "starts (Many a # ps) text"
  proof
    assume "starts ps text"
    then obtain m r where "text = m @ r" "matches ps m r" by (auto simp: starts_def)
    then show ?thesis using matches.many [of "[]" a ps m r] by (auto simp: starts_def)
  next
    assume as: "text \<noteq> [] \<and> sat a (hd text) \<and> starts (Many a # ps) (tl text)"
    then obtain xs m r where t: "tl text = xs @ m @ r" "\<forall>x\<in>set xs. sat a x" "matches ps m r"
      by (auto simp: starts_def matches_Many)
    then have "matches (Many a # ps) ((hd text # xs) @ m) r" using as by (intro matches.many) auto
    moreover have "text = ((hd text # xs) @ m) @ r" using as t(1) by (cases "text") auto
    ultimately show ?thesis unfolding starts_def by blast
  qed
qed

lemma matchhere_starts:
  "matchhere re text \<longleftrightarrow> starts (pieces re) text"
  "matchstar c re text \<longleftrightarrow> starts (Many (atom_of c) # pieces re) text"
proof (induction re "text" and c re "text" rule: matchhere_matchstar.induct)
  case (1 re "text")
  show ?case
  proof (cases re)
    case Nil
    then show ?thesis by (simp add: matchhere.simps)
  next
    case (Cons c re1)
    have e: "matchhere re text = (if re1 \<noteq> [] \<and> hd re1 = STAR then matchstar c (tl re1) text
        else if c = DOLLAR \<and> re1 = [] then text = []
        else if text \<noteq> [] \<and> (c = DOT \<or> c = hd text) then matchhere re1 (tl text) else False)"
      unfolding matchhere.simps [of re "text"] unfolding Cons by simp
    show ?thesis
    proof (cases re1)
      case Nil
      have "matchhere [] (tl text)" by (simp add: matchhere.simps)
      then show ?thesis unfolding e using \<open>re = c # re1\<close> Nil by auto
    next
      case (Cons d re2)
      show ?thesis
      proof (cases "d = STAR")
        case True
        then have "matchstar c re2 text = starts (Many (atom_of c) # pieces re2) text" using 1(1) [OF \<open>re = c # re1\<close>] Cons by simp
        then show ?thesis unfolding e using \<open>re = c # re1\<close> Cons True by simp
      next
        case False
        then have "text \<noteq> [] \<Longrightarrow> c = DOT \<or> c = hd text \<Longrightarrow> matchhere re1 (tl text) = starts (pieces re1) (tl text)"
          using 1(2) [OF \<open>re = c # re1\<close>] Cons by simp
        then show ?thesis unfolding e using \<open>re = c # re1\<close> Cons False by auto
      qed
    qed
  qed
next
  case (2 c re "text")
  show ?case using 2 by (subst starts_Many, subst matchstar.simps) auto
qed

lemma match_from_starts: "match_from re text \<longleftrightarrow> (\<exists>pre rest. text = pre @ rest \<and> starts (pieces re) rest)"
proof (induction "text")
  case Nil
  then show ?case by (simp add: matchhere_starts(1))
next
  case (Cons t "text")
  have "(\<exists>pre rest. t # text = pre @ rest \<and> starts (pieces re) rest) \<longleftrightarrow>
      starts (pieces re) (t # text) \<or> (\<exists>pre rest. text = pre @ rest \<and> starts (pieces re) rest)"
    by (auto simp: Cons_eq_append_conv)
  then show ?case using Cons by (simp add: matchhere_starts(1))
qed

text \<open>
  C32. The matcher of \<^verbatim>\<open>grep\<close> decides its regular expressions.  \<^verbatim>\<open>match\<close> returns true exactly when some part of the text, at its start
  if the expression begins with \<^verbatim>\<open>^\<close>, is matched by the expression, where a character matches itself, \<^verbatim>\<open>.\<close> any character, a
  character before \<^verbatim>\<open>*\<close> any number of its matches, and \<^verbatim>\<open>$\<close> at the end of the expression the end of the text.
\<close>

theorem match_decides:
  "match re text \<longleftrightarrow>
     (if re \<noteq> [] \<and> hd re = CARET then \<exists>m r. text = m @ r \<and> matches (pieces (tl re)) m r
      else \<exists>pre m r. text = pre @ m @ r \<and> matches (pieces re) m r)"
  by (auto simp: match_def matchhere_starts(1) match_from_starts starts_def)

section \<open>Lines\<close>

text \<open>The lines of a text that end with a newline.\<close>

function full_lines :: "uchar list \<Rightarrow> uchar list list" where
  "full_lines xs = (case dropWhile (\<lambda>x. x \<noteq> NEWLINE) xs of
     [] \<Rightarrow> []
   | _ # ys \<Rightarrow> takeWhile (\<lambda>x. x \<noteq> NEWLINE) xs # full_lines ys)"
  by pat_completeness auto
termination
proof (relation "measure length", simp)
  fix xs y ys assume "dropWhile (\<lambda>x. x \<noteq> NEWLINE) xs = y # ys"
  then have "length (y # ys) \<le> length xs" using length_dropWhile_le [of "\<lambda>x. x \<noteq> NEWLINE" xs] by simp
  then show "(ys, xs) \<in> measure length" by simp
qed

declare full_lines.simps [simp del]

lemma full_lines_none: "NEWLINE \<notin> set xs \<Longrightarrow> full_lines xs = []"
proof -
  assume "NEWLINE \<notin> set xs"
  then have "dropWhile (\<lambda>x. x \<noteq> NEWLINE) xs = []" by auto
  then show ?thesis by (subst full_lines.simps) (simp only: list.case)
qed

lemma full_lines_line: "NEWLINE \<notin> set l \<Longrightarrow> full_lines (l @ NEWLINE # ys) = l # full_lines ys"
proof -
  assume "NEWLINE \<notin> set l"
  then have "dropWhile (\<lambda>x. x \<noteq> NEWLINE) (l @ NEWLINE # ys) = NEWLINE # ys" "takeWhile (\<lambda>x. x \<noteq> NEWLINE) (l @ NEWLINE # ys) = l"
    by (auto simp: dropWhile_append takeWhile_append)
  then show ?thesis by (subst full_lines.simps) simp
qed

lemma strchr_found:
  assumes "p \<le> q" "q < BUFSIZE" "buf q = c" "c \<noteq> 0" "\<forall>i. p \<le> i \<and> i < q \<longrightarrow> buf i \<noteq> 0 \<and> buf i \<noteq> c" "q - p < k"
  shows "strchr_buf k buf p c = Some (Some q)"
  using assms
proof (induction k arbitrary: p)
  case (Suc k)
  show ?case
  proof (cases "p = q")
    case False
    then have "buf p \<noteq> 0" "buf p \<noteq> c" "p < BUFSIZE" using Suc.prems by auto
    moreover have "strchr_buf k buf (Suc p) c = Some (Some q)" using Suc.prems False by (intro Suc.IH) auto
    ultimately show ?thesis by simp
  qed (use Suc.prems in auto)
qed simp

lemma strchr_none:
  assumes "p \<le> e" "e < BUFSIZE" "buf e = 0" "\<forall>i. p \<le> i \<and> i < e \<longrightarrow> buf i \<noteq> 0 \<and> buf i \<noteq> c" "e - p < k"
  shows "strchr_buf k buf p c = Some None"
  using assms
proof (induction k arbitrary: p)
  case (Suc k)
  show ?case
  proof (cases "p = e")
    case False
    then have "buf p \<noteq> 0" "buf p \<noteq> c" "p < BUFSIZE" using Suc.prems by auto
    moreover have "strchr_buf k buf (Suc p) c = Some None" using Suc.prems False by (intro Suc.IH) auto
    ultimately show ?thesis by simp
  qed (use Suc.prems in auto)
qed simp

definition matching_lines :: "uchar list \<Rightarrow> uchar list \<Rightarrow> uchar list" where
  "matching_lines pat xs = concat (map (\<lambda>l. l @ [NEWLINE]) (filter (match pat) (full_lines xs)))"

lemma grep_lines_ret:
  assumes "\<forall>i<length xs. buf (p + i) = xs ! i" "0 \<notin> set xs" "p + length xs < BUFSIZE" "buf (p + length xs) = 0" "length xs < k"
  shows "\<exists>b e. grep_lines k pat buf p = Some (b, e, matching_lines pat xs)"
  using assms
proof (induction k arbitrary: xs buf p)
  case (Suc k)
  have nz: "buf i \<noteq> 0" if "p \<le> i" "i < p + length xs" for i
    using Suc.prems(1,2) that by (metis le_add_diff_inverse nat_add_left_cancel_less nth_mem)
  show ?case
  proof (cases "NEWLINE \<in> set xs")
    case False
    have "buf i \<noteq> NEWLINE" if "p \<le> i" "i < p + length xs" for i
      using Suc.prems(1) False that by (metis le_add_diff_inverse nat_add_left_cancel_less nth_mem)
    then have "strchr_buf (Suc (BUFSIZE - p)) buf p NEWLINE = Some None"
      using nz Suc.prems by (intro strchr_none [of p "p + length xs"]) auto
    then show ?thesis using full_lines_none [OF False] by (simp add: matching_lines_def)
  next
    case True
    then obtain l ys where xs: "xs = l @ NEWLINE # ys" "NEWLINE \<notin> set l" using split_list_first by metis
    let ?q = "p + length l"
    have at: "buf (p + i) = xs ! i" if "i < length xs" for i using Suc.prems(1) that by blast
    have line: "map buf [p..<?q] = l"
      using at by (intro nth_equalityI) (auto simp: xs nth_append)
    have "buf i \<noteq> NEWLINE" if "p \<le> i" "i < ?q" for i
      using at [of "i - p"] that xs by (auto simp: nth_append) (metis nth_mem)
    moreover have "buf ?q = NEWLINE" using at [of "length l"] xs by simp
    ultimately have "strchr_buf (Suc (BUFSIZE - p)) buf p NEWLINE = Some (Some ?q)"
      using nz Suc.prems(3) xs(1) by (intro strchr_found) (auto simp: NEWLINE_def)
    moreover have "\<exists>b e. grep_lines k pat (buf(?q := v)) (Suc ?q) = Some (b, e, matching_lines pat ys)" for v
    proof (rule Suc.IH)
      show "\<forall>i<length ys. (buf(?q := v)) (Suc ?q + i) = ys ! i"
      proof (intro allI impI)
        fix i assume "i < length ys"
        then show "(buf(?q := v)) (Suc ?q + i) = ys ! i" using at [of "Suc (length l) + i"] by (simp add: xs nth_append add.assoc)
      qed
      show "(buf(?q := v)) (Suc ?q + length ys) = 0" using Suc.prems(4) by (simp add: xs add.assoc)
    qed (use Suc.prems xs in auto)
    moreover obtain b e where "grep_lines k pat (buf(?q := (if match pat l then NEWLINE else 0))) (Suc ?q) = Some (b, e, matching_lines pat ys)"
      using calculation(2) by blast
    ultimately show ?thesis
      using line full_lines_line [OF xs(2), of ys] xs(1)
      by (cases "match pat l") (auto simp: matching_lines_def Let_def simp del: strchr_buf.simps)
  qed
qed simp

text \<open>
  When the whole input, without zero bytes and shorter than the buffer, arrives in one call of \<^verbatim>\<open>read\<close>, the output is the matching
  lines that end with a newline; a last line without one is not looked at.
\<close>

lemma grep_one_read:
  assumes "0 \<notin> set xs" "length xs < BUFSIZE" "xs \<noteq> []"
  shows "grep pat [xs] = Some (matching_lines pat xs)"
proof -
  define b where "b = (\<lambda>i. if i < length xs then xs ! i else 0)"
  obtain b' e where g: "grep_lines (Suc BUFSIZE) pat b 0 = Some (b', e, matching_lines pat xs)"
    using grep_lines_ret [of xs b 0 "Suc BUFSIZE" pat] assms by (auto simp: b_def)
  obtain n where n: "length xs = Suc n" using assms(3) by (cases xs) auto
  have "read_some BUFSIZE [xs] = (xs, [])" using assms(2) by simp
  moreover have "(\<lambda>i. if 0 \<le> i \<and> i < 0 + length xs then xs ! (i - 0) else 0) = b" unfolding b_def by (rule ext) simp
  moreover have "grep_loop (Suc n) pat c m [] = Some []" for c m by simp
  ultimately show ?thesis using g assms(3) n unfolding grep_def
    by (simp add: grep_loop.simps(2) [of "Suc n"] Let_def del: grep_loop.simps grep_lines.simps)
qed

text \<open>
  When the input arrives in pieces, \<^verbatim>\<open>grep\<close> does not mark the end of what it has read: here the input is \<^verbatim>\<open>aaaa\<close>,
  newline, \<^verbatim>\<open>bb\<close>, and then \<^verbatim>\<open>c\<close>, and the output for the empty pattern has the line \<^verbatim>\<open>bbca\<close>, which is made of the new
  bytes and of bytes left behind in the buffer.
\<close>

lemma grep_mixes_lines: "grep [] [[97, 97, 97, 97, 10, 98, 98], [99]] = Some [97, 97, 97, 97, 10, 98, 98, 99, 97, 10]"
  by code_simp

end
